(* ===== verification/Prelude.thy ===== *)
theory Prelude
  imports Main "HOL-Library.Word"
begin

unbundle bit_operations_syntax

text \<open>
  Shared vocabulary of the development: names for the machine integers and byte strings of the
  code, the slice helpers the code takes from the Rust core library (position, split, join,
  copying into a buffer) and the generic facts about them, and the three collections of rewrite
  rules the component theories extend.
\<close>

named_theorems io_simps
named_theorems ext_intros
named_theorems calls_intros
named_theorems path_simps

type_synonym u8 = "8 word"
type_synonym u16 = "16 word"
type_synonym u32 = "32 word"
type_synonym u64 = "64 word"
type_synonym i32 = "32 word"
type_synonym i64 = "64 word"
type_synonym bytes = "u8 list"
type_synonym rtext = "u32 list"

text \<open>
  Byte literals of the code are written as ASCII strings: the Rust \<open>b"..."\<close> is
  \<open>ascii ''...''\<close>; a Rust \<open>&str\<close> literal, as the list of its characters, is
  \<open>chars ''...''\<close>.
\<close>

definition ascii :: "string \<Rightarrow> bytes" where
  "ascii s = map of_char s"

definition chars :: "string \<Rightarrow> rtext" where
  "chars s = map of_char s"

lemma ascii_simps [simp]:
  "ascii [] = []" "ascii (c # s) = of_char c # ascii s" "ascii (s @ t) = ascii s @ ascii t"
  by (simp_all add: ascii_def)

lemma chars_simps [simp]:
  "chars [] = []" "chars (c # s) = of_char c # chars s" "chars (s @ t) = chars s @ chars t"
  by (simp_all add: chars_def)

section \<open>Slices\<close>

text \<open>\<open>iter().position(p)\<close>: the index of the first element that satisfies \<open>p\<close>.\<close>

fun position :: "('a \<Rightarrow> bool) \<Rightarrow> 'a list \<Rightarrow> nat option" where
  "position p [] = None"
| "position p (x # xs) = (if p x then Some 0 else map_option Suc (position p xs))"

lemma position_None [simp]: "position p xs = None \<longleftrightarrow> (\<forall>x\<in>set xs. \<not> p x)"
  by (induction xs) auto

lemma position_None2 [simp]: "None = position p xs \<longleftrightarrow> (\<forall>x\<in>set xs. \<not> p x)"
  by (metis position_None)

lemma position_SomeD:
  "position p xs = Some i \<Longrightarrow> i < length xs \<and> p (xs ! i) \<and> (\<forall>x\<in>set (take i xs). \<not> p x)"
  by (induction xs arbitrary: i) (auto split: if_splits)

lemma position_first:
  "(\<forall>x\<in>set xs. \<not> p x) \<Longrightarrow> p y \<Longrightarrow> position p (xs @ y # ys) = Some (length xs)"
  by (induction xs) auto

lemma position_Some_split:
  assumes "position p xs = Some i"
  obtains y ys where "xs = take i xs @ y # ys" "p y" "\<forall>x\<in>set (take i xs). \<not> p x"
    "drop (Suc i) xs = ys"
proof -
  have i: "i < length xs" "p (xs ! i)" "\<forall>x\<in>set (take i xs). \<not> p x"
    using position_SomeD [OF assms] by auto
  have "xs = take i xs @ xs ! i # drop (Suc i) xs"
    using i(1) by (rule id_take_nth_drop)
  with i that show ?thesis by blast
qed

text \<open>
  \<open>slice::split(|b| b == sep)\<close>: the maximal pieces without the separator, always at least
  one. \<open>join_with\<close> puts the separator back between the pieces.
\<close>

fun split_on :: "'a \<Rightarrow> 'a list \<Rightarrow> 'a list list" where
  "split_on s [] = [[]]"
| "split_on s (x # xs) =
     (if x = s then [] # split_on s xs
      else (case split_on s xs of [] \<Rightarrow> [[x]] | p # ps \<Rightarrow> (x # p) # ps))"

fun join_with :: "'a \<Rightarrow> 'a list list \<Rightarrow> 'a list" where
  "join_with s [] = []"
| "join_with s [p] = p"
| "join_with s (p # q # ps) = p @ s # join_with s (q # ps)"

lemma split_on_not_Nil [simp]: "split_on s xs \<noteq> []"
  by (induction xs) (auto split: list.splits)

lemma join_split [simp]: "join_with s (split_on s xs) = xs"
proof (induction xs)
  case (Cons x xs)
  obtain p ps where "split_on s xs = p # ps" by (meson split_on_not_Nil neq_Nil_conv)
  with Cons show ?case by (cases ps) auto
qed simp

lemma split_on_pieces: "p \<in> set (split_on s xs) \<Longrightarrow> s \<notin> set p"
proof (induction xs arbitrary: p)
  case (Cons x xs)
  obtain q qs where "split_on s xs = q # qs" by (meson split_on_not_Nil neq_Nil_conv)
  with Cons show ?case by (auto split: if_splits)
qed simp

lemma split_on_no_sep: "s \<notin> set xs \<Longrightarrow> split_on s xs = [xs]"
  by (induction xs) auto

lemma split_on_append_sep: "s \<notin> set xs \<Longrightarrow> split_on s (xs @ s # ys) = xs # split_on s ys"
  by (induction xs) auto

lemma split_join:
  "ps \<noteq> [] \<Longrightarrow> \<forall>p\<in>set ps. s \<notin> set p \<Longrightarrow> split_on s (join_with s ps) = ps"
  by (induction s ps rule: join_with.induct) (auto simp: split_on_append_sep split_on_no_sep)

lemma set_split_on: "p \<in> set (split_on s xs) \<Longrightarrow> set p \<subseteq> set xs"
proof (induction xs arbitrary: p)
  case (Cons x xs)
  obtain q qs where "split_on s xs = q # qs" by (meson split_on_not_Nil neq_Nil_conv)
  with Cons show ?case by (fastforce split: if_splits)
qed simp

lemma set_join_with: "set (join_with s ps) \<subseteq> insert s (\<Union>p\<in>set ps. set p)"
  by (induction s ps rule: join_with.induct) auto

lemma join_with_Cons: "ps \<noteq> [] \<Longrightarrow> join_with s (p # ps) = p @ s # join_with s ps"
  by (cases ps) auto

text \<open>
  A C function that was handed the buffer \<open>buf\<close> and wrote \<open>data\<close> through the pointer:
  the buffer keeps its length and its tail.
\<close>

definition overwrite :: "'a list \<Rightarrow> 'a list \<Rightarrow> 'a list" where
  "overwrite buf data = take (length buf) (data @ drop (length data) buf)"

lemma length_overwrite [simp]: "length (overwrite buf data) = length buf"
  by (simp add: overwrite_def)

lemma take_overwrite: "length data \<le> length buf \<Longrightarrow> take (length data) (overwrite buf data) = data"
  by (simp add: overwrite_def)

lemma take_overwrite_le:
  "n \<le> length data \<Longrightarrow> length data \<le> length buf \<Longrightarrow> take n (overwrite buf data) = take n data"
  by (simp add: overwrite_def)

text \<open>The bytes of a C string: everything before the first NUL (\<open>CStr::from_ptr\<close>).\<close>

definition until_nul :: "bytes \<Rightarrow> bytes" where
  "until_nul bs = takeWhile (\<lambda>b. b \<noteq> 0) bs"

lemma until_nul_no_nul: "0 \<notin> set (until_nul bs)"
  unfolding until_nul_def by (auto dest: set_takeWhileD)

lemma until_nul_id: "0 \<notin> set bs \<Longrightarrow> until_nul bs = bs"
  unfolding until_nul_def by (induction bs) auto

lemma until_nul_terminated: "0 \<notin> set bs \<Longrightarrow> until_nul (bs @ 0 # cs) = bs"
  unfolding until_nul_def by (induction bs) auto

lemma take_position_nul:
  "take (case position (\<lambda>b. b = 0) bs of Some i \<Rightarrow> i | None \<Rightarrow> length bs) bs = until_nul bs"
proof (induction bs)
  case (Cons b bs)
  then show ?case
    by (cases "position (\<lambda>b. b = 0) bs") (simp_all add: until_nul_def del: position_None)
qed (simp add: until_nul_def)

section \<open>Words\<close>

lemma unat_less_pow: "unat (w :: 'a::len word) < 2 ^ LENGTH('a)"
  by (rule unsigned_less)

lemma unat_u8: "unat (w :: u8) < 256"
  using unat_less_pow [of w] by simp

lemma unat_u16: "unat (w :: u16) < 65536"
  using unat_less_pow [of w] by simp

lemma unat_u32: "unat (w :: u32) < 4294967296"
  using unat_less_pow [of w] by simp

lemma unat_u64: "unat (w :: u64) < 18446744073709551616"
  using unat_less_pow [of w] by simp

lemma unat_of_nat_less: "n < 2 ^ LENGTH('a) \<Longrightarrow> unat (of_nat n :: 'a::len word) = n"
  by (simp add: unsigned_of_nat take_bit_nat_eq_self)

text \<open>Bit operations as arithmetic on the unsigned value.\<close>

lemma unat_shiftr: "unat (drop_bit n (w :: 'a::len word)) = unat w div 2 ^ n"
  unfolding unat_drop_bit_eq by (rule drop_bit_eq_div)

lemma unat_shiftl: "unat (push_bit n (w :: 'a::len word)) = (unat w * 2 ^ n) mod 2 ^ LENGTH('a)"
  using unsigned_push_bit_eq [of n w, where 'a = nat]
  by (simp only: take_bit_eq_mod push_bit_eq_mult)

lemma unat_ucast: "unat (ucast (w :: 'a::len word) :: 'b::len word) = unat w mod 2 ^ LENGTH('b)"
  unfolding unsigned_ucast_eq by (rule take_bit_eq_mod)

lemma unat_and_mask: "unat ((w :: 'a::len word) AND mask n) = unat w mod 2 ^ n"
  unfolding take_bit_eq_mask [symmetric] unsigned_take_bit_eq by (rule take_bit_eq_mod)

lemma or_disjoint_nat: "(b :: nat) < 2 ^ k \<Longrightarrow> a * 2 ^ k OR b = a * 2 ^ k + b"
proof -
  assume b: "b < 2 ^ k"
  have "push_bit k a OR b = push_bit k a + b"
  proof (rule disjunctive_add [symmetric])
    fix n
    show "\<not> bit (push_bit k a) n \<or> \<not> bit b n"
    proof (cases "n < k")
      case True then show ?thesis by (simp add: bit_push_bit_iff)
    next
      case False
      then have "b < 2 ^ n" using b by (meson le_less_trans less_le_trans not_le one_le_numeral power_increasing)
      then show ?thesis by (simp add: bit_iff_odd)
    qed
  qed
  then show ?thesis by (simp add: push_bit_eq_mult)
qed

lemma unat_or_disjoint:
  assumes "unat (a :: 'a::len word) mod 2 ^ k = 0" "unat b < 2 ^ k"
  shows "unat (a OR b) = unat a + unat b"
proof -
  obtain q where "unat a = q * 2 ^ k" using assms(1) by (auto simp: mod_eq_0_iff_dvd dvd_def mult.commute)
  with or_disjoint_nat [OF assms(2)] show ?thesis by (simp add: unsigned_or_eq)
qed

text \<open>\<open>checked_add\<close>, \<open>checked_sub\<close> and \<open>checked_mul\<close> of the unsigned integer types.\<close>

definition checked_add :: "'a::len word \<Rightarrow> 'a word \<Rightarrow> 'a word option" where
  "checked_add a b = (if unat a + unat b < 2 ^ LENGTH('a) then Some (a + b) else None)"

definition checked_sub :: "'a::len word \<Rightarrow> 'a word \<Rightarrow> 'a word option" where
  "checked_sub a b = (if b \<le> a then Some (a - b) else None)"

definition checked_mul :: "'a::len word \<Rightarrow> 'a word \<Rightarrow> 'a word option" where
  "checked_mul a b = (if unat a * unat b < 2 ^ LENGTH('a) then Some (a * b) else None)"

lemma checked_add_Some:
  "checked_add a b = Some c \<longleftrightarrow> unat (a :: 'a::len word) + unat b < 2 ^ LENGTH('a) \<and> c = a + b"
  by (auto simp: checked_add_def)

lemma unat_checked_add: "checked_add a b = Some c \<Longrightarrow> unat c = unat a + unat b"
  unfolding checked_add_Some using unat_add_lem by blast

lemma unat_checked_sub: "checked_sub a b = Some c \<Longrightarrow> unat c = unat a - unat b"
  by (auto simp: checked_sub_def unat_sub split: if_splits)

lemma unat_checked_mul: "checked_mul a b = Some c \<Longrightarrow> unat c = unat a * unat b"
  by (auto simp: checked_mul_def unat_word_ariths split: if_splits)

end
