(* ===== verification/Os_Interface.thy ===== *)
theory Os_Interface
  imports Prelude
begin

text \<open>
  The boundary of the program. The AROS platform layer reaches the operating system only
  through \<open>extern "C"\<close> functions whose bodies are not in the repository (posixc, and the C
  glue of another checkout). They are a parameter of the model: an oracle that answers each call,
  given the whole history of earlier calls and answers. The datatypes of calls below list
  the \<open>extern "C"\<close> blocks of the sources, one constructor per function, with the arguments Rust
  passes. Every theorem holds for every oracle, unless it names what it relies on.

  A Rust function of the platform layer is an \<open>io\<close> action: it reads and extends the history and
  ends in a value, an \<open>io::Error\<close>, a panic (the target is built with \<open>panic=abort\<close>), or, for the
  loops that carry fuel, in \<open>Hang\<close>: it did not return within the fuel.
\<close>

section \<open>Errors\<close>

datatype error_kind =
    NotFound | PermissionDenied | ConnectionRefused | ConnectionReset | HostUnreachable
  | NetworkUnreachable | ConnectionAborted | NotConnected | AddrInUse | AddrNotAvailable
  | NetworkDown | BrokenPipe | AlreadyExists | WouldBlock | NotADirectory | IsADirectory
  | DirectoryNotEmpty | ReadOnlyFilesystem | FilesystemLoop | StaleNetworkFileHandle
  | InvalidInput | InvalidData | TimedOut | WriteZero | StorageFull | NotSeekable
  | QuotaExceeded | FileTooLarge | ResourceBusy | ExecutableFileBusy | Deadlock
  | CrossesDevices | TooManyLinks | InvalidFilename | ArgumentListTooLong | Interrupted
  | Unsupported | UnexpectedEof | OutOfMemory | InProgress | TooManyOpenFiles | Other
  | Uncategorized

text \<open>
  \<open>ErrorData\<close>: an OS code, a bare kind, a kind with a static message (\<open>const_error!\<close>), or a
  boxed payload, of which the model keeps the kind and the message.
\<close>

datatype io_error =
    OsError int
  | Simple error_kind
  | SimpleMessage error_kind string
  | Custom error_kind string

section \<open>The extern "C" functions\<close>

datatype errno_call =
    Stdc_errno_get | Stdc_errno_set int | Libbase_errno | Strerror int

datatype fs_call =
    C_open bytes u32 int
  | C_read int nat
  | C_write int bytes
  | C_lseek int int int
  | C_close int
  | C_unlink bytes
  | C_dup int
  | C_ftruncate int int
  | C_realpath bytes nat
  | C_rename bytes bytes
  | C_mkdir bytes int
  | C_rmdir bytes
  | C_opendir bytes
  | C_readdir int nat
  | C_closedir int

datatype attr_call =
    C_stat bytes
  | C_lstat bytes
  | C_fstat int
  | C_chmod bytes u16
  | C_fchmod int u16
  | C_symlink bytes bytes
  | C_readlink bytes nat
  | C_utimes bytes int int int int

datatype env_call =
    C_getenv bytes | C_setenv bytes bytes int | C_unsetenv bytes | C_env_enum

datatype cwd_call =
    C_getcwd nat | C_chdir bytes

datatype net_call =
    N_open
  | N_errno
  | N_close int
  | N_socket int int int
  | N_connect int u32 u16
  | N_bind int u32 u16
  | N_listen int int
  | N_accept int
  | N_send int bytes int
  | N_recv int nat int
  | N_sendto int bytes int u32 u16
  | N_recvfrom int nat int
  | N_getsockname int
  | N_getpeername int
  | N_shutdown int int
  | N_setsockopt int int int "int list" nat
  | N_getsockopt int int int nat
  | N_set_nonblock int int
  | N_dup int
  | N_resolve4 bytes nat

datatype pipe_call =
    P_read int nat | P_write int bytes | P_close int | P_set_nonblock int int

datatype proc_call =
    Proc_spawn bytes int int int int "bytes option"
  | Proc_set_waiter int int u32
  | Task_self
  | Proc_exited int
  | Proc_free int
  | Proc_interrupt int
  | Proc_last_fail
  | Sig_alloc
  | Sig_free int
  | Sig_wait u32

datatype thr_call =
    Thr_spawn nat nat | Thr_join int | Thr_detach int | Thr_yield | Thr_sleep u32 u32

datatype tls_call =
    Key_create nat | Key_getspecific int | Key_setspecific int int | Key_delete int

datatype mtx_call =
    Mtx_size | Mtx_init nat | Mtx_lock nat | Mtx_trylock nat | Mtx_unlock nat | Mtx_destroy nat

datatype cond_call =
    Cond_size | Cond_init nat | Cond_signal nat | Cond_broadcast nat | Cond_wait nat nat
  | Cond_timedwait nat nat u32 u32 | Cond_destroy nat

datatype misc_call =
    Clock_gettime int | Arc4random_buf nat

datatype call =
    ErrnoC errno_call | FsC fs_call | AttrC attr_call | EnvC env_call | CwdC cwd_call
  | NetC net_call | PipeC pipe_call | ProcC proc_call | ThrC thr_call | TlsC tls_call
  | MtxC mtx_call | CondC cond_call | MiscC misc_call

text \<open>
  What a C function leaves behind: its return value, the bytes it wrote through a buffer pointer
  (or the string its returned pointer names), the integers it wrote through out-pointers, and,
  for the enumeration callback, the pairs it passed.
\<close>

record reply =
  r_ret :: int
  r_data :: bytes
  r_outs :: "int list"
  r_pairs :: "(bytes \<times> bytes option) list"

definition ret :: "int \<Rightarrow> reply" where
  "ret n = \<lparr>r_ret = n, r_data = [], r_outs = [], r_pairs = []\<rparr>"

definition ret_data :: "int \<Rightarrow> bytes \<Rightarrow> reply" where
  "ret_data n d = \<lparr>r_ret = n, r_data = d, r_outs = [], r_pairs = []\<rparr>"

definition ret_outs :: "int \<Rightarrow> int list \<Rightarrow> reply" where
  "ret_outs n os = \<lparr>r_ret = n, r_data = [], r_outs = os, r_pairs = []\<rparr>"

lemma ret_sel [simp]:
  "r_ret (ret n) = n" "r_data (ret n) = []" "r_outs (ret n) = []" "r_pairs (ret n) = []"
  "r_ret (ret_data n d) = n" "r_data (ret_data n d) = d" "r_outs (ret_data n d) = []"
  "r_ret (ret_outs n os) = n" "r_data (ret_outs n os) = []" "r_outs (ret_outs n os) = os"
  by (simp_all add: ret_def ret_data_def ret_outs_def)

text \<open>The \<open>i\<close>-th out-parameter, which keeps its initial value if the callee did not write it.\<close>

definition out_param :: "nat \<Rightarrow> int \<Rightarrow> reply \<Rightarrow> int" where
  "out_param i init r = (if i < length (r_outs r) then r_outs r ! i else init)"

section \<open>Actions\<close>

type_synonym trace = "(call \<times> reply) list"

record os =
  os_oracle :: "trace \<Rightarrow> call \<Rightarrow> reply"
  os_trace :: trace
  script_seq :: u32

definition boot :: "(trace \<Rightarrow> call \<Rightarrow> reply) \<Rightarrow> os" where
  "boot orc = \<lparr>os_oracle = orc, os_trace = [], script_seq = 0\<rparr>"

lemma boot_sel [simp]:
  "os_oracle (boot orc) = orc" "os_trace (boot orc) = []" "script_seq (boot orc) = 0"
  by (simp_all add: boot_def)

datatype 'a outcome = Ok 'a | Err io_error | Panic string | Hang

type_synonym 'a io = "os \<Rightarrow> 'a outcome \<times> os"

definition io_return :: "'a \<Rightarrow> 'a io" where
  "io_return x = (\<lambda>s. (Ok x, s))"

definition io_fail :: "io_error \<Rightarrow> 'a io" where
  "io_fail e = (\<lambda>s. (Err e, s))"

definition io_panic :: "string \<Rightarrow> 'a io" where
  "io_panic m = (\<lambda>s. (Panic m, s))"

definition io_hang :: "'a io" where
  "io_hang = (\<lambda>s. (Hang, s))"

text \<open>Sequencing with the \<open>?\<close> operator: an error, a panic or a hang ends the function.\<close>

definition io_bind :: "'a io \<Rightarrow> ('a \<Rightarrow> 'b io) \<Rightarrow> 'b io" where
  "io_bind m k = (\<lambda>s. case m s of
       (Ok x, s') \<Rightarrow> k x s'
     | (Err e, s') \<Rightarrow> (Err e, s')
     | (Panic p, s') \<Rightarrow> (Panic p, s')
     | (Hang, s') \<Rightarrow> (Hang, s'))"

text \<open>Matching on a \<open>Result\<close> in place of \<open>?\<close>: the error becomes a value.\<close>

definition io_attempt :: "'a io \<Rightarrow> (io_error + 'a) io" where
  "io_attempt m = (\<lambda>s. case m s of
       (Ok x, s') \<Rightarrow> (Ok (Inr x), s')
     | (Err e, s') \<Rightarrow> (Ok (Inl e), s')
     | (Panic p, s') \<Rightarrow> (Panic p, s')
     | (Hang, s') \<Rightarrow> (Hang, s'))"

definition io_of :: "io_error + 'a \<Rightarrow> 'a io" where
  "io_of r = (case r of Inl e \<Rightarrow> io_fail e | Inr x \<Rightarrow> io_return x)"

text \<open>A value whose \<open>Drop\<close> runs \<open>d\<close> when its scope ends, on either way out (a panic aborts).\<close>

definition io_finally :: "'a io \<Rightarrow> unit io \<Rightarrow> 'a io" where
  "io_finally m d = io_bind (io_attempt m) (\<lambda>r. io_bind d (\<lambda>_. io_of r))"

text \<open>\<open>let _ = m;\<close>\<close>

definition io_ignore :: "'a io \<Rightarrow> unit io" where
  "io_ignore m = io_bind (io_attempt m) (\<lambda>_. io_return ())"

definition sys :: "call \<Rightarrow> reply io" where
  "sys c = (\<lambda>s. let r = os_oracle s (os_trace s) c
     in (Ok r, s\<lparr>os_trace := os_trace s @ [(c, r)]\<rparr>))"

lemma io_return_apply [simp, io_simps]: "io_return x s = (Ok x, s)"
  by (simp add: io_return_def)

lemma io_fail_apply [simp, io_simps]: "io_fail e s = (Err e, s)"
  by (simp add: io_fail_def)

lemma io_panic_apply [simp, io_simps]: "io_panic p s = (Panic p, s)"
  by (simp add: io_panic_def)

lemma io_hang_apply [simp, io_simps]: "io_hang s = (Hang, s)"
  by (simp add: io_hang_def)

lemma io_of_simps [simp, io_simps]:
  "io_of (Inl e) = io_fail e" "io_of (Inr x) = io_return x"
  by (simp_all add: io_of_def)

lemma io_bind_return [simp]: "io_bind (io_return x) k = k x"
  by (simp add: io_bind_def fun_eq_iff)

lemma io_bind_fail [simp]: "io_bind (io_fail e) k = io_fail e"
  by (simp add: io_bind_def fun_eq_iff)

lemma io_bind_panic [simp]: "io_bind (io_panic p) k = io_panic p"
  by (simp add: io_bind_def fun_eq_iff)

text \<open>The same for actions in the applied form the simplifier leaves behind.\<close>

lemma io_bind_Pair [simp]:
  "io_bind (Pair (Ok x)) k = k x" "io_bind (Pair (Err e)) k = Pair (Err e)"
  "io_bind (Pair (Panic p)) k = Pair (Panic p)" "io_bind (Pair Hang) k = Pair Hang"
  by (simp_all add: io_bind_def fun_eq_iff)

lemma io_bind_assoc [simp]: "io_bind (io_bind m k) l = io_bind m (\<lambda>x. io_bind (k x) l)"
  by (simp add: io_bind_def fun_eq_iff split: prod.splits outcome.splits)

lemma io_bind_sys [io_simps]:
  "io_bind (sys c) k s =
     (let r = os_oracle s (os_trace s) c in k r (s\<lparr>os_trace := os_trace s @ [(c, r)]\<rparr>))"
  by (simp add: io_bind_def sys_def Let_def)

lemma io_bind_Ok: "m s = (Ok x, s') \<Longrightarrow> io_bind m k s = k x s'"
  by (simp add: io_bind_def)

lemma io_bind_Err: "m s = (Err e, s') \<Longrightarrow> io_bind m k s = (Err e, s')"
  by (simp add: io_bind_def)

lemma io_bind_Panic: "m s = (Panic e, s') \<Longrightarrow> io_bind m k s = (Panic e, s')"
  by (simp add: io_bind_def)

lemma io_attempt_return [simp]: "io_attempt (io_return x) = io_return (Inr x)"
  by (simp add: io_attempt_def fun_eq_iff)

lemma io_attempt_fail [simp]: "io_attempt (io_fail e) = io_return (Inl e)"
  by (simp add: io_attempt_def fun_eq_iff)

lemma io_attempt_Pair [simp]:
  "io_attempt (Pair (Ok x)) = Pair (Ok (Inr x))" "io_attempt (Pair (Err e)) = Pair (Ok (Inl e))"
  by (simp_all add: io_attempt_def fun_eq_iff)

lemma io_attempt_bind_sys [io_simps]:
  "io_attempt (io_bind (sys c) k) s =
     (let r = os_oracle s (os_trace s) c
      in io_attempt (k r) (s\<lparr>os_trace := os_trace s @ [(c, r)]\<rparr>))"
  by (simp add: io_attempt_def io_bind_def sys_def Let_def)

text \<open>The state after a call, and the answer it got.\<close>

definition reply_of :: "os \<Rightarrow> call \<Rightarrow> reply" where
  "reply_of s c = os_oracle s (os_trace s) c"

definition after :: "os \<Rightarrow> call \<Rightarrow> os" where
  "after s c = s\<lparr>os_trace := os_trace s @ [(c, reply_of s c)]\<rparr>"

lemma bind_sys_after: "io_bind (sys c) k s = k (reply_of s c) (after s c)"
  by (simp add: io_bind_sys reply_of_def after_def Let_def)

lemma os_trace_after [simp]: "os_trace (after s c) = os_trace s @ [(c, reply_of s c)]"
  by (simp add: after_def)

lemma os_oracle_after [simp]: "os_oracle (after s c) = os_oracle s"
  by (simp add: after_def)

lemma io_attempt_sys_after:
  "io_attempt (io_bind (sys c) k) s = io_attempt (k (reply_of s c)) (after s c)"
  by (simp add: io_attempt_def bind_sys_after)

text \<open>
  Conversely: a successful sequence went through both parts. This is the elimination rule the
  component proofs use on \<open>m s = (Ok x, s')\<close>.
\<close>

lemma io_bind_OkE:
  assumes "io_bind m k s = (Ok y, s'')"
  obtains x s' where "m s = (Ok x, s')" "k x s' = (Ok y, s'')"
proof (cases "m s")
  case (Pair r s')
  with assms that show ?thesis by (cases r) (auto simp: io_bind_def)
qed

section \<open>The history only grows\<close>

definition io_ext :: "'a io \<Rightarrow> bool" where
  "io_ext m \<longleftrightarrow> (\<forall>s. os_oracle (snd (m s)) = os_oracle s \<and>
     (\<exists>t. os_trace (snd (m s)) = os_trace s @ t))"

text \<open>The calls an action makes when it runs from \<open>s\<close>.\<close>

definition events :: "'a io \<Rightarrow> os \<Rightarrow> trace" where
  "events m s = drop (length (os_trace s)) (os_trace (snd (m s)))"

lemma io_ext_return [ext_intros]: "io_ext (io_return x)"
  and io_ext_fail [ext_intros]: "io_ext (io_fail e)"
  and io_ext_panic [ext_intros]: "io_ext (io_panic p)"
  and io_ext_hang [ext_intros]: "io_ext io_hang"
  and io_ext_sys [ext_intros]: "io_ext (sys c)"
  by (simp_all add: io_ext_def sys_def Let_def)

lemma io_ext_of [ext_intros]: "io_ext (io_of r)"
  by (cases r) (simp_all add: ext_intros)

lemma io_ext_bind [ext_intros]:
  assumes m: "io_ext m" and k: "\<And>x. io_ext (k x)"
  shows "io_ext (io_bind m k)"
  unfolding io_ext_def
proof
  fix s
  obtain r s' where ms: "m s = (r, s')" by (cases "m s")
  have a: "os_oracle s' = os_oracle s" "\<exists>t. os_trace s' = os_trace s @ t"
    using m ms unfolding io_ext_def by (metis snd_conv)+
  show "os_oracle (snd (io_bind m k s)) = os_oracle s \<and>
     (\<exists>t. os_trace (snd (io_bind m k s)) = os_trace s @ t)"
  proof (cases r)
    case (Ok x)
    have "os_oracle (snd (k x s')) = os_oracle s'" "\<exists>t. os_trace (snd (k x s')) = os_trace s' @ t"
      using k [of x] unfolding io_ext_def by blast+
    with a ms Ok show ?thesis by (auto simp: io_bind_def)
  qed (use a ms in \<open>auto simp: io_bind_def\<close>)
qed

lemma io_ext_attempt [ext_intros]: "io_ext m \<Longrightarrow> io_ext (io_attempt m)"
  unfolding io_ext_def io_attempt_def
  by (auto split: prod.splits outcome.splits) (metis snd_conv)+

lemma io_ext_finally [ext_intros]: "io_ext m \<Longrightarrow> io_ext d \<Longrightarrow> io_ext (io_finally m d)"
  unfolding io_finally_def by (intro ext_intros)

lemma io_ext_ignore [ext_intros]: "io_ext m \<Longrightarrow> io_ext (io_ignore m)"
  unfolding io_ignore_def by (intro ext_intros)

lemma io_ext_if [ext_intros]: "io_ext a \<Longrightarrow> io_ext b \<Longrightarrow> io_ext (if c then a else b)"
  by simp

lemma events_append: "io_ext m \<Longrightarrow> os_trace (snd (m s)) = os_trace s @ events m s"
  unfolding io_ext_def events_def by (metis append_eq_conv_conj)

lemma events_return [simp]: "events (io_return x) s = []"
  and events_fail [simp]: "events (io_fail e) s = []"
  and events_panic [simp]: "events (io_panic p) s = []"
  by (simp_all add: events_def)

lemma events_sys: "events (sys c) s = [(c, os_oracle s (os_trace s) c)]"
  by (simp add: events_def sys_def Let_def)

lemma events_bind:
  assumes "io_ext m" "\<And>x. io_ext (k x)"
  shows "events (io_bind m k) s = events m s @
     (case m s of (Ok x, s') \<Rightarrow> events (k x) s' | _ \<Rightarrow> [])"
proof -
  obtain r s' where ms: "m s = (r, s')" by (cases "m s")
  have t: "os_trace s' = os_trace s @ events m s"
    using events_append [OF assms(1), of s] ms by simp
  show ?thesis
  proof (cases r)
    case (Ok x)
    have "os_trace (snd (k x s')) = os_trace s' @ events (k x) s'"
      by (rule events_append [OF assms(2)])
    then have "os_trace (snd (io_bind m k s)) = os_trace s @ events m s @ events (k x) s'"
      using ms Ok t by (simp add: io_bind_def)
    then show ?thesis using ms Ok by (simp add: events_def [of "io_bind m k"])
  qed (use ms in \<open>simp_all add: events_def io_bind_def\<close>)
qed

section \<open>Which calls an action makes\<close>

text \<open>\<open>io_calls P m\<close>: every call that \<open>m\<close> makes, from any state, satisfies \<open>P\<close>.\<close>

definition io_calls :: "(call \<Rightarrow> bool) \<Rightarrow> 'a io \<Rightarrow> bool" where
  "io_calls P m \<longleftrightarrow> (\<forall>s. \<exists>t. os_trace (snd (m s)) = os_trace s @ t \<and> list_all (\<lambda>x. P (fst x)) t)"

lemma io_callsE:
  assumes "io_calls P m" "m s = (r, s')"
  obtains t where "os_trace s' = os_trace s @ t" "list_all (\<lambda>x. P (fst x)) t"
  using assms unfolding io_calls_def by (metis snd_conv)

lemma io_calls_return [calls_intros]: "io_calls P (io_return x)"
  and io_calls_fail [calls_intros]: "io_calls P (io_fail e)"
  and io_calls_panic [calls_intros]: "io_calls P (io_panic p)"
  and io_calls_hang [calls_intros]: "io_calls P io_hang"
  and io_calls_sys [calls_intros]: "P c \<Longrightarrow> io_calls P (sys c)"
  by (simp_all add: io_calls_def sys_def Let_def)

lemma io_calls_Pair [calls_intros]: "io_calls P (Pair r)"
  by (simp add: io_calls_def)

lemma io_calls_bind [calls_intros]:
  assumes m: "io_calls P m" and k: "\<And>x. io_calls P (k x)"
  shows "io_calls P (io_bind m k)"
  unfolding io_calls_def
proof
  fix s
  obtain r s1 where ms: "m s = (r, s1)" by (cases "m s")
  from io_callsE [OF m ms] obtain t where t: "os_trace s1 = os_trace s @ t" "list_all (\<lambda>x. P (fst x)) t" .
  show "\<exists>t. os_trace (snd (io_bind m k s)) = os_trace s @ t \<and> list_all (\<lambda>x. P (fst x)) t"
  proof (cases r)
    case (Ok x)
    obtain r' s2 where ks: "k x s1 = (r', s2)" by fastforce
    from io_callsE [OF k this] obtain u where "os_trace s2 = os_trace s1 @ u" "list_all (\<lambda>x. P (fst x)) u" .
    with t ms Ok ks show ?thesis by (intro exI [of _ "t @ u"]) (simp add: io_bind_def)
  qed (use t ms in \<open>auto simp: io_bind_def\<close>)
qed

lemma io_calls_attempt [calls_intros]: "io_calls P m \<Longrightarrow> io_calls P (io_attempt m)"
  unfolding io_calls_def io_attempt_def
  by (auto split: prod.splits outcome.splits) (metis snd_conv)+

lemma io_calls_of [calls_intros]: "io_calls P (io_of r)"
  by (cases r) (simp_all add: calls_intros)

lemma io_calls_finally [calls_intros]: "io_calls P m \<Longrightarrow> io_calls P d \<Longrightarrow> io_calls P (io_finally m d)"
  unfolding io_finally_def by (intro calls_intros)

lemma io_calls_ignore [calls_intros]: "io_calls P m \<Longrightarrow> io_calls P (io_ignore m)"
  unfolding io_ignore_def by (intro calls_intros)

lemma io_calls_if [calls_intros]: "(c \<Longrightarrow> io_calls P a) \<Longrightarrow> (\<not> c \<Longrightarrow> io_calls P b) \<Longrightarrow> io_calls P (if c then a else b)"
  by simp

lemma io_calls_mono: "io_calls P m \<Longrightarrow> (\<And>c. P c \<Longrightarrow> Q c) \<Longrightarrow> io_calls Q m"
  unfolding io_calls_def by (metis (no_types, lifting) list.pred_mono_strong)

end
