(* ===== verification/Utf8.thy ===== *)
theory Utf8
  imports Prelude
begin

unbundle bit_operations_syntax

text \<open>
  UTF-8 in the core library: the encoder of a character (\<open>char/methods.rs\<close>), the decoder and
  the validator (\<open>str/validations.rs\<close>, with its word-wise skipping of ASCII), and the chunk
  iterator behind \<open>String::from_utf8_lossy\<close> (\<open>str/lossy.rs\<close>), which the AROS layer runs on
  every path, argument and C message it turns into text. The specification is \<open>is_utf8\<close>:
  the encodings of lists of Unicode scalar values.
\<close>

section \<open>Encoding a character\<close>

definition scalar :: "u32 \<Rightarrow> bool" where
  "scalar c \<longleftrightarrow> c < 0xD800 \<or> (0xE000 \<le> c \<and> c \<le> 0x10FFFF)"

definition len_utf8 :: "u32 \<Rightarrow> nat" where
  "len_utf8 code = (if code < 0x80 then 1 else if code < 0x800 then 2
     else if code < 0x10000 then 3 else 4)"

definition encode_utf8 :: "u32 \<Rightarrow> bytes" where
  "encode_utf8 code =
    (let len = len_utf8 code;
         last1 = ucast (code AND 0x3F) OR 0x80;
         last2 = ucast (drop_bit 6 code AND 0x3F) OR 0x80;
         last3 = ucast (drop_bit 12 code AND 0x3F) OR 0x80;
         last4 = ucast (drop_bit 18 code AND 0x3F) OR 0xF0
     in if len = 1 then [ucast code]
        else if len = 2 then [last2 OR 0xC0, last1]
        else if len = 3 then [last3 OR 0xE0, last2, last1]
        else [last4, last3, last2, last1])"

text \<open>The bytes of a Rust string, given as the list of its characters.\<close>

definition utf8_bytes :: "rtext \<Rightarrow> bytes" where
  "utf8_bytes cs = concat (map encode_utf8 cs)"

definition is_utf8 :: "bytes \<Rightarrow> bool" where
  "is_utf8 bs \<longleftrightarrow> (\<exists>cs. list_all scalar cs \<and> bs = utf8_bytes cs)"

section \<open>Decoding\<close>

definition utf8_first_byte :: "u8 \<Rightarrow> nat \<Rightarrow> u32" where
  "utf8_first_byte byte width = ucast (byte AND drop_bit width 0x7F)"

definition utf8_acc_cont_byte :: "u32 \<Rightarrow> u8 \<Rightarrow> u32" where
  "utf8_acc_cont_byte ch byte = push_bit 6 ch OR ucast (byte AND 0x3F)"

text \<open>
  \<open>next_code_point\<close> requires well-formed input (\<open>unwrap_unchecked\<close> past the end is undefined
  behaviour): the model answers \<open>None\<close> there.
\<close>

fun next_code_point :: "bytes \<Rightarrow> (u32 \<times> bytes) option" where
  "next_code_point [] = None"
| "next_code_point (x # r) =
     (if x < 128 then Some (ucast x, r)
      else let init = utf8_first_byte x 2 in
        (case r of [] \<Rightarrow> None | y # r1 \<Rightarrow>
          if x < 0xE0 then Some (utf8_acc_cont_byte init y, r1)
          else (case r1 of [] \<Rightarrow> None | z # r2 \<Rightarrow>
            let y_z = utf8_acc_cont_byte (ucast (y AND 0x3F)) z in
            if x < 0xF0 then Some (push_bit 12 init OR y_z, r2)
            else (case r2 of [] \<Rightarrow> None | w # r3 \<Rightarrow>
              Some (push_bit 18 (init AND 7) OR utf8_acc_cont_byte y_z w, r3)))))"

lemma next_code_point_shorter:
  "next_code_point bs = Some (c, r) \<Longrightarrow> length r < length bs"
  by (cases bs) (auto simp: Let_def split: if_splits list.splits)

function str_chars :: "bytes \<Rightarrow> rtext" where
  "str_chars bs = (case next_code_point bs of None \<Rightarrow> [] | Some (c, r) \<Rightarrow> c # str_chars r)"
  by pat_completeness auto
termination
  by (relation "measure length") (auto dest: next_code_point_shorter)

declare str_chars.simps [simp del]

section \<open>Validation\<close>

definition UTF8_CHAR_WIDTH :: "nat list" where
  "UTF8_CHAR_WIDTH = replicate 128 1 @ replicate 64 0
     @ [0, 0] @ replicate 14 2 @ replicate 16 2
     @ replicate 16 3
     @ replicate 5 4 @ replicate 11 0"

definition utf8_char_width :: "u8 \<Rightarrow> nat" where
  "utf8_char_width b = UTF8_CHAR_WIDTH ! unat b"

definition three_byte_second_ok :: "u8 \<Rightarrow> u8 \<Rightarrow> bool" where
  "three_byte_second_ok first b \<longleftrightarrow>
     first = 0xE0 \<and> 0xA0 \<le> b \<and> b \<le> 0xBF
   \<or> 0xE1 \<le> first \<and> first \<le> 0xEC \<and> 0x80 \<le> b \<and> b \<le> 0xBF
   \<or> first = 0xED \<and> 0x80 \<le> b \<and> b \<le> 0x9F
   \<or> 0xEE \<le> first \<and> first \<le> 0xEF \<and> 0x80 \<le> b \<and> b \<le> 0xBF"

definition four_byte_second_ok :: "u8 \<Rightarrow> u8 \<Rightarrow> bool" where
  "four_byte_second_ok first b \<longleftrightarrow>
     first = 0xF0 \<and> 0x90 \<le> b \<and> b \<le> 0xBF
   \<or> 0xF1 \<le> first \<and> first \<le> 0xF3 \<and> 0x80 \<le> b \<and> b \<le> 0xBF
   \<or> first = 0xF4 \<and> 0x80 \<le> b \<and> b \<le> 0x8F"

record utf8_error =
  valid_up_to :: nat
  error_len :: "nat option"

text \<open>
  The multi-byte branch of the loop body; \<open>Inr\<close> is the index after the character. A byte is no
  continuation byte when it is at least \<open>-64\<close> as an \<open>i8\<close>.
\<close>

definition validate_multibyte :: "bytes \<Rightarrow> nat \<Rightarrow> utf8_error + nat" where
  "validate_multibyte v old =
    (let len = length v; first = v ! old; w = utf8_char_width first;
         err = (\<lambda>l. Inl \<lparr>valid_up_to = old, error_len = l\<rparr>)
     in if w = 2 then
          (if old + 1 \<ge> len then err None
           else if sint (v ! (old + 1)) \<ge> -64 then err (Some 1)
           else Inr (old + 2))
        else if w = 3 then
          (if old + 1 \<ge> len then err None
           else if \<not> three_byte_second_ok first (v ! (old + 1)) then err (Some 1)
           else if old + 2 \<ge> len then err None
           else if sint (v ! (old + 2)) \<ge> -64 then err (Some 2)
           else Inr (old + 3))
        else if w = 4 then
          (if old + 1 \<ge> len then err None
           else if \<not> four_byte_second_ok first (v ! (old + 1)) then err (Some 1)
           else if old + 2 \<ge> len then err None
           else if sint (v ! (old + 2)) \<ge> -64 then err (Some 2)
           else if old + 3 \<ge> len then err None
           else if sint (v ! (old + 3)) \<ge> -64 then err (Some 3)
           else Inr (old + 4))
        else err (Some 1))"

text \<open>
  \<open>contains_nonascii\<close> on the \<open>usize\<close> read at \<open>index\<close>: one of its eight bytes has the high bit.
\<close>

definition word_nonascii :: "bytes \<Rightarrow> nat \<Rightarrow> bool" where
  "word_nonascii v i \<longleftrightarrow> list_ex (\<lambda>b. b AND 0x80 \<noteq> 0) (take 8 (drop i v))"

function skip_blocks :: "bytes \<Rightarrow> nat \<Rightarrow> nat \<Rightarrow> nat" where
  "skip_blocks v blocks_end index =
     (if index < blocks_end \<and> \<not> (word_nonascii v index \<or> word_nonascii v (index + 8))
      then skip_blocks v blocks_end (index + 16) else index)"
  by pat_completeness auto
termination
  by (relation "measure (\<lambda>(v, e, i). e - i)") auto

function skip_ascii :: "bytes \<Rightarrow> nat \<Rightarrow> nat" where
  "skip_ascii v index =
     (if index < length v \<and> v ! index < 128 then skip_ascii v (index + 1) else index)"
  by pat_completeness auto
termination
  by (relation "measure (\<lambda>(v, i). length v - i)") auto

declare skip_blocks.simps [simp del] skip_ascii.simps [simp del]

lemma skip_blocks_ge: "i \<le> skip_blocks v e i"
  by (induction v e i rule: skip_blocks.induct) (subst skip_blocks.simps, force)

lemma skip_ascii_ge: "i \<le> skip_ascii v i"
  by (induction v i rule: skip_ascii.induct) (subst skip_ascii.simps, force)

lemma skip_progress:
  assumes "i < length v" "v ! i < 128"
  shows "i < skip_ascii v (skip_blocks v e i)"
proof (cases "skip_blocks v e i = i")
  case True
  have "skip_ascii v i = skip_ascii v (i + 1)" using assms by (subst skip_ascii.simps) simp
  with True skip_ascii_ge [of "i + 1" v] show ?thesis by simp
next
  case False
  with skip_blocks_ge [of i v e] skip_ascii_ge [of "skip_blocks v e i" v] show ?thesis by simp
qed

lemma validate_multibyte_progress: "validate_multibyte v i = Inr j \<Longrightarrow> i < j"
  by (auto simp: validate_multibyte_def Let_def split: if_splits)

text \<open>
  The loop of \<open>run_utf8_validation\<close>. \<open>align\<close> is the distance of the slice's first byte to the
  next word boundary, as \<open>align_offset\<close> reports it, with \<open>usize::MAX\<close> for "unknown".
\<close>

definition blocks_end_of :: "bytes \<Rightarrow> nat" where
  "blocks_end_of v = (if length v \<ge> 16 then length v - 16 + 1 else 0)"

function validate_from :: "u64 \<Rightarrow> bytes \<Rightarrow> nat \<Rightarrow> utf8_error + unit" where
  "validate_from align v index =
    (if index < length v then
       (if v ! index \<ge> 128 then
          (case validate_multibyte v index of
             Inl e \<Rightarrow> Inl e
           | Inr index' \<Rightarrow> validate_from align v index')
        else if align \<noteq> - 1 \<and> unat (align - of_nat index) mod 8 = 0 then
          validate_from align v (skip_ascii v (skip_blocks v (blocks_end_of v) index))
        else validate_from align v (index + 1))
     else Inr ())"
  by pat_completeness auto
termination
  by (relation "measure (\<lambda>(a, v, i). length v - i)")
    (auto dest: validate_multibyte_progress intro!: diff_less_mono2 skip_progress)

declare validate_from.simps [simp del]

definition run_utf8_validation :: "u64 \<Rightarrow> bytes \<Rightarrow> utf8_error + unit" where
  "run_utf8_validation align v = validate_from align v 0"

section \<open>Lossy decoding\<close>

definition safe_get :: "bytes \<Rightarrow> nat \<Rightarrow> u8" where
  "safe_get xs i = (if i < length xs then xs ! i else 0)"

text \<open>
  One iteration of the scanning loop after \<open>i += 1\<close>: \<open>Inl\<close> the index at which the loop breaks,
  \<open>Inr\<close> the index at which the character is complete.
\<close>

definition chunk_step :: "bytes \<Rightarrow> u8 \<Rightarrow> nat \<Rightarrow> nat + nat" where
  "chunk_step src byte i =
    (if byte < 128 then Inr i
     else let w = utf8_char_width byte in
       if w = 2 then
         (if safe_get src i AND 192 \<noteq> 128 then Inl i else Inr (i + 1))
       else if w = 3 then
         (if \<not> three_byte_second_ok byte (safe_get src i) then Inl i
          else if safe_get src (i + 1) AND 192 \<noteq> 128 then Inl (i + 1)
          else Inr (i + 2))
       else if w = 4 then
         (if \<not> four_byte_second_ok byte (safe_get src i) then Inl i
          else if safe_get src (i + 1) AND 192 \<noteq> 128 then Inl (i + 1)
          else if safe_get src (i + 2) AND 192 \<noteq> 128 then Inl (i + 2)
          else Inr (i + 3))
       else Inl i)"

lemma chunk_step_ge: "chunk_step src b i = Inr j \<Longrightarrow> i \<le> j"
  by (auto simp: chunk_step_def Let_def split: if_splits)

function scan_chunk :: "bytes \<Rightarrow> nat \<Rightarrow> nat \<Rightarrow> nat \<times> nat" where
  "scan_chunk src i valid_up =
    (if i < length src then
       (case chunk_step src (src ! i) (i + 1) of
          Inl j \<Rightarrow> (j, valid_up)
        | Inr j \<Rightarrow> scan_chunk src j j)
     else (i, valid_up))"
  by pat_completeness auto
termination
  by (relation "measure (\<lambda>(s, i, u). length s - i)") (auto dest!: chunk_step_ge)

declare scan_chunk.simps [simp del]

text \<open>\<open>Utf8Chunks::next\<close>: the chunk (its valid and its invalid part) and the remaining source.\<close>

definition next_chunk :: "bytes \<Rightarrow> ((bytes \<times> bytes) \<times> bytes) option" where
  "next_chunk src = (if src = [] then None
     else let (i, valid_up) = scan_chunk src 0 0; inspected = take i src
          in Some ((take valid_up inspected, drop valid_up inspected), drop i src))"

lemma chunk_step_Inl_ge: "chunk_step src b i = Inl j \<Longrightarrow> i \<le> j"
  by (auto simp: chunk_step_def Let_def split: if_splits)

lemma scan_chunk_ge: "i \<le> fst (scan_chunk src i u)"
proof (induction src i u rule: scan_chunk.induct)
  case (1 src i u)
  show ?case
  proof (cases "i < length src")
    case True
    show ?thesis
    proof (cases "chunk_step src (src ! i) (i + 1)")
      case (Inl j)
      with True chunk_step_Inl_ge [OF Inl] show ?thesis by (simp add: scan_chunk.simps [of src i])
    next
      case (Inr j)
      have "i < j" using chunk_step_ge [OF Inr] by simp
      moreover have "j \<le> fst (scan_chunk src j j)" using True Inr by (rule 1)
      ultimately show ?thesis using True Inr by (simp add: scan_chunk.simps [of src i])
    qed
  qed (simp add: scan_chunk.simps)
qed

lemma scan_chunk_pos: "src \<noteq> [] \<Longrightarrow> 0 < fst (scan_chunk src 0 0)"
proof -
  assume "src \<noteq> []"
  then have s: "scan_chunk src 0 0 = (case chunk_step src (src ! 0) 1 of
      Inl j \<Rightarrow> (j, 0) | Inr j \<Rightarrow> scan_chunk src j j)" by (subst scan_chunk.simps) simp
  show ?thesis
  proof (cases "chunk_step src (src ! 0) 1")
    case (Inl j)
    with s chunk_step_Inl_ge [OF Inl] show ?thesis by simp
  next
    case (Inr j)
    with s chunk_step_ge [OF Inr] scan_chunk_ge [of j src j] show ?thesis by simp
  qed
qed

lemma next_chunk_shorter: "next_chunk src = Some (c, r) \<Longrightarrow> length r < length src"
  using scan_chunk_pos [of src] by (auto simp: next_chunk_def Let_def split: if_splits prod.splits)

text \<open>
  \<open>String::from_utf8_lossy\<close>, as the bytes of the resulting string: the first chunk decides
  whether the input is borrowed; the loop pushes the rest.
\<close>

definition REPLACEMENT :: bytes where
  "REPLACEMENT = encode_utf8 0xFFFD"

function lossy_loop :: "bytes \<Rightarrow> bytes" where
  "lossy_loop src = (case next_chunk src of
       None \<Rightarrow> []
     | Some ((valid, invalid), rest) \<Rightarrow>
         valid @ (if invalid \<noteq> [] then REPLACEMENT else []) @ lossy_loop rest)"
  by pat_completeness auto
termination
  by (relation "measure length") (auto dest: next_chunk_shorter)

declare lossy_loop.simps [simp del]

definition from_utf8_lossy :: "bytes \<Rightarrow> bytes" where
  "from_utf8_lossy v = (case next_chunk v of
       None \<Rightarrow> []
     | Some ((first_valid, invalid), rest) \<Rightarrow>
         if invalid = [] then first_valid
         else first_valid @ REPLACEMENT @ lossy_loop rest)"

lemma scan_chunk_ascii:
  "\<forall>b\<in>set src. b < 128 \<Longrightarrow> i \<le> length src \<Longrightarrow> scan_chunk src i i = (length src, length src)"
proof (induction "length src - i" arbitrary: i)
  case 0
  then show ?case by (simp add: scan_chunk.simps)
next
  case (Suc n)
  then have "i < length src" "src ! i < 128" by simp_all
  moreover have "scan_chunk src (Suc i) (Suc i) = (length src, length src)"
    using Suc by (intro Suc(1)) simp_all
  ultimately show ?case by (subst scan_chunk.simps) (simp add: chunk_step_def)
qed

lemma from_utf8_lossy_ascii: "\<forall>b\<in>set v. b < 128 \<Longrightarrow> from_utf8_lossy v = v"
  using scan_chunk_ascii [of v 0] by (simp add: from_utf8_lossy_def next_chunk_def)

end
