(* ===== verification/Io_Error.thy ===== *)
theory Io_Error
  imports Os_Interface Utf8
begin

text \<open>
  Errors of the platform: errno and its two cells, the messages and the kinds
  (\<open>sys/io/error/aros.rs\<close>), and the part of \<open>std::io::Error\<close> the platform layer uses
  (\<open>io/error.rs\<close>).
\<close>

section \<open>errno\<close>

definition errno :: "int io" where
  "errno =
    io_bind (sys (ErrnoC Stdc_errno_get)) (\<lambda>r.
    let e = r_ret r in
    if e \<noteq> 0 then io_return e
    else io_bind (sys (ErrnoC Libbase_errno)) (\<lambda>b. io_return (r_ret b)))"

definition set_errno :: "int \<Rightarrow> unit io" where
  "set_errno e = io_bind (sys (ErrnoC (Stdc_errno_set e))) (\<lambda>_. io_return ())"

text \<open>Decimal formatting, as \<open>{errno}\<close> does it.\<close>

function decimal_nat :: "nat \<Rightarrow> bytes" where
  "decimal_nat n = (if n < 10 then [48 + of_nat n]
     else decimal_nat (n div 10) @ [48 + of_nat (n mod 10)])"
  by pat_completeness auto
termination
  by (relation "measure id") auto

declare decimal_nat.simps [simp del]

definition decimal :: "int \<Rightarrow> bytes" where
  "decimal i = (if i < 0 then ascii ''-'' @ decimal_nat (nat (- i)) else decimal_nat (nat i))"

text \<open>
  \<open>strerror\<close> answers with the string its pointer names; a null pointer is the return value 0.
\<close>

definition error_string :: "int \<Rightarrow> bytes io" where
  "error_string e =
    io_bind (sys (ErrnoC (Strerror e))) (\<lambda>r.
    if r_ret r = 0 then
      io_return (ascii ''unknown error (errno '' @ decimal e @ ascii '')'')
    else io_return (from_utf8_lossy (until_nul (r_data r))))"

definition code_is_interrupted :: "int \<Rightarrow> bool" where
  "code_is_interrupted code \<longleftrightarrow> code = 4"

definition decode_error_kind :: "int \<Rightarrow> error_kind" where
  "decode_error_kind code =
    (if code = 1 then PermissionDenied
     else if code = 2 then NotFound
     else if code = 4 then Interrupted
     else if code = 13 then PermissionDenied
     else if code = 17 then AlreadyExists
     else if code = 20 then NotADirectory
     else if code = 21 then IsADirectory
     else if code = 22 then InvalidInput
     else if code = 28 then StorageFull
     else if code = 30 then ReadOnlyFilesystem
     else if code = 32 then BrokenPipe
     else if code = 35 then WouldBlock
     else if code = 48 then AddrInUse
     else if code = 49 then AddrNotAvailable
     else if code = 53 then ConnectionAborted
     else if code = 54 then ConnectionReset
     else if code = 57 then NotConnected
     else if code = 60 then TimedOut
     else if code = 61 then ConnectionRefused
     else Uncategorized)"

section \<open>io::Error\<close>

definition from_raw_os_error :: "int \<Rightarrow> io_error" where
  "from_raw_os_error code = OsError code"

definition last_os_error :: "io_error io" where
  "last_os_error = io_bind errno (\<lambda>e. io_return (from_raw_os_error e))"

definition raw_os_error :: "io_error \<Rightarrow> int option" where
  "raw_os_error e = (case e of OsError i \<Rightarrow> Some i | Simple k \<Rightarrow> None
     | SimpleMessage k m \<Rightarrow> None | Custom k m \<Rightarrow> None)"

definition error_kind_of :: "io_error \<Rightarrow> error_kind" where
  "error_kind_of e = (case e of OsError code \<Rightarrow> decode_error_kind code | Custom k m \<Rightarrow> k
     | Simple k \<Rightarrow> k | SimpleMessage k m \<Rightarrow> k)"

definition is_interrupted :: "io_error \<Rightarrow> bool" where
  "is_interrupted e = (case e of OsError code \<Rightarrow> code_is_interrupted code
     | Custom k m \<Rightarrow> k = Interrupted | Simple k \<Rightarrow> k = Interrupted
     | SimpleMessage k m \<Rightarrow> k = Interrupted)"

definition UNSUPPORTED_PLATFORM :: io_error where
  "UNSUPPORTED_PLATFORM = SimpleMessage Unsupported ''operation not supported on this platform''"

definition WRITE_ALL_EOF :: io_error where
  "WRITE_ALL_EOF = SimpleMessage WriteZero ''failed to write whole buffer''"

definition NO_ADDRESSES :: io_error where
  "NO_ADDRESSES = SimpleMessage InvalidInput ''could not resolve to any addresses''"

definition nul_error :: io_error where
  "nul_error = SimpleMessage InvalidInput ''data provided contains a nul byte''"

text \<open>The tail every failing call of the layer shares: \<open>Err(io::Error::last_os_error())\<close>.\<close>

definition os_fail :: "'a io" where
  "os_fail = io_bind last_os_error io_fail"

text \<open>\<open>unsupported()\<close> (\<open>sys/pal/unsupported/common.rs\<close>).\<close>

definition unsupported :: "'a io" where
  "unsupported = io_fail UNSUPPORTED_PLATFORM"

lemma io_ext_errno [ext_intros]: "io_ext errno"
  unfolding errno_def Let_def by (intro ext_intros)

lemma io_ext_last_os_error [ext_intros]: "io_ext last_os_error"
  unfolding last_os_error_def by (intro ext_intros)

lemma io_ext_os_fail [ext_intros]: "io_ext os_fail"
  unfolding os_fail_def by (intro ext_intros)

text \<open>Reporting an error only asks for \<open>errno\<close>.\<close>

lemma io_calls_last_os_error [calls_intros]: "(\<And>c. P (ErrnoC c)) \<Longrightarrow> io_calls P last_os_error"
  unfolding last_os_error_def errno_def Let_def by (intro calls_intros) simp_all

lemma io_calls_os_fail [calls_intros]: "(\<And>c. P (ErrnoC c)) \<Longrightarrow> io_calls P os_fail"
  unfolding os_fail_def by (intro calls_intros) simp_all

lemma io_ext_unsupported [ext_intros]: "io_ext unsupported"
  unfolding unsupported_def by (intro ext_intros)

text \<open>
  A failing tail returns an \<open>Os\<close> error and makes one or two errno reads, nothing else.
\<close>

lemma os_fail_cases:
  obtains e t where "os_fail s = (Err (OsError e), s\<lparr>os_trace := os_trace s @ t\<rparr>)"
    "\<forall>x\<in>set t. \<exists>c. fst x = ErrnoC c"
proof -
  let ?r = "os_oracle s (os_trace s) (ErrnoC Stdc_errno_get)"
  let ?t = "os_trace s @ [(ErrnoC Stdc_errno_get, ?r)]"
  let ?b = "os_oracle s ?t (ErrnoC Libbase_errno)"
  show thesis
  proof (cases "r_ret ?r = 0")
    case True
    then have "os_fail s = (Err (OsError (r_ret ?b)),
        s\<lparr>os_trace := os_trace s @ [(ErrnoC Stdc_errno_get, ?r), (ErrnoC Libbase_errno, ?b)]\<rparr>)"
      by (simp add: os_fail_def last_os_error_def errno_def io_simps Let_def from_raw_os_error_def)
    then show thesis by (rule that) auto
  next
    case False
    then have "os_fail s = (Err (OsError (r_ret ?r)), s\<lparr>os_trace := ?t\<rparr>)"
      by (simp add: os_fail_def last_os_error_def errno_def io_simps Let_def from_raw_os_error_def)
    then show thesis by (rule that) auto
  qed
qed

lemma os_fail_not_Ok [simp]: "fst ((os_fail :: 'a io) s) \<noteq> Ok x"
  by (rule os_fail_cases [of s, where 'a = 'a]) simp

lemma os_fail_not_Ok2 [simp]: "(os_fail :: 'a io) s = (Ok x, s') \<longleftrightarrow> False"
  by (metis fst_conv os_fail_not_Ok)

lemma os_fail_Err: "\<exists>e. fst ((os_fail :: 'a io) s) = Err (OsError e)"
  by (rule os_fail_cases [of s, where 'a = 'a]) simp

text \<open>
  The two errno cells. \<open>errno()\<close> is the per-thread cell if that is set, and otherwise whatever
  the shared base cell holds; the base cell is read only in that case, and the kind of
  \<open>last_os_error()\<close> is the NetBSD decoding of the chosen code. A code left in the base cell is
  therefore hidden by any stale non-zero per-thread code.
\<close>

lemma errno_cells:
  "let r = os_oracle s (os_trace s) (ErrnoC Stdc_errno_get);
       s1 = s\<lparr>os_trace := os_trace s @ [(ErrnoC Stdc_errno_get, r)]\<rparr>;
       b = os_oracle s (os_trace s1) (ErrnoC Libbase_errno);
       s2 = s\<lparr>os_trace := os_trace s1 @ [(ErrnoC Libbase_errno, b)]\<rparr>
   in errno s = (if r_ret r \<noteq> 0 then (Ok (r_ret r), s1) else (Ok (r_ret b), s2))
    \<and> fst (io_bind last_os_error (\<lambda>e. io_return (error_kind_of e)) s)
        = Ok (decode_error_kind (if r_ret r \<noteq> 0 then r_ret r else r_ret b))"
  by (simp add: errno_def last_os_error_def io_simps Let_def error_kind_of_def from_raw_os_error_def)

text \<open>
  Classification of codes. An \<open>Os\<close> error is interrupted, in the sense of the retry loops,
  exactly when its kind decodes to \<open>Interrupted\<close>: the fast test on the code and the table agree.
\<close>

lemma is_interrupted_iff_kind: "is_interrupted e = (error_kind_of e = Interrupted)"
  by (cases e) (auto simp: is_interrupted_def error_kind_of_def code_is_interrupted_def
      decode_error_kind_def)

end
