(* ===== verification/Path_Core.thy ===== *)
theory Path_Core
  imports Prelude
begin

text \<open>
  \<open>std::path\<close> as it is compiled for AROS: \<open>HAS_PREFIXES\<close> is false, the separator is \<open>/\<close>,
  a path is its bytes. The double-ended component iterator is the state machine of
  \<open>std/src/path.rs\<close>, with its two cursors and the remaining slice; \<open>pending\<close> is the
  abstraction, the list of components still to come, and \<open>path_components\<close> is the specification,
  written with \<open>split\<close>. The operations on paths are built on the iterator, as the code does.
  The constructor \<open>Prefix\<close> of \<open>Component\<close> cannot be produced on this target and is left out.
\<close>

type_synonym path = bytes

section \<open>The component iterator\<close>

definition is_sep_byte :: "u8 \<Rightarrow> bool" where
  "is_sep_byte b \<longleftrightarrow> b = 47"

abbreviation (input) SLASH :: u8 where "SLASH \<equiv> 47"
abbreviation (input) DOT :: u8 where "DOT \<equiv> 46"
abbreviation (input) COLON :: u8 where "COLON \<equiv> 58"

datatype component = RootDir | CurDir | ParentDir | Normal bytes

datatype pstate = StPrefix | StStartDir | StBody | StDone

fun state_rank :: "pstate \<Rightarrow> nat" where
  "state_rank StPrefix = 0"
| "state_rank StStartDir = 1"
| "state_rank StBody = 2"
| "state_rank StDone = 3"

record components =
  c_path :: bytes
  has_physical_root :: bool
  c_front :: pstate
  c_back :: pstate

definition physical_root :: "path \<Rightarrow> bool" where
  "physical_root s \<longleftrightarrow> s \<noteq> [] \<and> is_sep_byte (hd s)"

definition path_iter :: "path \<Rightarrow> components" where
  "path_iter p = \<lparr>c_path = p, has_physical_root = physical_root p,
                  c_front = StStartDir, c_back = StBody\<rparr>"

definition include_cur_dir :: "components \<Rightarrow> bool" where
  "include_cur_dir c = (if has_physical_root c then False
     else (case c_path c of
             [] \<Rightarrow> False
           | [a] \<Rightarrow> a = DOT
           | a # b # _ \<Rightarrow> a = DOT \<and> is_sep_byte b))"

definition len_before_body :: "components \<Rightarrow> nat" where
  "len_before_body c =
     (let root = if state_rank (c_front c) \<le> 1 \<and> has_physical_root c then 1 else 0;
          cur_dir = if state_rank (c_front c) \<le> 1 \<and> include_cur_dir c then 1 else 0
      in root + cur_dir)"

definition finished :: "components \<Rightarrow> bool" where
  "finished c \<longleftrightarrow> c_front c = StDone \<or> c_back c = StDone
     \<or> state_rank (c_back c) < state_rank (c_front c)"

definition parse_single_component :: "bytes \<Rightarrow> component option" where
  "parse_single_component piece =
     (if piece = [DOT] then None
      else if piece = [DOT, DOT] then Some ParentDir
      else if piece = [] then None
      else Some (Normal piece))"

definition parse_next_component :: "components \<Rightarrow> nat \<times> component option" where
  "parse_next_component c =
     (let (extra, piece) = (case position is_sep_byte (c_path c) of
            None \<Rightarrow> (0, c_path c)
          | Some i \<Rightarrow> (1, take i (c_path c)))
      in (length piece + extra, parse_single_component piece))"

text \<open>\<open>rposition\<close>: the index of the last element that satisfies the predicate.\<close>

definition rposition :: "('a \<Rightarrow> bool) \<Rightarrow> 'a list \<Rightarrow> nat option" where
  "rposition p xs = map_option (\<lambda>i. length xs - 1 - i) (position p (rev xs))"

definition parse_next_component_back :: "components \<Rightarrow> nat \<times> component option" where
  "parse_next_component_back c =
     (let body = drop (len_before_body c) (c_path c);
          (extra, piece) = (case rposition is_sep_byte body of
            None \<Rightarrow> (0, body)
          | Some i \<Rightarrow> (1, drop (i + 1) body))
      in (length piece + extra, parse_single_component piece))"

lemma parse_next_size:
  "(n, piece) = parse_next_component c \<Longrightarrow> c_path c \<noteq> [] \<Longrightarrow> 0 < n"
  by (auto simp: parse_next_component_def Let_def split: option.splits)

lemma parse_next_back_size:
  "(n, piece) = parse_next_component_back c \<Longrightarrow> len_before_body c < length (c_path c) \<Longrightarrow>
     0 < n \<and> c_path c \<noteq> []"
  by (auto simp: parse_next_component_back_def Let_def split: option.splits)

function trim_left :: "components \<Rightarrow> components" where
  "trim_left c = (if c_path c = [] then c
     else (let (n, piece) = parse_next_component c
           in if piece \<noteq> None then c else trim_left (c\<lparr>c_path := drop n (c_path c)\<rparr>)))"
  by pat_completeness auto
termination
  by (relation "measure (\<lambda>c. length (c_path c))") (auto dest: parse_next_size)

function trim_right :: "components \<Rightarrow> components" where
  "trim_right c = (if length (c_path c) \<le> len_before_body c then c
     else (let (n, piece) = parse_next_component_back c
           in if piece \<noteq> None then c
              else trim_right (c\<lparr>c_path := take (length (c_path c) - n) (c_path c)\<rparr>)))"
  by pat_completeness auto
termination
  by (relation "measure (\<lambda>c. length (c_path c))") (auto dest: parse_next_back_size)

declare trim_left.simps [simp del] trim_right.simps [simp del]

definition as_path :: "components \<Rightarrow> path" where
  "as_path c =
     (let c1 = (if c_front c = StBody then trim_left c else c);
          c2 = (if c_back c1 = StBody then trim_right c1 else c1)
      in c_path c2)"

text \<open>\<open>Components::next\<close> and \<open>next_back\<close>: the component, and the iterator after it.\<close>

function comp_next :: "components \<Rightarrow> component option \<times> components" where
  "comp_next c =
     (if finished c then (None, c)
      else (case c_front c of
          StBody \<Rightarrow>
            (if c_path c \<noteq> [] then
               (let (n, piece) = parse_next_component c;
                    c' = c\<lparr>c_path := drop n (c_path c)\<rparr>
                in if piece \<noteq> None then (piece, c') else comp_next c')
             else comp_next (c\<lparr>c_front := StDone\<rparr>))
        | StStartDir \<Rightarrow>
            (let c' = c\<lparr>c_front := StBody\<rparr>
             in if has_physical_root c then
                  (Some RootDir, c'\<lparr>c_path := drop 1 (c_path c)\<rparr>)
                else if include_cur_dir c' then
                  (Some CurDir, c'\<lparr>c_path := drop 1 (c_path c)\<rparr>)
                else comp_next c')
        | _ \<Rightarrow> (None, c)))"
  by pat_completeness auto
termination
  by (relation "measure (\<lambda>c. length (c_path c) + (3 - state_rank (c_front c)))")
    (auto dest: parse_next_size)

function comp_next_back :: "components \<Rightarrow> component option \<times> components" where
  "comp_next_back c =
     (if finished c then (None, c)
      else (case c_back c of
          StBody \<Rightarrow>
            (if len_before_body c < length (c_path c) then
               (let (n, piece) = parse_next_component_back c;
                    c' = c\<lparr>c_path := take (length (c_path c) - n) (c_path c)\<rparr>
                in if piece \<noteq> None then (piece, c') else comp_next_back c')
             else comp_next_back (c\<lparr>c_back := StStartDir\<rparr>))
        | StStartDir \<Rightarrow>
            (let c' = c\<lparr>c_back := StDone\<rparr>
             in if has_physical_root c then
                  (Some RootDir, c'\<lparr>c_path := take (length (c_path c) - 1) (c_path c)\<rparr>)
                else if include_cur_dir c' then
                  (Some CurDir, c'\<lparr>c_path := take (length (c_path c) - 1) (c_path c)\<rparr>)
                else comp_next_back c')
        | _ \<Rightarrow> (None, c)))"
  by pat_completeness auto
termination
  by (relation "measure (\<lambda>c. length (c_path c)
        + (case c_back c of StBody \<Rightarrow> 2 | StStartDir \<Rightarrow> 1 | _ \<Rightarrow> 0))")
    (auto dest: parse_next_back_size)

declare comp_next.simps [simp del] comp_next_back.simps [simp del]

section \<open>Iteration, case by case\<close>

text \<open>
  One rule for each of the two loops: how the call is resolved in each state of the machine. The
  proofs about the iterators go by these cases.
\<close>

definition iter_measure :: "components \<Rightarrow> nat" where
  "iter_measure c = length (c_path c) + (3 - state_rank (c_front c))
     + (case c_back c of StBody \<Rightarrow> 2 | StStartDir \<Rightarrow> 1 | _ \<Rightarrow> 0)"

lemma comp_next_induct [case_names Finished Prefix Root Cur Start Empty Piece Skip]:
  assumes fin: "\<And>c. finished c \<Longrightarrow> comp_next c = (None, c) \<Longrightarrow> P c"
    and prefix: "\<And>c. c_front c = StPrefix \<Longrightarrow> comp_next c = (None, c) \<Longrightarrow> P c"
    and root: "\<And>c. \<not> finished c \<Longrightarrow> c_front c = StStartDir \<Longrightarrow> has_physical_root c \<Longrightarrow>
        comp_next c = (Some RootDir, c\<lparr>c_front := StBody, c_path := drop 1 (c_path c)\<rparr>) \<Longrightarrow> P c"
    and cur: "\<And>c. \<not> finished c \<Longrightarrow> c_front c = StStartDir \<Longrightarrow> include_cur_dir c \<Longrightarrow>
        comp_next c = (Some CurDir, c\<lparr>c_front := StBody, c_path := drop 1 (c_path c)\<rparr>) \<Longrightarrow> P c"
    and start: "\<And>c. \<not> finished c \<Longrightarrow> c_front c = StStartDir \<Longrightarrow> \<not> has_physical_root c \<Longrightarrow>
        \<not> include_cur_dir c \<Longrightarrow> comp_next c = comp_next (c\<lparr>c_front := StBody\<rparr>) \<Longrightarrow>
        P (c\<lparr>c_front := StBody\<rparr>) \<Longrightarrow> P c"
    and empty: "\<And>c. \<not> finished c \<Longrightarrow> c_front c = StBody \<Longrightarrow> c_path c = [] \<Longrightarrow>
        comp_next c = (None, c\<lparr>c_front := StDone\<rparr>) \<Longrightarrow> P c"
    and piece: "\<And>c n x. \<not> finished c \<Longrightarrow> c_front c = StBody \<Longrightarrow> c_path c \<noteq> [] \<Longrightarrow>
        parse_next_component c = (n, Some x) \<Longrightarrow> 0 < n \<Longrightarrow>
        comp_next c = (Some x, c\<lparr>c_path := drop n (c_path c)\<rparr>) \<Longrightarrow> P c"
    and skip: "\<And>c n. \<not> finished c \<Longrightarrow> c_front c = StBody \<Longrightarrow> c_path c \<noteq> [] \<Longrightarrow>
        parse_next_component c = (n, None) \<Longrightarrow> 0 < n \<Longrightarrow>
        comp_next c = comp_next (c\<lparr>c_path := drop n (c_path c)\<rparr>) \<Longrightarrow>
        P (c\<lparr>c_path := drop n (c_path c)\<rparr>) \<Longrightarrow> P c"
  shows "P c"
proof (induction c rule: measure_induct_rule [of iter_measure])
  case (less c)
  show ?case
  proof (cases "finished c")
    case True
    then show ?thesis by - (rule fin, simp_all, (subst comp_next.simps, simp)?)
  next
    case nf: False
    show ?thesis
    proof (cases "c_front c")
      case StPrefix
      with nf show ?thesis by - (rule prefix, simp_all, (subst comp_next.simps, simp)?)
    next
      case StStartDir
      have cur_eq: "include_cur_dir (c\<lparr>c_front := StBody\<rparr>) = include_cur_dir c"
        by (simp add: include_cur_dir_def)
      consider "has_physical_root c" | "\<not> has_physical_root c" "include_cur_dir c"
        | "\<not> has_physical_root c" "\<not> include_cur_dir c" by blast
      then show ?thesis
      proof cases
        case 1
        with nf StStartDir show ?thesis by - (rule root, simp_all, (subst comp_next.simps, simp)?)
      next
        case 2
        with nf StStartDir cur_eq show ?thesis
          by - (rule cur, simp_all, (subst comp_next.simps, simp)?)
      next
        case 3
        have "P (c\<lparr>c_front := StBody\<rparr>)"
          using StStartDir by (intro less) (simp add: iter_measure_def)
        with 3 nf StStartDir cur_eq show ?thesis
          by - (rule start, simp_all, (subst comp_next.simps, simp)?)
      qed
    next
      case StBody
      show ?thesis
      proof (cases "c_path c = []")
        case True
        have "finished (c\<lparr>c_front := StDone\<rparr>)" by (simp add: finished_def)
        then have "comp_next (c\<lparr>c_front := StDone\<rparr>) = (None, c\<lparr>c_front := StDone\<rparr>)"
          by (simp add: comp_next.simps)
        with True nf StBody show ?thesis by - (rule empty, simp_all, (subst comp_next.simps, simp)?)
      next
        case False
        obtain n y where p: "parse_next_component c = (n, y)" by fastforce
        with False have n: "0 < n" by (metis parse_next_size)
        show ?thesis
        proof (cases y)
          case None
          have "P (c\<lparr>c_path := drop n (c_path c)\<rparr>)"
            using n False by (intro less) (simp add: iter_measure_def)
          with None False nf StBody p n show ?thesis
            by - (rule skip [of c n], simp_all, (subst comp_next.simps, simp)?)
        next
          case (Some x)
          with False nf StBody p n show ?thesis
            by - (rule piece [of c n x], simp_all, (subst comp_next.simps, simp)?)
        qed
      qed
    next
      case StDone
      with nf show ?thesis by (simp add: finished_def)
    qed
  qed
qed

lemma comp_next_decreases: "comp_next c = (Some x, c') \<Longrightarrow> iter_measure c' < iter_measure c"
proof (induction c rule: comp_next_induct)
  case (Piece c n x)
  then show ?case by (auto simp: iter_measure_def)
next
  case (Skip c n)
  then have "iter_measure c' < iter_measure (c\<lparr>c_path := drop n (c_path c)\<rparr>)" by simp
  with Skip show ?case by (simp add: iter_measure_def)
qed (auto simp: iter_measure_def)

lemma comp_next_back_induct [case_names Finished Prefix Root Cur Start Empty Piece Skip]:
  assumes fin: "\<And>c. finished c \<Longrightarrow> comp_next_back c = (None, c) \<Longrightarrow> P c"
    and prefix: "\<And>c. c_back c = StPrefix \<Longrightarrow> comp_next_back c = (None, c) \<Longrightarrow> P c"
    and root: "\<And>c. \<not> finished c \<Longrightarrow> c_back c = StStartDir \<Longrightarrow> has_physical_root c \<Longrightarrow>
        comp_next_back c = (Some RootDir,
          c\<lparr>c_back := StDone, c_path := take (length (c_path c) - 1) (c_path c)\<rparr>) \<Longrightarrow> P c"
    and cur: "\<And>c. \<not> finished c \<Longrightarrow> c_back c = StStartDir \<Longrightarrow> include_cur_dir c \<Longrightarrow>
        comp_next_back c = (Some CurDir,
          c\<lparr>c_back := StDone, c_path := take (length (c_path c) - 1) (c_path c)\<rparr>) \<Longrightarrow> P c"
    and start: "\<And>c. \<not> finished c \<Longrightarrow> c_back c = StStartDir \<Longrightarrow> \<not> has_physical_root c \<Longrightarrow>
        \<not> include_cur_dir c \<Longrightarrow> comp_next_back c = (None, c\<lparr>c_back := StDone\<rparr>) \<Longrightarrow> P c"
    and empty: "\<And>c. \<not> finished c \<Longrightarrow> c_back c = StBody \<Longrightarrow> length (c_path c) \<le> len_before_body c \<Longrightarrow>
        comp_next_back c = comp_next_back (c\<lparr>c_back := StStartDir\<rparr>) \<Longrightarrow>
        P (c\<lparr>c_back := StStartDir\<rparr>) \<Longrightarrow> P c"
    and piece: "\<And>c n x. \<not> finished c \<Longrightarrow> c_back c = StBody \<Longrightarrow> len_before_body c < length (c_path c) \<Longrightarrow>
        parse_next_component_back c = (n, Some x) \<Longrightarrow> 0 < n \<Longrightarrow> comp_next_back c =
          (Some x, c\<lparr>c_path := take (length (c_path c) - n) (c_path c)\<rparr>) \<Longrightarrow> P c"
    and skip: "\<And>c n. \<not> finished c \<Longrightarrow> c_back c = StBody \<Longrightarrow> len_before_body c < length (c_path c) \<Longrightarrow>
        parse_next_component_back c = (n, None) \<Longrightarrow> 0 < n \<Longrightarrow> comp_next_back c =
          comp_next_back (c\<lparr>c_path := take (length (c_path c) - n) (c_path c)\<rparr>) \<Longrightarrow>
        P (c\<lparr>c_path := take (length (c_path c) - n) (c_path c)\<rparr>) \<Longrightarrow> P c"
  shows "P c"
proof (induction c rule: measure_induct_rule [of iter_measure])
  case (less c)
  show ?case
  proof (cases "finished c")
    case True
    then show ?thesis by - (rule fin, simp_all, (subst comp_next_back.simps, simp)?)
  next
    case nf: False
    show ?thesis
    proof (cases "c_back c")
      case StPrefix
      with nf show ?thesis by - (rule prefix, simp_all, (subst comp_next_back.simps, simp)?)
    next
      case StStartDir
      have cur_eq: "include_cur_dir (c\<lparr>c_back := StDone\<rparr>) = include_cur_dir c"
        by (simp add: include_cur_dir_def)
      have "finished (c\<lparr>c_back := StDone\<rparr>)" by (simp add: finished_def)
      then have d: "comp_next_back (c\<lparr>c_back := StDone\<rparr>) = (None, c\<lparr>c_back := StDone\<rparr>)"
        by (simp add: comp_next_back.simps)
      consider "has_physical_root c" | "\<not> has_physical_root c" "include_cur_dir c"
        | "\<not> has_physical_root c" "\<not> include_cur_dir c" by blast
      then show ?thesis
      proof cases
        case 1
        with nf StStartDir show ?thesis
          by - (rule root, simp_all, (subst comp_next_back.simps, simp)?)
      next
        case 2
        with nf StStartDir cur_eq show ?thesis
          by - (rule cur, simp_all, (subst comp_next_back.simps, simp)?)
      next
        case 3
        with nf StStartDir cur_eq d show ?thesis
          by - (rule start, simp_all, (subst comp_next_back.simps, simp)?)
      qed
    next
      case StBody
      show ?thesis
      proof (cases "length (c_path c) \<le> len_before_body c")
        case True
        have "P (c\<lparr>c_back := StStartDir\<rparr>)"
          using StBody by (intro less) (simp add: iter_measure_def)
        with True nf StBody show ?thesis
          by - (rule empty, simp_all, (subst comp_next_back.simps, simp)?)
      next
        case False
        obtain n y where p: "parse_next_component_back c = (n, y)" by fastforce
        with False have n: "0 < n" "c_path c \<noteq> []" by (metis parse_next_back_size not_le)+
        show ?thesis
        proof (cases y)
          case None
          have "P (c\<lparr>c_path := take (length (c_path c) - n) (c_path c)\<rparr>)"
            using n False by (intro less) (simp add: iter_measure_def)
          with None False nf StBody p n show ?thesis
            by - (rule skip [of c n], simp_all, (subst comp_next_back.simps, simp)?)
        next
          case (Some x)
          with False nf StBody p n show ?thesis
            by - (rule piece [of c n x], simp_all, (subst comp_next_back.simps, simp)?)
        qed
      qed
    next
      case StDone
      with nf show ?thesis by (simp add: finished_def)
    qed
  qed
qed

lemma comp_next_back_decreases:
  "comp_next_back c = (Some x, c') \<Longrightarrow> iter_measure c' < iter_measure c"
proof (induction c rule: comp_next_back_induct)
  case (Piece c n x)
  then show ?case by (auto simp: iter_measure_def)
next
  case (Skip c n)
  then have "iter_measure c' < iter_measure (c\<lparr>c_path := take (length (c_path c) - n) (c_path c)\<rparr>)"
    by simp
  with Skip show ?case by (simp add: iter_measure_def)
next
  case (Empty c)
  then have "iter_measure c' < iter_measure (c\<lparr>c_back := StStartDir\<rparr>)" by simp
  with Empty show ?case by (simp add: iter_measure_def)
qed (auto simp: iter_measure_def)

section \<open>Specification: the components of a path\<close>

definition body_comps :: "bytes \<Rightarrow> component list" where
  "body_comps bs = List.map_filter parse_single_component (split_on SLASH bs)"

definition starts_cur :: "bytes \<Rightarrow> bool" where
  "starts_cur p \<longleftrightarrow> p = [DOT] \<or> take 2 p = [DOT, SLASH]"

definition path_components :: "path \<Rightarrow> component list" where
  "path_components p =
     (if physical_root p then RootDir # body_comps (drop 1 p)
      else if starts_cur p then CurDir # body_comps (drop 1 p)
      else body_comps p)"

definition start_comps :: "components \<Rightarrow> component list" where
  "start_comps c =
     (if c_front c \<noteq> StStartDir then []
      else if has_physical_root c then [RootDir]
      else if include_cur_dir c then [CurDir] else [])"

definition pending :: "components \<Rightarrow> component list" where
  "pending c = (if finished c then []
     else start_comps c @
       (if c_back c = StBody then body_comps (drop (len_before_body c) (c_path c)) else []))"

definition no_prefix_state :: "components \<Rightarrow> bool" where
  "no_prefix_state c \<longleftrightarrow> c_front c \<noteq> StPrefix \<and> c_back c \<noteq> StPrefix"

lemma include_cur_dir_starts:
  "include_cur_dir c \<longleftrightarrow> \<not> has_physical_root c \<and> starts_cur (c_path c)"
proof (cases "c_path c")
  case (Cons a r)
  then show ?thesis
    by (cases r) (auto simp: include_cur_dir_def starts_cur_def is_sep_byte_def)
qed (simp add: include_cur_dir_def starts_cur_def)

lemma body_comps_Nil [simp]: "body_comps [] = []"
  by (simp add: body_comps_def map_filter_simps parse_single_component_def)

lemma body_comps_no_sep: "SLASH \<notin> set bs \<Longrightarrow>
   body_comps bs = (case parse_single_component bs of None \<Rightarrow> [] | Some x \<Rightarrow> [x])"
  by (simp add: body_comps_def split_on_no_sep map_filter_simps split: option.splits)

lemma split_on_append: "split_on s (xs @ s # ys) = split_on s xs @ split_on s ys"
proof (induction xs)
  case (Cons x xs)
  obtain p ps where "split_on s xs = p # ps" by (meson split_on_not_Nil neq_Nil_conv)
  with Cons show ?case by simp
qed simp

lemma map_filter_append: "List.map_filter f (xs @ ys) = List.map_filter f xs @ List.map_filter f ys"
  by (simp add: List.map_filter_def)

lemma body_comps_append: "body_comps (xs @ SLASH # ys) = body_comps xs @ body_comps ys"
  by (simp add: body_comps_def split_on_append map_filter_append)

lemma rposition_Some_split:
  assumes "rposition p xs = Some i"
  shows "i < length xs" "p (xs ! i)" "\<forall>x\<in>set (drop (Suc i) xs). \<not> p x"
proof -
  obtain j where j: "position p (rev xs) = Some j" and i: "i = length xs - 1 - j"
    using assms by (auto simp: rposition_def)
  from position_SomeD [OF j] have "j < length xs" "p (rev xs ! j)"
    "\<forall>x\<in>set (take j (rev xs)). \<not> p x" by auto
  then show "i < length xs" "p (xs ! i)" "\<forall>x\<in>set (drop (Suc i) xs). \<not> p x"
    using i by (auto simp: rev_nth take_rev Suc_diff_Suc)
qed

lemma rposition_None: "rposition p xs = None \<longleftrightarrow> (\<forall>x\<in>set xs. \<not> p x)"
  by (simp add: rposition_def)

lemma parse_next_body:
  assumes "parse_next_component c = (n, y)"
  shows "body_comps (c_path c) = (case y of None \<Rightarrow> [] | Some x \<Rightarrow> [x]) @ body_comps (drop n (c_path c))"
proof (cases "position is_sep_byte (c_path c)")
  case None
  with assms show ?thesis
    by (auto simp: parse_next_component_def body_comps_no_sep is_sep_byte_def)
next
  case (Some i)
  obtain z r where z: "c_path c = take i (c_path c) @ z # r" "is_sep_byte z"
    "\<forall>x\<in>set (take i (c_path c)). \<not> is_sep_byte x" "drop (Suc i) (c_path c) = r"
    by (rule position_Some_split [OF Some])
  let ?t = "take i (c_path c)"
  have i: "i < length (c_path c)" using position_SomeD [OF Some] by simp
  have no: "SLASH \<notin> set ?t" and sl: "z = SLASH" using z by (auto simp: is_sep_byte_def)
  have "n = Suc i" "y = parse_single_component ?t"
    using assms Some i by (auto simp: parse_next_component_def)
  moreover have "body_comps (c_path c) = body_comps ?t @ body_comps r"
    using body_comps_append [of ?t r] z(1) sl by simp
  ultimately show ?thesis using body_comps_no_sep [OF no] z(4) by simp
qed

lemma parse_next_back_body:
  assumes "parse_next_component_back c = (n, y)" "len_before_body c < length (c_path c)"
  defines "l \<equiv> len_before_body c" and "m \<equiv> length (c_path c) - n"
  shows "body_comps (drop l (c_path c)) = body_comps (drop l (take m (c_path c)))
           @ (case y of None \<Rightarrow> [] | Some x \<Rightarrow> [x])"
    and "l \<le> m" and "m = l \<or> (m < length (c_path c) \<and> c_path c ! m = SLASH)"
proof -
  let ?b = "drop l (c_path c)"
  have "(body_comps ?b = body_comps (drop l (take m (c_path c)))
           @ (case y of None \<Rightarrow> [] | Some x \<Rightarrow> [x])) \<and> l \<le> m
     \<and> (m = l \<or> (m < length (c_path c) \<and> c_path c ! m = SLASH))"
  proof (cases "rposition is_sep_byte ?b")
    case None
    then have "SLASH \<notin> set ?b" by (auto simp: rposition_None is_sep_byte_def)
    with None assms(1,2) show ?thesis
      by (auto simp: parse_next_component_back_def l_def m_def body_comps_no_sep)
  next
    case (Some i)
    note sp = rposition_Some_split [OF Some]
    have no: "SLASH \<notin> set (drop (Suc i) ?b)" using sp by (auto simp: is_sep_byte_def)
    have n: "n = length ?b - i" "y = parse_single_component (drop (Suc i) ?b)"
      using assms(1) Some sp(1) by (auto simp: parse_next_component_back_def l_def)
    have m: "m = l + i" using n assms(2) sp(1) by (simp add: m_def l_def)
    have "?b = take i ?b @ SLASH # drop (Suc i) ?b"
      using id_take_nth_drop [OF sp(1)] sp(2) by (simp add: is_sep_byte_def)
    then have "body_comps ?b = body_comps (take i ?b) @ body_comps (drop (Suc i) ?b)"
      using body_comps_append by metis
    moreover have "drop l (take m (c_path c)) = take i ?b" by (simp add: m drop_take)
    moreover have "c_path c ! m = SLASH" "m < length (c_path c)"
      using sp(1,2) by (auto simp: m is_sep_byte_def)
    ultimately show ?thesis using n(2) m body_comps_no_sep [OF no] by simp
  qed
  then show "body_comps (drop l (c_path c)) = body_comps (drop l (take m (c_path c)))
           @ (case y of None \<Rightarrow> [] | Some x \<Rightarrow> [x])"
    "l \<le> m" "m = l \<or> (m < length (c_path c) \<and> c_path c ! m = SLASH)" by blast+
qed

lemma pending_next:
  "comp_next c = (r, c') \<Longrightarrow> no_prefix_state c \<Longrightarrow>
   pending c = (case r of None \<Rightarrow> [] | Some x \<Rightarrow> x # pending c') \<and> no_prefix_state c'"
proof (induction c rule: comp_next_induct)
  case (Finished c)
  then show ?case by (auto simp: pending_def)
next
  case (Prefix c)
  then show ?case by (simp add: no_prefix_state_def)
next
  case (Root c)
  then have "\<not> include_cur_dir c" by (simp add: include_cur_dir_def)
  with Root show ?case
    by (auto simp: pending_def start_comps_def len_before_body_def finished_def no_prefix_state_def
        Let_def split: pstate.splits)
next
  case (Cur c)
  then have "\<not> has_physical_root c" by (auto simp: include_cur_dir_starts)
  with Cur show ?case
    by (auto simp: pending_def start_comps_def len_before_body_def finished_def no_prefix_state_def
        Let_def)
next
  case (Start c)
  have "pending c = pending (c\<lparr>c_front := StBody\<rparr>)"
    using Start(1-4) Start.prems(2)
    by (cases "c_back c") (auto simp: pending_def start_comps_def len_before_body_def finished_def
        no_prefix_state_def)
  with Start show ?case by (auto simp: no_prefix_state_def)
next
  case (Empty c)
  then show ?case by (auto simp: pending_def start_comps_def no_prefix_state_def)
next
  case (Piece c n x)
  then show ?case using parse_next_body [of c n "Some x"]
    by (cases "c_back c") (auto simp: pending_def start_comps_def len_before_body_def finished_def no_prefix_state_def)
next
  case (Skip c n)
  have "pending c = pending (c\<lparr>c_path := drop n (c_path c)\<rparr>)"
    using Skip(1-4) parse_next_body [of c n None]
    by (cases "c_back c") (auto simp: pending_def start_comps_def len_before_body_def finished_def)
  with Skip show ?case by (auto simp: no_prefix_state_def)
qed

text \<open>
  Cutting the path at a separator (or at the start of the body) leaves the start of the path as
  it was read.
\<close>

lemma starts_cur_take:
  assumes "m < length p" "p ! m = SLASH"
  shows "starts_cur (take m p) = starts_cur p"
proof (cases p)
  case (Cons a r)
  with assms show ?thesis
    by (cases r; cases m; cases "m - 1") (auto simp: starts_cur_def)
qed (use assms in simp)

lemma back_cut_start:
  assumes "parse_next_component_back c = (n, y)" "len_before_body c < length (c_path c)"
    "c_front c = StStartDir"
  defines "m \<equiv> length (c_path c) - n"
  shows "include_cur_dir (c\<lparr>c_path := take m (c_path c)\<rparr>) = include_cur_dir c"
    and "len_before_body (c\<lparr>c_path := take m (c_path c)\<rparr>) = len_before_body c"
    and "has_physical_root c = physical_root (c_path c) \<Longrightarrow>
         physical_root (take m (c_path c)) = physical_root (c_path c)"
proof -
  note b = parse_next_back_body [OF assms(1,2), folded m_def]
  show cur: "include_cur_dir (c\<lparr>c_path := take m (c_path c)\<rparr>) = include_cur_dir c"
    using b(3)
  proof
    assume m: "m = len_before_body c"
    show ?thesis
    proof (cases "include_cur_dir c")
      case True
      then have "m = 1" "starts_cur (c_path c)"
        using m assms(3) by (auto simp: len_before_body_def include_cur_dir_starts)
      then show ?thesis using True
        by (cases "c_path c") (auto simp: include_cur_dir_starts starts_cur_def)
    next
      case False
      then have "has_physical_root c \<or> m = 0"
        using m assms(3) by (auto simp: len_before_body_def)
      with False show ?thesis by (auto simp: include_cur_dir_starts starts_cur_def)
    qed
  next
    assume "m < length (c_path c) \<and> c_path c ! m = SLASH"
    then show ?thesis using starts_cur_take [of m "c_path c"] by (simp add: include_cur_dir_starts)
  qed
  then show "len_before_body (c\<lparr>c_path := take m (c_path c)\<rparr>) = len_before_body c"
    by (simp add: len_before_body_def)
  show "physical_root (take m (c_path c)) = physical_root (c_path c)"
    if "has_physical_root c = physical_root (c_path c)"
  proof (cases "physical_root (c_path c)")
    case True
    with that have "1 \<le> len_before_body c" using assms(3) by (simp add: len_before_body_def)
    with b(2) True show ?thesis by (cases "c_path c"; cases m) (auto simp: physical_root_def)
  next
    case False
    then show ?thesis by (cases "c_path c"; cases m) (auto simp: physical_root_def)
  qed
qed

lemma pending_next_back:
  "comp_next_back c = (r, c') \<Longrightarrow> no_prefix_state c \<Longrightarrow>
   pending c = (case r of None \<Rightarrow> [] | Some x \<Rightarrow> pending c' @ [x]) \<and> no_prefix_state c'"
proof (induction c rule: comp_next_back_induct)
  case (Finished c)
  then show ?case by (auto simp: pending_def)
next
  case (Prefix c)
  then show ?case by (simp add: no_prefix_state_def)
next
  case (Root c)
  then show ?case
    by (cases "c_front c") (auto simp: pending_def start_comps_def finished_def no_prefix_state_def)
next
  case (Cur c)
  then have "\<not> has_physical_root c" by (auto simp: include_cur_dir_starts)
  with Cur show ?case
    by (cases "c_front c") (auto simp: pending_def start_comps_def finished_def no_prefix_state_def)
next
  case (Start c)
  then show ?case by (auto simp: pending_def start_comps_def no_prefix_state_def)
next
  case (Empty c)
  have "pending c = pending (c\<lparr>c_back := StStartDir\<rparr>)"
    using Empty(1-3) Empty.prems(2)
    by (cases "c_front c") (auto simp: pending_def start_comps_def finished_def
        no_prefix_state_def include_cur_dir_def)
  with Empty show ?case by (auto simp: no_prefix_state_def)
next
  case (Piece c n x)
  note b = parse_next_back_body(1) [OF Piece(4,3)] and cut = back_cut_start(1,2) [OF Piece(4,3)]
  show ?case
  proof (cases "c_front c")
    case StStartDir
    with Piece b cut show ?thesis
      by (auto simp: pending_def start_comps_def finished_def no_prefix_state_def)
  next
    case StBody
    with Piece b show ?thesis
      by (auto simp: pending_def start_comps_def finished_def no_prefix_state_def len_before_body_def)
  qed (use Piece in \<open>auto simp: no_prefix_state_def finished_def\<close>)
next
  case (Skip c n)
  note b = parse_next_back_body(1) [OF Skip(4,3)] and cut = back_cut_start(1,2) [OF Skip(4,3)]
  have "pending c = pending (c\<lparr>c_path := take (length (c_path c) - n) (c_path c)\<rparr>)"
  proof (cases "c_front c")
    case StStartDir
    with Skip(1,2) b cut show ?thesis
      by (auto simp: pending_def start_comps_def finished_def)
  next
    case StBody
    with Skip(1,2) b show ?thesis
      by (auto simp: pending_def start_comps_def finished_def len_before_body_def)
  qed (use Skip in \<open>auto simp: no_prefix_state_def finished_def\<close>)
  with Skip show ?case by (auto simp: no_prefix_state_def)
qed

text \<open>What the iterators of a path satisfy on the way, and what \<open>as_path\<close> then returns.\<close>

definition iter_ok :: "components \<Rightarrow> bool" where
  "iter_ok c \<longleftrightarrow> no_prefix_state c
     \<and> (c_front c = StStartDir \<and> c_back c = StBody \<longrightarrow> has_physical_root c = physical_root (c_path c))
     \<and> (c_back c \<noteq> StBody \<longrightarrow> c_front c = StStartDir \<longrightarrow> length (c_path c) \<le> len_before_body c)"

lemma iter_ok_path_iter [simp]: "iter_ok (path_iter p)"
  by (simp add: iter_ok_def path_iter_def no_prefix_state_def)

lemma pending_path_iter [simp]: "pending (path_iter p) = path_components p"
  by (auto simp: pending_def path_iter_def finished_def start_comps_def path_components_def
      len_before_body_def include_cur_dir_starts)

lemma starts_cur_prefix:
  assumes "m < length p \<and> p ! m = SLASH \<or> m = 0" "starts_cur (take m p)"
  shows "starts_cur p"
proof (cases "m = 0")
  case True
  with assms(2) show ?thesis by (simp add: starts_cur_def)
next
  case False
  with assms show ?thesis by (metis starts_cur_take)
qed

lemma trim_left_body:
  "c_front c = StBody \<Longrightarrow>
   body_comps (c_path (trim_left c)) = body_comps (c_path c)
   \<and> \<not> physical_root (c_path (trim_left c)) \<and> \<not> starts_cur (c_path (trim_left c))
   \<and> c_front (trim_left c) = StBody \<and> c_back (trim_left c) = c_back c
   \<and> has_physical_root (trim_left c) = has_physical_root c"
proof (induction c rule: trim_left.induct)
  case (1 c)
  show ?case
  proof (cases "c_path c = []")
    case True
    with "1.prems" show ?thesis
      by (simp add: trim_left.simps [of c] physical_root_def starts_cur_def)
  next
    case False
    obtain n y where p: "parse_next_component c = (n, y)" by fastforce
    show ?thesis
    proof (cases y)
      case None
      let ?d = "c\<lparr>c_path := drop n (c_path c)\<rparr>"
      have "trim_left c = trim_left ?d" using False p None by (subst trim_left.simps) simp
      moreover have "body_comps (c_path c) = body_comps (c_path ?d)"
        using parse_next_body [OF p] None by simp
      moreover have "body_comps (c_path (trim_left ?d)) = body_comps (c_path ?d)
         \<and> \<not> physical_root (c_path (trim_left ?d)) \<and> \<not> starts_cur (c_path (trim_left ?d))
         \<and> c_front (trim_left ?d) = StBody \<and> c_back (trim_left ?d) = c_back ?d
         \<and> has_physical_root (trim_left ?d) = has_physical_root ?d"
        using False p None "1.prems" by (intro "1.IH" [of "(n, y)" n y]) simp_all
      ultimately show ?thesis by simp
    next
      case (Some x)
      have "\<not> physical_root (c_path c) \<and> \<not> starts_cur (c_path c)"
        using p Some False
        by (cases "c_path c"; cases "tl (c_path c)")
          (auto simp: parse_next_component_def physical_root_def starts_cur_def is_sep_byte_def
            parse_single_component_def split: if_splits option.splits)
      with False p Some "1.prems" show ?thesis by (simp add: trim_left.simps [of c])
    qed
  qed
qed

lemma trim_right_start:
  "c_front c = StStartDir \<Longrightarrow> has_physical_root c = physical_root (c_path c) \<Longrightarrow>
   path_components (c_path (trim_right c)) = path_components (c_path c)"
proof (induction c rule: trim_right.induct)
  case (1 c)
  show ?case
  proof (cases "length (c_path c) \<le> len_before_body c")
    case True
    then show ?thesis by (simp add: trim_right.simps [of c])
  next
    case False
    obtain n y where p: "parse_next_component_back c = (n, y)" by fastforce
    show ?thesis
    proof (cases y)
      case None
      let ?m = "length (c_path c) - n"
      let ?d = "c\<lparr>c_path := take ?m (c_path c)\<rparr>"
      have l: "len_before_body c < length (c_path c)" using False by simp
      note b = parse_next_back_body [OF p l] and cut = back_cut_start [OF p l "1.prems"(1)]
      have "trim_right c = trim_right ?d" using False p None by (subst trim_right.simps) simp
      moreover have "path_components (c_path (trim_right ?d)) = path_components (c_path ?d)"
        using False p None "1.prems" cut(3) by (intro "1.IH" [of "(n, y)" n y]) simp_all
      moreover have "path_components (c_path ?d) = path_components (c_path c)"
        using b(1) cut None "1.prems"
        by (auto simp: path_components_def len_before_body_def include_cur_dir_starts split: if_splits)
      ultimately show ?thesis by simp
    next
      case (Some x)
      with False p show ?thesis by (simp add: trim_right.simps [of c])
    qed
  qed
qed

lemma trim_right_body:
  "c_front c = StBody \<Longrightarrow> \<not> physical_root (c_path c) \<Longrightarrow> \<not> starts_cur (c_path c) \<Longrightarrow>
   path_components (c_path (trim_right c)) = body_comps (c_path c)"
proof (induction c rule: trim_right.induct)
  case (1 c)
  have l0: "len_before_body c = 0" using "1.prems" by (simp add: len_before_body_def)
  show ?case
  proof (cases "c_path c = []")
    case True
    with l0 "1.prems" show ?thesis
      by (simp add: trim_right.simps [of c] path_components_def)
  next
    case False
    obtain n y where p: "parse_next_component_back c = (n, y)" by fastforce
    show ?thesis
    proof (cases y)
      case None
      let ?m = "length (c_path c) - n"
      let ?d = "c\<lparr>c_path := take ?m (c_path c)\<rparr>"
      have l: "len_before_body c < length (c_path c)" using False l0 by simp
      note b = parse_next_back_body [OF p l, unfolded l0]
      have "\<not> physical_root (c_path ?d)" using "1.prems"(2)
        by (cases "c_path c"; cases ?m) (auto simp: physical_root_def)
      moreover have "\<not> starts_cur (c_path ?d)"
        using starts_cur_prefix [of ?m "c_path c"] b(3) "1.prems"(3) by auto
      moreover have "trim_right c = trim_right ?d" using l p None by (subst trim_right.simps) simp
      ultimately have "path_components (c_path (trim_right c)) = body_comps (c_path ?d)"
        using l p None "1.prems" "1.IH" [of "(n, y)" n y] by simp
      then show ?thesis using b(1) None by simp
    next
      case (Some x)
      with False p l0 "1.prems" show ?thesis
        by (simp add: trim_right.simps [of c] path_components_def)
    qed
  qed
qed

theorem as_path_pending:
  assumes "iter_ok c" "c_back c = StBody" "c_front c \<noteq> StDone"
  shows "path_components (as_path c) = pending c"
proof (cases "c_front c")
  case StStartDir
  with assms have "as_path c = c_path (trim_right c)" "has_physical_root c = physical_root (c_path c)"
    by (auto simp: as_path_def iter_ok_def)
  moreover have "pending c = path_components (c_path c)"
    using StStartDir assms by (auto simp: pending_def finished_def start_comps_def iter_ok_def
        path_components_def len_before_body_def include_cur_dir_starts)
  ultimately show ?thesis using trim_right_start [OF StStartDir] by simp
next
  case StBody
  note t = trim_left_body [OF StBody]
  have "as_path c = c_path (trim_right (trim_left c))"
    using StBody assms(2) t by (simp add: as_path_def)
  moreover have "pending c = body_comps (c_path c)"
    using StBody assms by (simp add: pending_def finished_def start_comps_def len_before_body_def)
  ultimately show ?thesis using t trim_right_body by metis
qed (use assms in \<open>auto simp: iter_ok_def no_prefix_state_def\<close>)

end
