(* ===== verification/Path_Ops.thy ===== *)
theory Path_Ops
  imports Path_Core
begin

text \<open>
  The operations of \<open>std::path\<close> the AROS layer and its callers use, built on the iterator of
  \<open>Path_Core\<close> as the code builds them: \<open>parent\<close>, \<open>file_name\<close>, \<open>strip_prefix\<close>, \<open>push\<close>, \<open>join\<close>,
  \<open>pop\<close>, the file name and extension editing; and \<open>is_absolute\<close> with its AROS notion of a volume
  (\<open>sys/path/aros.rs\<close>). The lemmas give each of them as an operation on the list of components.
\<close>

section \<open>Absolute paths\<close>

definition volume_len :: "path \<Rightarrow> nat option" where
  "volume_len p = (case position (\<lambda>b. b = COLON) p of
       None \<Rightarrow> None
     | Some colon \<Rightarrow> if list_ex is_sep_byte (take colon p) then None else Some (colon + 1))"

definition has_root :: "components \<Rightarrow> bool" where
  "has_root c \<longleftrightarrow> has_physical_root c"

definition path_has_root :: "path \<Rightarrow> bool" where
  "path_has_root p = has_root (path_iter p)"

definition is_absolute :: "path \<Rightarrow> bool" where
  "is_absolute p \<longleftrightarrow> volume_len p \<noteq> None \<or> path_has_root p"

section \<open>Taking a path apart\<close>

definition path_parent :: "path \<Rightarrow> path option" where
  "path_parent p = (case comp_next_back (path_iter p) of
       (Some (Normal _), c) \<Rightarrow> Some (as_path c)
     | (Some CurDir, c) \<Rightarrow> Some (as_path c)
     | (Some ParentDir, c) \<Rightarrow> Some (as_path c)
     | (_, _) \<Rightarrow> None)"

definition path_file_name :: "path \<Rightarrow> bytes option" where
  "path_file_name p = (case fst (comp_next_back (path_iter p)) of
       Some (Normal n) \<Rightarrow> Some n
     | _ \<Rightarrow> None)"

text \<open>
  \<open>iter_after\<close> on forward iterators, and on reversed ones (\<open>components().rev()\<close>).
\<close>

function iter_after :: "components \<Rightarrow> components \<Rightarrow> components option" where
  "iter_after it prefix =
     (case (comp_next it, comp_next prefix) of
        ((Some x, it'), (Some y, prefix')) \<Rightarrow> if x = y then iter_after it' prefix' else None
      | ((Some _, _), (None, _)) \<Rightarrow> Some it
      | ((None, _), (None, _)) \<Rightarrow> Some it
      | ((None, _), (Some _, _)) \<Rightarrow> None)"
  by pat_completeness auto
termination
  by (relation "measure (\<lambda>(a, b). iter_measure a)") (auto dest: comp_next_decreases [OF sym])

function iter_after_rev :: "components \<Rightarrow> components \<Rightarrow> components option" where
  "iter_after_rev it prefix =
     (case (comp_next_back it, comp_next_back prefix) of
        ((Some x, it'), (Some y, prefix')) \<Rightarrow> if x = y then iter_after_rev it' prefix' else None
      | ((Some _, _), (None, _)) \<Rightarrow> Some it
      | ((None, _), (None, _)) \<Rightarrow> Some it
      | ((None, _), (Some _, _)) \<Rightarrow> None)"
  by pat_completeness auto
termination
  by (relation "measure (\<lambda>(a, b). iter_measure a)") (auto dest: comp_next_back_decreases [OF sym])

declare iter_after.simps [simp del] iter_after_rev.simps [simp del]

definition strip_prefix :: "path \<Rightarrow> path \<Rightarrow> path option" where
  "strip_prefix p base = map_option as_path (iter_after (path_iter p) (path_iter base))"

definition path_starts_with :: "path \<Rightarrow> path \<Rightarrow> bool" where
  "path_starts_with p base \<longleftrightarrow> iter_after (path_iter p) (path_iter base) \<noteq> None"

definition path_ends_with :: "path \<Rightarrow> path \<Rightarrow> bool" where
  "path_ends_with p child \<longleftrightarrow> iter_after_rev (path_iter p) (path_iter child) \<noteq> None"

section \<open>Building a path\<close>

text \<open>
  \<open>PathBuf::push\<close>: with no prefixes the branches of \<open>C:\<close> and of verbatim paths are dead, and
  \<open>truncate(prefix_remaining())\<close> empties the buffer. \<open>has_root\<close> without \<open>is_absolute\<close> cannot
  happen, but the branch is there.
\<close>

definition path_push :: "path \<Rightarrow> path \<Rightarrow> path" where
  "path_push self p =
     (let need_sep = (if self = [] then False else \<not> is_sep_byte (last self));
          need_clear = is_absolute p;
          buf = (if need_clear then []
                 else if path_has_root p then []
                 else if need_sep then self @ [SLASH] else self)
      in buf @ p)"

definition path_join :: "path \<Rightarrow> path \<Rightarrow> path" where
  "path_join self p = path_push self p"

definition path_pop :: "path \<Rightarrow> bool \<times> path" where
  "path_pop self = (case path_parent self of
       Some p \<Rightarrow> (True, take (length p) self)
     | None \<Rightarrow> (False, self))"

definition set_file_name :: "path \<Rightarrow> bytes \<Rightarrow> path" where
  "set_file_name self name =
     (let self' = (if path_file_name self \<noteq> None then snd (path_pop self) else self)
      in path_push self' name)"

definition component_bytes :: "component \<Rightarrow> bytes" where
  "component_bytes c = (case c of
       RootDir \<Rightarrow> [SLASH] | CurDir \<Rightarrow> [DOT] | ParentDir \<Rightarrow> [DOT, DOT] | Normal n \<Rightarrow> n)"

fun path_extend :: "path \<Rightarrow> component list \<Rightarrow> path" where
  "path_extend p [] = p"
| "path_extend p (c # cs) = path_extend (path_push p (component_bytes c)) cs"

text \<open>\<open>rsplitn(2, '.')\<close> gives the part after the last dot first, then the part before it.\<close>

definition rsplit_file_at_dot :: "bytes \<Rightarrow> bytes option \<times> bytes option" where
  "rsplit_file_at_dot file =
     (if file = [DOT, DOT] then (Some file, None)
      else (let (before, after) = (case rposition (\<lambda>b. b = DOT) file of
              None \<Rightarrow> (None, Some file)
            | Some i \<Rightarrow> (Some (take i file), Some (drop (i + 1) file)))
        in if before = Some [] then (Some file, None) else (before, after)))"

definition file_stem :: "path \<Rightarrow> bytes option" where
  "file_stem p = (case path_file_name p of None \<Rightarrow> None
     | Some f \<Rightarrow> (case rsplit_file_at_dot f of
         (Some b, _) \<Rightarrow> Some b | (None, a) \<Rightarrow> a))"

definition path_extension :: "path \<Rightarrow> bytes option" where
  "path_extension p = (case path_file_name p of None \<Rightarrow> None
     | Some f \<Rightarrow> (case rsplit_file_at_dot f of
         (Some _, a) \<Rightarrow> a | (None, _) \<Rightarrow> None))"

definition has_trailing_sep :: "path \<Rightarrow> bool" where
  "has_trailing_sep p \<longleftrightarrow> p \<noteq> [] \<and> is_sep_byte (last p)"

text \<open>Collecting an iterator from either end.\<close>

function collect_components :: "components \<Rightarrow> component list" where
  "collect_components c =
     (case comp_next c of (None, _) \<Rightarrow> [] | (Some x, c') \<Rightarrow> x # collect_components c')"
  by pat_completeness auto
termination
  by (relation "measure iter_measure") (auto dest: comp_next_decreases [OF sym])

function collect_components_back :: "components \<Rightarrow> component list" where
  "collect_components_back c =
     (case comp_next_back c of (None, _) \<Rightarrow> [] | (Some x, c') \<Rightarrow> x # collect_components_back c')"
  by pat_completeness auto
termination
  by (relation "measure iter_measure") (auto dest: comp_next_back_decreases [OF sym])

declare collect_components.simps [simp del] collect_components_back.simps [simp del]

section \<open>The iterators against the list of components\<close>

lemma iter_ok_no_prefix: "iter_ok c \<Longrightarrow> no_prefix_state c"
  by (simp add: iter_ok_def)

lemma collect_pending: "no_prefix_state c \<Longrightarrow> collect_components c = pending c"
proof (induction c rule: collect_components.induct)
  case (1 c)
  obtain r c' where n: "comp_next c = (r, c')" by fastforce
  then show ?case
    using pending_next [OF n "1.prems"] "1.IH" [OF n [symmetric]]
    by (cases r) (auto simp: collect_components.simps [of c] dest: "1.IH")
qed

lemma collect_back_pending: "no_prefix_state c \<Longrightarrow> collect_components_back c = rev (pending c)"
proof (induction c rule: collect_components_back.induct)
  case (1 c)
  obtain r c' where n: "comp_next_back c = (r, c')" by fastforce
  then show ?case
    using pending_next_back [OF n "1.prems"] "1.IH" [OF n [symmetric]]
    by (cases r) (auto simp: collect_components_back.simps [of c] dest: "1.IH")
qed

lemma no_prefix_path_iter [simp]: "no_prefix_state (path_iter p)"
  by (simp add: iter_ok_no_prefix)

lemma collect_path_iter [path_simps]:
  "collect_components (path_iter p) = path_components p"
  "collect_components_back (path_iter p) = rev (path_components p)"
  by (simp_all add: collect_pending collect_back_pending)

lemma next_back_as_path:
  "comp_next_back c = (Some x, c') \<Longrightarrow> iter_ok c \<Longrightarrow> c_front c = StStartDir \<Longrightarrow> x \<noteq> RootDir \<Longrightarrow>
   path_components (as_path c') = pending c'"
proof (induction c rule: comp_next_back_induct)
  case (Cur c)
  then have "length (c_path c) \<le> 1"
    by (auto simp: iter_ok_def len_before_body_def include_cur_dir_starts)
  then have "c_path c' = []" "c_back c' = StDone" "c_front c' = StStartDir" using Cur by auto
  then show ?case
    by (simp add: as_path_def path_components_def pending_def finished_def physical_root_def
        starts_cur_def)
next
  case (Empty c)
  then have "iter_ok (c\<lparr>c_back := StStartDir\<rparr>)"
    by (auto simp: iter_ok_def no_prefix_state_def len_before_body_def include_cur_dir_def)
  with Empty show ?case by simp
next
  case (Piece c n y)
  note cut = back_cut_start [OF Piece(4,3) \<open>c_front c = StStartDir\<close>]
  have c': "c' = c\<lparr>c_path := take (length (c_path c) - n) (c_path c)\<rparr>" using Piece by simp
  have "iter_ok c'" using Piece cut(3) unfolding c' by (auto simp: iter_ok_def no_prefix_state_def)
  moreover have "c_back c' = StBody" "c_front c' \<noteq> StDone" using Piece unfolding c' by auto
  ultimately show ?case by (rule as_path_pending)
next
  case (Skip c n)
  note cut = back_cut_start [OF Skip(4,3) \<open>c_front c = StStartDir\<close>]
  have "iter_ok (c\<lparr>c_path := take (length (c_path c) - n) (c_path c)\<rparr>)"
    using Skip cut(3) by (auto simp: iter_ok_def no_prefix_state_def)
  with Skip show ?case by simp
qed auto

lemma next_keeps_ok:
  "comp_next c = (Some x, c') \<Longrightarrow> iter_ok c \<Longrightarrow> c_back c = StBody \<Longrightarrow> c_front c \<noteq> StDone \<Longrightarrow>
   iter_ok c' \<and> c_back c' = StBody \<and> c_front c' \<noteq> StDone"
proof (induction c rule: comp_next_induct)
  case (Start c)
  then have "iter_ok (c\<lparr>c_front := StBody\<rparr>)" by (auto simp: iter_ok_def no_prefix_state_def)
  with Start show ?case by simp
next
  case (Skip c n)
  then have "iter_ok (c\<lparr>c_path := drop n (c_path c)\<rparr>)" by (auto simp: iter_ok_def no_prefix_state_def)
  with Skip show ?case by simp
qed (auto simp: iter_ok_def no_prefix_state_def)

lemma iter_after_spec:
  "iter_ok it \<Longrightarrow> c_back it = StBody \<Longrightarrow> c_front it \<noteq> StDone \<Longrightarrow> no_prefix_state prefix \<Longrightarrow>
   (case iter_after it prefix of
      None \<Rightarrow> \<nexists>r. pending it = pending prefix @ r
    | Some it' \<Rightarrow> pending it = pending prefix @ pending it' \<and> iter_ok it'
        \<and> c_back it' = StBody \<and> c_front it' \<noteq> StDone)"
proof (induction it prefix rule: iter_after.induct)
  case (1 it prefix)
  obtain x it' where n: "comp_next it = (x, it')" by fastforce
  obtain y pr' where m: "comp_next prefix = (y, pr')" by fastforce
  note pn = pending_next [OF n iter_ok_no_prefix [OF "1.prems"(1)]]
  note pm = pending_next [OF m "1.prems"(4)]
  show ?case
  proof (cases x)
    case None
    with n m pn pm "1.prems" show ?thesis by (cases y) (auto simp: iter_after.simps [of it])
  next
    case (Some a)
    have ok: "iter_ok it' \<and> c_back it' = StBody \<and> c_front it' \<noteq> StDone"
      using next_keeps_ok [of it a it'] n Some "1.prems" by simp
    show ?thesis
    proof (cases y)
      case None
      with n m pn pm Some "1.prems" show ?thesis by (auto simp: iter_after.simps [of it])
    next
      case b: (Some b)
      show ?thesis
      proof (cases "a = b")
        case False
        with n m pn pm Some b "1.prems" show ?thesis by (auto simp: iter_after.simps [of it])
      next
        case True
        have "iter_after it prefix = iter_after it' pr'"
          using n m Some b True by (simp add: iter_after.simps [of it])
        moreover have "case iter_after it' pr' of
             None \<Rightarrow> \<nexists>r. pending it' = pending pr' @ r
           | Some it'' \<Rightarrow> pending it' = pending pr' @ pending it'' \<and> iter_ok it''
               \<and> c_back it'' = StBody \<and> c_front it'' \<noteq> StDone"
          using n m Some b True ok pm by (intro "1.IH") auto
        ultimately show ?thesis using pn pm Some b True by (auto split: option.splits)
      qed
    qed
  qed
qed

lemma trim_right_prefix: "\<exists>n. c_path (trim_right c) = take n (c_path c)"
proof (induction c rule: trim_right.induct)
  case (1 c)
  obtain n y where p: "parse_next_component_back c = (n, y)" by fastforce
  show ?case
  proof (cases "length (c_path c) \<le> len_before_body c \<or> y \<noteq> None")
    case True
    then have "trim_right c = c" using p by (auto simp: trim_right.simps [of c])
    then show ?thesis by (metis take_all order_refl)
  next
    case False
    let ?m = "length (c_path c) - n"
    have "trim_right c = trim_right (c\<lparr>c_path := take ?m (c_path c)\<rparr>)"
      using False p by (subst trim_right.simps) simp
    moreover obtain k where "c_path (trim_right (c\<lparr>c_path := take ?m (c_path c)\<rparr>))
        = take k (c_path (c\<lparr>c_path := take ?m (c_path c)\<rparr>))"
      using "1.IH" [of "(n, y)" n y] False p by auto
    ultimately have "c_path (trim_right c) = take (min k ?m) (c_path c)" by simp
    then show ?thesis by blast
  qed
qed

section \<open>Parent, file name, join and strip\<close>

lemma volume_len_None_root:
  "volume_len p = None \<Longrightarrow> \<not> path_has_root p \<Longrightarrow> \<not> is_absolute p"
  by (simp add: is_absolute_def)

lemma path_has_root_iff: "path_has_root p \<longleftrightarrow> physical_root p"
  by (simp add: path_has_root_def has_root_def path_iter_def)

lemma next_back_path_iter:
  assumes "comp_next_back (path_iter p) = (r, c)"
  shows "r = (if path_components p = [] then None else Some (last (path_components p)))"
    and "path_components p \<noteq> [] \<Longrightarrow> pending c = butlast (path_components p)"
  using pending_next_back [OF assms no_prefix_path_iter] by (auto split: option.splits)

lemma path_parent_components:
  "path_parent p = Some q \<Longrightarrow> path_components q = butlast (path_components p)"
  "path_parent p = None \<longleftrightarrow> path_components p = [] \<or> last (path_components p) = RootDir"
proof -
  obtain r c where n: "comp_next_back (path_iter p) = (r, c)" by fastforce
  note b = next_back_path_iter [OF n]
  have front: "c_front (path_iter p) = StStartDir" by (simp add: path_iter_def)
  show "path_components q = butlast (path_components p)" if "path_parent p = Some q"
    using that n b next_back_as_path [of "path_iter p" _ c, OF _ iter_ok_path_iter front]
    by (auto simp: path_parent_def split: option.splits component.splits if_splits)
  show "path_parent p = None \<longleftrightarrow> path_components p = [] \<or> last (path_components p) = RootDir"
    using n b by (auto simp: path_parent_def split: option.splits component.splits if_splits)
qed

lemma body_comps_no_cur: "CurDir \<notin> set (body_comps bs)" "RootDir \<notin> set (body_comps bs)"
  by (auto simp: body_comps_def List.map_filter_def parse_single_component_def split: if_splits)

lemma body_comps_starts_cur: "starts_cur p \<Longrightarrow> body_comps p = body_comps (drop 1 p)"
proof -
  assume "starts_cur p"
  then consider "p = [DOT]" | r where "p = [DOT] @ SLASH # r"
    by (cases p; cases "tl p") (auto simp: starts_cur_def)
  then show ?thesis
  proof cases
    case 1
    have "body_comps [DOT] = []" by (simp add: body_comps_no_sep parse_single_component_def)
    with 1 show ?thesis by simp
  next
    case 2
    have "body_comps [DOT] = []" by (simp add: body_comps_no_sep parse_single_component_def)
    with 2 body_comps_append [of "[DOT]" r] body_comps_append [of "[]" r] show ?thesis by simp
  qed
qed

lemma body_comps_root: "physical_root p \<Longrightarrow> body_comps p = body_comps (drop 1 p)"
  using body_comps_append [of "[]" "tl p"]
  by (cases p) (auto simp: physical_root_def is_sep_byte_def)

lemma body_comps_filter:
  "body_comps p = filter (\<lambda>c. c \<noteq> CurDir \<and> c \<noteq> RootDir) (path_components p)"
proof -
  have "filter (\<lambda>c. c \<noteq> CurDir \<and> c \<noteq> RootDir) (body_comps bs) = body_comps bs" for bs
    using body_comps_no_cur [of bs] by (metis (mono_tags, lifting) filter_id_conv)
  then show ?thesis
    using body_comps_root [of p] body_comps_starts_cur [of p] by (simp add: path_components_def)
qed

lemma path_components_sep:
  "path_components (x @ SLASH # q) = path_components (x @ [SLASH]) @ body_comps q"
proof -
  have root: "physical_root (x @ SLASH # q) = physical_root (x @ [SLASH])"
    by (cases x) (auto simp: physical_root_def)
  have cur: "starts_cur (x @ SLASH # q) = starts_cur (x @ [SLASH])"
    by (cases x; cases "tl x") (auto simp: starts_cur_def)
  have body: "body_comps (drop 1 (x @ SLASH # q)) = body_comps (drop 1 (x @ [SLASH])) @ body_comps q"
    if "x \<noteq> []"
    using that body_comps_append [of "tl x" q] body_comps_append [of "tl x" "[]"] by (cases x) auto
  show ?thesis
  proof (cases "x = []")
    case True
    then show ?thesis by (simp add: path_components_def physical_root_def is_sep_byte_def)
  next
    case False
    with root cur body body_comps_append [of x q] body_comps_append [of x "[]"] show ?thesis
      by (simp add: path_components_def)
  qed
qed

lemma path_components_trailing: "x \<noteq> [] \<Longrightarrow> path_components (x @ [SLASH]) = path_components x"
proof -
  assume x: "x \<noteq> []"
  have root: "physical_root (x @ [SLASH]) = physical_root x"
    using x by (cases x) (auto simp: physical_root_def)
  have cur: "starts_cur (x @ [SLASH]) = starts_cur x"
    using x by (cases x; cases "tl x") (auto simp: starts_cur_def)
  have body: "body_comps (drop 1 (x @ [SLASH])) = body_comps (drop 1 x)"
    using x body_comps_append [of "tl x" "[]"] by (cases x) auto
  show ?thesis using root cur body body_comps_append [of x "[]"] by (simp add: path_components_def)
qed

lemma join_components [path_simps]:
  assumes "\<not> is_absolute q"
  shows "path_components (path_join p q) =
    (if p = [] then path_components q
     else path_components p @ filter (\<lambda>c. c \<noteq> CurDir) (path_components q))"
proof -
  have nr: "\<not> path_has_root q" using assms by (simp add: is_absolute_def)
  then have nroot: "RootDir \<notin> set (path_components q)"
    using body_comps_no_cur by (auto simp: path_components_def path_has_root_iff)
  have fil: "filter (\<lambda>c. c \<noteq> CurDir) (path_components q) = body_comps q"
    unfolding body_comps_filter using nroot by (auto intro!: filter_cong)
  show ?thesis
  proof (cases "p = []")
    case True
    with assms nr show ?thesis by (simp add: path_join_def path_push_def)
  next
    case False
    show ?thesis
    proof (cases "is_sep_byte (last p)")
      case True
      then have p: "p = butlast p @ [SLASH]"
        using False by (metis append_butlast_last_id is_sep_byte_def)
      then have pq: "p @ q = butlast p @ SLASH # q" by (metis append.assoc append_Cons append_Nil)
      have "path_components (p @ q) = path_components p @ body_comps q"
        unfolding pq path_components_sep p [symmetric] by simp
      then show ?thesis
        using True False assms nr fil
        by (simp add: path_join_def path_push_def)
    next
      case nosep: False
      then show ?thesis
        using False assms nr fil path_components_sep [of p q] path_components_trailing [of p]
        by (simp add: path_join_def path_push_def)
    qed
  qed
qed

lemma strip_prefix_components:
  "strip_prefix p base = None \<Longrightarrow> \<nexists>r. path_components p = path_components base @ r"
  "strip_prefix p base = Some r \<Longrightarrow> path_components p = path_components base @ path_components r"
proof -
  have i: "c_back (path_iter p) = StBody" "c_front (path_iter p) \<noteq> StDone"
    by (simp_all add: path_iter_def)
  note sp = iter_after_spec [OF iter_ok_path_iter i no_prefix_path_iter, of base]
  show "\<nexists>r. path_components p = path_components base @ r" if "strip_prefix p base = None"
    using that sp by (auto simp: strip_prefix_def split: option.splits)
  show "path_components p = path_components base @ path_components r"
    if "strip_prefix p base = Some r"
    using that sp by (auto simp: strip_prefix_def as_path_pending split: option.splits)
qed

lemma strip_prefix_None:
  "strip_prefix p base = None \<longleftrightarrow> (\<nexists>r. path_components p = path_components base @ r)"
  using strip_prefix_components by (cases "strip_prefix p base") auto

section \<open>Properties\<close>

text \<open>
  C22: The component iterator is double-ended and consistent. On every path, collecting from the
  front yields exactly the components of the specification (a root or a leading dot, then the
  separator-delimited pieces without the empty ones and the dots), and collecting from the back
  yields the same list reversed.
\<close>

theorem components_from_both_ends:
  "collect_components (path_iter p) = path_components p
   \<and> collect_components_back (path_iter p) = rev (path_components p)"
  by (simp add: path_simps)

text \<open>
  \<open>parent\<close> removes exactly the last component, and \<open>file_name\<close> is that component when it is a
  normal one. There is no parent exactly for the empty path and the root.
\<close>

lemma path_parent_file_name:
  "(case path_parent p of
      None \<Rightarrow> path_components p \<in> {[], [RootDir]}
    | Some q \<Rightarrow> path_components p = path_components q @ [last (path_components p)]
        \<and> last (path_components p) \<noteq> RootDir)
   \<and> path_file_name p = (case rev (path_components p) of Normal n # _ \<Rightarrow> Some n | _ \<Rightarrow> None)"
proof -
  obtain r c where n: "comp_next_back (path_iter p) = (r, c)" by fastforce
  note b = next_back_path_iter [OF n]
  have root: "path_components p = [RootDir]"
    if "path_components p \<noteq> []" "last (path_components p) = RootDir"
    using that body_comps_no_cur(2) last_in_set
    by (fastforce simp: path_components_def split: if_splits)
  have "path_file_name p = (case rev (path_components p) of Normal n # _ \<Rightarrow> Some n | _ \<Rightarrow> None)"
    using n b(1) by (cases "path_components p" rule: rev_cases)
      (auto simp: path_file_name_def split: component.splits)
  moreover have "case path_parent p of None \<Rightarrow> path_components p \<in> {[], [RootDir]}
    | Some q \<Rightarrow> path_components p = path_components q @ [last (path_components p)]
        \<and> last (path_components p) \<noteq> RootDir"
  proof (cases "path_parent p")
    case None
    with root show ?thesis using path_parent_components(2) [of p] by auto
  next
    case (Some q)
    with path_parent_components [of p] have "path_components p \<noteq> []"
      "last (path_components p) \<noteq> RootDir" "path_components q = butlast (path_components p)" by auto
    with Some show ?thesis by simp
  qed
  ultimately show ?thesis by simp
qed

text \<open>
  Joining a relative path to a non-empty base and stripping the base again gives back a path
  with the components of what was joined, up to a leading dot, which \<open>join\<close> absorbs.
\<close>

lemma strip_prefix_join:
  assumes "\<not> is_absolute q" "p \<noteq> []"
  shows "\<exists>r. strip_prefix (path_join p q) p = Some r
    \<and> path_components r = filter (\<lambda>c. c \<noteq> CurDir) (path_components q)"
proof (cases "strip_prefix (path_join p q) p")
  case None
  with assms show ?thesis by (simp add: strip_prefix_None join_components)
next
  case (Some r)
  with assms strip_prefix_components(2) [OF Some] show ?thesis by (simp add: join_components)
qed

theorem strip_prefix_join_witness:
  "\<exists>r. strip_prefix (path_join (ascii ''SYS:'') (ascii ''./C//List'')) (ascii ''SYS:'') = Some r
    \<and> path_components r = filter (\<lambda>c. c \<noteq> CurDir) (path_components (ascii ''./C//List''))"
  by (rule strip_prefix_join) (simp_all add: is_absolute_def volume_len_def path_has_root_iff
      physical_root_def is_sep_byte_def)

text \<open>
  The parent of a file that sits directly in a volume is the empty path: \<open>parent\<close> does not
  know volumes, so an absolute path has a relative parent (the current directory), and
  \<open>set_file_name\<close> drops the volume. The \<open>unix\<close> separator rules and the AROS notion of
  \<open>is_absolute\<close> disagree here.
\<close>

lemma volume_file_parent_relative:
  assumes "SLASH \<notin> set vol" "COLON \<notin> set vol" "SLASH \<notin> set name" "\<not> is_absolute other"
  shows "is_absolute (vol @ COLON # name) \<and> path_parent (vol @ COLON # name) = Some []
    \<and> \<not> is_absolute [] \<and> set_file_name (vol @ COLON # name) other = other"
proof -
  let ?p = "vol @ COLON # name"
  have pos: "position (\<lambda>b. b = COLON) ?p = Some (length vol)"
    using assms(2) by (intro position_first) auto
  have "\<not> list_ex is_sep_byte vol" using assms(1) by (auto simp: list_ex_iff is_sep_byte_def)
  then have abs: "is_absolute ?p" using pos by (simp add: is_absolute_def volume_len_def)
  have nosep: "\<forall>x\<in>set ?p. \<not> is_sep_byte x" using assms(1,3) by (auto simp: is_sep_byte_def)
  have colon: "?p \<noteq> []" "?p \<noteq> [DOT]" "?p \<noteq> [DOT, DOT]" by (auto simp: append_eq_Cons_conv)
  have slash: "SLASH \<notin> set ?p" using assms(1,3) by auto
  then have "take 2 ?p \<noteq> [DOT, SLASH]" by (metis in_set_takeD list.set_intros)
  moreover have "\<not> physical_root ?p"
    using slash colon(1) by (metis hd_in_set is_sep_byte_def physical_root_def)
  ultimately have proper: "?p \<noteq> []" "?p \<noteq> [DOT]" "?p \<noteq> [DOT, DOT]" "\<not> starts_cur ?p"
    "\<not> physical_root ?p"
    using colon by (auto simp: starts_cur_def)
  have l0: "len_before_body (path_iter ?p) = 0"
    using proper by (simp add: len_before_body_def path_iter_def include_cur_dir_starts)
  have "rposition is_sep_byte ?p = None" using nosep by (simp add: rposition_None)
  then have "parse_next_component_back (path_iter ?p) = (length ?p, Some (Normal ?p))"
    using l0 proper by (simp add: parse_next_component_back_def path_iter_def parse_single_component_def)
  then have nb: "comp_next_back (path_iter ?p) = (Some (Normal ?p), (path_iter ?p)\<lparr>c_path := []\<rparr>)"
    using l0 proper(1) by (subst comp_next_back.simps) (simp add: finished_def path_iter_def)
  have par: "path_parent ?p = Some []"
    using nb by (simp add: path_parent_def as_path_def path_iter_def trim_right.simps)
  have fn: "path_file_name ?p = Some ?p" using nb by (simp add: path_file_name_def)
  have "\<not> path_has_root other" using assms(4) by (simp add: is_absolute_def)
  then have "set_file_name ?p other = other"
    using par fn assms(4) by (simp add: set_file_name_def path_pop_def path_push_def)
  then show ?thesis
    using abs par by (simp add: is_absolute_def volume_len_def path_has_root_iff physical_root_def)
qed

lemma volume_file_parent_relative_witness:
  "is_absolute (ascii ''SYS'' @ COLON # ascii ''Prefs'')
    \<and> path_parent (ascii ''SYS'' @ COLON # ascii ''Prefs'') = Some [] \<and> \<not> is_absolute []
    \<and> set_file_name (ascii ''SYS'' @ COLON # ascii ''Prefs'') (ascii ''C'') = ascii ''C''"
  by (rule volume_file_parent_relative)
    (simp_all add: is_absolute_def volume_len_def path_has_root_iff physical_root_def is_sep_byte_def)

end
