(* ===== verification/Fs_Path.thy ===== *)
theory Fs_Path
  imports Io_Error Path_Ops
begin

text \<open>
  From Rust paths to AROS paths: the translation \<open>cstr\<close> every path-taking call of
  \<open>sys/fs/aros.rs\<close> goes through, and the current directory and \<open>absolute\<close>
  (\<open>sys/paths/aros.rs\<close>, \<open>sys/path/aros.rs\<close>). The specification of \<open>cstr\<close> reads both sides as
  walks: the Rust path through its components, the AROS path through AROS syntax, where a
  component is a step down and an empty component is a step to the parent.
\<close>

section \<open>cstr\<close>

definition cstring_new :: "bytes \<Rightarrow> io_error + bytes" where
  "cstring_new out = (if list_ex (\<lambda>b. b = 0) out then Inl (Simple InvalidInput) else Inr out)"

definition cstr :: "path \<Rightarrow> io_error + bytes" where
  "cstr p =
    (let (out, rest) = (case position (\<lambda>b. b = COLON) p of
           Some i \<Rightarrow> (take (i + 1) p,
             (let r = drop (i + 1) p in if r \<noteq> [] \<and> hd r = SLASH then tl r else r))
         | None \<Rightarrow> ([], p));
         lead = (out = [] \<and> rest \<noteq> [] \<and> hd rest = SLASH);
         comps = map (\<lambda>c. if c = [DOT, DOT] then [] else c)
                   (filter (\<lambda>c. c \<noteq> [] \<and> c \<noteq> [DOT]) (split_on SLASH rest));
         out1 = (if lead then out @ [SLASH] else out);
         out2 = out1 @ join_with SLASH comps;
         out3 = (if comps \<noteq> [] \<and> list_all (\<lambda>c. c = []) comps then out2 @ [SLASH] else out2)
     in cstring_new out3)"

section \<open>Paths as walks\<close>

datatype walk_step = Up | Down bytes

fun component_step :: "component \<Rightarrow> walk_step option" where
  "component_step RootDir = Some Up"
| "component_step CurDir = None"
| "component_step ParentDir = Some Up"
| "component_step (Normal n) = Some (Down n)"

text \<open>
  The walk of a Rust path, by the rule \<open>sys/path/aros.rs\<close> documents at \<open>volume_len\<close>: a device is what
  stands before the first colon when no separator stands there (\<open>a/b:c\<close> is a file called \<open>b:c\<close> in
  \<open>a\<close>, not a volume). A path with a device is walked through the components of what follows it, any
  other path through its components; its leading separator is a step up, as \<open>sys/path/aros.rs\<close>
  reads it.
\<close>

definition rust_walk :: "path \<Rightarrow> bytes option \<times> walk_step list" where
  "rust_walk p = (case volume_len p of
      None \<Rightarrow> (None, List.map_filter component_step (path_components p))
    | Some n \<Rightarrow> (Some (take (n - 1) p), List.map_filter component_step (body_comps (drop n p))))"

text \<open>The walk with the device up to the first colon anywhere, which is what \<open>cstr\<close> goes by.\<close>

definition colon_walk :: "path \<Rightarrow> bytes option \<times> walk_step list" where
  "colon_walk p = (case position (\<lambda>b. b = COLON) p of
      None \<Rightarrow> (None, List.map_filter component_step (path_components p))
    | Some i \<Rightarrow> (Some (take i p), List.map_filter component_step (body_comps (drop (i + 1) p))))"

text \<open>
  The walk of an AROS path: an empty component is a parent step, and a path of \<open>k\<close> slashes only is
  \<open>k\<close> parent steps.
\<close>

definition piece_step :: "bytes \<Rightarrow> walk_step" where
  "piece_step c = (if c = [] then Up else Down c)"

definition aros_steps :: "bytes \<Rightarrow> walk_step list" where
  "aros_steps bs = (let ps = split_on SLASH bs
     in if list_all (\<lambda>p. p = []) ps then replicate (length ps - 1) Up else map piece_step ps)"

definition aros_walk :: "bytes \<Rightarrow> bytes option \<times> walk_step list" where
  "aros_walk bs = (case position (\<lambda>b. b = COLON) bs of
      None \<Rightarrow> (None, aros_steps bs)
    | Some i \<Rightarrow> (Some (take i bs), aros_steps (drop (i + 1) bs)))"

text \<open>The components \<open>cstr\<close> keeps, and its output from them.\<close>

definition kept :: "bytes \<Rightarrow> bytes list" where
  "kept rest = map (\<lambda>c. if c = [DOT, DOT] then [] else c)
     (filter (\<lambda>c. c \<noteq> [] \<and> c \<noteq> [DOT]) (split_on SLASH rest))"

definition emit :: "bool \<Rightarrow> bytes list \<Rightarrow> bytes" where
  "emit lead cs = (if lead then [SLASH] else []) @ join_with SLASH cs
     @ (if cs \<noteq> [] \<and> list_all (\<lambda>c. c = []) cs then [SLASH] else [])"

lemma map_filter_Cons:
  "List.map_filter f (x # xs) = (case f x of None \<Rightarrow> [] | Some y \<Rightarrow> [y]) @ List.map_filter f xs"
  by (auto simp: List.map_filter_def)

lemma steps_kept:
  "List.map_filter component_step (body_comps rest) = map piece_step (kept rest)"
proof -
  have "List.map_filter component_step (List.map_filter parse_single_component ps) =
      map piece_step (map (\<lambda>c. if c = [DOT, DOT] then [] else c)
        (filter (\<lambda>c. c \<noteq> [] \<and> c \<noteq> [DOT]) ps))" for ps
    by (induction ps) (auto simp: map_filter_Cons map_filter_append parse_single_component_def
        piece_step_def List.map_filter_def)
  then show ?thesis by (simp add: body_comps_def kept_def)
qed

lemma kept_no_slash: "c \<in> set (kept rest) \<Longrightarrow> SLASH \<notin> set c"
  by (auto simp: kept_def dest: split_on_pieces split: if_splits)

lemma kept_drop_slash: "kept (SLASH # r) = kept r"
  by (simp add: kept_def)

lemma join_snoc_empty: "cs \<noteq> [] \<Longrightarrow> join_with s cs @ [s] = join_with s (cs @ [[]])"
  by (induction s cs rule: join_with.induct) auto

lemma aros_steps_join:
  assumes "cs \<noteq> []" "\<forall>c\<in>set cs. SLASH \<notin> set c"
  shows "aros_steps (join_with SLASH cs) =
    (if list_all (\<lambda>p. p = []) cs then replicate (length cs - 1) Up else map piece_step cs)"
  using split_join [of cs SLASH] assms by (simp add: aros_steps_def)

lemma map_piece_step_empty:
  "list_all (\<lambda>c. c = []) cs \<Longrightarrow> map piece_step cs = replicate (length cs) Up"
  by (induction cs) (auto simp: piece_step_def)

lemma aros_steps_emit:
  assumes "\<forall>c\<in>set cs. SLASH \<notin> set c"
  shows "aros_steps (emit lead cs) = (if lead then [Up] else []) @ map piece_step cs"
proof (cases "cs = []")
  case True
  then show ?thesis by (simp add: emit_def aros_steps_def)
next
  case False
  show ?thesis
  proof (cases "list_all (\<lambda>c. c = []) cs")
    case True
    have e: "emit lead cs = join_with SLASH ((if lead then [[]] else []) @ cs @ [[]])"
      using False True by (simp add: emit_def join_snoc_empty join_with_Cons)
    show ?thesis
      unfolding e using assms False True
      by (subst aros_steps_join) (auto simp: map_piece_step_empty replicate_append_same)
  next
    case nall: False
    have e: "emit lead cs = join_with SLASH ((if lead then [[]] else []) @ cs)"
      using False nall by (auto simp: emit_def join_with_Cons)
    show ?thesis
      unfolding e using assms False nall
      by (subst aros_steps_join) (auto simp: piece_step_def)
  qed
qed

lemma emit_no_colon: "COLON \<notin> set rest \<Longrightarrow> COLON \<notin> set (emit lead (kept rest))"
proof -
  assume nc: "COLON \<notin> set rest"
  have "COLON \<notin> set c" if "c \<in> set (kept rest)" for c
    using that nc by (fastforce simp: kept_def dest: set_split_on split: if_splits)
  then show ?thesis using set_join_with [of SLASH "kept rest"] by (auto simp: emit_def)
qed

lemma cstr_emit:
  "cstr p = cstring_new (case position (\<lambda>b. b = COLON) p of
      Some i \<Rightarrow> take (i + 1) p @ emit False (kept (drop (i + 1) p))
    | None \<Rightarrow> emit (p \<noteq> [] \<and> hd p = SLASH) (kept p))"
proof (cases "position (\<lambda>b. b = COLON) p")
  case None
  then show ?thesis by (simp add: cstr_def Let_def emit_def kept_def [symmetric] del: position_None)
next
  case (Some i)
  obtain a r where ar: "take (Suc i) p = a" "drop (Suc i) p = r" "a \<noteq> []"
    using position_SomeD [OF Some] by (cases p) auto
  have k: "kept (tl r) = kept r" if "r \<noteq> []" "hd r = SLASH"
    using that kept_drop_slash [of "tl r"] by (cases r) auto
  show ?thesis
    using Some ar k by (simp add: cstr_def Let_def emit_def kept_def [symmetric])
qed

lemma zero_kept: "(0 \<in> set (emit lead (kept rest))) = (0 \<in> set rest)"
proof -
  have "0 \<in> set (join_with SLASH (map (\<lambda>c. if c = [DOT, DOT] then [] else c)
      (filter (\<lambda>c. c \<noteq> [] \<and> c \<noteq> [DOT]) ps))) \<longleftrightarrow> (\<exists>p\<in>set ps. 0 \<in> set p)" for ps :: "bytes list"
  proof (induction ps)
    case (Cons p ps)
    have j: "0 \<in> set (join_with SLASH (q # qs)) \<longleftrightarrow> 0 \<in> set q \<or> 0 \<in> set (join_with SLASH qs)"
      for q and qs :: "bytes list" by (cases qs) auto
    from Cons show ?case by (auto simp: j)
  qed simp
  moreover have "(\<exists>p\<in>set (split_on SLASH rest). 0 \<in> set p) \<longleftrightarrow> 0 \<in> set rest"
  proof
    assume "0 \<in> set rest"
    then have "0 \<in> set (join_with SLASH (split_on SLASH rest))" by simp
    then show "\<exists>p\<in>set (split_on SLASH rest). 0 \<in> set p"
      using set_join_with [of SLASH "split_on SLASH rest"] by auto
  qed (auto dest: set_split_on)
  ultimately show ?thesis by (auto simp: emit_def kept_def)
qed

lemma cstr_Inl [path_simps]: "cstr p = Inl e \<longleftrightarrow> 0 \<in> set p \<and> e = Simple InvalidInput"
proof (cases "position (\<lambda>b. b = COLON) p")
  case None
  then show ?thesis
    by (auto simp: cstr_emit cstring_new_def list_ex_iff zero_kept simp del: position_None)
next
  case (Some i)
  have "set p = set (take (i + 1) p) \<union> set (drop (i + 1) p)"
    by (metis append_take_drop_id set_append)
  with Some show ?thesis by (auto simp: cstr_emit cstring_new_def list_ex_iff zero_kept)
qed

lemma cstr_Inr_no_nul: "cstr p = Inr out \<Longrightarrow> 0 \<notin> set out"
  by (auto simp: cstr_def cstring_new_def Let_def list_ex_iff split: if_splits prod.splits option.splits)

lemma cstr_walk:
  assumes "cstr p = Inr out"
  shows "aros_walk out = colon_walk p"
proof (cases "position (\<lambda>b. b = COLON) p")
  case None
  let ?lead = "p \<noteq> [] \<and> hd p = SLASH"
  have out: "out = emit ?lead (kept p)"
    using assms None by (simp add: cstr_emit cstring_new_def del: position_None split: if_splits)
  have nc: "COLON \<notin> set p" using None by auto
  then have "position (\<lambda>b. b = COLON) out = None" using emit_no_colon [OF nc, of ?lead] out by auto
  then have "aros_walk out = (None, aros_steps out)" by (simp add: aros_walk_def del: position_None)
  also have "aros_steps out = (if ?lead then [Up] else []) @ map piece_step (kept p)"
    unfolding out by (rule aros_steps_emit) (auto dest: kept_no_slash)
  also have "\<dots> = List.map_filter component_step (path_components p)"
    using body_comps_root [of p] body_comps_starts_cur [of p] steps_kept [of p]
    by (auto simp: path_components_def physical_root_def is_sep_byte_def map_filter_Cons starts_cur_def)
  finally show ?thesis using None by (simp add: colon_walk_def del: position_None)
next
  case (Some i)
  let ?r = "drop (i + 1) p"
  have out: "out = take (i + 1) p @ emit False (kept ?r)"
    using assms Some by (simp add: cstr_emit cstring_new_def split: if_splits)
  have i: "i < length p" "p ! i = COLON" "\<forall>x\<in>set (take i p). x \<noteq> COLON"
    using position_SomeD [OF Some] by auto
  then have tk: "take (i + 1) p = take i p @ [COLON]" by (simp add: take_Suc_conv_app_nth)
  have pos: "position (\<lambda>b. b = COLON) out = Some i"
    using position_first [of "take i p" "\<lambda>b. b = COLON" COLON] i by (simp add: out tk [simplified])
  have "drop (i + 1) out = emit False (kept ?r)" "take i out = take i p"
    using i(1) by (simp_all add: out tk)
  moreover have "aros_steps (emit False (kept ?r)) = map piece_step (kept ?r)"
    by (subst aros_steps_emit) (auto dest: kept_no_slash)
  ultimately show ?thesis
    using pos Some by (simp add: aros_walk_def colon_walk_def steps_kept)
qed

lemma rust_walk_colon:
  "rust_walk p = (if COLON \<in> set p \<and> volume_len p = None
     then (None, List.map_filter component_step (path_components p)) else colon_walk p)"
proof (cases "position (\<lambda>b. b = COLON) p")
  case None
  moreover from this have "COLON \<notin> set p" by auto
  ultimately show ?thesis
    by (simp add: rust_walk_def colon_walk_def volume_len_def del: position_None)
next
  case (Some i)
  then have "COLON \<in> set p" using position_SomeD [OF Some] by (metis nth_mem)
  with Some show ?thesis by (auto simp: rust_walk_def colon_walk_def volume_len_def)
qed

lemma colon_walk_misread:
  assumes "COLON \<in> set p" "volume_len p = None"
  shows "\<exists>dev. fst (colon_walk p) = Some dev \<and> SLASH \<in> set dev"
proof (cases "position (\<lambda>b. b = COLON) p")
  case None
  with assms(1) show ?thesis by auto
next
  case (Some i)
  with assms(2) have "list_ex is_sep_byte (take i p)" by (auto simp: volume_len_def split: if_splits)
  with Some show ?thesis by (auto simp: colon_walk_def list_ex_iff is_sep_byte_def)
qed

section \<open>The current directory\<close>

text \<open>
  \<open>getcwd\<close> retries with a doubled buffer. A null result is the return value 0; what the callee
  wrote into the buffer, also on failure, stays there, and \<open>resize\<close> appends zeros. The fuel bounds
  the iterations; \<open>getcwd\<close> starts with more than it can use.
\<close>

fun getcwd_loop :: "nat \<Rightarrow> bytes \<Rightarrow> path io" where
  "getcwd_loop 0 buf = io_hang"
| "getcwd_loop (Suc fuel) buf =
    io_bind (sys (CwdC (C_getcwd (length buf)))) (\<lambda>r.
    let buf' = overwrite buf (r_data r) in
    if r_ret r \<noteq> 0 then
      let n = (case position (\<lambda>b. b = 0) buf' of Some i \<Rightarrow> i | None \<Rightarrow> length buf')
      in io_return (from_utf8_lossy (take n buf'))
    else if length buf' \<ge> 16 * 1024 then os_fail
    else getcwd_loop fuel (buf' @ replicate (length buf') 0))"

definition getcwd :: "path io" where
  "getcwd = getcwd_loop 6 (replicate 512 0)"

definition chdir :: "path \<Rightarrow> unit io" where
  "chdir p = (case cstring_new p of
      Inl e \<Rightarrow> io_fail e
    | Inr s \<Rightarrow> io_bind (sys (CwdC (C_chdir s))) (\<lambda>r.
        if r_ret r = 0 then io_return () else os_fail))"

definition temp_dir :: path where
  "temp_dir = ascii ''T:''"

lemma getcwd_loop_ext [ext_intros]: "io_ext (getcwd_loop fuel buf)"
proof (induction fuel arbitrary: buf)
  case 0
  show ?case by (simp only: getcwd_loop.simps ext_intros)
next
  case (Suc fuel)
  show ?case unfolding getcwd_loop.simps Let_def by (intro ext_intros Suc)
qed

lemma io_ext_getcwd [ext_intros]: "io_ext getcwd"
  unfolding getcwd_def by (rule getcwd_loop_ext)

text \<open>The number of doublings that are left bounds the loop.\<close>

lemma getcwd_loop_returns:
  "0 < fuel \<Longrightarrow> 16384 \<le> length buf * 2 ^ (fuel - 1) \<Longrightarrow>
   fst (getcwd_loop fuel buf s) \<noteq> Hang \<and> (\<forall>m. fst (getcwd_loop fuel buf s) \<noteq> Panic m)"
proof (induction fuel arbitrary: buf s)
  case (Suc fuel)
  let ?r = "os_oracle s (os_trace s) (CwdC (C_getcwd (length buf)))"
  let ?s = "s\<lparr>os_trace := os_trace s @ [(CwdC (C_getcwd (length buf)), ?r)]\<rparr>"
  show ?case
  proof (cases "r_ret ?r \<noteq> 0")
    case True
    then show ?thesis by (simp add: io_simps Let_def)
  next
    case null: False
    show ?thesis
    proof (cases "length buf \<ge> 16 * 1024")
      case True
      obtain e where "fst ((os_fail :: path io) ?s) = Err (OsError e)" using os_fail_Err by blast
      with True null show ?thesis by (simp add: io_simps Let_def)
    next
      case False
      let ?buf = "overwrite buf (r_data ?r) @ replicate (length buf) 0"
      have "0 < fuel" using False Suc.prems by (cases fuel) auto
      moreover have "16384 \<le> length ?buf * 2 ^ (fuel - 1)"
        using Suc.prems \<open>0 < fuel\<close> by (cases fuel) (auto simp: algebra_simps)
      ultimately show ?thesis
        using Suc.IH [of ?buf ?s] False null by (simp add: io_simps Let_def)
    qed
  qed
qed simp

section \<open>absolute\<close>

definition path_ends_with_slash :: "path \<Rightarrow> bool" where
  "path_ends_with_slash p \<longleftrightarrow> p \<noteq> [] \<and> last p = SLASH"

definition absolutize :: "path \<Rightarrow> path \<Rightarrow> path" where
  "absolutize cwd p =
    (let inner = (case strip_prefix p [DOT] of Some r \<Rightarrow> r | None \<Rightarrow> p);
         normalized = path_extend cwd (collect_components (path_iter inner))
     in if path_ends_with_slash p then path_push normalized [] else normalized)"

text \<open>\<open>sys::path::absolute\<close>, and \<open>std::path::absolute\<close> in front of it.\<close>

definition sys_absolute :: "path \<Rightarrow> path io" where
  "sys_absolute p =
    (if is_absolute p then io_return p
     else io_bind getcwd (\<lambda>cwd. io_return (absolutize cwd p)))"

definition path_absolute :: "path \<Rightarrow> path io" where
  "path_absolute p =
    (if p = [] then io_fail (SimpleMessage InvalidInput ''cannot make an empty path absolute'')
     else sys_absolute p)"

lemma no_colon_relative: "COLON \<notin> set p \<Longrightarrow> \<not> physical_root p \<Longrightarrow> \<not> is_absolute p"
proof -
  assume a: "COLON \<notin> set p" "\<not> physical_root p"
  have "position (\<lambda>b. b = COLON) p = None" using a(1) by auto
  with a(2) show ?thesis
    by (simp add: is_absolute_def volume_len_def path_has_root_iff del: position_None)
qed

lemma component_bytes_self:
  assumes "c \<in> set (body_comps bs)"
  shows "path_components (component_bytes c) = [c]" "\<not> physical_root (component_bytes c)"
    "component_bytes c \<noteq> []" "set (component_bytes c) \<subseteq> set bs"
proof -
  obtain p where p: "p \<in> set (split_on SLASH bs)" "parse_single_component p = Some c"
    using assms by (auto simp: body_comps_def List.map_filter_def)
  have cb: "component_bytes c = p" "p \<noteq> []" "p \<noteq> [DOT]"
    using p(2) by (auto simp: parse_single_component_def component_bytes_def split: if_splits)
  have ns: "SLASH \<notin> set p" using p(1) by (rule split_on_pieces)
  have "\<not> physical_root p"
    using ns cb(2) by (metis hd_in_set is_sep_byte_def physical_root_def)
  moreover have "take 2 p \<noteq> [DOT, SLASH]" using ns by (metis in_set_takeD list.set_intros)
  ultimately show "path_components (component_bytes c) = [c]" "\<not> physical_root (component_bytes c)"
    "component_bytes c \<noteq> []" "set (component_bytes c) \<subseteq> set bs"
    using cb ns p set_split_on [OF p(1)]
    by (auto simp: path_components_def starts_cur_def body_comps_no_sep)
qed

lemma path_extend_components:
  assumes "cwd \<noteq> []" "\<forall>c\<in>set cs. path_components (component_bytes c) = [c]
     \<and> \<not> is_absolute (component_bytes c) \<and> c \<noteq> CurDir"
  shows "path_components (path_extend cwd cs) = path_components cwd @ cs \<and> path_extend cwd cs \<noteq> []"
  using assms
proof (induction cs arbitrary: cwd)
  case (Cons c cs)
  have "path_components (path_push cwd (component_bytes c)) = path_components cwd @ [c]"
    using Cons.prems join_components [of "component_bytes c" cwd] by (simp add: path_join_def)
  moreover have "path_push cwd (component_bytes c) \<noteq> []"
    using Cons.prems by (auto simp: path_push_def is_absolute_def)
  ultimately show ?case using Cons by simp
qed simp

lemma absolutize_components:
  assumes "cwd \<noteq> []" "COLON \<notin> set p" "\<not> physical_root p"
  shows "path_components (absolutize cwd p)
    = path_components cwd @ filter (\<lambda>c. c \<noteq> CurDir) (path_components p)"
proof -
  let ?inner = "case strip_prefix p [DOT] of Some r \<Rightarrow> r | None \<Rightarrow> p"
  have body: "body_comps p = filter (\<lambda>c. c \<noteq> CurDir) (path_components p)"
    using assms(3) body_comps_no_cur [of p] body_comps_starts_cur [of p] body_comps_no_cur [of "drop 1 p"]
    by (auto simp: path_components_def filter_id_conv intro!: filter_True [symmetric])
  have dot: "path_components [DOT] = [CurDir]"
    by (simp add: path_components_def physical_root_def is_sep_byte_def starts_cur_def)
  have inner: "path_components ?inner = body_comps p"
  proof (cases "strip_prefix p [DOT]")
    case None
    then have "\<nexists>r. path_components p = CurDir # r"
      using strip_prefix_None [of p "[DOT]"] dot by simp
    then have "\<not> starts_cur p" using assms(3) by (auto simp: path_components_def)
    with None assms(3) show ?thesis by (simp add: path_components_def)
  next
    case (Some r)
    from strip_prefix_components(2) [OF Some] dot have "path_components p = CurDir # path_components r"
      by simp
    then have "starts_cur p" "path_components r = body_comps (drop 1 p)"
      using assms(3) body_comps_no_cur [of p]
      by (auto simp: path_components_def split: if_splits)
    with Some body_comps_starts_cur [of p] show ?thesis by simp
  qed
  have comps: "\<forall>c\<in>set (body_comps p). path_components (component_bytes c) = [c]
     \<and> \<not> is_absolute (component_bytes c) \<and> c \<noteq> CurDir"
    using component_bytes_self [of _ p] assms(2) body_comps_no_cur [of p] no_colon_relative by blast
  note ext = path_extend_components [OF assms(1) comps]
  have rel: "\<not> is_absolute []" by (simp add: is_absolute_def volume_len_def path_has_root_iff physical_root_def)
  have nil: "path_components [] = []" by (simp add: path_components_def physical_root_def starts_cur_def)
  have "path_components (path_push (path_extend cwd (body_comps p)) [])
      = path_components (path_extend cwd (body_comps p))"
    using join_components [OF rel, of "path_extend cwd (body_comps p)"] ext nil
    by (simp add: path_join_def)
  then show ?thesis
    using inner ext body by (simp add: absolutize_def path_simps Let_def)
qed

section \<open>Properties\<close>

text \<open>
  C1: The path translation is faithful, with one class of paths excepted. \<open>cstr\<close> refuses a path with
  a NUL byte with \<open>InvalidInput\<close>, and only such a path. Every other path without a colon, or with
  one before its first separator, becomes a C string that AROS walks exactly as the path is meant
  by the rule of \<open>volume_len\<close>: the same device, the same names in the same order, and one parent step
  for each \<open>..\<close> (and for the leading separator of a path without device), with every doubled,
  trailing and post-colon separator and every \<open>.\<close> gone. The paths left, those whose first colon
  comes after a separator, are all misread: such a path has no device, and AROS walks its C string
  from one, whose name holds a separator (\<open>a/b:c\<close> is passed as device \<open>a/b\<close>).
\<close>

theorem cstr_faithful:
  "case cstr p of
     Inl e \<Rightarrow> e = Simple InvalidInput \<and> 0 \<in> set p
   | Inr out \<Rightarrow> 0 \<notin> set p \<and> 0 \<notin> set out
      \<and> (if COLON \<in> set p \<and> volume_len p = None
         then fst (rust_walk p) = None \<and> (\<exists>dev. fst (aros_walk out) = Some dev \<and> SLASH \<in> set dev)
         else aros_walk out = rust_walk p)"
proof (cases "cstr p")
  case (Inl e)
  moreover from this have "0 \<in> set p \<and> e = Simple InvalidInput" using cstr_Inl [of p e] by blast
  ultimately show ?thesis by simp
next
  case (Inr out)
  then have "0 \<notin> set p" using cstr_Inl [of p "Simple InvalidInput"] by auto
  with Inr show ?thesis
    using colon_walk_misread [of p]
    by (simp add: cstr_walk cstr_Inr_no_nul rust_walk_colon)
qed

text \<open>
  Joining a relative path onto a volume, the idiom \<open>Path::new("SYS:").join("C")\<close>, reaches the
  file below the volume: the slash \<open>join\<close> puts after the colon is not a step to the parent.
\<close>

lemma cstr_join_volume:
  assumes "COLON \<notin> set vol" "0 \<notin> set (vol @ q)" "\<not> is_absolute q"
  shows "\<exists>out. cstr (path_join (vol @ [COLON]) q) = Inr out
    \<and> aros_walk out = (Some vol, List.map_filter component_step (path_components q))"
proof -
  have nr: "\<not> path_has_root q" using assms(3) by (simp add: is_absolute_def)
  have j: "path_join (vol @ [COLON]) q = vol @ COLON # SLASH # q"
    using assms(3) nr by (simp add: path_join_def path_push_def is_sep_byte_def)
  have "0 \<notin> set (path_join (vol @ [COLON]) q)" using assms(2) by (simp add: j)
  then obtain out where out: "cstr (path_join (vol @ [COLON]) q) = Inr out"
    using cstr_Inl [of "path_join (vol @ [COLON]) q"] by (metis old.sum.exhaust)
  have pos: "position (\<lambda>b. b = COLON) (vol @ COLON # SLASH # q) = Some (length vol)"
    using assms(1) by (intro position_first) auto
  have "List.map_filter component_step (body_comps (SLASH # q))
      = List.map_filter component_step (path_components q)"
    using body_comps_append [of "[]" q] body_comps_starts_cur [of q] nr
    by (simp add: path_components_def path_has_root_iff map_filter_Cons)
  then have "colon_walk (path_join (vol @ [COLON]) q)
      = (Some vol, List.map_filter component_step (path_components q))"
    using pos by (simp add: colon_walk_def j)
  with out cstr_walk [OF out] show ?thesis by simp
qed

lemma cstr_join_volume_witness:
  "\<exists>out. cstr (path_join (ascii ''SYS'' @ [COLON]) (ascii ''C/List'')) = Inr out
    \<and> aros_walk out = (Some (ascii ''SYS''),
        List.map_filter component_step (path_components (ascii ''C/List'')))"
  by (rule cstr_join_volume)
    (simp_all add: is_absolute_def volume_len_def path_has_root_iff physical_root_def is_sep_byte_def)

text \<open>
  \<open>getcwd\<close> always returns: its buffer doubles from 512 bytes and it gives up at 16 KiB, so six
  calls are enough whatever the C library answers, and it ends in a path or in an OS error, never
  in a panic.
\<close>

lemma getcwd_terminates:
  "(\<exists>p. fst (getcwd s) = Ok p) \<or> (\<exists>e. fst (getcwd s) = Err e)"
proof -
  have "fst (getcwd s) \<noteq> Hang \<and> (\<forall>m. fst (getcwd s) \<noteq> Panic m)"
    unfolding getcwd_def by (rule getcwd_loop_returns) simp_all
  then show ?thesis by (cases "fst (getcwd s)") auto
qed

text \<open>
  On a relative path without a colon, \<open>absolute\<close> is the current directory followed by the
  path's components, the dots dropped.
\<close>

lemma absolute_relative:
  assumes "getcwd s = (Ok cwd, s')" "cwd \<noteq> []" "p \<noteq> []" "COLON \<notin> set p" "\<not> physical_root p"
  shows "\<exists>q. path_absolute p s = (Ok q, s')
    \<and> path_components q = path_components cwd @ filter (\<lambda>c. c \<noteq> CurDir) (path_components p)"
  using assms absolutize_components [of cwd p] no_colon_relative [of p]
  by (simp add: path_absolute_def sys_absolute_def io_bind_Ok)

definition cwd_example :: os where
  "cwd_example = boot (\<lambda>t c. ret_data 1 (ascii ''Work:src''))"

lemma getcwd_example_run:
  "\<exists>s'. getcwd cwd_example = (Ok (ascii ''Work:src''), s')"
proof -
  define B :: bytes where "B = replicate 512 0"
  let ?d = "ascii ''Work:src''"
  have len: "length ?d = 8" by simp
  have buf: "overwrite B ?d = ?d @ replicate 504 0"
    unfolding overwrite_def B_def len length_replicate drop_replicate by simp
  have "replicate 504 (0 :: u8) = 0 # replicate 503 0"
    using replicate_Suc [of 503 "0 :: u8"] by simp
  then have pos: "position (\<lambda>b. b = 0) (?d @ replicate 504 0) = Some 8"
    using position_first [of ?d "\<lambda>b. b = 0" 0 "replicate 503 0"] len by simp
  have lossy: "from_utf8_lossy ?d = ?d"
    by (rule from_utf8_lossy_ascii) simp
  have "take 8 (?d @ replicate 504 0) = ?d" using len by simp
  then have "\<exists>s'. getcwd_loop (Suc 5) B cwd_example = (Ok ?d, s')"
    unfolding getcwd_loop.simps cwd_example_def
    by (simp only: io_simps Let_def boot_sel ret_sel buf pos option.case lossy) simp
  then show ?thesis by (simp add: getcwd_def B_def)
qed

lemma absolute_relative_witness:
  "\<exists>s' q. path_absolute (ascii ''./a//b'') cwd_example = (Ok q, s')
    \<and> path_components q = path_components (ascii ''Work:src'')
        @ filter (\<lambda>c. c \<noteq> CurDir) (path_components (ascii ''./a//b''))"
proof -
  obtain s' where "getcwd cwd_example = (Ok (ascii ''Work:src''), s')"
    using getcwd_example_run by blast
  from absolute_relative [OF this, of "ascii ''./a//b''"] show ?thesis
    by (auto simp: physical_root_def is_sep_byte_def)
qed

text \<open>
  A colon after the first separator is where \<open>absolute\<close> goes wrong. Such a path is relative
  (\<open>a/b:c\<close> is a file called \<open>b:c\<close>, says \<open>volume_len\<close>), but its components are pushed one by one,
  and a component with a colon is absolute on its own: the push replaces the current directory and
  everything before it.
\<close>

lemma absolute_colon_component:
  assumes "getcwd s = (Ok cwd, s')"
  shows "\<not> is_absolute (ascii ''a/b:c'') \<and> path_absolute (ascii ''a/b:c'') s = (Ok (ascii ''b:c''), s')"
proof -
  have rel: "\<not> is_absolute (ascii ''a/b:c'')" "\<not> is_absolute (ascii ''a'')" "is_absolute (ascii ''b:c'')"
    "\<not> path_has_root (ascii ''a'')"
    by (simp_all add: is_absolute_def volume_len_def path_has_root_iff physical_root_def is_sep_byte_def)
  have comps: "path_components (ascii ''a/b:c'') = [Normal (ascii ''a''), Normal (ascii ''b:c'')]"
    "path_components [DOT] = [CurDir]"
    by (simp_all add: path_components_def physical_root_def is_sep_byte_def starts_cur_def
        body_comps_def parse_single_component_def List.map_filter_def)
  then have "strip_prefix (ascii ''a/b:c'') [DOT] = None" by (simp add: strip_prefix_None)
  then have "absolutize cwd (ascii ''a/b:c'') = ascii ''b:c''"
    using comps rel by (simp add: absolutize_def path_simps component_bytes_def path_push_def
        path_ends_with_slash_def)
  with rel assms show ?thesis by (simp add: path_absolute_def sys_absolute_def io_bind_Ok)
qed

lemma absolute_colon_component_witness:
  "\<exists>s'. \<not> is_absolute (ascii ''a/b:c'')
     \<and> path_absolute (ascii ''a/b:c'') cwd_example = (Ok (ascii ''b:c''), s')"
proof -
  obtain s' where "getcwd cwd_example = (Ok (ascii ''Work:src''), s')"
    using getcwd_example_run by blast
  from absolute_colon_component [OF this] show ?thesis by blast
qed

end
