(* ===== verification/Duration.thy ===== *)
theory Duration
  imports Prelude
begin

text \<open>
  \<open>core::time::Duration\<close>: seconds as \<open>u64\<close> and nanoseconds below one second as \<open>u32\<close>, with its
  integer arithmetic (\<open>core/src/time.rs\<close>). The order is the derived one, seconds first. The lemmas
  read a duration as its number of nanoseconds: on well-formed durations every operation is the
  operation on that number, and the checked ones fail exactly when it does not fit.
  A panic of an operation is \<open>None\<close>.
\<close>

section \<open>The type\<close>

datatype duration = Duration (d_secs: u64) (d_nanos: u32)

instantiation duration :: linorder
begin

definition less_eq_duration :: "duration \<Rightarrow> duration \<Rightarrow> bool" where
  "less_eq_duration a b \<longleftrightarrow> d_secs a < d_secs b \<or> (d_secs a = d_secs b \<and> d_nanos a \<le> d_nanos b)"

definition less_duration :: "duration \<Rightarrow> duration \<Rightarrow> bool" where
  "less_duration a b \<longleftrightarrow> d_secs a < d_secs b \<or> (d_secs a = d_secs b \<and> d_nanos a < d_nanos b)"

instance
proof
  fix x y z :: duration
  show "(x < y) = (x \<le> y \<and> \<not> y \<le> x)" "x \<le> x" "x \<le> y \<or> y \<le> x"
    by (auto simp: less_eq_duration_def less_duration_def)
  show "x \<le> z" if "x \<le> y" "y \<le> z"
    using that by (auto simp: less_eq_duration_def)
  show "x = y" if "x \<le> y" "y \<le> x"
    using that by (cases x; cases y) (auto simp: less_eq_duration_def)
qed

end

abbreviation NANOS_PER_SEC :: nat where "NANOS_PER_SEC \<equiv> 1000000000"

definition duration_ok :: "duration \<Rightarrow> bool" where
  "duration_ok d \<longleftrightarrow> d_nanos d < 1000000000"

definition total_nanos :: "duration \<Rightarrow> nat" where
  "total_nanos d = unat (d_secs d) * NANOS_PER_SEC + unat (d_nanos d)"

section \<open>Constructors\<close>

definition duration_new :: "u64 \<Rightarrow> u32 \<Rightarrow> duration option" where
  "duration_new secs nanos =
     (if nanos < 1000000000 then Some (Duration secs nanos)
      else (case checked_add secs (ucast (nanos div 1000000000)) of
          None \<Rightarrow> None
        | Some secs' \<Rightarrow> Some (Duration secs' (nanos mod 1000000000))))"

definition from_secs :: "u64 \<Rightarrow> duration" where
  "from_secs secs = Duration secs 0"

definition from_millis :: "u64 \<Rightarrow> duration" where
  "from_millis millis = Duration (millis div 1000) (ucast (millis mod 1000) * 1000000)"

definition from_micros :: "u64 \<Rightarrow> duration" where
  "from_micros micros = Duration (micros div 1000000) (ucast (micros mod 1000000) * 1000)"

definition from_nanos :: "u64 \<Rightarrow> duration" where
  "from_nanos nanos = Duration (nanos div 1000000000) (ucast (nanos mod 1000000000))"

text \<open>The constructors that panic, here \<open>None\<close>, when the number is too large.\<close>

definition from_nanos_u128 :: "128 word \<Rightarrow> duration option" where
  "from_nanos_u128 nanos =
    (if nanos div 1000000000 > ucast (- 1 :: u64) then None
     else Some (Duration (ucast (nanos div 1000000000)) (ucast (nanos mod 1000000000))))"

definition from_weeks :: "u64 \<Rightarrow> duration option" where
  "from_weeks weeks = (if weeks > - 1 div (60 * 60 * 24 * 7) then None
     else Some (from_secs (weeks * 60 * 60 * 24 * 7)))"

definition from_days :: "u64 \<Rightarrow> duration option" where
  "from_days days = (if days > - 1 div (60 * 60 * 24) then None
     else Some (from_secs (days * 60 * 60 * 24)))"

definition from_hours :: "u64 \<Rightarrow> duration option" where
  "from_hours hours = (if hours > - 1 div (60 * 60) then None
     else Some (from_secs (hours * 60 * 60)))"

definition from_mins :: "u64 \<Rightarrow> duration option" where
  "from_mins mins = (if mins > - 1 div 60 then None else Some (from_secs (mins * 60)))"

definition DURATION_ZERO :: duration where
  "DURATION_ZERO = from_nanos 0"

definition DURATION_MAX :: duration where
  "DURATION_MAX = Duration (- 1) 999999999"

section \<open>Accessors\<close>

definition is_zero :: "duration \<Rightarrow> bool" where
  "is_zero d \<longleftrightarrow> d_secs d = 0 \<and> d_nanos d = 0"

definition as_secs :: "duration \<Rightarrow> u64" where
  "as_secs d = d_secs d"

definition subsec_millis :: "duration \<Rightarrow> u32" where
  "subsec_millis d = d_nanos d div 1000000"

definition subsec_micros :: "duration \<Rightarrow> u32" where
  "subsec_micros d = d_nanos d div 1000"

definition subsec_nanos :: "duration \<Rightarrow> u32" where
  "subsec_nanos d = d_nanos d"

definition as_millis :: "duration \<Rightarrow> 128 word" where
  "as_millis d = ucast (d_secs d) * 1000 + ucast (d_nanos d div 1000000)"

definition as_micros :: "duration \<Rightarrow> 128 word" where
  "as_micros d = ucast (d_secs d) * 1000000 + ucast (d_nanos d div 1000)"

definition as_nanos :: "duration \<Rightarrow> 128 word" where
  "as_nanos d = ucast (d_secs d) * 1000000000 + ucast (d_nanos d)"

section \<open>Arithmetic\<close>

definition duration_checked_add :: "duration \<Rightarrow> duration \<Rightarrow> duration option" where
  "duration_checked_add self rhs =
    (case checked_add (d_secs self) (d_secs rhs) of
       None \<Rightarrow> None
     | Some secs \<Rightarrow>
         (let nanos = d_nanos self + d_nanos rhs in
          if nanos \<ge> 1000000000 then
            (case checked_add secs 1 of
               None \<Rightarrow> None
             | Some new_secs \<Rightarrow> duration_new new_secs (nanos - 1000000000))
          else duration_new secs nanos))"

definition duration_saturating_add :: "duration \<Rightarrow> duration \<Rightarrow> duration" where
  "duration_saturating_add self rhs =
    (case duration_checked_add self rhs of Some res \<Rightarrow> res | None \<Rightarrow> DURATION_MAX)"

definition duration_checked_sub :: "duration \<Rightarrow> duration \<Rightarrow> duration option" where
  "duration_checked_sub self rhs =
    (case checked_sub (d_secs self) (d_secs rhs) of
       None \<Rightarrow> None
     | Some secs \<Rightarrow>
         (if d_nanos self \<ge> d_nanos rhs then duration_new secs (d_nanos self - d_nanos rhs)
          else (case checked_sub secs 1 of
              Some sub_secs \<Rightarrow>
                duration_new sub_secs (d_nanos self + 1000000000 - d_nanos rhs)
            | None \<Rightarrow> None)))"

definition duration_saturating_sub :: "duration \<Rightarrow> duration \<Rightarrow> duration" where
  "duration_saturating_sub self rhs =
    (case duration_checked_sub self rhs of Some res \<Rightarrow> res | None \<Rightarrow> DURATION_ZERO)"

definition duration_abs_diff :: "duration \<Rightarrow> duration \<Rightarrow> duration option" where
  "duration_abs_diff self other =
    (case duration_checked_sub self other of
       Some res \<Rightarrow> Some res
     | None \<Rightarrow> duration_checked_sub other self)"

definition duration_checked_mul :: "duration \<Rightarrow> u32 \<Rightarrow> duration option" where
  "duration_checked_mul self rhs =
    (let total = (ucast (d_nanos self) :: u64) * ucast rhs;
         extra_secs = total div 1000000000;
         nanos = ucast (total mod 1000000000)
     in case checked_mul (d_secs self) (ucast rhs) of
          None \<Rightarrow> None
        | Some s \<Rightarrow> (case checked_add s extra_secs of
            None \<Rightarrow> None
          | Some secs \<Rightarrow> duration_new secs nanos))"

definition duration_saturating_mul :: "duration \<Rightarrow> u32 \<Rightarrow> duration" where
  "duration_saturating_mul self rhs =
    (case duration_checked_mul self rhs of Some res \<Rightarrow> res | None \<Rightarrow> DURATION_MAX)"

definition duration_checked_div :: "duration \<Rightarrow> u32 \<Rightarrow> duration option" where
  "duration_checked_div self rhs =
    (if rhs \<noteq> 0 then
       (let r = (ucast rhs :: u64);
            secs = d_secs self div r; extra_secs = d_secs self mod r;
            nanos = d_nanos self div rhs; extra_nanos = d_nanos self mod rhs;
            nanos' = nanos + ucast ((extra_secs * 1000000000 + ucast extra_nanos) div r)
        in duration_new secs nanos')
     else None)"

text \<open>The operators \<open>+\<close> and \<open>-\<close>, which panic on overflow.\<close>

definition duration_add :: "duration \<Rightarrow> duration \<Rightarrow> duration option" where
  "duration_add self rhs = duration_checked_add self rhs"

definition duration_sub :: "duration \<Rightarrow> duration \<Rightarrow> duration option" where
  "duration_sub self rhs = duration_checked_sub self rhs"

section \<open>Durations as numbers\<close>

lemma duration_ok_nat: "duration_ok d \<longleftrightarrow> unat (d_nanos d) < NANOS_PER_SEC"
  by (simp add: duration_ok_def word_less_nat_alt)

lemma total_nanos_parts:
  "duration_ok d \<Longrightarrow> unat (d_secs d) = total_nanos d div NANOS_PER_SEC"
  "duration_ok d \<Longrightarrow> unat (d_nanos d) = total_nanos d mod NANOS_PER_SEC"
  by (simp_all add: duration_ok_nat total_nanos_def)

lemma total_nanos_inj: "duration_ok a \<Longrightarrow> duration_ok b \<Longrightarrow> total_nanos a = total_nanos b \<Longrightarrow> a = b"
  by (metis duration.expand total_nanos_parts word_unat_eq_iff)

lemma total_nanos_less: "duration_ok d \<Longrightarrow> total_nanos d < 2 ^ 64 * NANOS_PER_SEC"
proof -
  assume "duration_ok d"
  moreover have "unat (d_secs d) < 2 ^ 64" using unat_u64 [of "d_secs d"] by simp
  ultimately show ?thesis by (simp add: total_nanos_def duration_ok_nat)
qed

lemma duration_le_nat:
  "duration_ok a \<Longrightarrow> duration_ok b \<Longrightarrow> a \<le> b \<longleftrightarrow> total_nanos a \<le> total_nanos b"
  by (auto simp: less_eq_duration_def total_nanos_def duration_ok_nat word_less_nat_alt
      word_le_nat_alt word_unat_eq_iff)

lemma duration_new_small:
  "unat n < NANOS_PER_SEC \<Longrightarrow> duration_new s n = Some (Duration s n)"
  by (simp add: duration_new_def word_less_nat_alt)

lemma duration_new_total:
  "case duration_new s n of
     None \<Rightarrow> 2 ^ 64 * NANOS_PER_SEC \<le> unat s * NANOS_PER_SEC + unat n
   | Some d \<Rightarrow> duration_ok d \<and> total_nanos d = unat s * NANOS_PER_SEC + unat n"
proof (cases "unat n < NANOS_PER_SEC")
  case True
  then show ?thesis by (simp add: duration_new_small duration_ok_nat total_nanos_def)
next
  case False
  have q: "unat (ucast (n div 1000000000) :: u64) = unat n div NANOS_PER_SEC"
    using unat_u32 [of n] by (simp add: unat_ucast unat_div)
  show ?thesis
  proof (cases "checked_add s (ucast (n div 1000000000) :: u64)")
    case None
    then have "2 ^ 64 \<le> unat s + unat n div NANOS_PER_SEC"
      using q by (simp add: checked_add_def split: if_splits)
    then have "2 ^ 64 * NANOS_PER_SEC \<le> (unat s + unat n div NANOS_PER_SEC) * NANOS_PER_SEC"
      by (rule mult_le_mono1)
    also have "\<dots> \<le> unat s * NANOS_PER_SEC + unat n" by (simp add: distrib_right)
    finally show ?thesis using False None by (simp add: duration_new_def word_less_nat_alt)
  next
    case (Some s')
    then have "unat s' = unat s + unat n div NANOS_PER_SEC" using q unat_checked_add [OF Some] by simp
    with Some False show ?thesis
      by (simp add: duration_new_def word_less_nat_alt duration_ok_nat total_nanos_def unat_mod
          distrib_right)
  qed
qed

lemma carry_nat:
  fixes a b c d :: nat
  assumes "b < N" "d < N"
  shows "(a * N + b) + (c * N + d) = (if N \<le> b + d then (a + c + 1) * N + (b + d - N) else (a + c) * N + (b + d))"
  using assms by (simp add: algebra_simps)

lemma checked_add_total:
  assumes "duration_ok a" "duration_ok b"
  shows "case duration_checked_add a b of
     None \<Rightarrow> 2 ^ 64 * NANOS_PER_SEC \<le> total_nanos a + total_nanos b
   | Some c \<Rightarrow> duration_ok c \<and> total_nanos c = total_nanos a + total_nanos b"
proof -
  let ?n = "d_nanos a + d_nanos b"
  have na: "unat (d_nanos a) < NANOS_PER_SEC" and nb: "unat (d_nanos b) < NANOS_PER_SEC"
    using assms by (simp_all add: duration_ok_nat)
  have n: "unat ?n = unat (d_nanos a) + unat (d_nanos b)"
    using na nb by (subst unat_plus_if') simp
  have ge: "1000000000 \<le> ?n \<longleftrightarrow> NANOS_PER_SEC \<le> unat (d_nanos a) + unat (d_nanos b)"
    using n by (simp add: word_le_nat_alt)
  show ?thesis
  proof (cases "checked_add (d_secs a) (d_secs b)")
    case None
    then have "2 ^ 64 \<le> unat (d_secs a) + unat (d_secs b)" by (simp add: checked_add_def split: if_splits)
    then have "2 ^ 64 * NANOS_PER_SEC \<le> (unat (d_secs a) + unat (d_secs b)) * NANOS_PER_SEC"
      by (rule mult_le_mono1)
    with None show ?thesis by (simp add: duration_checked_add_def total_nanos_def)
  next
    case (Some s)
    have s: "unat s = unat (d_secs a) + unat (d_secs b)" by (rule unat_checked_add [OF Some])
    show ?thesis
    proof (cases "1000000000 \<le> ?n")
      case False
      with Some s n ge show ?thesis
        by (simp add: duration_checked_add_def duration_new_small duration_ok_nat total_nanos_def)
    next
      case True
      have n': "unat (?n - 1000000000) = unat (d_nanos a) + unat (d_nanos b) - NANOS_PER_SEC"
        using True n by (simp add: unat_sub)
      show ?thesis
      proof (cases "checked_add s 1")
        case None
        then have "2 ^ 64 \<le> unat (d_secs a) + unat (d_secs b) + 1"
          using s by (simp add: checked_add_def split: if_splits)
        then have "2 ^ 64 * NANOS_PER_SEC \<le> (unat (d_secs a) + unat (d_secs b) + 1) * NANOS_PER_SEC"
          by (rule mult_le_mono1)
        also have "\<dots> \<le> total_nanos a + total_nanos b"
          using True ge by (simp add: total_nanos_def)
        finally show ?thesis using Some None True by (simp add: duration_checked_add_def)
      next
        case s': (Some s')
        have "unat s' = unat s + 1" using unat_checked_add [OF s'] by simp
        then show ?thesis using Some True ge s s' n' na nb
          by (simp add: duration_checked_add_def duration_new_small duration_ok_nat total_nanos_def)
      qed
    qed
  qed
qed

lemma checked_sub_total:
  assumes "duration_ok a" "duration_ok b"
  shows "case duration_checked_sub a b of
     None \<Rightarrow> total_nanos a < total_nanos b
   | Some c \<Rightarrow> duration_ok c \<and> total_nanos c + total_nanos b = total_nanos a"
proof -
  have na: "unat (d_nanos a) < NANOS_PER_SEC" and nb: "unat (d_nanos b) < NANOS_PER_SEC"
    using assms by (simp_all add: duration_ok_nat)
  show ?thesis
  proof (cases "checked_sub (d_secs a) (d_secs b)")
    case None
    then have "unat (d_secs a) + 1 \<le> unat (d_secs b)"
      by (auto simp: checked_sub_def word_le_nat_alt split: if_splits)
    then have "(unat (d_secs a) + 1) * NANOS_PER_SEC \<le> unat (d_secs b) * NANOS_PER_SEC"
      by (rule mult_le_mono1)
    with None na show ?thesis by (simp add: duration_checked_sub_def total_nanos_def)
  next
    case (Some s)
    have le: "unat (d_secs b) \<le> unat (d_secs a)"
      using Some by (simp add: checked_sub_def word_le_nat_alt split: if_splits)
    have s: "unat s = unat (d_secs a) - unat (d_secs b)" by (rule unat_checked_sub [OF Some])
    show ?thesis
    proof (cases "d_nanos b \<le> d_nanos a")
      case True
      then have "unat (d_nanos a - d_nanos b) = unat (d_nanos a) - unat (d_nanos b)"
        "unat (d_nanos b) \<le> unat (d_nanos a)" by (simp_all add: unat_sub word_le_nat_alt)
      with Some True s na le show ?thesis
        by (simp add: duration_checked_sub_def duration_new_small duration_ok_nat total_nanos_def
            diff_mult_distrib)
    next
      case False
      then have lt: "unat (d_nanos a) < unat (d_nanos b)" by (simp add: word_le_nat_alt)
      have p: "unat (d_nanos a + 1000000000) = unat (d_nanos a) + NANOS_PER_SEC"
        using na by (subst unat_plus_if') simp
      have n: "unat (d_nanos a + 1000000000 - d_nanos b)
          = unat (d_nanos a) + NANOS_PER_SEC - unat (d_nanos b)"
        using p nb by (simp add: unat_sub word_le_nat_alt)
      show ?thesis
      proof (cases "checked_sub s 1")
        case None
        then have "s = 0" by (simp add: checked_sub_def word_le_nat_alt word_unat_eq_iff split: if_splits)
        then have "unat (d_secs a) = unat (d_secs b)" using s le by simp
        with Some None False lt show ?thesis by (simp add: duration_checked_sub_def total_nanos_def)
      next
        case s': (Some s')
        then have "unat s' = unat s - 1" "1 \<le> unat s"
          using unat_checked_sub [OF s'] by (simp_all add: checked_sub_def word_le_nat_alt split: if_splits)
        then have "unat (d_secs a) = unat s' + 1 + unat (d_secs b)" using s by simp
        with Some s' False lt n na nb show ?thesis
          by (simp add: duration_checked_sub_def duration_new_small duration_ok_nat total_nanos_def)
      qed
    qed
  qed
qed

lemma checked_mul_total:
  assumes "duration_ok a"
  shows "case duration_checked_mul a m of
     None \<Rightarrow> 2 ^ 64 * NANOS_PER_SEC \<le> total_nanos a * unat m
   | Some c \<Rightarrow> duration_ok c \<and> total_nanos c = total_nanos a * unat m"
proof -
  let ?N = "unat (d_nanos a) * unat m" and ?S = "unat (d_secs a) * unat m"
  let ?t = "(ucast (d_nanos a) :: u64) * ucast m"
  have "unat (d_nanos a) * unat m < 1000000000 * 4294967296"
    using assms unat_u32 [of m] by (intro mult_strict_mono) (simp_all add: duration_ok_nat)
  then have t: "unat ?t = ?N"
    using unat_u32 [of m] unat_u32 [of "d_nanos a"] by (simp add: unat_word_ariths unat_ucast)
  have m: "unat (ucast m :: u64) = unat m" using unat_u32 [of m] by (simp add: unat_ucast)
  have e: "unat (?t div 1000000000) = ?N div NANOS_PER_SEC" using t by (simp add: unat_div)
  have n: "unat (ucast (?t mod 1000000000) :: u32) = ?N mod NANOS_PER_SEC"
    using t by (simp add: unat_ucast unat_mod)
  have tot: "total_nanos a * unat m = (?S + ?N div NANOS_PER_SEC) * NANOS_PER_SEC + ?N mod NANOS_PER_SEC"
    by (simp add: total_nanos_def algebra_simps)
  have over: "2 ^ 64 * NANOS_PER_SEC \<le> total_nanos a * unat m" if "2 ^ 64 \<le> ?S + ?N div NANOS_PER_SEC"
    using mult_le_mono1 [OF that, of NANOS_PER_SEC] unfolding tot by simp
  show ?thesis
  proof (cases "checked_mul (d_secs a) (ucast m)")
    case None
    then have "2 ^ 64 \<le> ?S" using m by (simp add: checked_mul_def split: if_splits)
    with None over show ?thesis by (simp add: duration_checked_mul_def)
  next
    case (Some s)
    have s: "unat s = ?S" using unat_checked_mul [OF Some] m by simp
    show ?thesis
    proof (cases "checked_add s (?t div 1000000000)")
      case None
      then have "2 ^ 64 \<le> ?S + ?N div NANOS_PER_SEC"
        using s e by (simp add: checked_add_def split: if_splits)
      with Some None over show ?thesis by (simp add: duration_checked_mul_def Let_def)
    next
      case s': (Some s')
      have "unat s' = ?S + ?N div NANOS_PER_SEC" using unat_checked_add [OF s'] s e by simp
      moreover have "duration_checked_mul a m = Some (Duration s' (ucast (?t mod 1000000000)))"
        using Some s' n by (simp add: duration_checked_mul_def Let_def duration_new_small)
      ultimately show ?thesis using n tot by (simp add: duration_ok_nat total_nanos_def)
    qed
  qed
qed

lemma div_split_nat:
  fixes S N r B :: nat
  assumes "0 < r" "N < B"
  shows "(S * B + N) div r = (S div r) * B + (N div r + (S mod r * B + N mod r) div r)"
    and "N div r + (S mod r * B + N mod r) div r < B"
proof -
  have S: "S * B = (S div r * B) * r + S mod r * B"
    by (metis (no_types, opaque_lifting) add_mult_distrib div_mult_mod_eq mult.assoc mult.commute)
  have "S * B + N = (S div r * B + N div r) * r + (S mod r * B + N mod r)"
    using S by (simp add: distrib_right)
  then show "(S * B + N) div r = (S div r) * B + (N div r + (S mod r * B + N mod r) div r)"
    using assms(1) by (simp add: add.assoc)
  have e: "N div r + (S mod r * B + N mod r) div r = (S mod r * B + N) div r"
  proof -
    have "S mod r * B + N = (N div r) * r + (S mod r * B + N mod r)" by simp
    then show ?thesis using assms(1) by (metis div_mult_self3 add.commute less_irrefl)
  qed
  have "(S mod r + 1) * B \<le> r * B" using assms(1) by (intro mult_le_mono1) (simp add: Suc_leI)
  then have "S mod r * B + N < r * B" using assms(2) by simp
  then show "N div r + (S mod r * B + N mod r) div r < B"
    unfolding e using assms(1) by (simp add: less_mult_imp_div_less mult.commute)
qed

lemma checked_div_total:
  assumes "duration_ok a"
  shows "duration_checked_div a m = None \<longleftrightarrow> m = 0"
    and "duration_checked_div a m = Some c \<Longrightarrow> duration_ok c \<and> total_nanos c = total_nanos a div unat m"
proof -
  let ?r = "ucast m :: u64"
  have r: "unat ?r = unat m" using unat_u32 [of m] by (simp add: unat_ucast)
  have na: "unat (d_nanos a) < NANOS_PER_SEC" using assms by (simp add: duration_ok_nat)
  have *: "\<exists>n. duration_checked_div a m = Some (Duration (d_secs a div ?r) n)
     \<and> unat n < NANOS_PER_SEC
     \<and> total_nanos a div unat m = unat (d_secs a) div unat m * NANOS_PER_SEC + unat n"
    if m: "m \<noteq> 0"
  proof -
    have pos: "0 < unat m" using m by (simp add: unat_gt_0)
    note ds = div_split_nat [OF pos na, of "unat (d_secs a)"]
    let ?e = "unat (d_secs a) mod unat m" and ?x = "d_nanos a mod m"
    let ?X = "?e * NANOS_PER_SEC + unat (d_nanos a) mod unat m"
    have e: "unat (d_secs a mod ?r) = ?e" by (simp add: unat_mod r)
    have lt: "?e < 4294967296" "unat (d_nanos a) mod unat m < 4294967296"
      using pos unat_u32 [of m] by (meson less_trans mod_less_divisor)+
    have b: "?e * NANOS_PER_SEC < 4294967296 * NANOS_PER_SEC" using lt(1) by simp
    have mul: "unat (d_secs a mod ?r * 1000000000) = ?e * NANOS_PER_SEC"
      using e b by (simp add: unat_word_ariths)
    have x: "unat (ucast ?x :: u64) = unat (d_nanos a) mod unat m"
      using lt(2) by (simp add: unat_ucast unat_mod)
    have X: "unat (d_secs a mod ?r * 1000000000 + ucast ?x) = ?X"
      using mul x b lt(2) by (subst unat_plus_if') simp
    have q: "unat (ucast ((d_secs a mod ?r * 1000000000 + ucast ?x) div ?r) :: u32) = ?X div unat m"
      using ds(2) X r by (simp add: unat_ucast unat_div)
    have n: "unat (d_nanos a div m + ucast ((d_secs a mod ?r * 1000000000 + ucast ?x) div ?r))
        = unat (d_nanos a) div unat m + ?X div unat m"
      using ds(2) q by (subst unat_plus_if') (simp add: unat_div)
    show ?thesis
      using m n ds by (simp add: duration_checked_div_def Let_def duration_new_small total_nanos_def)
  qed
  show "duration_checked_div a m = None \<longleftrightarrow> m = 0"
    using * by (cases "m = 0") (auto simp: duration_checked_div_def)
  show "duration_ok c \<and> total_nanos c = total_nanos a div unat m"
    if c: "duration_checked_div a m = Some c"
  proof -
    have "m \<noteq> 0" using c by (auto simp: duration_checked_div_def)
    from * [OF this] c show ?thesis
      by (auto simp: duration_ok_nat total_nanos_def unat_div r)
  qed
qed

lemma as_units_total:
  assumes "duration_ok d"
  shows "unat (as_nanos d) = total_nanos d" "unat (as_micros d) = total_nanos d div 1000"
    "unat (as_millis d) = total_nanos d div 1000000"
proof -
  have s: "unat (ucast (d_secs d) :: 128 word) = unat (d_secs d)"
    "unat (ucast (d_nanos d) :: 128 word) = unat (d_nanos d)"
    "unat (ucast (d_nanos d div 1000) :: 128 word) = unat (d_nanos d) div 1000"
    "unat (ucast (d_nanos d div 1000000) :: 128 word) = unat (d_nanos d) div 1000000"
    using unat_u64 [of "d_secs d"] unat_u32 [of "d_nanos d"] by (simp_all add: unat_ucast unat_div)
  have "unat (d_secs d) * k < 18446744073709551616 * 1000000000" if "0 < k" "k \<le> 1000000000" for k
    using unat_u64 [of "d_secs d"] that by (intro mult_less_le_imp_less) simp_all
  then have b: "unat (d_secs d) * 1000000000 < 18446744073709551616 * 1000000000"
    "unat (d_secs d) * 1000000 < 18446744073709551616 * 1000000000"
    "unat (d_secs d) * 1000 < 18446744073709551616 * 1000000000" by simp_all
  have n: "unat (d_nanos d) < 1000000000" using assms by (simp add: duration_ok_nat)
  show "unat (as_nanos d) = total_nanos d"
    using s b n by (simp add: as_nanos_def total_nanos_def unat_word_ariths)
  have k: "unat (d_secs d) * 1000000000 = (unat (d_secs d) * 1000000) * 1000"
    "unat (d_secs d) * 1000000000 = (unat (d_secs d) * 1000) * 1000000" by simp_all
  have d: "total_nanos d div 1000 = unat (d_secs d) * 1000000 + unat (d_nanos d) div 1000"
    "total_nanos d div 1000000 = unat (d_secs d) * 1000 + unat (d_nanos d) div 1000000"
    unfolding total_nanos_def by (subst k(1), simp, subst k(2), simp)
  have q: "unat (d_nanos d) div 1000 < 1000000" "unat (d_nanos d) div 1000000 < 1000" using n by auto
  show "unat (as_micros d) = total_nanos d div 1000" "unat (as_millis d) = total_nanos d div 1000000"
    using s b q unfolding d by (simp_all add: as_micros_def as_millis_def unat_word_ariths)
qed

section \<open>Properties\<close>

text \<open>The duration of a number of nanoseconds: the specification side of the arithmetic.\<close>

definition nanos_duration :: "nat \<Rightarrow> duration" where
  "nanos_duration n = Duration (of_nat (n div NANOS_PER_SEC)) (of_nat (n mod NANOS_PER_SEC))"

abbreviation NANOS_LIMIT :: nat where "NANOS_LIMIT \<equiv> 2 ^ 64 * NANOS_PER_SEC"

lemma nanos_duration_total: "duration_ok d \<Longrightarrow> nanos_duration (total_nanos d) = d"
  by (cases d) (simp add: nanos_duration_def total_nanos_parts [symmetric])

lemma option_exact:
  assumes "case r of None \<Rightarrow> NANOS_LIMIT \<le> n | Some c \<Rightarrow> duration_ok c \<and> total_nanos c = n"
  shows "r = (if n < NANOS_LIMIT then Some (nanos_duration n) else None)"
proof (cases r)
  case (Some c)
  with assms have c: "duration_ok c" "total_nanos c = n" by auto
  have "n < NANOS_LIMIT" using total_nanos_less [OF c(1)] c(2) by simp
  with Some c nanos_duration_total [OF c(1)] show ?thesis by simp
qed (use assms in simp)

text \<open>
  C4: Duration arithmetic is exact. On well-formed durations, checked addition, subtraction,
  multiplication and division compute the operation on the number of nanoseconds (truncating for
  division), return a well-formed duration, and fail exactly when the result does not fit: above
  \<open>u64::MAX\<close> seconds, below zero, or for a zero divisor. The carry, borrow and width juggling of
  the code never shows.
\<close>

theorem duration_arithmetic_exact:
  assumes "duration_ok a" "duration_ok b"
  shows "duration_checked_add a b = (if total_nanos a + total_nanos b < NANOS_LIMIT
      then Some (nanos_duration (total_nanos a + total_nanos b)) else None)
    \<and> duration_checked_sub a b = (if total_nanos b \<le> total_nanos a
      then Some (nanos_duration (total_nanos a - total_nanos b)) else None)
    \<and> duration_checked_mul a m = (if total_nanos a * unat m < NANOS_LIMIT
      then Some (nanos_duration (total_nanos a * unat m)) else None)
    \<and> duration_checked_div a m = (if m \<noteq> 0
      then Some (nanos_duration (total_nanos a div unat m)) else None)"
proof (intro conjI)
  show "duration_checked_add a b = (if total_nanos a + total_nanos b < NANOS_LIMIT
      then Some (nanos_duration (total_nanos a + total_nanos b)) else None)"
    using checked_add_total [OF assms] by (rule option_exact)
  show "duration_checked_mul a m = (if total_nanos a * unat m < NANOS_LIMIT
      then Some (nanos_duration (total_nanos a * unat m)) else None)"
    using checked_mul_total [OF assms(1)] by (rule option_exact)
  show "duration_checked_sub a b = (if total_nanos b \<le> total_nanos a
      then Some (nanos_duration (total_nanos a - total_nanos b)) else None)"
  proof (cases "duration_checked_sub a b")
    case (Some c)
    then have "duration_ok c" "total_nanos c + total_nanos b = total_nanos a"
      using checked_sub_total [OF assms] by auto
    then show ?thesis using Some nanos_duration_total [of c] by (metis add_diff_cancel_right' le_add2)
  qed (use checked_sub_total [OF assms] in auto)
  show "duration_checked_div a m = (if m \<noteq> 0
      then Some (nanos_duration (total_nanos a div unat m)) else None)"
  proof (cases "duration_checked_div a m")
    case (Some c)
    then show ?thesis
      using checked_div_total [OF assms(1), of m] nanos_duration_total [of c] by auto
  qed (use checked_div_total(1) [OF assms(1), of m] in auto)
qed

theorem duration_arithmetic_exact_witness:
  "duration_checked_add (Duration 1 999999999) (Duration 2 2) = Some (Duration 4 1)
    \<and> duration_checked_sub (Duration 1 999999999) (Duration 2 2) = None
    \<and> duration_checked_mul (Duration 1 999999999) 3 = Some (Duration 5 999999997)
    \<and> duration_checked_div (Duration 1 999999999) 3 = Some (Duration 0 666666666)"
  using duration_arithmetic_exact [of "Duration 1 999999999" "Duration 2 2" 3]
  by (simp add: duration_ok_def total_nanos_def nanos_duration_def)

text \<open>The constructors as numbers of nanoseconds.\<close>

lemma nanos_duration_unique:
  "duration_ok d \<Longrightarrow> total_nanos d = n \<Longrightarrow> d = nanos_duration n"
  using nanos_duration_total [of d] by simp

lemma unat_narrow_mod:
  fixes s k :: "'a::len word"
  assumes "unat k < 2 ^ 32" "0 < unat k"
  shows "unat (ucast (s mod k) :: u32) = unat s mod unat k"
proof -
  have "unat s mod unat k < unat k" using assms(2) by simp
  with assms(1) have "unat s mod unat k < 4294967296" by simp
  then show ?thesis by (simp add: unat_ucast unat_mod)
qed

lemma split_units:
  fixes s :: nat assumes "0 < k"
  shows "s div k * (k * m) + s mod k * m = s * m"
proof -
  have "s div k * (k * m) + s mod k * m = (s div k * k + s mod k) * m"
    by (simp only: distrib_right mult.assoc)
  then show ?thesis by simp
qed

lemma constructors_exact:
  "from_secs s = nanos_duration (unat s * NANOS_PER_SEC)"
  "from_millis s = nanos_duration (unat s * 1000000)"
  "from_micros s = nanos_duration (unat s * 1000)"
  "from_nanos s = nanos_duration (unat s)"
proof -
  show "from_secs s = nanos_duration (unat s * NANOS_PER_SEC)"
    by (rule nanos_duration_unique) (simp_all add: from_secs_def duration_ok_def total_nanos_def)
  have m: "unat (ucast (s mod 1000) * 1000000 :: u32) = (unat s mod 1000) * 1000000"
    using unat_narrow_mod [of "1000" s] by (simp add: unat_word_ariths)
  show "from_millis s = nanos_duration (unat s * 1000000)"
    using split_units [of 1000 "unat s" 1000000] m
    by (intro nanos_duration_unique) (simp_all add: from_millis_def duration_ok_nat total_nanos_def unat_div)
  have u: "unat (ucast (s mod 1000000) * 1000 :: u32) = (unat s mod 1000000) * 1000"
    using unat_narrow_mod [of "1000000" s] by (simp add: unat_word_ariths)
  show "from_micros s = nanos_duration (unat s * 1000)"
    using split_units [of 1000000 "unat s" 1000] u
    by (intro nanos_duration_unique) (simp_all add: from_micros_def duration_ok_nat total_nanos_def unat_div)
  show "from_nanos s = nanos_duration (unat s)"
    using unat_narrow_mod [of "1000000000" s]
    by (intro nanos_duration_unique) (simp_all add: from_nanos_def duration_ok_nat total_nanos_def unat_div)
qed

lemma from_nanos_u128_total:
  "case from_nanos_u128 n of
     None \<Rightarrow> NANOS_LIMIT \<le> unat n
   | Some d \<Rightarrow> duration_ok d \<and> total_nanos d = unat n"
proof -
  have max: "unat (ucast (- 1 :: u64) :: 128 word) = 18446744073709551615"
    by (simp add: unat_ucast unsigned_minus_1_eq_mask mask_eq_exp_minus_1)
  have fit: "unat (ucast (n div 1000000000) :: u64) = unat n div NANOS_PER_SEC"
    if "unat n div NANOS_PER_SEC \<le> 18446744073709551615"
    using that by (simp add: unat_ucast unat_div)
  have sub: "unat (ucast (n mod 1000000000) :: u32) = unat n mod NANOS_PER_SEC"
    using unat_narrow_mod [of "1000000000" n] by simp
  show ?thesis
  proof (cases "unat n div NANOS_PER_SEC \<le> 18446744073709551615")
    case True
    then show ?thesis using fit sub max
      by (simp add: from_nanos_u128_def word_less_nat_alt unat_div duration_ok_nat total_nanos_def)
  next
    case False
    then have "18446744073709551616 * NANOS_PER_SEC \<le> unat n div NANOS_PER_SEC * NANOS_PER_SEC"
      by (intro mult_le_mono1) simp
    also have "\<dots> \<le> unat n" by simp
    finally show ?thesis using False max
      by (simp add: from_nanos_u128_def word_less_nat_alt unat_div)
  qed
qed

text \<open>The guard of \<open>from_mins\<close> to \<open>from_weeks\<close> refuses exactly the numbers whose product overflows.\<close>

lemma unit_guard:
  fixes m k :: u64
  assumes "0 < unat k"
  shows "m > - 1 div k \<longleftrightarrow> 2 ^ 64 \<le> unat m * unat k"
proof -
  have max: "unat (- 1 :: u64) = 18446744073709551615"
    by (simp add: unsigned_minus_1_eq_mask mask_eq_exp_minus_1)
  have "unat m \<le> 18446744073709551615 div unat k \<longleftrightarrow> unat m * unat k \<le> 18446744073709551615"
    using assms by (simp add: less_eq_div_iff_mult_less_eq)
  then show ?thesis by (auto simp: word_less_nat_alt unat_div max not_le [symmetric])
qed

lemma unit_constructor:
  fixes m k :: u64
  assumes "0 < unat k"
  shows "(if m > - 1 div k then None else Some (from_secs (m * k)))
    = (if unat m * unat k < 2 ^ 64 then Some (nanos_duration (unat m * unat k * NANOS_PER_SEC)) else None)"
proof (cases "unat m * unat k < 2 ^ 64")
  case True
  then have "unat (m * k) = unat m * unat k" by (simp add: unat_word_ariths)
  with True show ?thesis using unit_guard [OF assms, of m] constructors_exact(1) [of "m * k"] by simp
next
  case False
  with unit_guard [OF assms, of m] show ?thesis by simp
qed

text \<open>
  C38: Every integer constructor makes exactly the duration it is asked for. \<open>new\<close>, \<open>from_secs\<close>,
  \<open>from_millis\<close>, \<open>from_micros\<close>, \<open>from_nanos\<close>, \<open>from_nanos_u128\<close>, \<open>from_mins\<close>, \<open>from_hours\<close>,
  \<open>from_days\<close> and \<open>from_weeks\<close> give the duration of that number of nanoseconds, for every number of
  their argument type; those that can overflow panic exactly when the duration does not fit into
  \<open>u64\<close> seconds. The nanoseconds given to the \<open>unsafe\<close> \<open>Nanoseconds::new_unchecked\<close> are below one
  second each time, so the invariant of that type holds. (The constructors from floating-point
  numbers are not modelled.)
\<close>

theorem duration_constructors_exact:
  "duration_new s k = (if unat s * NANOS_PER_SEC + unat k < NANOS_LIMIT
      then Some (nanos_duration (unat s * NANOS_PER_SEC + unat k)) else None)
    \<and> from_secs s = nanos_duration (unat s * NANOS_PER_SEC)
    \<and> from_millis s = nanos_duration (unat s * 1000000)
    \<and> from_micros s = nanos_duration (unat s * 1000)
    \<and> from_nanos s = nanos_duration (unat s)
    \<and> from_nanos_u128 n = (if unat n < NANOS_LIMIT then Some (nanos_duration (unat n)) else None)
    \<and> from_mins s = (if unat s * 60 < 2 ^ 64
      then Some (nanos_duration (unat s * 60 * NANOS_PER_SEC)) else None)
    \<and> from_hours s = (if unat s * 3600 < 2 ^ 64
      then Some (nanos_duration (unat s * 3600 * NANOS_PER_SEC)) else None)
    \<and> from_days s = (if unat s * 86400 < 2 ^ 64
      then Some (nanos_duration (unat s * 86400 * NANOS_PER_SEC)) else None)
    \<and> from_weeks s = (if unat s * 604800 < 2 ^ 64
      then Some (nanos_duration (unat s * 604800 * NANOS_PER_SEC)) else None)
    \<and> duration_ok (nanos_duration j)"
proof -
  have "duration_ok (nanos_duration j)"
    by (simp add: nanos_duration_def duration_ok_nat unat_of_nat)
  moreover note option_exact [OF duration_new_total [of s k]] option_exact [OF from_nanos_u128_total [of n]]
    constructors_exact [of s]
  moreover have "from_mins s = (if unat s * 60 < 2 ^ 64
      then Some (nanos_duration (unat s * 60 * NANOS_PER_SEC)) else None)"
    using unit_constructor [of 60 s] unfolding from_mins_def by simp
  moreover have "from_hours s = (if unat s * 3600 < 2 ^ 64
      then Some (nanos_duration (unat s * 3600 * NANOS_PER_SEC)) else None)"
    using unit_constructor [of "60 * 60" s] unfolding from_hours_def mult.assoc by simp
  moreover have "from_days s = (if unat s * 86400 < 2 ^ 64
      then Some (nanos_duration (unat s * 86400 * NANOS_PER_SEC)) else None)"
    using unit_constructor [of "60 * (60 * 24)" s] unfolding from_days_def mult.assoc by simp
  moreover have "from_weeks s = (if unat s * 604800 < 2 ^ 64
      then Some (nanos_duration (unat s * 604800 * NANOS_PER_SEC)) else None)"
    using unit_constructor [of "60 * (60 * (24 * 7))" s] unfolding from_weeks_def mult.assoc by simp
  ultimately show ?thesis by (intro conjI) assumption+
qed

text \<open>
  The views of a duration agree with its order and its length: on well-formed durations the
  derived order is the order of the lengths, the \<open>u128\<close> views are the length in nano-, micro- and
  milliseconds without overflow, and rebuilding from the views gives the duration back.
\<close>

lemma duration_views:
  assumes "duration_ok a" "duration_ok b"
  shows "(a \<le> b \<longleftrightarrow> total_nanos a \<le> total_nanos b)
    \<and> unat (as_nanos a) = total_nanos a \<and> unat (as_micros a) = total_nanos a div 1000
    \<and> unat (as_millis a) = total_nanos a div 1000000
    \<and> duration_new (as_secs a) (subsec_nanos a) = Some a
    \<and> (is_zero a \<longleftrightarrow> a = DURATION_ZERO) \<and> DURATION_ZERO \<le> a \<and> a \<le> DURATION_MAX"
proof -
  have z: "DURATION_ZERO = Duration 0 0" by (simp add: DURATION_ZERO_def from_nanos_def)
  have ok: "duration_ok DURATION_ZERO" "duration_ok DURATION_MAX"
    by (simp_all add: z duration_ok_def DURATION_MAX_def)
  have max: "unat (- 1 :: u64) = 18446744073709551615" by (simp add: unsigned_minus_1_eq_mask mask_eq_exp_minus_1)
  have "total_nanos a \<le> total_nanos DURATION_MAX"
    using total_nanos_less [OF assms(1)] max by (simp add: DURATION_MAX_def total_nanos_def)
  moreover have "total_nanos DURATION_ZERO = 0" by (simp add: z total_nanos_def)
  moreover have "duration_new (as_secs a) (subsec_nanos a) = Some a"
    using assms(1) by (cases a) (simp add: as_secs_def subsec_nanos_def duration_new_small duration_ok_nat)
  moreover have "is_zero a \<longleftrightarrow> a = DURATION_ZERO" by (cases a) (simp add: is_zero_def z)
  ultimately show ?thesis
    using assms ok as_units_total [OF assms(1)] by (simp add: duration_le_nat)
qed

lemma duration_views_witness:
  "Duration 1 999999999 \<le> Duration 2 0 \<and> unat (as_millis (Duration 1 999999999)) = 1999
    \<and> duration_new (as_secs (Duration 1 999999999)) (subsec_nanos (Duration 1 999999999))
        = Some (Duration 1 999999999)"
  using duration_views [of "Duration 1 999999999" "Duration 2 0"]
  by (simp add: duration_ok_def total_nanos_def)

end
