(* ===== verification/Time_Aros.thy ===== *)
theory Time_Aros
  imports Duration Io_Error
begin

text \<open>
  \<open>Instant\<close> and \<open>SystemTime\<close> on AROS (\<open>sys/time/aros.rs\<close>), both a duration since their clock's
  zero, and \<open>sleep\<close> (\<open>sys/thread/aros.rs\<close>), which splits a duration for the C glue. What the two
  clocks share is the locale \<open>time_line\<close>; both are instances of it.
\<close>

section \<open>The clock\<close>

text \<open>\<open>tv_sec\<close> is an \<open>i32\<close> on AROS: the low 32 bits of what the callee stores, read as signed.\<close>

definition CLOCK_MONOTONIC :: int where "CLOCK_MONOTONIC = 0"
definition CLOCK_REALTIME :: int where "CLOCK_REALTIME = 2"

text \<open>\<open>Duration::new\<close> cannot overflow here; the model keeps its panic.\<close>

definition duration_or_panic :: "duration option \<Rightarrow> string \<Rightarrow> duration io" where
  "duration_or_panic d msg = (case d of Some x \<Rightarrow> io_return x | None \<Rightarrow> io_panic msg)"

definition clock_now :: "int \<Rightarrow> duration io" where
  "clock_now clk =
    io_bind (sys (MiscC (Clock_gettime clk))) (\<lambda>r.
    let tv_sec = sint (of_int (out_param 0 0 r) :: i32); tv_nsec = out_param 1 0 r in
    if r_ret r \<noteq> 0 \<or> tv_sec < 0 then io_return DURATION_ZERO
    else let nsec = (ucast ((of_int tv_nsec :: u64) mod 1000000000) :: u32)
         in duration_or_panic (duration_new (of_int tv_sec) nsec) ''overflow in Duration::new'')"

section \<open>Instant\<close>

datatype instant = Instant (instant_dur: duration)

definition instant_now :: "instant io" where
  "instant_now = io_bind (clock_now CLOCK_MONOTONIC) (\<lambda>d. io_return (Instant d))"

definition checked_sub_instant :: "instant \<Rightarrow> instant \<Rightarrow> duration option" where
  "checked_sub_instant self other = duration_checked_sub (instant_dur self) (instant_dur other)"

definition instant_checked_add :: "instant \<Rightarrow> duration \<Rightarrow> instant option" where
  "instant_checked_add self other =
     (case duration_checked_add (instant_dur self) other of None \<Rightarrow> None | Some d \<Rightarrow> Some (Instant d))"

definition instant_checked_sub :: "instant \<Rightarrow> duration \<Rightarrow> instant option" where
  "instant_checked_sub self other =
     (case duration_checked_sub (instant_dur self) other of None \<Rightarrow> None | Some d \<Rightarrow> Some (Instant d))"

section \<open>SystemTime\<close>

datatype system_time = SystemTime (system_dur: duration)

definition UNIX_EPOCH :: system_time where
  "UNIX_EPOCH = SystemTime DURATION_ZERO"

definition SYSTEM_TIME_MAX :: system_time where
  "SYSTEM_TIME_MAX = SystemTime DURATION_MAX"

text \<open>
  \<open>SystemTime::new\<close> takes \<open>i64\<close> seconds and nanoseconds; \<open>rem_euclid\<close> by a positive number is the
  mathematical remainder. Seconds before the epoch become 0. The result is \<open>Ok\<close> in every case.
\<close>

definition system_time_new :: "int \<Rightarrow> int \<Rightarrow> system_time io" where
  "system_time_new tv_sec tv_nsec =
    (let nsec = (of_int (tv_nsec mod 1000000000) :: u32)
     in io_bind (duration_or_panic (duration_new (of_int (max tv_sec 0)) nsec)
          ''overflow in Duration::new'') (\<lambda>d. io_return (SystemTime d)))"

definition system_time_now :: "system_time io" where
  "system_time_now = io_bind (clock_now CLOCK_REALTIME) (\<lambda>d. io_return (SystemTime d))"

text \<open>\<open>sub_time\<close>: \<open>Ok\<close> is \<open>Inr\<close>, \<open>Err\<close> is \<open>Inl\<close>; \<open>None\<close> is the panic of \<open>-\<close>.\<close>

definition sub_time :: "system_time \<Rightarrow> system_time \<Rightarrow> (duration + duration) option" where
  "sub_time self other =
    (if system_dur other \<le> system_dur self
     then map_option Inr (duration_sub (system_dur self) (system_dur other))
     else map_option Inl (duration_sub (system_dur other) (system_dur self)))"

definition system_time_checked_add :: "system_time \<Rightarrow> duration \<Rightarrow> system_time option" where
  "system_time_checked_add self other =
     (case duration_checked_add (system_dur self) other of None \<Rightarrow> None | Some d \<Rightarrow> Some (SystemTime d))"

definition system_time_checked_sub :: "system_time \<Rightarrow> duration \<Rightarrow> system_time option" where
  "system_time_checked_sub self other =
     (case duration_checked_sub (system_dur self) other of None \<Rightarrow> None | Some d \<Rightarrow> Some (SystemTime d))"

text \<open>\<open>to_secs_nanos\<close> casts the seconds to \<open>i64\<close>.\<close>

definition to_secs_nanos :: "system_time \<Rightarrow> int \<times> int" where
  "to_secs_nanos t = (sint (as_secs (system_dur t)), uint (subsec_nanos (system_dur t)))"

section \<open>What the two clocks share\<close>

locale time_line =
  fixes since :: "'t \<Rightarrow> duration"
    and at :: "duration \<Rightarrow> 't"
    and plus :: "'t \<Rightarrow> duration \<Rightarrow> 't option"
    and minus :: "'t \<Rightarrow> duration \<Rightarrow> 't option"
  assumes since_at: "since (at d) = d"
    and at_since: "at (since t) = t"
    and plus_is: "plus t d = map_option at (duration_checked_add (since t) d)"
    and minus_is: "minus t d = map_option at (duration_checked_sub (since t) d)"
begin

definition point_ok :: "'t \<Rightarrow> bool" where
  "point_ok t \<longleftrightarrow> duration_ok (since t)"

lemma plus_total:
  assumes "point_ok t" "duration_ok d"
  shows "plus t d = (if total_nanos (since t) + total_nanos d < NANOS_LIMIT
     then Some (at (nanos_duration (total_nanos (since t) + total_nanos d))) else None)"
  using option_exact [OF checked_add_total [of "since t" d]] assms
  by (simp add: plus_is point_ok_def)

lemma plus_minus:
  assumes "point_ok t" "duration_ok d" "plus t d = Some u"
  shows "minus u d = Some t"
proof -
  obtain e where e: "duration_checked_add (since t) d = Some e" "u = at e"
    using assms(3) by (auto simp: plus_is)
  have ok: "duration_ok (since t)" using assms(1) by (simp add: point_ok_def)
  have te: "duration_ok e" "total_nanos e = total_nanos (since t) + total_nanos d"
    using checked_add_total [OF ok assms(2)] e(1) by auto
  show ?thesis
  proof (cases "duration_checked_sub e d")
    case None
    with checked_sub_total [OF te(1) assms(2)] te(2) show ?thesis by simp
  next
    case (Some f)
    with checked_sub_total [OF te(1) assms(2)] te(2)
    have "duration_ok f" "total_nanos f = total_nanos (since t)" by auto
    then have "f = since t" using total_nanos_inj ok by blast
    with Some e(2) show ?thesis by (simp add: minus_is since_at at_since)
  qed
qed

lemma minus_plus:
  assumes "point_ok t" "duration_ok d" "minus t d = Some u"
  shows "plus u d = Some t"
proof -
  obtain e where e: "duration_checked_sub (since t) d = Some e" "u = at e"
    using assms(3) by (auto simp: minus_is)
  have ok: "duration_ok (since t)" using assms(1) by (simp add: point_ok_def)
  have te: "duration_ok e" "total_nanos e + total_nanos d = total_nanos (since t)"
    using checked_sub_total [OF ok assms(2)] e(1) by auto
  have "duration_checked_add e d = Some (since t)"
    using option_exact [OF checked_add_total [OF te(1) assms(2)]] te(2)
      total_nanos_less [OF ok] nanos_duration_total [OF ok] by simp
  then show ?thesis by (simp add: plus_is e(2) since_at at_since)
qed

lemma plus_ok: "point_ok t \<Longrightarrow> duration_ok d \<Longrightarrow> plus t d = Some u \<Longrightarrow> point_ok u"
  using checked_add_total [of "since t" d]
  by (auto simp: plus_is point_ok_def since_at split: option.splits)

end

interpretation instants: time_line instant_dur Instant instant_checked_add instant_checked_sub
  by unfold_locales
    (auto simp: instant_checked_add_def instant_checked_sub_def split: option.splits)

interpretation system_times: time_line system_dur SystemTime system_time_checked_add
    system_time_checked_sub
  by unfold_locales
    (auto simp: system_time_checked_add_def system_time_checked_sub_def split: option.splits)

section \<open>sleep\<close>

text \<open>
  The chunks of a long sleep: the loop of \<open>sleep\<close>. The C function's answer is ignored.
\<close>

function sleep_loop :: "u64 \<Rightarrow> u32 \<Rightarrow> unit io" where
  "sleep_loop secs nsecs =
    (if secs > 0xFFFFFFFF then
       io_bind (sys (ThrC (Thr_sleep 0xFFFFFFFF 0))) (\<lambda>_. sleep_loop (secs - 0xFFFFFFFF) nsecs)
     else io_bind (sys (ThrC (Thr_sleep (ucast secs) nsecs))) (\<lambda>_. io_return ()))"
  by pat_completeness auto
termination
  by (relation "measure (\<lambda>(s, n). unat s)")
    (auto simp: word_less_nat_alt unat_sub word_le_nat_alt)

declare sleep_loop.simps [simp del]

definition thread_sleep :: "duration \<Rightarrow> unit io" where
  "thread_sleep dur = sleep_loop (as_secs dur) (subsec_nanos dur)"

text \<open>The nanoseconds the calls of a history ask the glue to sleep.\<close>

fun slept_nanos :: "trace \<Rightarrow> nat" where
  "slept_nanos [] = 0"
| "slept_nanos ((ThrC (Thr_sleep s n), r) # t) = unat s * NANOS_PER_SEC + unat n + slept_nanos t"
| "slept_nanos (_ # t) = slept_nanos t"

lemma sleep_loop_run:
  "\<exists>t. sleep_loop secs nsecs s = (Ok (), s\<lparr>os_trace := os_trace s @ t\<rparr>)
     \<and> slept_nanos t = unat secs * NANOS_PER_SEC + unat nsecs
     \<and> (\<forall>x\<in>set t. \<exists>a b. fst x = ThrC (Thr_sleep a b))
     \<and> length t = (unat secs - 1) div 0xFFFFFFFF + 1"
proof (induction secs nsecs arbitrary: s rule: sleep_loop.induct)
  case (1 secs nsecs)
  show ?case
  proof (cases "secs > 0xFFFFFFFF")
    case True
    let ?c = "ThrC (Thr_sleep 0xFFFFFFFF 0)"
    let ?r = "os_oracle s (os_trace s) ?c"
    let ?s = "s\<lparr>os_trace := os_trace s @ [(?c, ?r)]\<rparr>"
    have u: "unat secs = unat (secs - 0xFFFFFFFF) + 4294967295" "4294967295 < unat secs"
      using True by (simp_all add: unat_sub word_le_nat_alt word_less_nat_alt)
    obtain t where t: "sleep_loop (secs - 0xFFFFFFFF) nsecs ?s
        = (Ok (), ?s\<lparr>os_trace := os_trace ?s @ t\<rparr>)"
      "slept_nanos t = unat (secs - 0xFFFFFFFF) * NANOS_PER_SEC + unat nsecs"
      "\<forall>x\<in>set t. \<exists>a b. fst x = ThrC (Thr_sleep a b)"
      "length t = (unat (secs - 0xFFFFFFFF) - 1) div 0xFFFFFFFF + 1"
      using "1.IH" [OF True, of ?s] by blast
    have "sleep_loop secs nsecs s = (Ok (), s\<lparr>os_trace := os_trace s @ (?c, ?r) # t\<rparr>)"
      using t(1) True by (simp add: sleep_loop.simps [of secs] io_simps Let_def)
    moreover have "slept_nanos ((?c, ?r) # t) = unat secs * NANOS_PER_SEC + unat nsecs"
      unfolding u(1) using t(2) by (simp add: distrib_right)
    moreover have "unat secs - 1 = (unat (secs - 0xFFFFFFFF) - 1) + 4294967295"
      using u by simp
    then have "length ((?c, ?r) # t) = (unat secs - 1) div 0xFFFFFFFF + 1"
      using t(4) by simp
    moreover have "\<forall>x\<in>set ((?c, ?r) # t). \<exists>a b. fst x = ThrC (Thr_sleep a b)" using t(3) by simp
    ultimately show ?thesis by blast
  next
    case False
    let ?c = "ThrC (Thr_sleep (ucast secs) nsecs)"
    let ?r = "os_oracle s (os_trace s) ?c"
    have u: "unat secs \<le> 4294967295" using False by (simp add: word_less_nat_alt)
    then have "unat (ucast secs :: u32) = unat secs" by (simp add: unat_ucast)
    then have "slept_nanos [(?c, ?r)] = unat secs * NANOS_PER_SEC + unat nsecs" by simp
    moreover have "sleep_loop secs nsecs s = (Ok (), s\<lparr>os_trace := os_trace s @ [(?c, ?r)]\<rparr>)"
      using False by (simp add: sleep_loop.simps [of secs] io_simps Let_def)
    moreover have "length [(?c, ?r)] = (unat secs - 1) div 0xFFFFFFFF + 1" using u by simp
    ultimately show ?thesis by (intro exI [of _ "[(?c, ?r)]"]) simp
  qed
qed

lemma clock_now_ok:
  "\<exists>d s'. clock_now clk s = (Ok d, s') \<and> duration_ok d"
proof -
  let ?c = "MiscC (Clock_gettime clk)"
  let ?r = "os_oracle s (os_trace s) ?c"
  let ?n = "ucast ((of_int (out_param 1 0 ?r) :: u64) mod 1000000000) :: u32"
  have "unat ?n < NANOS_PER_SEC" by (simp add: unat_ucast unat_mod)
  then show ?thesis
    by (auto simp: clock_now_def io_simps Let_def duration_or_panic_def duration_new_small
        duration_ok_nat DURATION_ZERO_def from_nanos_def)
qed

lemma system_time_new_eq:
  "system_time_new sec nsec s =
     (Ok (SystemTime (Duration (of_int (max sec 0)) (of_int (nsec mod 1000000000)))), s)"
proof -
  have "0 \<le> nsec mod 1000000000" "nsec mod 1000000000 < 1000000000" by simp_all
  then have "unat (of_int (nsec mod 1000000000) :: u32) < NANOS_PER_SEC"
    by (simp add: unat_eq_nat_uint uint_word_of_int_eq take_bit_int_eq_self)
  then show ?thesis by (simp add: system_time_new_def Let_def duration_or_panic_def duration_new_small)
qed

section \<open>Properties\<close>

text \<open>
  \<open>sleep\<close> returns for every duration and sleeps exactly that long: the calls it makes are all
  sleep calls, ask for the duration's nanoseconds in total, and are one more than the number of
  whole \<open>u32::MAX\<close>-second chunks the loop peels off.
\<close>

lemma thread_sleep_exact:
  "\<exists>t. thread_sleep d s = (Ok (), s\<lparr>os_trace := os_trace s @ t\<rparr>)
     \<and> slept_nanos t = total_nanos d
     \<and> (\<forall>x\<in>set t. \<exists>a b. fst x = ThrC (Thr_sleep a b))
     \<and> length t = (unat (d_secs d) - 1) div 0xFFFFFFFF + 1"
  using sleep_loop_run [of "d_secs d" "d_nanos d" s]
  by (simp add: thread_sleep_def as_secs_def subsec_nanos_def total_nanos_def)

text \<open>Its second part quantifies over the calls of any run; here is one.\<close>

theorem thread_sleep_exact_witness:
  "\<exists>t. thread_sleep (Duration 4294967297 5) (boot (\<lambda>t c. ret 0))
     = (Ok (), (boot (\<lambda>t c. ret 0))\<lparr>os_trace := t\<rparr>)
     \<and> slept_nanos t = 4294967297000000005 \<and> length t = 2"
  using thread_sleep_exact [of "Duration 4294967297 5" "boot (\<lambda>t c. ret 0)"]
  by (auto simp: total_nanos_def)

text \<open>
  Both clocks are time lines. Adding a duration to a time and subtracting it again gives the
  time back, and the other way round, whenever the first step does not overflow; the result stays
  well-formed.
\<close>

lemma time_points_roundtrip:
  assumes "duration_ok d" "duration_ok (instant_dur i)" "duration_ok (system_dur t)"
  shows "(case instant_checked_add i d of None \<Rightarrow> NANOS_LIMIT \<le> total_nanos (instant_dur i) + total_nanos d
      | Some j \<Rightarrow> instant_checked_sub j d = Some i \<and> duration_ok (instant_dur j)
          \<and> checked_sub_instant j i = Some d)
    \<and> (case system_time_checked_add t d of None \<Rightarrow> NANOS_LIMIT \<le> total_nanos (system_dur t) + total_nanos d
      | Some u \<Rightarrow> system_time_checked_sub u d = Some t \<and> duration_ok (system_dur u))
    \<and> (case system_time_checked_sub t d of None \<Rightarrow> total_nanos (system_dur t) < total_nanos d
      | Some u \<Rightarrow> system_time_checked_add u d = Some t)"
proof (intro conjI)
  have i: "instants.point_ok i" and t: "system_times.point_ok t"
    using assms by (simp_all add: instants.point_ok_def system_times.point_ok_def)
  show "case instant_checked_add i d of None \<Rightarrow> NANOS_LIMIT \<le> total_nanos (instant_dur i) + total_nanos d
      | Some j \<Rightarrow> instant_checked_sub j d = Some i \<and> duration_ok (instant_dur j)
          \<and> checked_sub_instant j i = Some d"
  proof (cases "instant_checked_add i d")
    case None
    with instants.plus_total [OF i assms(1)] show ?thesis by (simp split: if_splits)
  next
    case (Some j)
    have j: "duration_ok (instant_dur j)"
      using instants.plus_ok [OF i assms(1) Some] by (simp add: instants.point_ok_def)
    have "duration_checked_add (instant_dur i) d = Some (instant_dur j)"
      using Some by (auto simp: instant_checked_add_def split: option.splits)
    with checked_add_total [OF assms(2,1)]
    have "total_nanos (instant_dur j) = total_nanos (instant_dur i) + total_nanos d" by simp
    with checked_sub_total [OF j assms(2)] have "checked_sub_instant j i = Some d"
      using total_nanos_inj [OF _ assms(1)]
      by (auto simp: checked_sub_instant_def split: option.splits)
    with Some j instants.plus_minus [OF i assms(1) Some] show ?thesis by simp
  qed
  show "case system_time_checked_add t d of
      None \<Rightarrow> NANOS_LIMIT \<le> total_nanos (system_dur t) + total_nanos d
    | Some u \<Rightarrow> system_time_checked_sub u d = Some t \<and> duration_ok (system_dur u)"
    using system_times.plus_total [OF t assms(1)] system_times.plus_minus [OF t assms(1)]
      system_times.plus_ok [OF t assms(1)]
    by (auto simp: system_times.point_ok_def split: option.splits if_splits)
  show "case system_time_checked_sub t d of None \<Rightarrow> total_nanos (system_dur t) < total_nanos d
      | Some u \<Rightarrow> system_time_checked_add u d = Some t"
    using system_times.minus_plus [OF t assms(1)] checked_sub_total [OF assms(3,1)]
    by (auto simp: system_time_checked_sub_def split: option.splits)
qed

theorem time_points_roundtrip_witness:
  "instant_checked_sub (Instant (Duration 5 1)) (Duration 1 999999999) = Some (Instant (Duration 3 2))
   \<and> system_time_checked_sub (SystemTime (Duration 5 1)) (Duration 1 999999999)
       = Some (SystemTime (Duration 3 2))"
  using time_points_roundtrip [of "Duration 1 999999999" "Instant (Duration 3 2)"
      "SystemTime (Duration 3 2)"]
  by (simp add: duration_ok_def instant_checked_add_def system_time_checked_add_def
      duration_checked_add_def checked_add_def duration_new_def)

text \<open>
  \<open>sub_time\<close> never panics: the guard picks the direction in which the subtraction succeeds. Its
  answer is the distance, on the \<open>Ok\<close> side exactly when the first time is not the earlier one.
\<close>

lemma sub_time_total:
  assumes "duration_ok (system_dur a)" "duration_ok (system_dur b)"
  shows "case sub_time a b of
      None \<Rightarrow> False
    | Some (Inr d) \<Rightarrow> system_dur b \<le> system_dur a \<and> system_time_checked_add b d = Some a
    | Some (Inl d) \<Rightarrow> system_dur a < system_dur b \<and> system_time_checked_add a d = Some b"
proof -
  have *: "\<exists>d. duration_checked_sub (system_dur u) (system_dur v) = Some d
      \<and> system_time_checked_add v d = Some u"
    if "system_dur v \<le> system_dur u" and ok: "duration_ok (system_dur u)" "duration_ok (system_dur v)"
    for u v
  proof -
    have le: "total_nanos (system_dur v) \<le> total_nanos (system_dur u)"
      using that duration_le_nat by blast
    then obtain d where d: "duration_checked_sub (system_dur u) (system_dur v) = Some d"
      "duration_ok d" "total_nanos d + total_nanos (system_dur v) = total_nanos (system_dur u)"
      using checked_sub_total [OF ok] by (auto split: option.splits)
    have v: "system_times.point_ok v" using ok by (simp add: system_times.point_ok_def)
    have "system_time_checked_add v d = Some u"
      using system_times.plus_total [OF v d(2)] d(3) total_nanos_less [OF ok(1)]
        nanos_duration_total [OF ok(1)] by (simp add: add.commute)
    with d(1) show ?thesis by blast
  qed
  show ?thesis
  proof (cases "system_dur b \<le> system_dur a")
    case True
    with * [OF True assms] show ?thesis by (auto simp: sub_time_def duration_sub_def)
  next
    case False
    then have "system_dur a \<le> system_dur b" by simp
    from * [OF this assms(2,1)] False show ?thesis by (auto simp: sub_time_def duration_sub_def)
  qed
qed

lemma sub_time_total_witness:
  "sub_time (SystemTime (Duration 3 1)) (SystemTime (Duration 3 2)) \<noteq> None"
  using sub_time_total [of "SystemTime (Duration 3 1)" "SystemTime (Duration 3 2)"]
  by (auto simp: duration_ok_def split: option.splits)

text \<open>
  File times survive the trip through the C structures: a time read from the C library at or
  after the epoch (any \<open>i64\<close> seconds, nanoseconds below one second) goes back to \<open>utimes\<close> unchanged.
  A time before the epoch does not: its seconds become 0 while its nanoseconds stay.
\<close>

lemma system_time_c_roundtrip:
  assumes "sec < 2 ^ 63" "0 \<le> nsec" "nsec < 1000000000"
  shows "\<exists>t. system_time_new sec nsec s = (Ok t, s) \<and> duration_ok (system_dur t)
    \<and> to_secs_nanos t = (max sec 0, nsec)"
proof -
  have nm: "nsec mod 1000000000 = nsec" using assms by simp
  have n: "uint (of_int nsec :: u32) = nsec"
    using assms by (simp add: uint_word_of_int_eq take_bit_int_eq_self)
  then have ok: "unat (of_int nsec :: u32) < NANOS_PER_SEC"
    using assms(3) by (simp add: unat_eq_nat_uint)
  have m: "0 \<le> max sec 0" "max sec 0 < 2 ^ 63" using assms(1) by simp_all
  have "sint (of_int (max sec 0) :: u64) = (max sec 0 + 2 ^ 63) mod 2 ^ 64 - 2 ^ 63"
    using int_word_sint [of "max sec 0", where 'a = 64] by simp
  also have "(max sec 0 + 2 ^ 63) mod 2 ^ 64 = max sec 0 + 2 ^ 63"
    using m by (intro mod_pos_pos_trivial) simp_all
  finally have "sint (of_int (max sec 0) :: u64) = max sec 0" by simp
  with n ok show ?thesis
    by (simp add: system_time_new_eq nm to_secs_nanos_def as_secs_def subsec_nanos_def duration_ok_nat)
qed

lemma system_time_c_roundtrip_witness:
  "\<exists>t. system_time_new (-1) 999999999 (boot (\<lambda>t c. ret 0)) = (Ok t, boot (\<lambda>t c. ret 0))
    \<and> to_secs_nanos t = (0, 999999999)"
  using system_time_c_roundtrip [of "-1" 999999999 "boot (\<lambda>t c. ret 0)"] by auto

end
