(* ===== verification/Fs_Aros.thy ===== *)
theory Fs_Aros
  imports Fs_Path Time_Aros
begin

unbundle bit_operations_syntax

text \<open>
  The file system layer \<open>sys/fs/aros.rs\<close>: open options and their flags, file attributes, types and
  permissions, files, directories and links, over the posixc functions of \<open>Os_Interface\<close>. A file
  is its descriptor; \<open>Drop\<close> is an operation of its own (\<open>file_drop\<close>, \<open>read_dir_drop\<close>), placed
  where the code's scopes end.
\<close>

section \<open>Constants\<close>

definition O_RDONLY :: u32 where "O_RDONLY = 0x0001"
definition O_WRONLY :: u32 where "O_WRONLY = 0x0002"
definition O_RDWR :: u32 where "O_RDWR = 0x0003"
definition O_CREAT :: u32 where "O_CREAT = 0x0040"
definition O_EXCL :: u32 where "O_EXCL = 0x0080"
definition O_TRUNC :: u32 where "O_TRUNC = 0x0200"
definition O_APPEND :: u32 where "O_APPEND = 0x0400"

definition S_IFMT :: u32 where "S_IFMT = 0xF000"
definition S_IFREG :: u32 where "S_IFREG = 0x8000"
definition S_IFDIR :: u32 where "S_IFDIR = 0x4000"
definition S_IFLNK :: u32 where "S_IFLNK = 0xA000"

definition DT_DIR :: u32 where "DT_DIR = 4"
definition DT_REG :: u32 where "DT_REG = 8"
definition DT_LNK :: u32 where "DT_LNK = 10"

lemmas o_flags = O_RDONLY_def O_WRONLY_def O_RDWR_def O_CREAT_def O_EXCL_def O_TRUNC_def O_APPEND_def
lemmas s_modes = S_IFMT_def S_IFREG_def S_IFDIR_def S_IFLNK_def
lemmas dt_types = DT_DIR_def DT_REG_def DT_LNK_def

section \<open>Attributes, types, permissions\<close>

datatype file_permissions = FilePermissions (perm_mode: u32)

datatype file_type = FileType (type_mode: u32)

record file_attr =
  fa_size :: u64
  fa_mode :: u32
  fa_nlink :: u32
  fa_ino :: u64
  fa_mtime :: "int \<times> int"
  fa_atime :: "int \<times> int"
  fa_ctime :: "int \<times> int"

text \<open>
  \<open>FileAttr::from_raw\<close> on the structure the C glue fills; it starts out zeroed. The order of the
  integers is the order of the fields of \<open>struct aros_fileattr\<close>.
\<close>

definition attr_from_raw :: "reply \<Rightarrow> file_attr" where
  "attr_from_raw r =
    \<lparr>fa_size = of_int (out_param 0 0 r), fa_mode = of_int (out_param 1 0 r),
     fa_nlink = of_int (out_param 2 0 r), fa_ino = of_int (out_param 3 0 r),
     fa_mtime = (out_param 4 0 r, out_param 5 0 r),
     fa_atime = (out_param 6 0 r, out_param 7 0 r),
     fa_ctime = (out_param 8 0 r, out_param 9 0 r)\<rparr>"

definition attr_perm :: "file_attr \<Rightarrow> file_permissions" where
  "attr_perm a = FilePermissions (fa_mode a)"

definition attr_file_type :: "file_attr \<Rightarrow> file_type" where
  "attr_file_type a = FileType (fa_mode a)"

definition attr_modified :: "file_attr \<Rightarrow> system_time io" where
  "attr_modified a = system_time_new (fst (fa_mtime a)) (snd (fa_mtime a))"

definition attr_accessed :: "file_attr \<Rightarrow> system_time io" where
  "attr_accessed a = system_time_new (fst (fa_atime a)) (snd (fa_atime a))"

definition attr_created :: "file_attr \<Rightarrow> system_time io" where
  "attr_created a = io_fail (SimpleMessage Unsupported ''birth time is not available on AROS'')"

definition perm_readonly :: "file_permissions \<Rightarrow> bool" where
  "perm_readonly p \<longleftrightarrow> perm_mode p AND 0x92 = 0"

definition perm_set_readonly :: "bool \<Rightarrow> file_permissions \<Rightarrow> file_permissions" where
  "perm_set_readonly readonly p = FilePermissions
     (if readonly then perm_mode p AND NOT 0x92 else perm_mode p OR 0x92)"

definition is_dir :: "file_type \<Rightarrow> bool" where
  "is_dir t \<longleftrightarrow> type_mode t AND S_IFMT = S_IFDIR"

definition is_file :: "file_type \<Rightarrow> bool" where
  "is_file t \<longleftrightarrow> type_mode t AND S_IFMT = S_IFREG"

definition is_symlink :: "file_type \<Rightarrow> bool" where
  "is_symlink t \<longleftrightarrow> type_mode t AND S_IFMT = S_IFLNK"

record file_times =
  ft_accessed :: "system_time option"
  ft_modified :: "system_time option"

section \<open>Open options\<close>

record open_options =
  oo_read :: bool
  oo_write :: bool
  oo_append :: bool
  oo_truncate :: bool
  oo_create :: bool
  oo_create_new :: bool

definition open_options_new :: open_options where
  "open_options_new = \<lparr>oo_read = False, oo_write = False, oo_append = False, oo_truncate = False,
     oo_create = False, oo_create_new = False\<rparr>"

definition EINVAL :: int where "EINVAL = 22"

fun open_access :: "bool \<Rightarrow> bool \<Rightarrow> bool \<Rightarrow> io_error + u32" where
  "open_access True False False = Inr O_RDONLY"
| "open_access False True False = Inr O_WRONLY"
| "open_access True True False = Inr O_RDWR"
| "open_access False _ True = Inr (O_WRONLY OR O_APPEND)"
| "open_access True _ True = Inr (O_RDWR OR O_APPEND)"
| "open_access False False False = Inl (from_raw_os_error EINVAL)"

definition open_creation :: "open_options \<Rightarrow> io_error + u32" where
  "open_creation o1 = (case (oo_write o1, oo_append o1) of
      (True, False) \<Rightarrow> Inr 0
    | (False, False) \<Rightarrow>
        if oo_truncate o1 \<or> oo_create o1 \<or> oo_create_new o1 then Inl (from_raw_os_error EINVAL)
        else Inr 0
    | (_, True) \<Rightarrow>
        if oo_truncate o1 \<and> \<not> oo_create_new o1 then Inl (from_raw_os_error EINVAL) else Inr 0)"

definition open_flags :: "open_options \<Rightarrow> io_error + u32" where
  "open_flags o1 =
    (case open_access (oo_read o1) (oo_write o1) (oo_append o1) of
       Inl e \<Rightarrow> Inl e
     | Inr access \<Rightarrow> (case open_creation o1 of
         Inl e \<Rightarrow> Inl e
       | Inr creation \<Rightarrow>
           (let f = access OR creation in
            Inr (if oo_create_new o1 then f OR (O_CREAT OR O_EXCL)
                 else (let f1 = (if oo_create o1 then f OR O_CREAT else f)
                       in if oo_truncate o1 then f1 OR O_TRUNC else f1)))))"

section \<open>Files\<close>

text \<open>The common shape: a C function that answers 0 for success.\<close>

definition sys_unit :: "call \<Rightarrow> unit io" where
  "sys_unit c = io_bind (sys c) (\<lambda>r. if r_ret r = 0 then io_return () else os_fail)"

text \<open>\<open>cstr(p)?\<close>.\<close>

definition with_cstr :: "path \<Rightarrow> (bytes \<Rightarrow> 'a io) \<Rightarrow> 'a io" where
  "with_cstr p k = io_bind (io_of (cstr p)) k"

definition file_open :: "path \<Rightarrow> open_options \<Rightarrow> int io" where
  "file_open p opts = with_cstr p (\<lambda>c.
    io_bind (io_of (open_flags opts)) (\<lambda>f.
    io_bind (sys (FsC (C_open c f 0x1B6))) (\<lambda>r.
    if r_ret r < 0 then os_fail else io_return (r_ret r))))"

text \<open>\<open>read\<close> into a buffer: the count, and the buffer afterwards.\<close>

definition file_read :: "int \<Rightarrow> bytes \<Rightarrow> (nat \<times> bytes) io" where
  "file_read fd buf =
    io_bind (sys (FsC (C_read fd (length buf)))) (\<lambda>r.
    if r_ret r < 0 then os_fail else io_return (nat (r_ret r), overwrite buf (r_data r)))"

fun file_read_vectored :: "int \<Rightarrow> bytes list \<Rightarrow> (nat \<times> bytes list) io" where
  "file_read_vectored fd [] = io_return (0, [])"
| "file_read_vectored fd (b # bs) =
    (if b \<noteq> [] then io_bind (file_read fd b) (\<lambda>(n, b'). io_return (n, b' # bs))
     else io_bind (file_read_vectored fd bs) (\<lambda>(n, bs'). io_return (n, b # bs')))"

text \<open>
  \<open>read_buf\<close>: the bytes appended to the cursor. Slicing beyond the 512-byte buffer and appending
  beyond the capacity panic.
\<close>

definition file_read_buf :: "int \<Rightarrow> nat \<Rightarrow> bytes io" where
  "file_read_buf fd capacity =
    (let cap = min capacity 512
     in io_bind (file_read fd (replicate cap 0)) (\<lambda>(n, tmp).
        if n > 512 then io_panic ''range end index out of range''
        else if n > capacity then io_panic ''assertion failed: self.capacity() >= buf.len()''
        else io_return (take n (tmp @ replicate (512 - cap) 0))))"

definition file_write :: "int \<Rightarrow> bytes \<Rightarrow> nat io" where
  "file_write fd buf =
    io_bind (sys (FsC (C_write fd buf))) (\<lambda>r.
    if r_ret r < 0 then os_fail else io_return (nat (r_ret r)))"

fun file_write_vectored :: "int \<Rightarrow> bytes list \<Rightarrow> nat io" where
  "file_write_vectored fd bufs =
    (case filter (\<lambda>b. b \<noteq> []) bufs of b # _ \<Rightarrow> file_write fd b | [] \<Rightarrow> io_return 0)"

datatype seek_from = SeekStart u64 | SeekCurrent i64 | SeekEnd i64

definition SEEK_SET :: int where "SEEK_SET = 0"
definition SEEK_CUR :: int where "SEEK_CUR = 1"
definition SEEK_END :: int where "SEEK_END = 2"

definition file_seek :: "int \<Rightarrow> seek_from \<Rightarrow> u64 io" where
  "file_seek fd pos =
    (let (whence, off) = (case pos of
           SeekStart n \<Rightarrow> (SEEK_SET, n)
         | SeekCurrent n \<Rightarrow> (SEEK_CUR, n)
         | SeekEnd n \<Rightarrow> (SEEK_END, n))
     in io_bind (sys (FsC (C_lseek fd (sint off) whence))) (\<lambda>r.
        if r_ret r < 0 then os_fail else io_return (of_int (r_ret r))))"

definition file_tell :: "int \<Rightarrow> u64 io" where
  "file_tell fd =
    io_bind (sys (FsC (C_lseek fd 0 SEEK_CUR))) (\<lambda>r.
    if r_ret r < 0 then os_fail else io_return (of_int (r_ret r)))"

definition file_attr_of :: "int \<Rightarrow> file_attr io" where
  "file_attr_of fd =
    io_bind (sys (AttrC (C_fstat fd))) (\<lambda>r.
    if r_ret r = 0 then io_return (attr_from_raw r) else os_fail)"

definition file_truncate :: "int \<Rightarrow> u64 \<Rightarrow> unit io" where
  "file_truncate fd sz = sys_unit (FsC (C_ftruncate fd (sint sz)))"

definition file_duplicate :: "int \<Rightarrow> int io" where
  "file_duplicate fd =
    io_bind (sys (FsC (C_dup fd))) (\<lambda>r. if r_ret r < 0 then os_fail else io_return (r_ret r))"

definition file_set_permissions :: "int \<Rightarrow> file_permissions \<Rightarrow> unit io" where
  "file_set_permissions fd perm = sys_unit (AttrC (C_fchmod fd (ucast (perm_mode perm AND 0xFFF))))"

definition file_set_times :: "int \<Rightarrow> file_times \<Rightarrow> unit io" where
  "file_set_times fd ft = io_fail (SimpleMessage Unsupported
     ''setting file times through an open handle is not available on AROS (no futimes)'')"

definition file_drop :: "int \<Rightarrow> unit io" where
  "file_drop fd = io_bind (sys (FsC (C_close fd))) (\<lambda>_. io_return ())"

section \<open>Attributes by path\<close>

definition fs_stat :: "path \<Rightarrow> file_attr io" where
  "fs_stat p = with_cstr p (\<lambda>c.
    io_bind (sys (AttrC (C_stat c))) (\<lambda>r.
    if r_ret r = 0 then io_return (attr_from_raw r) else os_fail))"

definition fs_lstat :: "path \<Rightarrow> file_attr io" where
  "fs_lstat p = with_cstr p (\<lambda>c.
    io_bind (sys (AttrC (C_lstat c))) (\<lambda>r.
    if r_ret r = 0 then io_return (attr_from_raw r) else os_fail))"

definition fs_exists :: "path \<Rightarrow> bool io" where
  "fs_exists p = io_bind (io_attempt (fs_stat p)) (\<lambda>res. case res of
      Inr _ \<Rightarrow> io_return True
    | Inl e \<Rightarrow> if error_kind_of e = NotFound then io_return False else io_fail e)"

definition fs_set_perm :: "path \<Rightarrow> file_permissions \<Rightarrow> unit io" where
  "fs_set_perm p perm = with_cstr p (\<lambda>c.
    sys_unit (AttrC (C_chmod c (ucast (perm_mode perm AND 0xFFF)))))"

definition set_times_common :: "path \<Rightarrow> file_times \<Rightarrow> unit io" where
  "set_times_common p ft =
    io_bind (case (ft_accessed ft, ft_modified ft) of
        (Some a, Some m) \<Rightarrow> io_return (a, m)
      | _ \<Rightarrow> io_bind (fs_stat p) (\<lambda>cur.
          io_bind (case ft_accessed ft of None \<Rightarrow> attr_accessed cur | Some a \<Rightarrow> io_return a) (\<lambda>a.
          io_bind (case ft_modified ft of None \<Rightarrow> attr_modified cur | Some m \<Rightarrow> io_return m) (\<lambda>m.
          io_return (a, m))))) (\<lambda>(at, mt).
    let (as1, an) = to_secs_nanos at; (ms, mn) = to_secs_nanos mt
    in with_cstr p (\<lambda>c. sys_unit (AttrC (C_utimes c as1 an ms mn))))"

definition fs_set_times :: "path \<Rightarrow> file_times \<Rightarrow> unit io" where
  "fs_set_times p ft = set_times_common p ft"

definition fs_set_times_nofollow :: "path \<Rightarrow> file_times \<Rightarrow> unit io" where
  "fs_set_times_nofollow p ft = io_fail (SimpleMessage Unsupported
     ''setting a symlink's own times is not available on AROS (no lutimes)'')"

section \<open>Directories and names\<close>

record read_dir =
  rd_dir :: int
  rd_root :: path

record dir_entry =
  de_name :: bytes
  de_dtype :: u32
  de_root :: path

definition fs_readdir :: "path \<Rightarrow> read_dir io" where
  "fs_readdir p = with_cstr p (\<lambda>c.
    io_bind (sys (FsC (C_opendir c))) (\<lambda>r.
    if r_ret r = 0 then os_fail else io_return \<lparr>rd_dir = r_ret r, rd_root = p\<rparr>))"

text \<open>\<open>Iterator for ReadDir\<close>: no item, an entry, or an error item.\<close>

definition read_dir_next :: "read_dir \<Rightarrow> (io_error + dir_entry) option io" where
  "read_dir_next rd =
    io_bind (sys (FsC (C_readdir (rd_dir rd) 1024))) (\<lambda>r.
    let buf = overwrite (replicate 1024 0) (r_data r); dtype = of_int (out_param 0 0 r) in
    if r_ret r = 1 then
      (let len = (case position (\<lambda>b. b = 0) buf of Some i \<Rightarrow> i | None \<Rightarrow> length buf)
       in io_return (Some (Inr \<lparr>de_name = take len buf, de_dtype = dtype, de_root = rd_root rd\<rparr>)))
    else if r_ret r = 0 then io_return None
    else io_bind last_os_error (\<lambda>e. io_return (Some (Inl e))))"

definition read_dir_drop :: "read_dir \<Rightarrow> unit io" where
  "read_dir_drop rd = io_bind (sys (FsC (C_closedir (rd_dir rd)))) (\<lambda>_. io_return ())"

definition entry_path :: "dir_entry \<Rightarrow> path" where
  "entry_path d = path_join (de_root d) (de_name d)"

definition entry_file_name :: "dir_entry \<Rightarrow> bytes" where
  "entry_file_name d = de_name d"

definition entry_metadata :: "dir_entry \<Rightarrow> file_attr io" where
  "entry_metadata d = fs_stat (entry_path d)"

definition entry_file_type :: "dir_entry \<Rightarrow> file_type io" where
  "entry_file_type d =
    (if de_dtype d = DT_DIR then io_return (FileType S_IFDIR)
     else if de_dtype d = DT_REG then io_return (FileType S_IFREG)
     else if de_dtype d = DT_LNK then io_return (FileType S_IFLNK)
     else io_bind (entry_metadata d) (\<lambda>a. io_return (attr_file_type a)))"

definition fs_mkdir :: "path \<Rightarrow> unit io" where
  "fs_mkdir p = with_cstr p (\<lambda>c.
    io_bind (sys (FsC (C_mkdir c 0x1FF))) (\<lambda>r.
    if r_ret r = 0 then io_return ()
    else io_bind last_os_error (\<lambda>err.
      let code = (case raw_os_error err of Some i \<Rightarrow> i | None \<Rightarrow> 0) in
      if code = 0 then
        io_bind (io_attempt (fs_stat p)) (\<lambda>st.
        if (case st of Inr a \<Rightarrow> is_dir (attr_file_type a) | Inl _ \<Rightarrow> False)
        then io_fail (Simple AlreadyExists)
        else (case path_parent p of
            Some parent \<Rightarrow>
              if parent \<noteq> [] then
                io_bind (io_attempt (fs_stat parent)) (\<lambda>st2. case st2 of
                  Inl _ \<Rightarrow> io_fail (Simple NotFound)
                | Inr _ \<Rightarrow> io_fail err)
              else io_fail err
          | None \<Rightarrow> io_fail err))
      else io_fail err)))"

definition fs_unlink :: "path \<Rightarrow> unit io" where
  "fs_unlink p = with_cstr p (\<lambda>c. sys_unit (FsC (C_unlink c)))"

definition fs_rename :: "path \<Rightarrow> path \<Rightarrow> unit io" where
  "fs_rename old new = with_cstr old (\<lambda>a. with_cstr new (\<lambda>b. sys_unit (FsC (C_rename a b))))"

definition fs_rmdir :: "path \<Rightarrow> unit io" where
  "fs_rmdir p = with_cstr p (\<lambda>c. sys_unit (FsC (C_rmdir c)))"

definition fs_symlink :: "path \<Rightarrow> path \<Rightarrow> unit io" where
  "fs_symlink original link = with_cstr original (\<lambda>target. with_cstr link (\<lambda>linkpath.
     sys_unit (AttrC (C_symlink target linkpath))))"

definition fs_link :: "path \<Rightarrow> path \<Rightarrow> unit io" where
  "fs_link src dst = unsupported"

text \<open>\<open>readlink\<close> doubles its buffer up to 64 KiB; nine iterations are enough.\<close>

definition MAX_CAP :: nat where "MAX_CAP = 64 * 1024"

fun readlink_loop :: "nat \<Rightarrow> bytes \<Rightarrow> nat \<Rightarrow> path io" where
  "readlink_loop 0 c cap = io_hang"
| "readlink_loop (Suc fuel) c cap =
    io_bind (sys (AttrC (C_readlink c cap))) (\<lambda>r.
    let buf = overwrite (replicate cap 0) (r_data r) in
    if r_ret r < 0 then os_fail
    else if nat (r_ret r) < cap then io_return (take (nat (r_ret r)) buf)
    else if cap \<ge> MAX_CAP then
      io_fail (Custom InvalidData ''readlink target exceeds the maximum symlink length'')
    else readlink_loop fuel c (min (cap * 2) MAX_CAP))"

definition fs_readlink :: "path \<Rightarrow> path io" where
  "fs_readlink p = with_cstr p (\<lambda>c. readlink_loop 9 c 256)"

definition PATH_MAX :: nat where "PATH_MAX = 1024"

definition fs_canonicalize :: "path \<Rightarrow> path io" where
  "fs_canonicalize p = with_cstr p (\<lambda>c.
    io_bind (sys (FsC (C_realpath c PATH_MAX))) (\<lambda>r.
    let buf = overwrite (replicate PATH_MAX 0) (r_data r) in
    if r_ret r \<noteq> 0 then os_fail
    else let len = (case position (\<lambda>b. b = 0) buf of Some i \<Rightarrow> i | None \<Rightarrow> length buf)
         in io_return (take len buf)))"

section \<open>Running the operations\<close>

lemma io_ext_sys_unit [ext_intros]: "io_ext (sys_unit c)"
  unfolding sys_unit_def by (intro ext_intros)

lemma io_ext_with_cstr [ext_intros]: "(\<And>c. io_ext (k c)) \<Longrightarrow> io_ext (with_cstr p k)"
  unfolding with_cstr_def by (intro ext_intros)

lemma with_cstr_Inl: "cstr p = Inl e \<Longrightarrow> with_cstr p k = io_fail e"
  by (simp add: with_cstr_def)

lemma with_cstr_Inr: "cstr p = Inr c \<Longrightarrow> with_cstr p k = k c"
  by (simp add: with_cstr_def)

lemma with_cstr_cases:
  obtains "cstr p = Inl (Simple InvalidInput)" "with_cstr p k s = (Err (Simple InvalidInput), s)"
  | c where "cstr p = Inr c" "with_cstr p k s = k c s"
proof (cases "cstr p")
  case (Inl e)
  then have "e = Simple InvalidInput" using cstr_Inl by blast
  with Inl that(1) show thesis by (simp add: with_cstr_def)
next
  case (Inr c)
  with that(2) show thesis by (simp add: with_cstr_def)
qed

lemma sys_unit_run:
  "r_ret (os_oracle s (os_trace s) c) = 0 \<Longrightarrow>
   sys_unit c s = (Ok (), s\<lparr>os_trace := os_trace s @ [(c, os_oracle s (os_trace s) c)]\<rparr>)"
  by (simp add: sys_unit_def io_simps Let_def)

lemma readlink_loop_returns:
  assumes "0 < fuel" "0 < cap" "MAX_CAP \<le> cap * 2 ^ (fuel - 1)"
  shows "(\<exists>e. fst (readlink_loop fuel c cap s) = Err e)
    \<or> (\<exists>n r q t. readlink_loop fuel c cap s = (Ok q, s\<lparr>os_trace := t @ [(AttrC (C_readlink c n), r)]\<rparr>)
        \<and> 0 \<le> r_ret r \<and> nat (r_ret r) < n
        \<and> q = take (nat (r_ret r)) (overwrite (replicate n 0) (r_data r)))"
  using assms
proof (induction fuel arbitrary: cap s)
  case (Suc fuel)
  let ?c = "AttrC (C_readlink c cap)"
  let ?r = "reply_of s ?c"
  consider "r_ret ?r < 0" | "0 \<le> r_ret ?r" "nat (r_ret ?r) < cap"
    | "0 \<le> r_ret ?r" "\<not> nat (r_ret ?r) < cap" "MAX_CAP \<le> cap"
    | "0 \<le> r_ret ?r" "\<not> nat (r_ret ?r) < cap" "\<not> MAX_CAP \<le> cap" by linarith
  then show ?case
  proof cases
    case 1
    then show ?thesis
      using os_fail_Err [of "after s ?c", where 'a = path] by (simp add: bind_sys_after Let_def) blast
  next
    case 2
    have "readlink_loop (Suc fuel) c cap s
        = (Ok (take (nat (r_ret ?r)) (overwrite (replicate cap 0) (r_data ?r))),
           s\<lparr>os_trace := os_trace s @ [(?c, ?r)]\<rparr>)"
      using 2 by (simp add: bind_sys_after Let_def) (simp add: after_def)
    with 2 show ?thesis by blast
  next
    case 3
    then show ?thesis by (simp add: bind_sys_after Let_def)
  next
    case 4
    have "0 < fuel" using 4(3) Suc.prems by (cases fuel) auto
    moreover have "MAX_CAP \<le> min (cap * 2) MAX_CAP * 2 ^ (fuel - 1)"
      using Suc.prems(3) \<open>0 < fuel\<close> by (cases fuel) (auto simp: min_def)
    moreover have "0 < min (cap * 2) MAX_CAP" using Suc.prems(2) by (simp add: MAX_CAP_def)
    ultimately have *: "(\<exists>e. fst (readlink_loop fuel c (min (cap * 2) MAX_CAP) (after s ?c)) = Err e)
      \<or> (\<exists>n r q t. readlink_loop fuel c (min (cap * 2) MAX_CAP) (after s ?c)
          = (Ok q, (after s ?c)\<lparr>os_trace := t @ [(AttrC (C_readlink c n), r)]\<rparr>)
        \<and> 0 \<le> r_ret r \<and> nat (r_ret r) < n
        \<and> q = take (nat (r_ret r)) (overwrite (replicate n 0) (r_data r)))"
      by (intro Suc.IH)
    have "readlink_loop (Suc fuel) c cap s = readlink_loop fuel c (min (cap * 2) MAX_CAP) (after s ?c)"
      using 4 by (simp add: bind_sys_after Let_def)
    with * show ?thesis by (auto simp: after_def)
  qed
qed simp

section \<open>Properties\<close>

text \<open>
  The whole open-flags table. The options are refused with EINVAL exactly when no access is
  asked for, when something is to be created or truncated without write access, or when append is
  combined with truncation of an existing file; otherwise the access bits are never 0 (AROS has no
  zero access mode) and say exactly what was asked for, append implying write, and each creation
  bit is set exactly when its option is, \<open>create_new\<close> overriding the other two.
\<close>

lemma open_flags_table:
  "case open_flags o1 of
     Inl e \<Rightarrow> e = OsError 22 \<and>
       (if oo_append o1 then oo_truncate o1 \<and> \<not> oo_create_new o1
        else if oo_write o1 then False
        else \<not> (oo_read o1 \<and> \<not> oo_truncate o1 \<and> \<not> oo_create o1 \<and> \<not> oo_create_new o1))
   | Inr f \<Rightarrow>
       f AND 3 = (if oo_write o1 \<or> oo_append o1 then (if oo_read o1 then O_RDWR else O_WRONLY)
                  else O_RDONLY)
     \<and> oo_read o1 = bit f 0 \<and> (oo_write o1 \<or> oo_append o1) = bit f 1
     \<and> (f AND O_APPEND \<noteq> 0) = oo_append o1
     \<and> (f AND O_CREAT \<noteq> 0) = (oo_create o1 \<or> oo_create_new o1)
     \<and> (f AND O_EXCL \<noteq> 0) = oo_create_new o1
     \<and> (f AND O_TRUNC \<noteq> 0) = (oo_truncate o1 \<and> \<not> oo_create_new o1)"
proof (cases o1)
  case (fields r w a t c n)
  show ?thesis
    unfolding fields
    by (cases r; cases w; cases a; cases t; cases c; cases n)
      (simp_all add: open_flags_def open_creation_def o_flags Let_def from_raw_os_error_def EINVAL_def
        bit_iff_odd)
qed

text \<open>
  File types and permissions read from a mode. At most one of the three type predicates holds,
  the type of a directory entry with a known \<open>d_type\<close> satisfies exactly the matching predicate
  without a call, and \<open>set_readonly\<close> sets what \<open>readonly\<close> reads and no other bit.
\<close>

lemma file_modes:
  "(of_bool (is_dir t) + of_bool (is_file t) + of_bool (is_symlink t) \<le> (1 :: nat))
   \<and> perm_readonly (perm_set_readonly b p) = b
   \<and> perm_mode (perm_set_readonly b p) AND NOT 0x92 = perm_mode p AND NOT 0x92
   \<and> map (\<lambda>d. fst (entry_file_type \<lparr>de_name = nm, de_dtype = d, de_root = rt\<rparr> s)) [DT_DIR, DT_REG, DT_LNK]
       = map (\<lambda>m. Ok (FileType m)) [S_IFDIR, S_IFREG, S_IFLNK]
   \<and> map is_dir (map FileType [S_IFDIR, S_IFREG, S_IFLNK]) = [True, False, False]
   \<and> map is_file (map FileType [S_IFDIR, S_IFREG, S_IFLNK]) = [False, True, False]
   \<and> map is_symlink (map FileType [S_IFDIR, S_IFREG, S_IFLNK]) = [False, False, True]"
proof -
  have m: "(perm_mode p AND NOT 0x92) AND 0x92 = 0"
    "(perm_mode p AND NOT 0x92) AND NOT 0x92 = perm_mode p AND NOT 0x92"
    "(perm_mode p OR 0x92) AND 0x92 = 0x92"
    "(perm_mode p OR 0x92) AND NOT 0x92 = perm_mode p AND NOT 0x92"
    by (rule bit_eqI, auto simp: bit_simps)+
  have "perm_readonly (perm_set_readonly b p) = b"
    by (cases b) (simp_all only: perm_readonly_def perm_set_readonly_def file_permissions.sel
        if_True if_False m, simp_all)
  moreover have "perm_mode (perm_set_readonly b p) AND NOT 0x92 = perm_mode p AND NOT 0x92"
    by (cases b) (simp_all only: perm_set_readonly_def file_permissions.sel if_True if_False m)
  moreover have "of_bool (is_dir t) + of_bool (is_file t) + of_bool (is_symlink t) \<le> (1 :: nat)"
    by (auto simp: is_dir_def is_file_def is_symlink_def s_modes)
  ultimately show ?thesis
    by (simp add: entry_file_type_def dt_types is_dir_def is_file_def is_symlink_def s_modes)
qed

text \<open>
  C5: \<open>readlink\<close> always returns and never truncates. Its nine buffers (256 bytes to 64 KiB) are
  enough fuel whatever the handler answers; when it succeeds, the target it returns is what the
  last call wrote, and that call had reported a length strictly below its buffer's.
\<close>

theorem readlink_complete:
  "case fs_readlink p s of
     (Ok q, s') \<Rightarrow> (\<exists>c n r t. cstr p = Inr c \<and> os_trace s' = t @ [(AttrC (C_readlink c n), r)]
        \<and> 0 \<le> r_ret r \<and> nat (r_ret r) < n
        \<and> q = take (nat (r_ret r)) (overwrite (replicate n 0) (r_data r)))
   | (Err e, s') \<Rightarrow> True
   | (Panic m, s') \<Rightarrow> False
   | (Hang, s') \<Rightarrow> False"
proof (cases "cstr p")
  case (Inl e)
  then show ?thesis by (simp add: fs_readlink_def with_cstr_def)
next
  case (Inr c)
  have "(\<exists>e. fst (readlink_loop 9 c 256 s) = Err e)
    \<or> (\<exists>n r q t. readlink_loop 9 c 256 s = (Ok q, s\<lparr>os_trace := t @ [(AttrC (C_readlink c n), r)]\<rparr>)
        \<and> 0 \<le> r_ret r \<and> nat (r_ret r) < n
        \<and> q = take (nat (r_ret r)) (overwrite (replicate n 0) (r_data r)))"
    by (rule readlink_loop_returns) (simp_all add: MAX_CAP_def)
  moreover have "fs_readlink p s = readlink_loop 9 c 256 s"
    using Inr by (simp add: fs_readlink_def with_cstr_def)
  ultimately show ?thesis using Inr by (cases "readlink_loop 9 c 256 s") auto
qed

end
