(* ===== verification/Fs_Dirs.thy ===== *)
theory Fs_Dirs
  imports Fs_Aros
begin

text \<open>
  Creating directories: \<open>DirBuilder::create_dir_all\<close> of \<open>std/src/fs.rs\<close> over the \<open>mkdir\<close> of
  \<open>Fs_Aros\<close>, whose recovery of lost error codes it steers by. The world it is proved against is
  a tree of directories that answers \<open>mkdir\<close> and \<open>stat\<close> truthfully and never reports an errno, as
  the comment in \<open>mkdir\<close> says of AROS.
\<close>

section \<open>create_dir_all\<close>

definition path_eq :: "path \<Rightarrow> path \<Rightarrow> bool" where
  "path_eq p q \<longleftrightarrow> (if length p = length q \<and> p = q then True
     else collect_components_back (path_iter p) = collect_components_back (path_iter q))"

definition path_is_dir :: "path \<Rightarrow> bool io" where
  "path_is_dir p = io_bind (io_attempt (fs_stat p)) (\<lambda>r. case r of
      Inr a \<Rightarrow> io_return (is_dir (attr_file_type a))
    | Inl _ \<Rightarrow> io_return False)"

function path_ancestors :: "path \<Rightarrow> path list" where
  "path_ancestors p = p # (case path_parent p of None \<Rightarrow> [] | Some q \<Rightarrow> path_ancestors q)"
  by pat_completeness auto
termination
proof (relation "measure (\<lambda>p. length (path_components p))")
  fix p q assume "path_parent p = Some q"
  then have "path_components q = butlast (path_components p)" "path_components p \<noteq> []"
    using path_parent_components [of p] by auto
  then show "(q, p) \<in> measure (\<lambda>p. length (path_components p))" by simp
qed simp

declare path_ancestors.simps [simp del]

text \<open>The first loop: how many ancestors, from the path upwards, are still to be created.\<close>

fun create_scan :: "path list \<Rightarrow> nat \<Rightarrow> nat io" where
  "create_scan [] uncreated = io_return uncreated"
| "create_scan (ancestor # rest) uncreated =
    (if path_eq ancestor [] \<or> path_parent ancestor = None then io_return uncreated
     else io_bind (io_attempt (fs_mkdir ancestor)) (\<lambda>r. case r of
         Inr _ \<Rightarrow> io_return uncreated
       | Inl e \<Rightarrow>
           if error_kind_of e = NotFound then create_scan rest (uncreated + 1)
           else if error_kind_of e = AlreadyExists then
             io_bind (path_is_dir ancestor) (\<lambda>d. if d then io_return uncreated else io_fail e)
           else io_fail e))"

text \<open>The second loop, over the uncreated directories, outermost first.\<close>

fun create_each :: "path list \<Rightarrow> unit io" where
  "create_each [] = io_return ()"
| "create_each (d # ds) =
    io_bind (io_attempt (fs_mkdir d)) (\<lambda>r. case r of
        Inr _ \<Rightarrow> create_each ds
      | Inl e \<Rightarrow>
          if error_kind_of e \<noteq> AlreadyExists then io_fail e
          else io_bind (path_is_dir d) (\<lambda>b. if \<not> b then io_fail e else create_each ds))"

definition create_dir_all :: "path \<Rightarrow> unit io" where
  "create_dir_all p =
    (if path_eq p [] \<or> path_parent p = None then io_return ()
     else let ancestors = path_ancestors p
       in io_bind (create_scan ancestors 0) (\<lambda>uncreated.
          create_each (rev (take uncreated ancestors))))"

section \<open>A world of directories\<close>

definition dirs_after :: "bytes set \<Rightarrow> trace \<Rightarrow> bytes set" where
  "dirs_after D t = D \<union> {c. \<exists>r m. (FsC (C_mkdir c m), r) \<in> set t \<and> r_ret r = 0}"

definition dir_world :: "bytes set \<Rightarrow> (bytes \<Rightarrow> bytes option) \<Rightarrow> (trace \<Rightarrow> call \<Rightarrow> reply) \<Rightarrow> bool" where
  "dir_world D up orc \<longleftrightarrow>
     (\<forall>t c m. (r_ret (orc t (FsC (C_mkdir c m))) = 0)
        = (c \<notin> dirs_after D t \<and> (case up c of None \<Rightarrow> True | Some d \<Rightarrow> d \<in> dirs_after D t)))
   \<and> (\<forall>t c. orc t (AttrC (C_stat c))
        = (if c \<in> dirs_after D t then ret_outs 0 [0, 0x4000] else ret (-1)))
   \<and> (\<forall>t. r_ret (orc t (ErrnoC Stdc_errno_get)) = 0 \<and> r_ret (orc t (ErrnoC Libbase_errno)) = 0)"

text \<open>
  \<open>up\<close> knows the parents of the path's ancestors; below the top of the path (an empty parent, or a
  root) directories can always be created.
\<close>

definition top_path :: "path \<Rightarrow> bool" where
  "top_path a \<longleftrightarrow> path_eq a [] \<or> path_parent a = None"

definition chain_ok :: "(bytes \<Rightarrow> bytes option) \<Rightarrow> path list \<Rightarrow> bool" where
  "chain_ok up as \<longleftrightarrow> (\<forall>a\<in>set as. \<not> top_path a \<longrightarrow>
     (\<exists>c q. cstr a = Inr c \<and> path_parent a = Some q
       \<and> (if top_path q then up c = None else (\<exists>d. cstr q = Inr d \<and> up c = Some d))))"

definition dirs_of :: "bytes set \<Rightarrow> os \<Rightarrow> bytes set" where
  "dirs_of D s = dirs_after D (os_trace s)"

lemma dirs_after_append:
  "dirs_after D (t @ [(call, r)]) = dirs_after D t \<union>
     (case call of FsC (C_mkdir c m) \<Rightarrow> if r_ret r = 0 then {c} else {} | _ \<Rightarrow> {})"
  by (auto simp: dirs_after_def split: call.splits fs_call.splits)

lemma dirs_of_after:
  "dirs_of D (after s (FsC (C_mkdir c m))) =
     dirs_of D s \<union> (if r_ret (reply_of s (FsC (C_mkdir c m))) = 0 then {c} else {})"
  "dirs_of D (after s (AttrC x)) = dirs_of D s" "dirs_of D (after s (ErrnoC y)) = dirs_of D s"
  by (simp_all add: dirs_of_def dirs_after_append)

lemma path_eq_iff: "path_eq p q \<longleftrightarrow> path_components p = path_components q"
  by (auto simp: path_eq_def path_simps)

lemma top_path_Nil: "top_path []"
  by (simp add: top_path_def path_eq_def)

lemma mkdir_reply:
  "dir_world D up (os_oracle s) \<Longrightarrow> (r_ret (reply_of s (FsC (C_mkdir c m))) = 0)
     = (c \<notin> dirs_of D s \<and> (case up c of None \<Rightarrow> True | Some d \<Rightarrow> d \<in> dirs_of D s))"
  by (simp add: dir_world_def reply_of_def dirs_of_def cong: option.case_cong)

lemma stat_reply:
  "dir_world D up (os_oracle s) \<Longrightarrow> reply_of s (AttrC (C_stat c))
     = (if c \<in> dirs_of D s then ret_outs 0 [0, 0x4000] else ret (-1))"
  by (simp add: dir_world_def reply_of_def dirs_of_def)

lemma errno_reply:
  "dir_world D up (os_oracle s) \<Longrightarrow> r_ret (reply_of s (ErrnoC Stdc_errno_get)) = 0"
  "dir_world D up (os_oracle s) \<Longrightarrow> r_ret (reply_of s (ErrnoC Libbase_errno)) = 0"
  by (simp_all add: dir_world_def reply_of_def)

text \<open>A step that keeps the oracle and the directories.\<close>

definition quiet :: "bytes set \<Rightarrow> os \<Rightarrow> os \<Rightarrow> bool" where
  "quiet D s s' \<longleftrightarrow> os_oracle s' = os_oracle s \<and> dirs_of D s' = dirs_of D s"

lemma quiet_refl [simp]: "quiet D s s"
  and quiet_attr [simp]: "quiet D s (after s (AttrC x))"
  and quiet_errno [simp]: "quiet D s (after s (ErrnoC y))"
  by (simp_all add: quiet_def dirs_of_after)

lemma quiet_trans: "quiet D s s' \<Longrightarrow> quiet D s' s'' \<Longrightarrow> quiet D s s''"
  by (simp add: quiet_def)

lemma quiet_world: "quiet D s s' \<Longrightarrow> dir_world D up (os_oracle s) \<Longrightarrow> dir_world D up (os_oracle s')"
  by (simp add: quiet_def)

lemma world_last_os_error:
  assumes "dir_world D up (os_oracle s)"
  shows "\<exists>s'. last_os_error s = (Ok (OsError 0), s') \<and> quiet D s s'"
proof -
  let ?s1 = "after s (ErrnoC Stdc_errno_get)"
  have "last_os_error s = (Ok (OsError 0), after ?s1 (ErrnoC Libbase_errno))"
    using assms errno_reply [of D up s] errno_reply [of D up ?s1]
    by (simp add: last_os_error_def errno_def bind_sys_after Let_def from_raw_os_error_def)
  then show ?thesis by (metis quiet_errno quiet_trans)
qed

lemma world_stat:
  assumes "dir_world D up (os_oracle s)" "cstr p = Inr c"
  shows "\<exists>s'. quiet D s s' \<and> (if c \<in> dirs_of D s
     then (\<exists>a. fs_stat p s = (Ok a, s') \<and> is_dir (attr_file_type a))
     else (\<exists>e. fs_stat p s = (Err e, s')))"
proof (cases "c \<in> dirs_of D s")
  case True
  have "fs_stat p s = (Ok (attr_from_raw (ret_outs 0 [0, 0x4000])), after s (AttrC (C_stat c)))"
    using True assms by (simp add: fs_stat_def with_cstr_Inr bind_sys_after stat_reply)
  moreover have "is_dir (attr_file_type (attr_from_raw (ret_outs 0 [0, 0x4000])))"
    by (simp add: attr_from_raw_def attr_file_type_def is_dir_def s_modes out_param_def)
  ultimately show ?thesis using True quiet_attr by fastforce
next
  case False
  let ?s1 = "after s (AttrC (C_stat c))"
  have "fs_stat p s = os_fail ?s1"
    using False assms by (simp add: fs_stat_def with_cstr_Inr bind_sys_after stat_reply)
  moreover obtain s' where "last_os_error ?s1 = (Ok (OsError 0), s')" "quiet D ?s1 s'"
    using world_last_os_error [of D up ?s1] assms(1) by auto
  ultimately have "fs_stat p s = (Err (OsError 0), s')" "quiet D s s'"
    using quiet_trans [of D s ?s1] by (simp_all add: os_fail_def io_bind_def)
  with False show ?thesis by auto
qed

lemma world_is_dir:
  assumes "dir_world D up (os_oracle s)" "cstr p = Inr c"
  shows "\<exists>s'. path_is_dir p s = (Ok (c \<in> dirs_of D s), s') \<and> quiet D s s'"
  using world_stat [OF assms]
  by (auto simp: path_is_dir_def io_bind_def io_attempt_def split: if_splits)

text \<open>What \<open>mkdir\<close> does after a failure without an error code.\<close>

definition mkdir_recovery :: "path \<Rightarrow> unit io" where
  "mkdir_recovery p = io_bind (io_attempt (fs_stat p)) (\<lambda>st.
        if (case st of Inr a \<Rightarrow> is_dir (attr_file_type a) | Inl _ \<Rightarrow> False)
        then io_fail (Simple AlreadyExists)
        else (case path_parent p of
            Some parent \<Rightarrow>
              if parent \<noteq> [] then
                io_bind (io_attempt (fs_stat parent)) (\<lambda>st2. case st2 of
                  Inl _ \<Rightarrow> io_fail (Simple NotFound)
                | Inr _ \<Rightarrow> io_fail (OsError 0))
              else io_fail (OsError 0)
          | None \<Rightarrow> io_fail (OsError 0)))"

text \<open>\<open>mkdir\<close> in such a world: created, there already, or the parent is missing.\<close>

lemma world_mkdir_creates:
  assumes "dir_world D up (os_oracle s)" "cstr p = Inr c" "c \<notin> dirs_of D s"
    "case up c of None \<Rightarrow> True | Some d \<Rightarrow> d \<in> dirs_of D s"
  shows "\<exists>s'. fs_mkdir p s = (Ok (), s') \<and> os_oracle s' = os_oracle s
    \<and> dirs_of D s' = insert c (dirs_of D s)"
  using mkdir_reply [OF assms(1), of c 511] assms
  by (simp add: fs_mkdir_def with_cstr_Inr bind_sys_after dirs_of_after)

lemma world_mkdir_failed:
  assumes "dir_world D up (os_oracle s)" "cstr p = Inr c" "r_ret (reply_of s (FsC (C_mkdir c 0x1FF))) \<noteq> 0"
  shows "\<exists>s1. quiet D s s1 \<and> fs_mkdir p s = mkdir_recovery p s1"
proof -
  let ?s0 = "after s (FsC (C_mkdir c 0x1FF))"
  have q: "quiet D s ?s0" using assms(3) by (simp add: quiet_def dirs_of_after)
  obtain s1 where s1: "last_os_error ?s0 = (Ok (OsError 0), s1)" "quiet D ?s0 s1"
    using world_last_os_error [OF quiet_world [OF q assms(1)]] by blast
  have "fs_mkdir p s = mkdir_recovery p s1"
    using assms(2,3) s1(1)
    by (simp add: mkdir_recovery_def fs_mkdir_def with_cstr_Inr bind_sys_after io_bind_Ok raw_os_error_def)
  then show ?thesis using quiet_trans [OF q s1(2)] by blast
qed

lemma world_mkdir_exists:
  assumes "dir_world D up (os_oracle s)" "cstr p = Inr c" "c \<in> dirs_of D s"
  shows "\<exists>s'. fs_mkdir p s = (Err (Simple AlreadyExists), s') \<and> quiet D s s'"
proof -
  have "r_ret (reply_of s (FsC (C_mkdir c 0x1FF))) \<noteq> 0"
    using mkdir_reply [OF assms(1), of c 511] assms(3) by simp
  from world_mkdir_failed [OF assms(1,2) this] obtain s1 where
    s1: "quiet D s s1" "fs_mkdir p s = mkdir_recovery p s1" by blast
  have "c \<in> dirs_of D s1" using s1(1) assms(3) by (simp add: quiet_def)
  then obtain a s2 where "fs_stat p s1 = (Ok a, s2)" "is_dir (attr_file_type a)" "quiet D s1 s2"
    using world_stat [OF quiet_world [OF s1(1) assms(1)] assms(2)] by auto
  with s1 quiet_trans [OF s1(1)] show ?thesis by (auto simp: mkdir_recovery_def io_bind_def io_attempt_def)
qed

lemma world_mkdir_orphan:
  assumes "dir_world D up (os_oracle s)" "cstr p = Inr c" "c \<notin> dirs_of D s"
    "path_parent p = Some q" "q \<noteq> []" "cstr q = Inr d" "up c = Some d" "d \<notin> dirs_of D s"
  shows "\<exists>s'. fs_mkdir p s = (Err (Simple NotFound), s') \<and> quiet D s s'"
proof -
  have "r_ret (reply_of s (FsC (C_mkdir c 0x1FF))) \<noteq> 0"
    using mkdir_reply [OF assms(1), of c 511] assms by simp
  from world_mkdir_failed [OF assms(1,2) this] obtain s1 where
    s1: "quiet D s s1" "fs_mkdir p s = mkdir_recovery p s1" by blast
  have D1: "c \<notin> dirs_of D s1" "d \<notin> dirs_of D s1" using s1(1) assms by (simp_all add: quiet_def)
  obtain e s2 where s2: "fs_stat p s1 = (Err e, s2)" "quiet D s1 s2"
    using world_stat [OF quiet_world [OF s1(1) assms(1)] assms(2)] D1 by auto
  have q2: "quiet D s s2" by (rule quiet_trans [OF s1(1) s2(2)])
  then have "d \<notin> dirs_of D s2" using assms(8) by (simp add: quiet_def)
  then obtain e' s3 where s3: "fs_stat q s2 = (Err e', s3)" "quiet D s2 s3"
    using world_stat [OF quiet_world [OF q2 assms(1)] assms(6)] by auto
  show ?thesis
    using s1(2) s2(1) s3 assms(4,5) quiet_trans [OF q2 s3(2)]
    by (auto simp: mkdir_recovery_def io_bind_def io_attempt_def)
qed

section \<open>The two loops\<close>

text \<open>
  The state between the loops: the \<open>k\<close> innermost ancestors are candidates, and the next one up
  exists or is the top.
\<close>

fun ready :: "bytes set \<Rightarrow> path \<Rightarrow> nat \<Rightarrow> bool" where
  "ready E p 0 \<longleftrightarrow> top_path p \<or> (\<exists>c. cstr p = Inr c \<and> c \<in> E)"
| "ready E p (Suc k) \<longleftrightarrow> \<not> top_path p \<and> (\<exists>q. path_parent p = Some q \<and> ready E q k)"

lemma chain_parent:
  assumes "chain_ok up (path_ancestors p)" "\<not> top_path p"
  obtains c q where "cstr p = Inr c" "path_parent p = Some q" "chain_ok up (path_ancestors q)"
    "path_ancestors p = p # path_ancestors q"
    "if top_path q then up c = None else (\<exists>d. cstr q = Inr d \<and> up c = Some d)"
proof -
  have p: "p \<in> set (path_ancestors p)" by (subst path_ancestors.simps) simp
  with assms obtain c q where cq: "cstr p = Inr c" "path_parent p = Some q"
    "if top_path q then up c = None else (\<exists>d. cstr q = Inr d \<and> up c = Some d)"
    unfolding chain_ok_def by blast
  have a: "path_ancestors p = p # path_ancestors q"
    using cq(2) by (subst path_ancestors.simps) simp
  have "chain_ok up (path_ancestors q)" using assms(1) unfolding a by (simp add: chain_ok_def)
  with cq a that show thesis by blast
qed

lemma scan_top: "top_path p \<Longrightarrow> create_scan (path_ancestors p) n s = (Ok n, s)"
  by (subst path_ancestors.simps) (simp add: top_path_def)

lemma create_scan_run:
  assumes "dir_world D up (os_oracle s)" "chain_ok up (path_ancestors p)"
  shows "\<exists>k s'. create_scan (path_ancestors p) n s = (Ok (n + k), s')
     \<and> os_oracle s' = os_oracle s \<and> ready (dirs_of D s') p k"
  using assms
proof (induction "length (path_components p)" arbitrary: p n s rule: less_induct)
  case less
  show ?case
  proof (cases "top_path p")
    case True
    then have "create_scan (path_ancestors p) n s = (Ok (n + 0), s) \<and> ready (dirs_of D s) p 0"
      by (simp add: scan_top)
    then show ?thesis by blast
  next
    case False
    obtain c q where cq: "cstr p = Inr c" "path_parent p = Some q" "chain_ok up (path_ancestors q)"
      "path_ancestors p = p # path_ancestors q"
      "if top_path q then up c = None else (\<exists>d. cstr q = Inr d \<and> up c = Some d)"
      using chain_parent [OF less.prems(2) False] by blast
    have step: "create_scan (path_ancestors p) n s = io_bind (io_attempt (fs_mkdir p)) (\<lambda>r. case r of
         Inr _ \<Rightarrow> io_return n
       | Inl e \<Rightarrow>
           if error_kind_of e = NotFound then create_scan (path_ancestors q) (n + 1)
           else if error_kind_of e = AlreadyExists then
             io_bind (path_is_dir p) (\<lambda>d. if d then io_return n else io_fail e)
           else io_fail e) s"
      using False cq(2) unfolding cq(4) by (simp add: top_path_def)
    consider "c \<in> dirs_of D s" | "c \<notin> dirs_of D s" "case up c of None \<Rightarrow> True | Some d \<Rightarrow> d \<in> dirs_of D s"
      | d where "c \<notin> dirs_of D s" "up c = Some d" "d \<notin> dirs_of D s"
      by (cases "up c") auto
    then show ?thesis
    proof cases
      case 1
      obtain s1 where s1: "fs_mkdir p s = (Err (Simple AlreadyExists), s1)" "quiet D s s1"
        using world_mkdir_exists [OF less.prems(1) cq(1) 1] by blast
      obtain s2 where s2: "path_is_dir p s1 = (Ok (c \<in> dirs_of D s1), s2)" "quiet D s1 s2"
        using world_is_dir [OF quiet_world [OF s1(2) less.prems(1)] cq(1)] by blast
      have q: "quiet D s s2" by (rule quiet_trans [OF s1(2) s2(2)])
      have "create_scan (path_ancestors p) n s = (Ok (n + 0), s2)"
        unfolding step using s1 s2 1
        by (simp add: io_bind_def io_attempt_def error_kind_of_def quiet_def)
      moreover have "ready (dirs_of D s2) p 0" using q 1 cq(1) by (simp add: quiet_def)
      ultimately show ?thesis using q unfolding quiet_def by blast
    next
      case 2
      obtain s1 where s1: "fs_mkdir p s = (Ok (), s1)" "os_oracle s1 = os_oracle s"
        "dirs_of D s1 = insert c (dirs_of D s)"
        using world_mkdir_creates [OF less.prems(1) cq(1) 2] by blast
      have "create_scan (path_ancestors p) n s = (Ok (n + 0), s1)"
        unfolding step using s1(1) by (simp add: io_bind_def io_attempt_def)
      moreover have "ready (dirs_of D s1) p 0" using s1(3) cq(1) by simp
      ultimately show ?thesis using s1(2) by blast
    next
      case 3
      have q: "\<not> top_path q" "cstr q = Inr d" using cq(5) 3(2) by (auto split: if_splits)
      then have "q \<noteq> []" using top_path_Nil by blast
      from world_mkdir_orphan [OF less.prems(1) cq(1) 3(1) cq(2) this q(2) 3(2,3)]
      obtain s1 where s1: "fs_mkdir p s = (Err (Simple NotFound), s1)" "quiet D s s1" by blast
      have sh: "length (path_components q) < length (path_components p)"
        using cq(2) path_parent_components [of p] by auto
      obtain k s2 where s2: "create_scan (path_ancestors q) (n + 1) s1 = (Ok (n + 1 + k), s2)"
        "os_oracle s2 = os_oracle s1" "ready (dirs_of D s2) q k"
        using less.hyps [OF sh quiet_world [OF s1(2) less.prems(1)] cq(3)] by blast
      have "create_scan (path_ancestors p) n s = (Ok (n + Suc k), s2)"
        unfolding step using s1(1) s2(1) by (simp add: io_bind_def io_attempt_def error_kind_of_def)
      moreover have "ready (dirs_of D s2) p (Suc k)" using False cq(2) s2(3) by simp
      ultimately show ?thesis using s1(2) s2(2) unfolding quiet_def by metis
    qed
  qed
qed

lemma create_each_append:
  "create_each (xs @ ys) = io_bind (create_each xs) (\<lambda>_. create_each ys)"
proof (induction xs)
  case (Cons x xs)
  then show ?case
    by (simp add: fun_eq_iff io_bind_def io_attempt_def split: prod.splits outcome.splits sum.splits)
qed simp

lemma create_each_run:
  assumes "dir_world D up (os_oracle s)" "chain_ok up (path_ancestors p)" "ready (dirs_of D s) p k"
  shows "\<exists>s'. create_each (rev (take k (path_ancestors p))) s = (Ok (), s')
     \<and> os_oracle s' = os_oracle s \<and> (top_path p \<or> (\<exists>c. cstr p = Inr c \<and> c \<in> dirs_of D s'))"
  using assms
proof (induction k arbitrary: p)
  case 0
  then show ?case by auto
next
  case (Suc k)
  then have nt: "\<not> top_path p" by simp
  obtain c q where cq: "cstr p = Inr c" "path_parent p = Some q" "chain_ok up (path_ancestors q)"
    "path_ancestors p = p # path_ancestors q"
    "if top_path q then up c = None else (\<exists>d. cstr q = Inr d \<and> up c = Some d)"
    using chain_parent [OF Suc.prems(2) nt] by blast
  have "ready (dirs_of D s) q k" using Suc.prems(3) cq(2) by simp
  from Suc.IH [OF Suc.prems(1) cq(3) this] obtain s1 where
    s1: "create_each (rev (take k (path_ancestors q))) s = (Ok (), s1)"
    "os_oracle s1 = os_oracle s" "top_path q \<or> (\<exists>c. cstr q = Inr c \<and> c \<in> dirs_of D s1)" by blast
  have w1: "dir_world D up (os_oracle s1)" using s1(2) Suc.prems(1) by simp
  have run: "create_each (rev (take (Suc k) (path_ancestors p))) s = create_each [p] s1"
    using s1(1) unfolding cq(4) by (simp add: create_each_append io_bind_Ok)
  have up: "case up c of None \<Rightarrow> True | Some d \<Rightarrow> d \<in> dirs_of D s1"
    using cq(5) s1(3) by (auto split: if_splits)
  show ?case
  proof (cases "c \<in> dirs_of D s1")
    case True
    obtain s2 where s2: "fs_mkdir p s1 = (Err (Simple AlreadyExists), s2)" "quiet D s1 s2"
      using world_mkdir_exists [OF w1 cq(1) True] by blast
    obtain s3 where s3: "path_is_dir p s2 = (Ok (c \<in> dirs_of D s2), s3)" "quiet D s2 s3"
      using world_is_dir [OF quiet_world [OF s2(2) w1] cq(1)] by blast
    have "create_each [p] s1 = (Ok (), s3)"
      using s2 s3 True by (simp add: io_bind_def io_attempt_def error_kind_of_def quiet_def)
    then show ?thesis
      using run quiet_trans [OF s2(2) s3(2)] True cq(1) s1(2) by (simp add: quiet_def)
  next
    case False
    obtain s2 where "fs_mkdir p s1 = (Ok (), s2)" "os_oracle s2 = os_oracle s1"
      "dirs_of D s2 = insert c (dirs_of D s1)"
      using world_mkdir_creates [OF w1 cq(1) False up] by blast
    with run s1(2) cq(1) show ?thesis by (simp add: io_bind_def io_attempt_def)
  qed
qed

section \<open>Properties\<close>

text \<open>
  C3: \<open>create_dir_all\<close> creates the directory. In a tree of directories that answers truthfully but
  reports no errno at all (AROS' lost error codes), and whose parents are those of the Rust path,
  \<open>create_dir_all\<close> succeeds from every starting state, and afterwards the directory exists: the
  kinds \<open>mkdir\<close> recovers by asking the file system are the ones the two loops need.
\<close>

theorem create_dir_all_creates:
  assumes "dir_world D up (os_oracle s)" "chain_ok up (path_ancestors p)" "\<not> top_path p"
  shows "\<exists>s' c. create_dir_all p s = (Ok (), s') \<and> cstr p = Inr c \<and> c \<in> dirs_of D s'"
proof -
  obtain k s1 where s1: "create_scan (path_ancestors p) 0 s = (Ok (0 + k), s1)"
    "os_oracle s1 = os_oracle s" "ready (dirs_of D s1) p k"
    using create_scan_run [OF assms(1,2)] by blast
  have w1: "dir_world D up (os_oracle s1)" using s1(2) assms(1) by simp
  obtain s2 where "create_each (rev (take k (path_ancestors p))) s1 = (Ok (), s2)"
    "\<exists>c. cstr p = Inr c \<and> c \<in> dirs_of D s2"
    using create_each_run [OF w1 assms(2) s1(3)] assms(3) by blast
  with s1(1) assms(3) show ?thesis
    by (auto simp: create_dir_all_def top_path_def io_bind_Ok Let_def)
qed

text \<open>A world to run it in: an empty volume, and the parent of \<open>a/b\<close>.\<close>

definition tree_up :: "bytes \<Rightarrow> bytes option" where
  "tree_up c = (if c = ascii ''a/b'' then Some (ascii ''a'') else None)"

definition tree_oracle :: "trace \<Rightarrow> call \<Rightarrow> reply" where
  "tree_oracle t call = (case call of
      FsC (C_mkdir c m) \<Rightarrow>
        (if c \<notin> dirs_after {} t \<and> (case tree_up c of None \<Rightarrow> True | Some d \<Rightarrow> d \<in> dirs_after {} t)
         then ret 0 else ret (-1))
    | AttrC (C_stat c) \<Rightarrow> if c \<in> dirs_after {} t then ret_outs 0 [0, 0x4000] else ret (-1)
    | _ \<Rightarrow> ret 0)"

lemma tree_world: "dir_world {} tree_up tree_oracle"
  by (simp add: dir_world_def tree_oracle_def)

lemma ab_components:
  "path_components (ascii ''a/b'') = [Normal (ascii ''a''), Normal (ascii ''b'')]"
  by (simp add: path_components_def physical_root_def is_sep_byte_def starts_cur_def
      body_comps_def parse_single_component_def List.map_filter_def)

lemma ab_parent: "path_parent (ascii ''a/b'') = Some (ascii ''a'')" "path_parent (ascii ''a'') = Some []"
  by code_simp+

lemma ab_chain: "chain_ok tree_up (path_ancestors (ascii ''a/b''))" "\<not> top_path (ascii ''a/b'')"
proof -
  have "path_parent [] = None" by code_simp
  then have anc: "path_ancestors (ascii ''a/b'') = [ascii ''a/b'', ascii ''a'', []]"
    using ab_parent by (simp only: path_ancestors.simps option.case)
  have c: "cstr (ascii ''a/b'') = Inr (ascii ''a/b'')" "cstr (ascii ''a'') = Inr (ascii ''a'')"
    by code_simp+
  have "path_components [] = []" by (simp add: path_components_def physical_root_def starts_cur_def)
  moreover have "path_components (ascii ''a'') = [Normal (ascii ''a'')]"
    by (simp add: path_components_def physical_root_def is_sep_byte_def starts_cur_def
      body_comps_def parse_single_component_def List.map_filter_def)
  ultimately have top: "\<not> top_path (ascii ''a/b'')" "\<not> top_path (ascii ''a'')" "top_path []"
    using ab_components ab_parent by (simp_all add: top_path_def path_eq_iff)
  from top(1) show "\<not> top_path (ascii ''a/b'')" .
  have up: "tree_up (ascii ''a/b'') = Some (ascii ''a'')" "tree_up (ascii ''a'') = None"
    by (simp_all add: tree_up_def)
  show "chain_ok tree_up (path_ancestors (ascii ''a/b''))"
    unfolding chain_ok_def anc using top c up ab_parent by (simp del: ascii_simps)
qed

theorem create_dir_all_creates_witness:
  "\<exists>s' c. create_dir_all (ascii ''a/b'') (boot tree_oracle) = (Ok (), s')
     \<and> cstr (ascii ''a/b'') = Inr c \<and> c \<in> dirs_of {} s'"
  using create_dir_all_creates [OF _ ab_chain, of "{}" "boot tree_oracle"] tree_world by simp

end
