(* ===== verification/Io_Stream.thy ===== *)
theory Io_Stream
  imports Fs_Aros
begin

text \<open>
  Byte streams: what every loop over \<open>read\<close> and \<open>write\<close> shares, and the endpoints that provide it,
  files (\<open>sys/fs/aros.rs\<close>) and pipes (\<open>sys/pipe/aros.rs\<close>). The loops are \<open>write_all\<close> and
  \<open>stack_buffer_copy\<close> of \<open>std::io\<close>, \<open>Pipe::read_to_end\<close>, and the two reading loops of
  \<open>sys/process/aros.rs\<close>. The contracts are the locales \<open>byte_sink\<close> and \<open>byte_source\<close>: they relate
  what a call returns to the bytes that crossed the boundary, as the history records them.
\<close>

section \<open>Pipes\<close>

definition pipe_set_nonblocking :: "int \<Rightarrow> bool \<Rightarrow> unit io" where
  "pipe_set_nonblocking fh enable =
    io_bind (sys (PipeC (P_set_nonblock fh (if enable then 1 else 0)))) (\<lambda>r.
    if r_ret r < 0 then io_fail (SimpleMessage Uncategorized ''cannot set pipe non-blocking'')
    else io_return ())"

definition pipe_try_clone :: "int \<Rightarrow> int io" where
  "pipe_try_clone fh =
    io_fail (SimpleMessage Unsupported ''a pipe endpoint cannot be duplicated on AROS'')"

definition pipe_create :: "(int \<times> int) io" where
  "pipe_create = io_fail UNSUPPORTED_PLATFORM"

text \<open>\<open>read\<close>: the count and the buffer afterwards.\<close>

definition pipe_read :: "int \<Rightarrow> bytes \<Rightarrow> (nat \<times> bytes) io" where
  "pipe_read fh buf =
    io_bind (sys (PipeC (P_read fh (length buf)))) (\<lambda>r.
    if r_ret r = -2 then io_fail (SimpleMessage WouldBlock ''pipe is empty'')
    else if r_ret r < 0 then os_fail
    else io_return (nat (r_ret r), overwrite buf (r_data r)))"

text \<open>\<open>read_buf\<close> trusts the glue: it advances the cursor by \<open>n\<close> without a check.\<close>

definition pipe_read_buf :: "int \<Rightarrow> nat \<Rightarrow> bytes io" where
  "pipe_read_buf fh capacity =
    io_bind (sys (PipeC (P_read fh capacity))) (\<lambda>r.
    if r_ret r = -2 then io_fail (SimpleMessage WouldBlock ''pipe is empty'')
    else if r_ret r < 0 then os_fail
    else io_return (take (nat (r_ret r)) (overwrite (replicate capacity 0) (r_data r))))"

definition pipe_write :: "int \<Rightarrow> bytes \<Rightarrow> nat io" where
  "pipe_write fh buf =
    io_bind (sys (PipeC (P_write fh buf))) (\<lambda>r.
    if r_ret r < 0 then os_fail else io_return (nat (r_ret r)))"

fun pipe_read_vectored :: "int \<Rightarrow> bytes list \<Rightarrow> (nat \<times> bytes list) io" where
  "pipe_read_vectored fh [] = io_return (0, [])"
| "pipe_read_vectored fh (b # bs) =
    (if b \<noteq> [] then io_bind (pipe_read fh b) (\<lambda>(n, b'). io_return (n, b' # bs))
     else io_bind (pipe_read_vectored fh bs) (\<lambda>(n, bs'). io_return (n, b # bs')))"

definition pipe_write_vectored :: "int \<Rightarrow> bytes list \<Rightarrow> nat io" where
  "pipe_write_vectored fh bufs =
    (case filter (\<lambda>b. b \<noteq> []) bufs of b # _ \<Rightarrow> pipe_write fh b | [] \<Rightarrow> io_return 0)"

definition pipe_drop :: "int \<Rightarrow> unit io" where
  "pipe_drop fh = (if fh \<noteq> 0 then io_bind (sys (PipeC (P_close fh))) (\<lambda>_. io_return ())
     else io_return ())"

section \<open>The loops\<close>

fun write_all :: "(bytes \<Rightarrow> nat io) \<Rightarrow> nat \<Rightarrow> bytes \<Rightarrow> unit io" where
  "write_all wr 0 buf = io_hang"
| "write_all wr (Suc fuel) buf =
    (if buf = [] then io_return ()
     else io_bind (io_attempt (wr buf)) (\<lambda>r. case r of
         Inr n \<Rightarrow>
           if n = 0 then io_fail WRITE_ALL_EOF
           else if n > length buf then io_panic ''range start index out of range''
           else write_all wr fuel (drop n buf)
       | Inl e \<Rightarrow> if is_interrupted e then write_all wr fuel buf else io_fail e))"

text \<open>\<open>Pipe::read_to_end\<close>: one chunk buffer, reused.\<close>

fun read_to_end_loop :: "(bytes \<Rightarrow> (nat \<times> bytes) io) \<Rightarrow> nat \<Rightarrow> bytes \<Rightarrow> bytes \<Rightarrow> bytes io" where
  "read_to_end_loop rd 0 chunk buf = io_hang"
| "read_to_end_loop rd (Suc fuel) chunk buf =
    io_bind (io_attempt (rd chunk)) (\<lambda>r. case r of
        Inr (n, chunk') \<Rightarrow>
          if n = 0 then io_return buf
          else if n > length chunk' then io_panic ''range end index out of range''
          else read_to_end_loop rd fuel chunk' (buf @ take n chunk')
      | Inl e \<Rightarrow>
          if error_kind_of e = Interrupted then read_to_end_loop rd fuel chunk buf
          else io_fail e)"

definition pipe_read_to_end :: "int \<Rightarrow> nat \<Rightarrow> bytes \<Rightarrow> (nat \<times> bytes) io" where
  "pipe_read_to_end fh fuel buf =
    (let start = length buf
     in io_bind (read_to_end_loop (pipe_read fh) fuel (replicate 4096 0) buf) (\<lambda>buf'.
        io_return (length buf' - start, buf')))"

text \<open>
  \<open>stack_buffer_copy\<close> over an 8 KiB buffer; \<open>rd\<close> gives the bytes appended to an empty buffer of
  that capacity. The result is the number of bytes copied.
\<close>

definition DEFAULT_BUF_SIZE :: nat where "DEFAULT_BUF_SIZE = 8 * 1024"

fun stack_buffer_copy :: "(nat \<Rightarrow> bytes io) \<Rightarrow> (bytes \<Rightarrow> nat io) \<Rightarrow> nat \<Rightarrow> u64 \<Rightarrow> u64 io" where
  "stack_buffer_copy rd wr 0 len = io_hang"
| "stack_buffer_copy rd wr (Suc fuel) len =
    io_bind (io_attempt (rd DEFAULT_BUF_SIZE)) (\<lambda>r. case r of
        Inl e \<Rightarrow> if is_interrupted e then stack_buffer_copy rd wr fuel len else io_fail e
      | Inr filled \<Rightarrow>
          if filled = [] then io_return len
          else io_bind (write_all wr fuel filled) (\<lambda>_.
            stack_buffer_copy rd wr fuel (len + of_nat (length filled))))"

section \<open>Contracts\<close>

text \<open>
  A sink: \<open>sent\<close> reads off the history what has been accepted. A successful \<open>write\<close> that reports
  \<open>n\<close> has sent the first \<open>n\<close> bytes of its buffer, any other outcome has sent nothing.
\<close>

locale byte_sink =
  fixes wr :: "bytes \<Rightarrow> nat io" and sent :: "trace \<Rightarrow> bytes"
  assumes write_Ok: "wr b s = (Ok n, s') \<Longrightarrow> sent (os_trace s') = sent (os_trace s) @ take n b"
    and write_Err: "wr b s = (Err e, s') \<Longrightarrow> sent (os_trace s') = sent (os_trace s)"
    and write_total: "fst (wr b s) \<noteq> Panic m" "fst (wr b s) \<noteq> Hang"
begin

lemma write_all_sent:
  "write_all wr fuel b s = (r, s') \<Longrightarrow>
   \<exists>k. sent (os_trace s') = sent (os_trace s) @ take k b \<and> (r = Ok () \<longrightarrow> length b \<le> k)"
proof (induction fuel arbitrary: b s)
  case 0
  then show ?case by (intro exI [of _ 0]) auto
next
  case (Suc fuel)
  show ?case
  proof (cases "b = []")
    case True
    with Suc.prems show ?thesis by (intro exI [of _ 0]) auto
  next
    case False
    obtain w s1 where w: "wr b s = (w, s1)" by fastforce
    show ?thesis
    proof (cases w)
      case (Ok n)
      note snt = write_Ok [OF w [unfolded Ok]]
      consider "n = 0" | "n > length b" | "n \<noteq> 0" "n \<le> length b" by linarith
      then show ?thesis
      proof cases
        case 3
        then have "write_all wr fuel (drop n b) s1 = (r, s')"
          using Suc.prems w Ok False by (simp add: io_bind_def io_attempt_def)
        from Suc.IH [OF this] obtain k where
          k: "sent (os_trace s') = sent (os_trace s1) @ take k (drop n b)" "r = Ok () \<longrightarrow> length b - n \<le> k"
          by auto
        have "sent (os_trace s') = sent (os_trace s) @ take (n + k) b"
          using k(1) snt by (simp add: take_add)
        with k(2) 3(2) show ?thesis by (intro exI [of _ "n + k"]) auto
      qed (use Suc.prems w Ok False snt in
        \<open>auto simp: io_bind_def io_attempt_def intro: exI [of _ n] exI [of _ 0]\<close>)
    next
      case (Err e)
      note snt = write_Err [OF w [unfolded Err]]
      show ?thesis
      proof (cases "is_interrupted e")
        case True
        then have "write_all wr fuel b s1 = (r, s')"
          using Suc.prems w Err False by (simp add: io_bind_def io_attempt_def)
        from Suc.IH [OF this] snt show ?thesis by simp
      next
        case int: False
        then show ?thesis
          using Suc.prems w Err False snt by (intro exI [of _ 0]) (auto simp: io_bind_def io_attempt_def)
      qed
    qed (use write_total [of b s] w in auto)
  qed
qed

text \<open>Where nothing is interrupted, the buffer's length bounds the writes.\<close>

lemma write_all_returns:
  assumes "\<And>b s e s'. wr b s = (Err e, s') \<Longrightarrow> \<not> is_interrupted e" "length b < fuel"
  shows "fst (write_all wr fuel b s) \<noteq> Hang"
  using assms(2)
proof (induction fuel arbitrary: b s)
  case (Suc fuel)
  obtain w s1 where w: "wr b s = (w, s1)" by fastforce
  show ?case
  proof (cases w)
    case (Ok n)
    have "fst (write_all wr fuel (drop n b) s1) \<noteq> Hang" if "n \<noteq> 0" "b \<noteq> []"
      using that Suc.prems by (intro Suc.IH) (cases b; simp)
    with w Ok show ?thesis by (simp add: io_bind_def io_attempt_def)
  next
    case (Err e)
    with w assms(1) [of b s e s1] show ?thesis by (simp add: io_bind_def io_attempt_def)
  qed (use write_total [of b s] w in auto)
qed simp

end

text \<open>
  A source, on the oracles \<open>good\<close> whose reads stay within the buffer and deliver what they report:
  \<open>got\<close> reads off the history what has arrived.
\<close>

locale byte_source =
  fixes rd :: "bytes \<Rightarrow> (nat \<times> bytes) io" and got :: "trace \<Rightarrow> bytes"
    and good :: "(trace \<Rightarrow> call \<Rightarrow> reply) \<Rightarrow> bool"
  assumes read_Ok: "rd buf s = (Ok (n, buf'), s') \<Longrightarrow> good (os_oracle s) \<Longrightarrow>
      n \<le> length buf \<and> length buf' = length buf \<and> got (os_trace s') = got (os_trace s) @ take n buf'"
    and read_Err: "rd buf s = (Err e, s') \<Longrightarrow> got (os_trace s') = got (os_trace s)"
    and read_total: "fst (rd buf s) \<noteq> Panic m" "fst (rd buf s) \<noteq> Hang"
    and read_oracle: "rd buf s = (r, s') \<Longrightarrow> os_oracle s' = os_oracle s"
begin

lemma read_to_end_got:
  "read_to_end_loop rd fuel chunk buf s = (r, s') \<Longrightarrow> good (os_oracle s) \<Longrightarrow>
   (\<exists>d. got (os_trace s') = got (os_trace s) @ d \<and> (\<forall>out. r = Ok out \<longrightarrow> out = buf @ d))
   \<and> (\<forall>m. r \<noteq> Panic m)"
proof (induction fuel arbitrary: chunk buf s)
  case 0
  then show ?case by auto
next
  case (Suc fuel)
  obtain w s1 where w: "rd chunk s = (w, s1)" by fastforce
  have g1: "good (os_oracle s1)" using read_oracle [OF w] Suc.prems(2) by simp
  show ?case
  proof (cases w)
    case (Ok p)
    obtain n chunk' where p: "p = (n, chunk')" by fastforce
    note rk = read_Ok [OF w [unfolded Ok p] Suc.prems(2)]
    show ?thesis
    proof (cases "n = 0")
      case True
      with Suc.prems(1) w Ok p rk show ?thesis by (auto simp: io_bind_def io_attempt_def)
    next
      case False
      then have "read_to_end_loop rd fuel chunk' (buf @ take n chunk') s1 = (r, s')"
        using Suc.prems(1) w Ok p rk by (simp add: io_bind_def io_attempt_def)
      from Suc.IH [OF this g1] rk show ?thesis by auto
    qed
  next
    case (Err e)
    note rk = read_Err [OF w [unfolded Err]]
    show ?thesis
    proof (cases "error_kind_of e = Interrupted")
      case True
      then have "read_to_end_loop rd fuel chunk buf s1 = (r, s')"
        using Suc.prems(1) w Err by (simp add: io_bind_def io_attempt_def)
      from Suc.IH [OF this g1] rk show ?thesis by simp
    next
      case False
      with Suc.prems(1) w Err rk show ?thesis by (auto simp: io_bind_def io_attempt_def)
    qed
  qed (use read_total [of chunk s] w in \<open>metis fst_conv\<close>)+
qed

end

text \<open>
  A source that serves \<open>data\<close>: from a history that has seen a prefix of it, a read gives the next
  bytes, at least one as long as some are left.
\<close>

locale byte_supply = byte_source rd got good
  for rd :: "bytes \<Rightarrow> (nat \<times> bytes) io" and got :: "trace \<Rightarrow> bytes"
    and good :: "(trace \<Rightarrow> call \<Rightarrow> reply) \<Rightarrow> bool" +
  fixes data :: bytes
  assumes read_supply: "good (os_oracle s) \<Longrightarrow> buf \<noteq> [] \<Longrightarrow> \<exists>n buf' s'. rd buf s = (Ok (n, buf'), s')
      \<and> take n buf' = take n (drop (length (got (os_trace s))) data)
      \<and> n \<le> length data - length (got (os_trace s))
      \<and> (n = 0 \<longrightarrow> length data \<le> length (got (os_trace s)))"
begin

lemma read_to_end_served:
  assumes "good (os_oracle s)" "chunk \<noteq> []" "length (drop (length (got (os_trace s))) data) < fuel"
  shows "\<exists>s'. read_to_end_loop rd fuel chunk buf s = (Ok (buf @ drop (length (got (os_trace s))) data), s')
     \<and> got (os_trace s') = got (os_trace s) @ drop (length (got (os_trace s))) data"
  using assms
proof (induction fuel arbitrary: chunk buf s)
  case (Suc fuel)
  obtain n buf' s1 where rd: "rd chunk s = (Ok (n, buf'), s1)"
    "take n buf' = take n (drop (length (got (os_trace s))) data)"
    "n \<le> length data - length (got (os_trace s))"
    "n = 0 \<longrightarrow> length data \<le> length (got (os_trace s))"
    using read_supply [OF Suc.prems(1,2)] by blast
  note ok = read_Ok [OF rd(1) Suc.prems(1)]
  have got1: "got (os_trace s1) = got (os_trace s) @ take n (drop (length (got (os_trace s))) data)"
    using ok rd(2) by simp
  show ?case
  proof (cases "n = 0")
    case True
    with rd ok show ?thesis by (auto simp: io_bind_def io_attempt_def)
  next
    case False
    let ?d = "take n (drop (length (got (os_trace s))) data)"
    have rest: "drop (length (got (os_trace s1))) data = drop n (drop (length (got (os_trace s))) data)"
      using got1 rd(3) by (simp add: add.commute)
    have "buf' \<noteq> []" using ok Suc.prems(2) by auto
    moreover have "length (drop (length (got (os_trace s1))) data) < fuel"
      using Suc.prems(3) False rd(3) by (simp add: rest)
    ultimately obtain s' where
      "read_to_end_loop rd fuel buf' (buf @ ?d) s1 = (Ok ((buf @ ?d) @ drop n (drop (length (got (os_trace s))) data)), s')"
      "got (os_trace s') = got (os_trace s1) @ drop n (drop (length (got (os_trace s))) data)"
      using Suc.IH [of s1 buf' "buf @ ?d"] read_oracle [OF rd(1)] Suc.prems(1) unfolding rest by auto
    moreover have "read_to_end_loop rd (Suc fuel) chunk buf s = read_to_end_loop rd fuel buf' (buf @ ?d) s1"
      using rd False ok by (simp add: io_bind_def io_attempt_def)
    ultimately show ?thesis using got1 by (simp add: append.assoc append_take_drop_id del: drop_drop)
  qed
qed simp

end

text \<open>The copying loop, from a source that serves \<open>data\<close> into a sink that takes at least one byte.\<close>

locale copying =
  fixes rd :: "nat \<Rightarrow> bytes io" and wr :: "bytes \<Rightarrow> nat io" and got :: "trace \<Rightarrow> bytes"
    and sent :: "trace \<Rightarrow> bytes" and good :: "(trace \<Rightarrow> call \<Rightarrow> reply) \<Rightarrow> bool" and data :: bytes
  assumes read_next: "good (os_oracle s) \<Longrightarrow> 0 < cap \<Longrightarrow> \<exists>d s'. rd cap s = (Ok d, s')
      \<and> os_oracle s' = os_oracle s \<and> got (os_trace s') = got (os_trace s) @ d
      \<and> sent (os_trace s') = sent (os_trace s)
      \<and> d = take (length d) (drop (length (got (os_trace s))) data)
      \<and> (d = [] \<longrightarrow> length data \<le> length (got (os_trace s)))"
    and write_some: "good (os_oracle s) \<Longrightarrow> b \<noteq> [] \<Longrightarrow> \<exists>n s'. wr b s = (Ok n, s')
      \<and> os_oracle s' = os_oracle s \<and> 0 < n \<and> n \<le> length b
      \<and> sent (os_trace s') = sent (os_trace s) @ take n b \<and> got (os_trace s') = got (os_trace s)"
begin

lemma write_all_takes:
  assumes "good (os_oracle s)" "length b < fuel"
  shows "\<exists>s'. write_all wr fuel b s = (Ok (), s') \<and> os_oracle s' = os_oracle s
     \<and> sent (os_trace s') = sent (os_trace s) @ b \<and> got (os_trace s') = got (os_trace s)"
  using assms
proof (induction fuel arbitrary: b s)
  case (Suc fuel)
  show ?case
  proof (cases "b = []")
    case False
    obtain n s1 where w: "wr b s = (Ok n, s1)" "os_oracle s1 = os_oracle s" "0 < n" "n \<le> length b"
      "sent (os_trace s1) = sent (os_trace s) @ take n b" "got (os_trace s1) = got (os_trace s)"
      using write_some [OF Suc.prems(1) False] by blast
    have "length (drop n b) < fuel" using Suc.prems(2) w(3) False by (cases b) auto
    then obtain s' where "write_all wr fuel (drop n b) s1 = (Ok (), s')" "os_oracle s' = os_oracle s1"
      "sent (os_trace s') = sent (os_trace s1) @ drop n b" "got (os_trace s') = got (os_trace s1)"
      using Suc.IH [of s1 "drop n b"] Suc.prems(1) w(2) by auto
    with w False show ?thesis by (simp add: io_bind_def io_attempt_def)
  qed simp
qed simp

lemma copy_served:
  assumes "good (os_oracle s)" "Suc (length (drop (length (got (os_trace s))) data)) < fuel"
  shows "\<exists>s'. stack_buffer_copy rd wr fuel len s
       = (Ok (len + of_nat (length (drop (length (got (os_trace s))) data))), s')
     \<and> os_oracle s' = os_oracle s
     \<and> sent (os_trace s') = sent (os_trace s) @ drop (length (got (os_trace s))) data"
  using assms
proof (induction fuel arbitrary: len s)
  case (Suc fuel)
  let ?rest = "drop (length (got (os_trace s))) data"
  obtain d s1 where rd: "rd DEFAULT_BUF_SIZE s = (Ok d, s1)" "os_oracle s1 = os_oracle s"
    "got (os_trace s1) = got (os_trace s) @ d" "sent (os_trace s1) = sent (os_trace s)"
    "d = take (length d) ?rest" "d = [] \<longrightarrow> length data \<le> length (got (os_trace s))"
    using read_next [OF Suc.prems(1), of DEFAULT_BUF_SIZE] by (auto simp: DEFAULT_BUF_SIZE_def)
  show ?case
  proof (cases "d = []")
    case True
    with rd show ?thesis by (auto simp: io_bind_def io_attempt_def)
  next
    case False
    have ld: "length d \<le> length ?rest" by (subst rd(5)) simp
    have rest: "?rest = d @ drop (length (got (os_trace s1))) data"
      using rd(3,5) by (metis add.commute append_take_drop_id drop_drop length_append)
    obtain s2 where w: "write_all wr fuel d s1 = (Ok (), s2)" "os_oracle s2 = os_oracle s"
      "sent (os_trace s2) = sent (os_trace s) @ d" "got (os_trace s2) = got (os_trace s1)"
      using write_all_takes [of s1 d fuel] Suc.prems rd(2,4) ld by auto
    have "Suc (length (drop (length (got (os_trace s2))) data)) < fuel"
      using Suc.prems(2) rest False w(4) by (cases d) auto
    then obtain s' where "stack_buffer_copy rd wr fuel (len + of_nat (length d)) s2
         = (Ok (len + of_nat (length d) + of_nat (length (drop (length (got (os_trace s1))) data))), s')"
      "os_oracle s' = os_oracle s"
      "sent (os_trace s') = sent (os_trace s2) @ drop (length (got (os_trace s1))) data"
      using Suc.IH [of s2 "len + of_nat (length d)"] Suc.prems(1) w(2,4) by auto
    moreover have "stack_buffer_copy rd wr (Suc fuel) len s
        = stack_buffer_copy rd wr fuel (len + of_nat (length d)) s2"
      using w rd False by (simp add: io_bind_def io_attempt_def)
    moreover have "len + of_nat (length d) + of_nat (length (drop (length (got (os_trace s1))) data))
        = (len + of_nat (length ?rest) :: u64)"
      by (subst rest) (simp add: add.assoc)
    moreover have "sent (os_trace s2) @ drop (length (got (os_trace s1))) data = sent (os_trace s) @ ?rest"
      using rest w(3) rd(4) by simp
    ultimately show ?thesis by simp
  qed
qed simp

end

section \<open>Files and pipes as streams\<close>

text \<open>
  What the history says a descriptor has accepted and delivered: the reported prefix of each
  written buffer, and what each read put into the buffer. A good oracle writes at least the bytes
  it reports, and reports no more than the buffer holds.
\<close>

fun fd_sent :: "int \<Rightarrow> trace \<Rightarrow> bytes" where
  "fd_sent fd [] = []"
| "fd_sent fd ((FsC (C_write fd' b), r) # t) =
    (if fd' = fd \<and> r_ret r \<ge> 0 then take (nat (r_ret r)) b else []) @ fd_sent fd t"
| "fd_sent fd (_ # t) = fd_sent fd t"

fun fd_got :: "int \<Rightarrow> trace \<Rightarrow> bytes" where
  "fd_got fd [] = []"
| "fd_got fd ((FsC (C_read fd' n), r) # t) =
    (if fd' = fd \<and> r_ret r \<ge> 0 then take (nat (r_ret r)) (r_data r) else []) @ fd_got fd t"
| "fd_got fd (_ # t) = fd_got fd t"

fun pipe_sent :: "int \<Rightarrow> trace \<Rightarrow> bytes" where
  "pipe_sent fh [] = []"
| "pipe_sent fh ((PipeC (P_write fh' b), r) # t) =
    (if fh' = fh \<and> r_ret r \<ge> 0 then take (nat (r_ret r)) b else []) @ pipe_sent fh t"
| "pipe_sent fh (_ # t) = pipe_sent fh t"

fun pipe_got :: "int \<Rightarrow> trace \<Rightarrow> bytes" where
  "pipe_got fh [] = []"
| "pipe_got fh ((PipeC (P_read fh' n), r) # t) =
    (if fh' = fh \<and> r_ret r \<ge> 0 then take (nat (r_ret r)) (r_data r) else []) @ pipe_got fh t"
| "pipe_got fh (_ # t) = pipe_got fh t"

definition good_file_reads :: "(trace \<Rightarrow> call \<Rightarrow> reply) \<Rightarrow> bool" where
  "good_file_reads orc \<longleftrightarrow> (\<forall>t fd n. let r = orc t (FsC (C_read fd n)) in
     0 \<le> r_ret r \<longrightarrow> nat (r_ret r) \<le> length (r_data r) \<and> length (r_data r) \<le> n)"

definition good_pipe_reads :: "(trace \<Rightarrow> call \<Rightarrow> reply) \<Rightarrow> bool" where
  "good_pipe_reads orc \<longleftrightarrow> (\<forall>t fh n. let r = orc t (PipeC (P_read fh n)) in
     0 \<le> r_ret r \<longrightarrow> nat (r_ret r) \<le> length (r_data r) \<and> length (r_data r) \<le> n)"

lemma fd_sent_append: "fd_sent fd (t @ u) = fd_sent fd t @ fd_sent fd u"
  by (induction fd t rule: fd_sent.induct) simp_all

lemma fd_got_append: "fd_got fd (t @ u) = fd_got fd t @ fd_got fd u"
  by (induction fd t rule: fd_got.induct) simp_all

lemma pipe_sent_append: "pipe_sent fh (t @ u) = pipe_sent fh t @ pipe_sent fh u"
  by (induction fh t rule: pipe_sent.induct) simp_all

lemma pipe_got_append: "pipe_got fh (t @ u) = pipe_got fh t @ pipe_got fh u"
  by (induction fh t rule: pipe_got.induct) simp_all

lemmas stream_append = fd_sent_append fd_got_append pipe_sent_append pipe_got_append

lemma stream_errno:
  "\<forall>x\<in>set t. \<exists>c. fst x = ErrnoC c \<Longrightarrow> fd_sent fd t = [] \<and> fd_got fd t = [] \<and> pipe_sent fh t = []
     \<and> pipe_got fh t = []"
proof (induction t)
  case (Cons x t)
  obtain c r where "x = (ErrnoC c, r)" using Cons.prems by (cases x) auto
  with Cons show ?case by simp
qed simp

lemmas stream_simps = stream_append fd_sent.simps fd_got.simps pipe_sent.simps pipe_got.simps

lemma os_fail_stream:
  assumes "(os_fail :: 'a io) s = (r, s')"
  shows "\<exists>e. r = Err (OsError e)" "os_oracle s' = os_oracle s"
    "fd_sent fd (os_trace s') = fd_sent fd (os_trace s)" "fd_got fd (os_trace s') = fd_got fd (os_trace s)"
    "pipe_sent fh (os_trace s') = pipe_sent fh (os_trace s)"
    "pipe_got fh (os_trace s') = pipe_got fh (os_trace s)"
proof -
  obtain e t where "(os_fail :: 'a io) s = (Err (OsError e), s\<lparr>os_trace := os_trace s @ t\<rparr>)"
    "\<forall>x\<in>set t. \<exists>c. fst x = ErrnoC c" using os_fail_cases [of s, where 'a = 'a] by blast
  with assms stream_errno [of t fd fh] show "\<exists>e. r = Err (OsError e)" "os_oracle s' = os_oracle s"
    "fd_sent fd (os_trace s') = fd_sent fd (os_trace s)" "fd_got fd (os_trace s') = fd_got fd (os_trace s)"
    "pipe_sent fh (os_trace s') = pipe_sent fh (os_trace s)"
    "pipe_got fh (os_trace s') = pipe_got fh (os_trace s)"
    by (auto simp: stream_append)
qed

lemma file_write_run:
  "file_write fd b s = (let r = reply_of s (FsC (C_write fd b)); s1 = after s (FsC (C_write fd b))
     in if r_ret r < 0 then os_fail s1 else (Ok (nat (r_ret r)), s1))"
  by (simp add: file_write_def bind_sys_after Let_def)

lemma pipe_write_run:
  "pipe_write fh b s = (let r = reply_of s (PipeC (P_write fh b)); s1 = after s (PipeC (P_write fh b))
     in if r_ret r < 0 then os_fail s1 else (Ok (nat (r_ret r)), s1))"
  by (simp add: pipe_write_def bind_sys_after Let_def)

lemma file_read_run:
  "file_read fd b s = (let r = reply_of s (FsC (C_read fd (length b)));
     s1 = after s (FsC (C_read fd (length b)))
     in if r_ret r < 0 then os_fail s1 else (Ok (nat (r_ret r), overwrite b (r_data r)), s1))"
  by (simp add: file_read_def bind_sys_after Let_def)

lemma pipe_read_run:
  "pipe_read fh b s = (let r = reply_of s (PipeC (P_read fh (length b)));
     s1 = after s (PipeC (P_read fh (length b)))
     in if r_ret r = -2 then (Err (SimpleMessage WouldBlock ''pipe is empty''), s1)
        else if r_ret r < 0 then os_fail s1
        else (Ok (nat (r_ret r), overwrite b (r_data r)), s1))"
  by (simp add: pipe_read_def bind_sys_after Let_def)

interpretation file_sink: byte_sink "file_write fd" "fd_sent fd" for fd
proof
  fix b s n s' e m
  show "fd_sent fd (os_trace s') = fd_sent fd (os_trace s) @ take n b"
    if "file_write fd b s = (Ok n, s')"
    using that by (auto simp: file_write_run Let_def stream_simps split: if_splits)
  show "fd_sent fd (os_trace s') = fd_sent fd (os_trace s)"
    if "file_write fd b s = (Err e, s')"
    using that by (auto simp: file_write_run Let_def stream_simps dest: os_fail_stream(3) split: if_splits)
  show "fst (file_write fd b s) \<noteq> Panic m" "fst (file_write fd b s) \<noteq> Hang"
    using os_fail_Err [of "after s (FsC (C_write fd b))", where 'a = nat]
    by (auto simp: file_write_run Let_def)
qed

interpretation pipe_sink: byte_sink "pipe_write fh" "pipe_sent fh" for fh
proof
  fix b s n s' e m
  show "pipe_sent fh (os_trace s') = pipe_sent fh (os_trace s) @ take n b"
    if "pipe_write fh b s = (Ok n, s')"
    using that by (auto simp: pipe_write_run Let_def stream_simps split: if_splits)
  show "pipe_sent fh (os_trace s') = pipe_sent fh (os_trace s)"
    if "pipe_write fh b s = (Err e, s')"
    using that by (auto simp: pipe_write_run Let_def stream_simps dest: os_fail_stream(5) split: if_splits)
  show "fst (pipe_write fh b s) \<noteq> Panic m" "fst (pipe_write fh b s) \<noteq> Hang"
    using os_fail_Err [of "after s (PipeC (P_write fh b))", where 'a = nat]
    by (auto simp: pipe_write_run Let_def)
qed

interpretation file_source: byte_source "file_read fd" "fd_got fd" good_file_reads for fd
proof
  fix buf buf' :: bytes and s n s' e m and r :: "(nat \<times> bytes) outcome"
  let ?c = "FsC (C_read fd (length buf))"
  show "n \<le> length buf \<and> length buf' = length buf \<and> fd_got fd (os_trace s') = fd_got fd (os_trace s) @ take n buf'"
    if "file_read fd buf s = (Ok (n, buf'), s')" "good_file_reads (os_oracle s)"
  proof -
    have ge: "0 \<le> r_ret (reply_of s ?c)" "n = nat (r_ret (reply_of s ?c))"
      "buf' = overwrite buf (r_data (reply_of s ?c))" "s' = after s ?c"
      using that(1) by (auto simp: file_read_run Let_def split: if_splits)
    have "n \<le> length (r_data (reply_of s ?c))" "length (r_data (reply_of s ?c)) \<le> length buf"
      using that(2) ge(1,2) by (simp_all add: good_file_reads_def reply_of_def Let_def)
    with ge show ?thesis by (simp add: stream_simps take_overwrite_le)
  qed
  show "fd_got fd (os_trace s') = fd_got fd (os_trace s)" if "file_read fd buf s = (Err e, s')"
    using that by (auto simp: file_read_run Let_def stream_simps dest: os_fail_stream(4) split: if_splits)
  show "fst (file_read fd buf s) \<noteq> Panic m" "fst (file_read fd buf s) \<noteq> Hang"
    using os_fail_Err [of "after s ?c", where 'a = "nat \<times> bytes"] by (auto simp: file_read_run Let_def)
  show "os_oracle s' = os_oracle s" if "file_read fd buf s = (r, s')"
    using that by (auto simp: file_read_run Let_def dest: os_fail_stream(2) split: if_splits)
qed

interpretation pipe_source: byte_source "pipe_read fh" "pipe_got fh" good_pipe_reads for fh
proof
  fix buf buf' :: bytes and s n s' e m and r :: "(nat \<times> bytes) outcome"
  let ?c = "PipeC (P_read fh (length buf))"
  show "n \<le> length buf \<and> length buf' = length buf
      \<and> pipe_got fh (os_trace s') = pipe_got fh (os_trace s) @ take n buf'"
    if "pipe_read fh buf s = (Ok (n, buf'), s')" "good_pipe_reads (os_oracle s)"
  proof -
    have ge: "0 \<le> r_ret (reply_of s ?c)" "n = nat (r_ret (reply_of s ?c))"
      "buf' = overwrite buf (r_data (reply_of s ?c))" "s' = after s ?c"
      using that(1) by (auto simp: pipe_read_run Let_def split: if_splits)
    have "n \<le> length (r_data (reply_of s ?c))" "length (r_data (reply_of s ?c)) \<le> length buf"
      using that(2) ge(1,2) by (simp_all add: good_pipe_reads_def reply_of_def Let_def)
    with ge show ?thesis by (simp add: stream_simps take_overwrite_le)
  qed
  show "pipe_got fh (os_trace s') = pipe_got fh (os_trace s)" if "pipe_read fh buf s = (Err e, s')"
    using that by (auto simp: pipe_read_run Let_def stream_simps dest: os_fail_stream(6) split: if_splits)
  show "fst (pipe_read fh buf s) \<noteq> Panic m" "fst (pipe_read fh buf s) \<noteq> Hang"
    using os_fail_Err [of "after s ?c", where 'a = "nat \<times> bytes"] by (auto simp: pipe_read_run Let_def)
  show "os_oracle s' = os_oracle s" if "pipe_read fh buf s = (r, s')"
    using that by (auto simp: pipe_read_run Let_def dest: os_fail_stream(2) split: if_splits)
qed

text \<open>
  The oracles that serve: the read side hands out \<open>data\<close> in order, in pieces of any size up to the
  buffer's, and reports 0 only at the end; the write side takes at least one byte.
\<close>

definition next_piece :: "bytes \<Rightarrow> bytes \<Rightarrow> nat \<Rightarrow> reply \<Rightarrow> bool" where
  "next_piece data seen n r \<longleftrightarrow>
     (let rest = drop (length seen) data; k = nat (r_ret r)
      in 0 \<le> r_ret r \<and> k \<le> n \<and> k \<le> length rest \<and> r_data r = take k rest
         \<and> (k = 0 \<longrightarrow> n = 0 \<or> rest = []))"

definition file_serves :: "int \<Rightarrow> bytes \<Rightarrow> (trace \<Rightarrow> call \<Rightarrow> reply) \<Rightarrow> bool" where
  "file_serves fd data orc \<longleftrightarrow>
     (\<forall>t n. next_piece data (fd_got fd t) n (orc t (FsC (C_read fd n))))"

definition pipe_serves :: "int \<Rightarrow> bytes \<Rightarrow> (trace \<Rightarrow> call \<Rightarrow> reply) \<Rightarrow> bool" where
  "pipe_serves fh data orc \<longleftrightarrow>
     (\<forall>t n. next_piece data (pipe_got fh t) n (orc t (PipeC (P_read fh n))))"

definition file_accepts :: "int \<Rightarrow> (trace \<Rightarrow> call \<Rightarrow> reply) \<Rightarrow> bool" where
  "file_accepts fd orc \<longleftrightarrow> (\<forall>t b. b \<noteq> [] \<longrightarrow>
     0 < r_ret (orc t (FsC (C_write fd b))) \<and> r_ret (orc t (FsC (C_write fd b))) \<le> int (length b))"

lemma pipe_serves_good: "pipe_serves fh data orc \<Longrightarrow> next_piece data (pipe_got fh t) n (orc t (PipeC (P_read fh n)))"
  by (simp add: pipe_serves_def)

lemma file_serves_good: "file_serves fd data orc \<Longrightarrow> next_piece data (fd_got fd t) n (orc t (FsC (C_read fd n)))"
  by (simp add: file_serves_def)

lemma file_acceptsD:
  assumes "file_accepts fd orc" "b \<noteq> []"
  shows "0 < r_ret (orc t (FsC (C_write fd b)))" "r_ret (orc t (FsC (C_write fd b))) \<le> int (length b)"
  using assms by (auto simp: file_accepts_def)

interpretation pipe_supply: byte_supply "pipe_read fh" "pipe_got fh" "pipe_serves fh data" data for fh data
proof
  fix buf buf' :: bytes and s n s' e m and r :: "(nat \<times> bytes) outcome"
  let ?c = "PipeC (P_read fh (length buf))"
  have piece: "next_piece data (pipe_got fh (os_trace s)) (length buf) (reply_of s ?c)"
    if "pipe_serves fh data (os_oracle s)"
    using pipe_serves_good [OF that, of "os_trace s" "length buf"] by (simp add: reply_of_def)
  show "n \<le> length buf \<and> length buf' = length buf
      \<and> pipe_got fh (os_trace s') = pipe_got fh (os_trace s) @ take n buf'"
    if "pipe_read fh buf s = (Ok (n, buf'), s')" "pipe_serves fh data (os_oracle s)"
    using that(1) piece [OF that(2)]
    by (auto simp: pipe_read_run Let_def next_piece_def stream_simps take_overwrite_le split: if_splits)
  show "pipe_got fh (os_trace s') = pipe_got fh (os_trace s)" if "pipe_read fh buf s = (Err e, s')"
    using that by (rule pipe_source.read_Err)
  show "fst (pipe_read fh buf s) \<noteq> Panic m" "fst (pipe_read fh buf s) \<noteq> Hang"
    by (rule pipe_source.read_total)+
  show "os_oracle s' = os_oracle s" if "pipe_read fh buf s = (r, s')"
    using that by (rule pipe_source.read_oracle)
  show "\<exists>n buf' s'. pipe_read fh buf s = (Ok (n, buf'), s')
      \<and> take n buf' = take n (drop (length (pipe_got fh (os_trace s))) data)
      \<and> n \<le> length data - length (pipe_got fh (os_trace s))
      \<and> (n = 0 \<longrightarrow> length data \<le> length (pipe_got fh (os_trace s)))"
    if "pipe_serves fh data (os_oracle s)" "buf \<noteq> []"
    using piece [OF that(1)] that(2)
    by (auto simp: pipe_read_run Let_def next_piece_def take_overwrite_le)
qed

interpretation file_copying: copying "file_read_buf src" "file_write dst" "fd_got src" "fd_sent dst"
  "\<lambda>orc. file_serves src data orc \<and> file_accepts dst orc" data for src dst data
proof
  fix s :: os and cap :: nat and b :: bytes
  assume g: "file_serves src data (os_oracle s) \<and> file_accepts dst (os_oracle s)"
  let ?n = "min cap 512"
  let ?c = "FsC (C_read src ?n)"
  let ?k = "nat (r_ret (reply_of s ?c))"
  let ?rest = "drop (length (fd_got src (os_trace s))) data"
  show "\<exists>d s'. file_read_buf src cap s = (Ok d, s') \<and> os_oracle s' = os_oracle s
      \<and> fd_got src (os_trace s') = fd_got src (os_trace s) @ d
      \<and> fd_sent dst (os_trace s') = fd_sent dst (os_trace s)
      \<and> d = take (length d) ?rest \<and> (d = [] \<longrightarrow> length data \<le> length (fd_got src (os_trace s)))"
    if "0 < cap"
  proof -
    have "next_piece data (fd_got src (os_trace s)) ?n (reply_of s ?c)"
      using file_serves_good [of src data _ "os_trace s" ?n] g by (simp add: reply_of_def)
    then have k: "0 \<le> r_ret (reply_of s ?c)" "?k \<le> ?n" "?k \<le> length ?rest"
      "r_data (reply_of s ?c) = take ?k ?rest" "?k = 0 \<longrightarrow> ?n = 0 \<or> ?rest = []"
      unfolding next_piece_def Let_def by blast+
    have "length (r_data (reply_of s ?c)) = ?k" using k(3,4) by simp
    then have "take ?k (overwrite (replicate ?n 0) (r_data (reply_of s ?c))) = take ?k ?rest"
      using k(2,4) by (simp add: take_overwrite_le)
    then have "file_read_buf src cap s = (Ok (take ?k ?rest), after s ?c)"
      using k(1,2) by (simp add: file_read_buf_def file_read_run Let_def io_bind_def)
    with k that show ?thesis by (auto simp: stream_simps)
  qed
  show "\<exists>n s'. file_write dst b s = (Ok n, s') \<and> os_oracle s' = os_oracle s \<and> 0 < n \<and> n \<le> length b
      \<and> fd_sent dst (os_trace s') = fd_sent dst (os_trace s) @ take n b
      \<and> fd_got src (os_trace s') = fd_got src (os_trace s)"
    if "b \<noteq> []"
    using file_acceptsD [of dst "os_oracle s" b "os_trace s"] g that
    by (auto simp: file_write_run Let_def stream_simps reply_of_def)
qed

text \<open>An oracle that serves \<open>data\<close> on one descriptor and one pipe and accepts writes in full.\<close>

definition serve :: "bytes \<Rightarrow> bytes \<Rightarrow> nat \<Rightarrow> reply" where
  "serve data seen n = (let rest = drop (length seen) data; k = min n (length rest)
     in ret_data (int k) (take k rest))"

definition serve_oracle :: "int \<Rightarrow> bytes \<Rightarrow> trace \<Rightarrow> call \<Rightarrow> reply" where
  "serve_oracle src data t c = (case c of
       FsC (C_read fd n) \<Rightarrow> if fd = src then serve data (fd_got fd t) n else ret 0
     | FsC (C_write fd b) \<Rightarrow> ret (int (length b))
     | PipeC (P_read fh n) \<Rightarrow> if fh = src then serve data (pipe_got fh t) n else ret 0
     | PipeC (P_write fh b) \<Rightarrow> ret (int (length b))
     | _ \<Rightarrow> ret 0)"

lemma serve_oracle_serves:
  "pipe_serves src data (serve_oracle src data)" "file_serves src data (serve_oracle src data)"
  "file_accepts dst (serve_oracle src data)"
  by (auto simp: pipe_serves_def file_serves_def file_accepts_def next_piece_def serve_oracle_def
      serve_def Let_def min_def)

section \<open>Properties\<close>

text \<open>
  C7: whatever the operating system answers, \<open>write_all\<close> on a file or on a pipe has passed a prefix
  of its buffer, without gaps or repetitions, when it ends; when it returns \<open>Ok\<close>, all of it.
\<close>

theorem write_all_prefix:
  "(case write_all (file_write fd) fuel b s of (r, s') \<Rightarrow>
     \<exists>k. fd_sent fd (os_trace s') = fd_sent fd (os_trace s) @ take k b
        \<and> \<not> (r = Ok () \<and> k < length b))
   \<and> (case write_all (pipe_write fh) fuel b s of (r, s') \<Rightarrow>
     \<exists>k. pipe_sent fh (os_trace s') = pipe_sent fh (os_trace s) @ take k b
        \<and> \<not> (r = Ok () \<and> k < length b))"
  using file_sink.write_all_sent [of fd fuel b s] pipe_sink.write_all_sent [of fh fuel b s]
  by (intro conjI) (force split: prod.splits simp: not_less)+

text \<open>
  On a pipe that serves \<open>data\<close>, in pieces of whatever size, \<open>Pipe::read_to_end\<close> returns, appends
  exactly the part of \<open>data\<close> not read before, and reports its length. One unit of fuel per byte left
  and one for the end of the stream are enough.
\<close>

lemma pipe_read_to_end_complete:
  assumes "pipe_serves fh data (os_oracle s)"
    and "length data - length (pipe_got fh (os_trace s)) < fuel"
  shows "\<exists>s'. pipe_read_to_end fh fuel buf s
      = (Ok (length data - length (pipe_got fh (os_trace s)),
             buf @ drop (length (pipe_got fh (os_trace s))) data), s')"
  using pipe_supply.read_to_end_served [of fh data s "replicate 4096 0" fuel buf] assms
  by (auto simp: pipe_read_to_end_def io_bind_def)

lemma pipe_read_to_end_complete_witness:
  "\<exists>s'. pipe_read_to_end 7 4 [9] (boot (serve_oracle 7 [1, 2, 3])) = (Ok (3, [9, 1, 2, 3]), s')"
  using pipe_read_to_end_complete [of 7 "[1, 2, 3]" "boot (serve_oracle 7 [1, 2, 3])" 4 "[9]"]
  by (simp add: serve_oracle_serves numeral_3_eq_3)

end
