(* ===== verification/Fs_Common.thy ===== *)
theory Fs_Common
  imports Fs_Dirs Io_Stream
begin

text \<open>
  The operations the layer takes from \<open>sys/fs/common.rs\<close>: \<open>copy\<close> and \<open>remove_dir_all\<close>, and its \<open>Dir\<close>,
  with the accessors of \<open>os/aros/fs.rs\<close>. A \<open>File\<close> or \<open>ReadDir\<close> in a local variable is dropped on every way
  out of its scope.
\<close>

section \<open>copy\<close>

definition NOT_FILE_ERROR :: io_error where
  "NOT_FILE_ERROR = SimpleMessage InvalidInput
     ''the source path is neither a regular file nor a symlink to a regular file''"

text \<open>\<open>File::open\<close> and \<open>File::create\<close> (\<open>std/fs.rs\<close>).\<close>

definition File_open :: "path \<Rightarrow> int io" where
  "File_open p = file_open p (open_options_new\<lparr>oo_read := True\<rparr>)"

definition File_create :: "path \<Rightarrow> int io" where
  "File_create p = file_open p (open_options_new\<lparr>oo_write := True, oo_create := True, oo_truncate := True\<rparr>)"

definition fs_copy :: "nat \<Rightarrow> path \<Rightarrow> path \<Rightarrow> u64 io" where
  "fs_copy fuel src_path dst_path =
    io_bind (File_open src_path) (\<lambda>reader.
    io_finally
      (io_bind (file_attr_of reader) (\<lambda>metadata.
       if \<not> is_file (attr_file_type metadata) then io_fail NOT_FILE_ERROR
       else io_bind (File_create dst_path) (\<lambda>writer.
         io_finally
           (let perm = attr_perm metadata
            in io_bind (stack_buffer_copy (file_read_buf reader) (file_write writer) fuel 0) (\<lambda>n.
               io_bind (file_set_permissions writer perm) (\<lambda>_. io_return n)))
           (file_drop writer))))
      (file_drop reader))"

section \<open>remove_dir_all\<close>

definition ignore_notfound :: "'a io \<Rightarrow> unit io" where
  "ignore_notfound m = io_bind (io_attempt m) (\<lambda>r. case r of
      Inl err \<Rightarrow> if error_kind_of err = NotFound then io_return () else io_fail err
    | Inr _ \<Rightarrow> io_return ())"

text \<open>One fuel for the depth of the recursion and the length of the listings together.\<close>

fun remove_dir_all_recursive :: "nat \<Rightarrow> path \<Rightarrow> unit io"
  and remove_children :: "nat \<Rightarrow> read_dir \<Rightarrow> unit io" where
  "remove_dir_all_recursive 0 p = io_hang"
| "remove_dir_all_recursive (Suc fuel) p =
    io_bind (fs_readdir p) (\<lambda>rd.
    io_bind (io_finally (remove_children fuel rd) (read_dir_drop rd)) (\<lambda>_.
    ignore_notfound (fs_rmdir p)))"
| "remove_children 0 rd = io_hang"
| "remove_children (Suc fuel) rd =
    io_bind (read_dir_next rd) (\<lambda>c. case c of
      None \<Rightarrow> io_return ()
    | Some child_result \<Rightarrow>
        io_bind (io_attempt
          (io_bind (io_of child_result) (\<lambda>child.
           io_bind (entry_file_type child) (\<lambda>ft.
           if is_dir ft then remove_dir_all_recursive fuel (entry_path child)
           else fs_unlink (entry_path child))))) (\<lambda>result.
        case result of
          Inl err \<Rightarrow> if error_kind_of err \<noteq> NotFound then io_fail err else remove_children fuel rd
        | Inr _ \<Rightarrow> remove_children fuel rd))"

definition remove_dir_all :: "nat \<Rightarrow> path \<Rightarrow> unit io" where
  "remove_dir_all fuel p =
    io_bind (fs_lstat p) (\<lambda>metadata.
    if is_symlink (attr_file_type metadata) then fs_unlink p else remove_dir_all_recursive fuel p)"

section \<open>Dir\<close>

text \<open>A \<open>Dir\<close> is the canonical path of the directory.\<close>

definition dir_open :: "path \<Rightarrow> path io" where
  "dir_open p = fs_canonicalize p"

definition dir_open_file :: "path \<Rightarrow> path \<Rightarrow> open_options \<Rightarrow> int io" where
  "dir_open_file d p opts = file_open (path_join d p) opts"

definition dir_metadata :: "path \<Rightarrow> file_attr io" where
  "dir_metadata d = fs_stat d"

section \<open>A copy between two regular files\<close>

text \<open>
  An operating system where \<open>p\<close> opens for reading as \<open>src\<close>, a regular file of the given mode that holds
  \<open>data\<close>, and \<open>q\<close> opens, created or truncated, as \<open>dst\<close>, which takes writes and a mode. Pieces may be of
  any size.
\<close>

definition copy_world :: "path \<Rightarrow> path \<Rightarrow> int \<Rightarrow> int \<Rightarrow> bytes \<Rightarrow> u32 \<Rightarrow> (trace \<Rightarrow> call \<Rightarrow> reply) \<Rightarrow> bool" where
  "copy_world p q src dst data mode orc \<longleftrightarrow> 0 \<le> src \<and> 0 \<le> dst \<and> is_file (FileType mode)
     \<and> file_serves src data orc \<and> file_accepts dst orc
     \<and> (\<forall>t. r_ret (orc t (FsC (C_open p O_RDONLY 0x1B6))) = src)
     \<and> (\<forall>t. r_ret (orc t (FsC (C_open q (O_WRONLY OR O_CREAT OR O_TRUNC) 0x1B6))) = dst)
     \<and> (\<forall>t. r_ret (orc t (AttrC (C_fstat src))) = 0 \<and> of_int (out_param 1 0 (orc t (AttrC (C_fstat src)))) = mode)
     \<and> (\<forall>t m. r_ret (orc t (AttrC (C_fchmod dst m))) = 0)"

definition copy_call :: "int \<Rightarrow> int \<Rightarrow> call \<Rightarrow> bool" where
  "copy_call src dst c \<longleftrightarrow> (case c of
      FsC (C_read fd _) \<Rightarrow> fd = src
    | FsC (C_write fd _) \<Rightarrow> fd = dst
    | ErrnoC _ \<Rightarrow> True
    | _ \<Rightarrow> False)"

lemma copy_flags:
  "open_flags (open_options_new\<lparr>oo_read := True\<rparr>) = Inr O_RDONLY"
  "open_flags (open_options_new\<lparr>oo_write := True, oo_create := True, oo_truncate := True\<rparr>) =
    Inr (O_WRONLY OR O_CREAT OR O_TRUNC)"
  by (simp_all add: open_flags_def open_creation_def open_options_new_def O_WRONLY_def O_CREAT_def O_TRUNC_def)

lemma write_all_calls:
  assumes wr: "\<And>b. io_calls P (wr b)"
  shows "io_calls P (write_all wr fuel b)"
proof (induction fuel arbitrary: b)
  case (Suc fuel)
  have "io_calls P (case r of
      Inr n \<Rightarrow> if n = 0 then io_fail WRITE_ALL_EOF
        else if n > length b then io_panic ''range start index out of range'' else write_all wr fuel (drop n b)
    | Inl e \<Rightarrow> if is_interrupted e then write_all wr fuel b else io_fail e)" for r
    using Suc by (auto intro!: calls_intros split: sum.split)
  then show ?case unfolding write_all.simps by (intro calls_intros wr)
qed (simp add: calls_intros)

lemma stack_buffer_copy_calls:
  assumes rd: "\<And>n. io_calls P (rd n)" and wr: "\<And>b. io_calls P (wr b)"
  shows "io_calls P (stack_buffer_copy rd wr fuel len)"
proof (induction fuel arbitrary: len)
  case (Suc fuel)
  have "io_calls P (case r of
      Inl e \<Rightarrow> if is_interrupted e then stack_buffer_copy rd wr fuel len else io_fail e
    | Inr filled \<Rightarrow> if filled = [] then io_return len
        else io_bind (write_all wr fuel filled) (\<lambda>_. stack_buffer_copy rd wr fuel (len + of_nat (length filled))))" for r
    using Suc by (auto intro!: calls_intros write_all_calls wr split: sum.split)
  then show ?case unfolding stack_buffer_copy.simps by (intro calls_intros rd)
qed (simp add: calls_intros)

lemma copy_calls: "io_calls (copy_call src dst) (stack_buffer_copy (file_read_buf src) (file_write dst) fuel len)"
  by (rule stack_buffer_copy_calls)
     (auto simp: file_read_buf_def file_read_def file_write_def copy_call_def Let_def split: prod.split intro!: calls_intros)

section \<open>Which paths a removal touches\<close>

text \<open>
  What the C glue promises of a listing: a name is one step down. It is not empty and has no
  separator, as names on AROS do not, and \<open>.\<close> and \<open>..\<close> are not listed (\<open>std::fs::read_dir\<close> documents that
  they are skipped; nothing in \<open>sys/fs/aros.rs\<close> or \<open>sys/fs/common.rs\<close> skips them).
\<close>

definition proper_name :: "bytes \<Rightarrow> bool" where
  "proper_name n \<longleftrightarrow> n \<notin> {[], [DOT], [DOT, DOT]} \<and> SLASH \<notin> set n \<and> COLON \<notin> set n"

definition listed_name :: "reply \<Rightarrow> bytes" where
  "listed_name r = (let buf = overwrite (replicate 1024 0) (r_data r)
     in take (case position (\<lambda>b. b = 0) buf of Some i \<Rightarrow> i | None \<Rightarrow> length buf) buf)"

definition entry_names_ok :: "(trace \<Rightarrow> call \<Rightarrow> reply) \<Rightarrow> bool" where
  "entry_names_ok orc \<longleftrightarrow> (\<forall>t d. r_ret (orc t (FsC (C_readdir d 1024))) = 1
     \<longrightarrow> proper_name (listed_name (orc t (FsC (C_readdir d 1024)))))"

text \<open>
  A C string is below a path when AROS walks it through the place the path names: the same device, the
  same steps, and then only steps down.
\<close>

definition below :: "path \<Rightarrow> bytes \<Rightarrow> bool" where
  "below p x \<longleftrightarrow> (\<exists>cp ns. cstr p = Inr cp \<and> list_all proper_name ns
     \<and> aros_walk x = (fst (aros_walk cp), snd (aros_walk cp) @ map Down ns))"

text \<open>The calls of a removal: it looks, lists, unlinks and removes directories below its argument.\<close>

definition removal_call :: "path \<Rightarrow> call \<Rightarrow> bool" where
  "removal_call p c \<longleftrightarrow> (case c of
      FsC (C_unlink x) \<Rightarrow> below p x
    | FsC (C_rmdir x) \<Rightarrow> below p x
    | FsC (C_opendir x) \<Rightarrow> below p x
    | FsC (C_readdir d n) \<Rightarrow> True
    | FsC (C_closedir d) \<Rightarrow> True
    | AttrC (C_stat x) \<Rightarrow> below p x
    | AttrC (C_lstat x) \<Rightarrow> cstr p = Inr x
    | ErrnoC _ \<Rightarrow> True
    | _ \<Rightarrow> False)"

text \<open>Joining a proper name is one step down.\<close>

lemma proper_name_join:
  assumes "proper_name n"
  shows "path_join q n = (if q = [] then n else if last q = SLASH then q @ n else q @ SLASH # n)"
    "path_components n = [Normal n]" "body_comps n = [Normal n]" "\<not> is_absolute n"
proof -
  have n: "n \<noteq> []" "SLASH \<notin> set n" "COLON \<notin> set n" "n \<noteq> [DOT]" "n \<noteq> [DOT, DOT]"
    using assms by (auto simp: proper_name_def)
  then have nr: "\<not> physical_root n" by (metis hd_in_set is_sep_byte_def physical_root_def)
  with n(3) show abs: "\<not> is_absolute n" using no_colon_relative by blast
  then show "path_join q n = (if q = [] then n else if last q = SLASH then q @ n else q @ SLASH # n)"
    by (auto simp: path_join_def path_push_def is_sep_byte_def is_absolute_def)
  show b: "body_comps n = [Normal n]"
    using n by (simp add: body_comps_no_sep parse_single_component_def)
  have "take 2 n \<noteq> [DOT, SLASH]" using n(2) by (metis in_set_takeD list.set_intros)
  then have "\<not> starts_cur n" using n(4) by (auto simp: starts_cur_def)
  with nr b show "path_components n = [Normal n]" by (simp add: path_components_def)
qed

lemma body_comps_join:
  assumes "proper_name n"
  shows "body_comps (if r = [] then SLASH # n else if last r = SLASH then r @ n else r @ SLASH # n)
    = body_comps r @ [Normal n]"
proof -
  have e: "body_comps (SLASH # n) = [Normal n]" "body_comps [] = []"
    using body_comps_append [of "[]" n] proper_name_join(3) [OF assms] by simp_all
  show ?thesis
  proof (cases "r \<noteq> [] \<and> last r = SLASH")
    case True
    then obtain x where x: "r = x @ [SLASH]" by (metis append_butlast_last_id)
    show ?thesis
      using body_comps_append [of x n] body_comps_append [of x "[]"] proper_name_join(3) [OF assms]
      by (simp add: x e)
  next
    case False
    then show ?thesis
      using e body_comps_append [of r n] proper_name_join(3) [OF assms] by auto
  qed
qed

lemma map_filter_step_snoc:
  "List.map_filter component_step (cs @ [Normal n]) = List.map_filter component_step cs @ [Down n]"
  by (simp add: List.map_filter_def)

lemma colon_walk_join:
  assumes n: "proper_name n"
  shows "colon_walk (path_join q n) = (fst (colon_walk q), snd (colon_walk q) @ [Down n])"
proof (cases "position (\<lambda>b. b = COLON) q")
  case None
  have "COLON \<notin> set (path_join q n)"
    using None n by (auto simp: proper_name_join(1) [OF n] proper_name_def)
  then have p: "position (\<lambda>b. b = COLON) (path_join q n) = None" by auto
  have "List.map_filter component_step (path_components (path_join q n))
      = List.map_filter component_step (path_components q) @ [Down n]"
  proof (cases "q = []")
    case True
    have "path_components [] = []" by (simp add: path_components_def physical_root_def starts_cur_def)
    with True show ?thesis
      using map_filter_step_snoc [of "[]" n] proper_name_join(2) [OF n]
      by (simp add: proper_name_join(1) [OF n] List.map_filter_def)
  qed (simp add: join_components [OF proper_name_join(4) [OF n]] proper_name_join(2) [OF n] map_filter_step_snoc)
  with None p show ?thesis by (simp add: colon_walk_def del: position_None)
next
  case (Some i)
  define u r where "u = take i q" and "r = drop (i + 1) q"
  have i: "i < length q" "q ! i = COLON" "\<forall>x\<in>set u. x \<noteq> COLON"
    using position_SomeD [OF Some] by (auto simp: u_def)
  then have q: "q = u @ COLON # r" using id_take_nth_drop [of i q] by (simp add: u_def r_def)
  have len: "length u = i" using i(1) by (simp add: u_def)
  let ?r = "if r = [] then SLASH # n else if last r = SLASH then r @ n else r @ SLASH # n"
  have j: "path_join q n = u @ COLON # ?r" by (simp add: proper_name_join(1) [OF n] q)
  have "position (\<lambda>b. b = COLON) (path_join q n) = Some i"
    unfolding j using i(3) len position_first [of u "\<lambda>b. b = COLON" COLON] by simp
  moreover have "drop (i + 1) (path_join q n) = ?r" "take i (path_join q n) = u"
    unfolding j using len by simp_all
  ultimately show ?thesis
    using Some body_comps_join [OF n, of r]
    by (simp add: colon_walk_def u_def r_def map_filter_step_snoc)
qed

text \<open>The paths reached from \<open>p\<close> by joining proper names; their C strings are below \<open>p\<close>.\<close>

inductive in_tree :: "path \<Rightarrow> path \<Rightarrow> bool" for p where
  in_tree_root: "in_tree p p"
| in_tree_child: "in_tree p q \<Longrightarrow> proper_name n \<Longrightarrow> in_tree p (path_join q n)"

lemma in_tree_walk:
  "in_tree p q \<Longrightarrow> set p \<subseteq> set q \<and> (\<exists>ns. list_all proper_name ns
     \<and> colon_walk q = (fst (colon_walk p), snd (colon_walk p) @ map Down ns))"
proof (induction rule: in_tree.induct)
  case in_tree_root
  show ?case by (auto intro!: exI [of _ "[]"])
next
  case (in_tree_child q n)
  then obtain ns where ns: "list_all proper_name ns"
    "colon_walk q = (fst (colon_walk p), snd (colon_walk p) @ map Down ns)" by blast
  have "colon_walk (path_join q n) = (fst (colon_walk p), snd (colon_walk p) @ map Down (ns @ [n]))"
    using colon_walk_join [OF in_tree_child.hyps(2), of q] ns(2) by simp
  moreover have "set q \<subseteq> set (path_join q n)" by (auto simp: proper_name_join(1) [OF in_tree_child.hyps(2)])
  ultimately show ?case
    using in_tree_child ns(1) by (intro conjI exI [of _ "ns @ [n]"]) auto
qed

lemma in_tree_below:
  assumes "in_tree p q" "cstr q = Inr x"
  shows "below p x"
proof -
  obtain ns where ns: "list_all proper_name ns" "set p \<subseteq> set q"
    "colon_walk q = (fst (colon_walk p), snd (colon_walk p) @ map Down ns)"
    using in_tree_walk [OF assms(1)] by blast
  have "0 \<notin> set p" using ns(2) assms(2) cstr_Inl [of q "Simple InvalidInput"] by auto
  then obtain cp where "cstr p = Inr cp" using cstr_Inl [of p] by (cases "cstr p") auto
  with ns cstr_walk [OF assms(2)] cstr_walk [of p cp] show ?thesis unfolding below_def by auto
qed

text \<open>
  Calls under the promise on names: \<open>io_safe P m\<close> says that from a state whose oracle keeps it, every
  call of \<open>m\<close> satisfies \<open>P\<close>. One rule for each way of combining actions.
\<close>

definition io_safe :: "(call \<Rightarrow> bool) \<Rightarrow> 'a io \<Rightarrow> bool" where
  "io_safe P m \<longleftrightarrow> (\<forall>s. entry_names_ok (os_oracle s) \<longrightarrow> os_oracle (snd (m s)) = os_oracle s
     \<and> (\<exists>t. os_trace (snd (m s)) = os_trace s @ t \<and> list_all (\<lambda>x. P (fst x)) t))"

lemma io_safe_lift: "io_calls P m \<Longrightarrow> io_ext m \<Longrightarrow> io_safe P m"
  by (simp add: io_safe_def io_calls_def io_ext_def)

lemma io_safe_bind_run:
  assumes m: "io_safe P m"
    and k: "\<And>x s s'. entry_names_ok (os_oracle s) \<Longrightarrow> m s = (Ok x, s') \<Longrightarrow> io_safe P (k x)"
  shows "io_safe P (io_bind m k)"
  unfolding io_safe_def
proof (intro allI impI)
  fix s :: os assume o: "entry_names_ok (os_oracle s)"
  obtain r s1 where ms: "m s = (r, s1)" by (cases "m s")
  from m o ms obtain t where t: "os_oracle s1 = os_oracle s" "os_trace s1 = os_trace s @ t" "list_all (\<lambda>x. P (fst x)) t"
    unfolding io_safe_def by (metis snd_conv)
  show "os_oracle (snd (io_bind m k s)) = os_oracle s
    \<and> (\<exists>t. os_trace (snd (io_bind m k s)) = os_trace s @ t \<and> list_all (\<lambda>x. P (fst x)) t)"
  proof (cases r)
    case (Ok x)
    with k [OF o] ms o t(1) obtain u where "os_oracle (snd (k x s1)) = os_oracle s1"
      "os_trace (snd (k x s1)) = os_trace s1 @ u" "list_all (\<lambda>x. P (fst x)) u"
      unfolding io_safe_def by metis
    with t ms Ok show ?thesis by (simp add: io_bind_def)
  qed (use t ms in \<open>auto simp: io_bind_def\<close>)
qed

lemma io_safe_bind: "io_safe P m \<Longrightarrow> (\<And>x. io_safe P (k x)) \<Longrightarrow> io_safe P (io_bind m k)"
  by (rule io_safe_bind_run)

lemma io_safe_return: "io_safe P (io_return x)"
  and io_safe_fail: "io_safe P (io_fail e)"
  and io_safe_hang: "io_safe P io_hang"
  by (simp_all add: io_safe_def)

lemma io_safe_of: "io_safe P (io_of r)"
  by (cases r) (simp_all add: io_safe_return io_safe_fail)

lemma io_safe_attempt: "io_safe P m \<Longrightarrow> io_safe P (io_attempt m)"
  unfolding io_safe_def io_attempt_def by (auto split: prod.splits outcome.splits)

lemma io_safe_finally: "io_safe P m \<Longrightarrow> io_safe P d \<Longrightarrow> io_safe P (io_finally m d)"
  unfolding io_finally_def by (intro io_safe_bind io_safe_attempt io_safe_of)

lemma io_safe_if: "(c \<Longrightarrow> io_safe P a) \<Longrightarrow> (\<not> c \<Longrightarrow> io_safe P b) \<Longrightarrow> io_safe P (if c then a else b)"
  by simp

lemmas safe_intros = io_safe_bind io_safe_return io_safe_fail io_safe_hang io_safe_of io_safe_attempt
  io_safe_finally io_safe_if

lemma ignore_notfound_safe: "io_safe P m \<Longrightarrow> io_safe P (ignore_notfound m)"
  unfolding ignore_notfound_def by (auto intro!: safe_intros split: sum.split)

lemma with_cstr_calls:
  "(\<And>x. cstr q = Inr x \<Longrightarrow> io_calls P (k x)) \<Longrightarrow> io_calls P (with_cstr q k)"
  unfolding with_cstr_def by (cases "cstr q") (auto intro: calls_intros)

lemma removal_ops:
  assumes "in_tree p q"
  shows "io_safe (removal_call p) (fs_unlink q)" "io_safe (removal_call p) (fs_rmdir q)"
    "io_safe (removal_call p) (fs_readdir q)" "io_safe (removal_call p) (fs_stat q)"
    "io_safe (removal_call p) (fs_lstat p)"
  using in_tree_below [OF assms]
  unfolding fs_unlink_def fs_rmdir_def fs_readdir_def fs_stat_def fs_lstat_def sys_unit_def
  by (auto intro!: io_safe_lift with_cstr_calls calls_intros ext_intros simp: removal_call_def)

lemma removal_items:
  "io_safe (removal_call p) (read_dir_next rd)" "io_safe (removal_call p) (read_dir_drop rd)"
  unfolding read_dir_next_def read_dir_drop_def Let_def
  by (auto intro!: io_safe_lift calls_intros ext_intros simp: removal_call_def)

lemma entry_file_type_safe:
  "in_tree p (entry_path e) \<Longrightarrow> io_safe (removal_call p) (entry_file_type e)"
  unfolding entry_file_type_def entry_metadata_def
  by (auto intro!: safe_intros removal_ops(4))

lemma read_dir_next_entry:
  assumes "read_dir_next rd s = (Ok (Some (Inr e)), s')" "entry_names_ok (os_oracle s)"
  shows "de_root e = rd_root rd \<and> proper_name (de_name e)"
proof -
  let ?r = "reply_of s (FsC (C_readdir (rd_dir rd) 1024))"
  have r: "r_ret ?r = 1" "de_root e = rd_root rd" "de_name e = listed_name ?r"
    using assms(1) by (auto simp: read_dir_next_def listed_name_def Let_def bind_sys_after
        split: if_splits elim!: io_bind_OkE)
  with assms(2) have "proper_name (listed_name ?r)" unfolding entry_names_ok_def reply_of_def by blast
  with r show ?thesis by simp
qed

lemma removal_calls:
  "in_tree p q \<Longrightarrow> io_safe (removal_call p) (remove_dir_all_recursive fuel q)"
  "in_tree p (rd_root rd) \<Longrightarrow> io_safe (removal_call p) (remove_children fuel rd)"
proof (induction fuel q and fuel rd rule: remove_dir_all_recursive_remove_children.induct)
  case (2 fuel q)
  have "rd_root rd = q" if "fs_readdir q s = (Ok rd, s')" for rd s s'
    using that by (auto simp: fs_readdir_def with_cstr_def bind_sys_after split: if_splits elim!: io_bind_OkE)
  then have k: "fs_readdir q s = (Ok rd, s') \<Longrightarrow> io_safe (removal_call p) (remove_children fuel rd)" for rd s s'
    using 2 by auto
  show ?case
    unfolding remove_dir_all_recursive.simps
    by (rule io_safe_bind_run [OF removal_ops(3) [OF 2(2)]])
       (intro safe_intros ignore_notfound_safe removal_ops(2) [OF 2(2)] removal_items k)
next
  case (4 fuel rd)
  have body: "io_safe (removal_call p) (io_bind (entry_file_type e) (\<lambda>ft.
      if is_dir ft then remove_dir_all_recursive fuel (entry_path e) else fs_unlink (entry_path e)))"
    if "de_root e = rd_root rd \<and> proper_name (de_name e)" for e
  proof -
    have e: "in_tree p (entry_path e)" using 4(4) that by (simp add: entry_path_def in_tree_child)
    show ?thesis using 4(1) e
      by (intro safe_intros entry_file_type_safe removal_ops(1)) auto
  qed
  have rest: "io_safe (removal_call p) (case result of
        Inl err \<Rightarrow> if error_kind_of err \<noteq> NotFound then io_fail err else remove_children fuel rd
      | Inr _ \<Rightarrow> remove_children fuel rd)" for result :: "io_error + unit"
    using 4(3) [OF 4(4)] by (auto intro!: safe_intros split: sum.split)
  have item: "io_safe (removal_call p) (case c of None \<Rightarrow> io_return () | Some child_result \<Rightarrow>
      io_bind (io_attempt (io_bind (io_of child_result) (\<lambda>child. io_bind (entry_file_type child) (\<lambda>ft.
        if is_dir ft then remove_dir_all_recursive fuel (entry_path child) else fs_unlink (entry_path child)))))
      (\<lambda>result. case result of
          Inl err \<Rightarrow> if error_kind_of err \<noteq> NotFound then io_fail err else remove_children fuel rd
        | Inr _ \<Rightarrow> remove_children fuel rd))"
    if run: "entry_names_ok (os_oracle s)" "read_dir_next rd s = (Ok c, s')" for c s s'
  proof (cases c)
    case (Some r)
    show ?thesis
    proof (cases r)
      case (Inr e)
      with Some run have "de_root e = rd_root rd \<and> proper_name (de_name e)" using read_dir_next_entry by blast
      with Some Inr show ?thesis by (simp, intro safe_intros body rest)
    next
      case (Inl e)
      with Some rest [of "Inl e"] show ?thesis by simp
    qed
  qed (simp add: safe_intros)
  show ?case
    unfolding remove_children.simps by (rule io_safe_bind_run [OF removal_items(1) item])
qed (simp_all add: safe_intros)

text \<open>The operations, run on a path that translates.\<close>

lemma fs_lstat_run: "cstr p = Inr c \<Longrightarrow> r_ret (reply_of s (AttrC (C_lstat c))) = 0 \<Longrightarrow>
    fs_lstat p s = (Ok (attr_from_raw (reply_of s (AttrC (C_lstat c)))), after s (AttrC (C_lstat c)))"
  and fs_stat_run: "cstr p = Inr c \<Longrightarrow> r_ret (reply_of s (AttrC (C_stat c))) = 0 \<Longrightarrow>
    fs_stat p s = (Ok (attr_from_raw (reply_of s (AttrC (C_stat c)))), after s (AttrC (C_stat c)))"
  and fs_readdir_run: "cstr p = Inr c \<Longrightarrow> r_ret (reply_of s (FsC (C_opendir c))) \<noteq> 0 \<Longrightarrow>
    fs_readdir p s = (Ok \<lparr>rd_dir = r_ret (reply_of s (FsC (C_opendir c))), rd_root = p\<rparr>, after s (FsC (C_opendir c)))"
  and fs_unlink_run: "cstr p = Inr c \<Longrightarrow> r_ret (reply_of s (FsC (C_unlink c))) = 0 \<Longrightarrow>
    fs_unlink p s = (Ok (), after s (FsC (C_unlink c)))"
  and fs_rmdir_run: "cstr p = Inr c \<Longrightarrow> r_ret (reply_of s (FsC (C_rmdir c))) = 0 \<Longrightarrow>
    fs_rmdir p s = (Ok (), after s (FsC (C_rmdir c)))"
  by (simp_all add: fs_lstat_def fs_stat_def fs_readdir_def fs_unlink_def fs_rmdir_def sys_unit_def with_cstr_def
      bind_sys_after)

lemma read_dir_end: "r_ret (reply_of s (FsC (C_readdir (rd_dir rd) 1024))) = 0 \<Longrightarrow>
    read_dir_next rd s = (Ok None, after s (FsC (C_readdir (rd_dir rd) 1024)))"
  by (simp add: read_dir_next_def bind_sys_after Let_def)

lemma read_dir_drop_run: "read_dir_drop rd s = (Ok (), after s (FsC (C_closedir (rd_dir rd))))"
  by (simp add: read_dir_drop_def bind_sys_after)

lemmas path_runs = fs_lstat_run fs_stat_run fs_readdir_run fs_unlink_run fs_rmdir_run read_dir_end read_dir_drop_run

lemma listed_name_eq:
  assumes "0 \<notin> set xs" "length xs < 1024" "r_data r = xs @ [0]"
  shows "listed_name r = xs"
proof -
  have "overwrite (replicate 1024 0) (xs @ [0]) = xs @ 0 # replicate (1023 - length xs) 0"
    using assms(2) by (simp add: overwrite_def)
  moreover have "position (\<lambda>b. b = 0) (xs @ 0 # replicate (1023 - length xs) 0) = Some (length xs)"
    using assms(1) position_first [of xs "\<lambda>b. b = 0" 0] by auto
  ultimately show ?thesis using assms(3) by (simp add: listed_name_def Let_def)
qed



section \<open>Passing through a state\<close>

text \<open>\<open>io_passes m s s'\<close>: run from \<open>s\<close>, the action \<open>m\<close> makes at least the calls recorded in \<open>s'\<close>.\<close>

definition io_passes :: "'a io \<Rightarrow> os \<Rightarrow> os \<Rightarrow> bool" where
  "io_passes m s s' \<longleftrightarrow> (\<exists>t. os_trace (snd (m s)) = os_trace s' @ t)"

lemma passes_end: "m s = (r, s') \<Longrightarrow> io_passes m s s'"
  by (simp add: io_passes_def)









text \<open>Two descriptors, a file of three bytes.\<close>

definition copy_oracle :: "trace \<Rightarrow> call \<Rightarrow> reply" where
  "copy_oracle t c = (case c of
       FsC (C_open p f m) \<Rightarrow> ret (if f = O_RDONLY then 3 else 4)
     | AttrC (C_fstat fd) \<Rightarrow> ret_outs 0 [3, 0x81A4]
     | _ \<Rightarrow> serve_oracle 3 [1, 2, 3] t c)"

lemma copy_oracle_world: "copy_world [97] [98] 3 4 [1, 2, 3] 0x81A4 copy_oracle"
  using serve_oracle_serves(2) [of 3 "[1, 2, 3]"] serve_oracle_serves(3) [of 4 3 "[1, 2, 3]"]
  by (simp add: copy_world_def copy_oracle_def file_serves_def file_accepts_def is_file_def S_IFMT_def S_IFREG_def
      out_param_def O_RDONLY_def O_WRONLY_def O_CREAT_def O_TRUNC_def serve_oracle_def)

section \<open>Properties\<close>

text \<open>
  C33: \<open>copy\<close> moves the whole file. Between a regular file that serves its contents in pieces of any size
  and a target that takes writes of any size, it returns the length of the contents, the target has been
  sent exactly those bytes, and then, and only then, it is given the twelve permission bits of the source;
  both descriptors are closed, the target first.
\<close>

theorem copy_exact:
  assumes w: "copy_world cp cq src dst data mode orc" and "cstr p = Inr cp" "cstr q = Inr cq"
    and fuel: "Suc (length data) < fuel"
  shows "\<exists>(t :: trace) s'. fs_copy fuel p q (boot orc) = (Ok (of_nat (length data)), s')
    \<and> fd_sent dst (os_trace s') = data \<and> list_all (\<lambda>x. copy_call src dst (fst x)) t
    \<and> map fst (os_trace s') =
      [FsC (C_open cp O_RDONLY 0x1B6), AttrC (C_fstat src), FsC (C_open cq (O_WRONLY OR O_CREAT OR O_TRUNC) 0x1B6)]
      @ map fst t @ [AttrC (C_fchmod dst (ucast (mode AND 0xFFF))), FsC (C_close dst), FsC (C_close src)]"
proof -
  define s1 where "s1 = after (boot orc) (FsC (C_open cp O_RDONLY 0x1B6))"
  define s2 where "s2 = after s1 (AttrC (C_fstat src))"
  define s3 where "s3 = after s2 (FsC (C_open cq (O_WRONLY OR O_CREAT OR O_TRUNC) 0x1B6))"
  have o: "os_oracle s1 = orc" "os_oracle s2 = orc" "os_oracle s3 = orc" by (simp_all add: s1_def s2_def s3_def)
  have fresh: "fd_got src (os_trace s3) = []" "fd_sent dst (os_trace s3) = []"
    by (simp_all add: s1_def s2_def s3_def stream_simps)
  have r: "File_open p (boot orc) = (Ok src, s1)" "File_create q s2 = (Ok dst, s3)"
    using w assms(2,3) o
    by (auto simp: File_open_def File_create_def file_open_def with_cstr_def copy_flags bind_sys_after
        copy_world_def reply_of_def s1_def s3_def)
  obtain a where a: "file_attr_of src s1 = (Ok a, s2)" "fa_mode a = mode"
    using w o by (auto simp: file_attr_of_def bind_sys_after copy_world_def reply_of_def s2_def attr_from_raw_def)
  obtain s4 where c: "stack_buffer_copy (file_read_buf src) (file_write dst) fuel 0 s3 = (Ok (of_nat (length data)), s4)"
    "os_oracle s4 = orc" "fd_sent dst (os_trace s4) = data"
    using file_copying.copy_served [where src = src and dst = dst and data = data and s = s3 and fuel = fuel and len = 0] w fuel by (auto simp: fresh o copy_world_def)
  obtain t where t: "os_trace s4 = os_trace s3 @ t" "list_all (\<lambda>x. copy_call src dst (fst x)) t"
    using io_callsE [OF copy_calls c(1)] .
  define s5 where "s5 = after s4 (AttrC (C_fchmod dst (ucast (mode AND 0xFFF))))"
  have m: "file_set_permissions dst (attr_perm a) s4 = (Ok (), s5)"
    using w c(2) a(2) by (simp add: file_set_permissions_def sys_unit_def bind_sys_after copy_world_def reply_of_def
        attr_perm_def s5_def)
  have d: "file_drop fd s = (Ok (), after s (FsC (C_close fd)))" for fd s
    by (simp add: file_drop_def bind_sys_after)
  have "is_file (attr_file_type a)" using w a(2) by (simp add: copy_world_def attr_file_type_def)
  then have "fs_copy fuel p q (boot orc) =
      (Ok (of_nat (length data)), after (after s5 (FsC (C_close dst))) (FsC (C_close src)))"
    by (simp add: fs_copy_def io_bind_def r a(1) io_finally_def io_attempt_def c(1) m d Let_def)
  moreover have "fd_sent dst (os_trace (after (after s5 (FsC (C_close dst))) (FsC (C_close src)))) = data"
    by (simp add: s5_def c(3) stream_simps)
  moreover have "map fst (os_trace (after (after s5 (FsC (C_close dst))) (FsC (C_close src)))) =
      [FsC (C_open cp O_RDONLY 0x1B6), AttrC (C_fstat src), FsC (C_open cq (O_WRONLY OR O_CREAT OR O_TRUNC) 0x1B6)]
      @ map fst t @ [AttrC (C_fchmod dst (ucast (mode AND 0xFFF))), FsC (C_close dst), FsC (C_close src)]"
    by (simp add: t(1) s5_def s3_def s2_def s1_def)
  ultimately show ?thesis using t(2) by blast
qed

theorem copy_exact_witness:
  "\<exists>s'. fs_copy 5 [97] [98] (boot copy_oracle) = (Ok 3, s') \<and> fd_sent 4 (os_trace s') = [1, 2, 3]"
proof -
  have "cstr [97] = Inr [97]" "cstr [98] = Inr [98]" by code_simp+
  from copy_exact [OF copy_oracle_world this, of 5] show ?thesis by (auto simp: numeral_3_eq_3)
qed


text \<open>What \<open>below\<close> lets through, and what it does not.\<close>

lemma below_examples:
  "below (ascii ''d'') (ascii ''d/l/x'')" "\<not> below (ascii ''d'') (ascii ''SYS:C'')"
  "\<not> below (ascii ''d'') (ascii ''/etc/x'')" "\<not> below (ascii ''d'') (ascii ''d//x'')"
proof -
  have d: "cstr (ascii ''d'') = Inr (ascii ''d'')" "aros_walk (ascii ''d'') = (None, [Down (ascii ''d'')])"
    by code_simp+
  have w: "aros_walk (ascii ''d/l/x'') = (None, map Down [ascii ''d'', ascii ''l'', ascii ''x''])"
    "fst (aros_walk (ascii ''SYS:C'')) = Some (ascii ''SYS'')"
    "snd (aros_walk (ascii ''/etc/x'')) = Up # map Down [ascii ''etc'', ascii ''x'']"
    "snd (aros_walk (ascii ''d//x'')) = [Down (ascii ''d''), Up, Down (ascii ''x'')]"
    by code_simp+
  have "proper_name (ascii ''l'')" "proper_name (ascii ''x'')" by code_simp+
  then show "below (ascii ''d'') (ascii ''d/l/x'')"
    using d w(1) by (auto simp: below_def intro!: exI [of _ "[ascii ''l'', ascii ''x'']"])
  show "\<not> below (ascii ''d'') (ascii ''SYS:C'')" using d w(2) by (auto simp: below_def)
  show "\<not> below (ascii ''d'') (ascii ''/etc/x'')" using d w(3) by (auto simp: below_def)
  show "\<not> below (ascii ''d'') (ascii ''d//x'')" using d w(4) by (auto simp: below_def)
qed

text \<open>
  C34: \<open>remove_dir_all\<close> stays below its argument, whatever the operating system answers, as long as the
  names it lists are proper ones (\<open>entry_names_ok\<close>). Every path it opens, unlinks, removes or asks for
  attributes is one that AROS walks through the place its argument names and then only downwards: not to
  another device, not up, not to a sibling. It calls nothing else: no file is created, written, renamed or
  given permissions. (A step down may be a symbolic link; see the next property.)
\<close>

theorem remove_dir_all_scope:
  assumes "entry_names_ok (os_oracle s)"
  shows "\<exists>t. os_trace (snd (remove_dir_all fuel p s)) = os_trace s @ t
    \<and> list_all (\<lambda>x. removal_call p (fst x)) t"
proof -
  have "io_safe (removal_call p) (remove_dir_all fuel p)"
    unfolding remove_dir_all_def
    by (intro safe_intros removal_ops(1) removal_ops(5) [OF in_tree_root] removal_calls in_tree_root)
  with assms show ?thesis unfolding io_safe_def by blast
qed

text \<open>
  A tree \<open>d\<close> with one entry \<open>l\<close>, a symbolic link to a directory outside that holds \<open>x\<close>; the listing does
  not know the type of \<open>l\<close>. The answers to the listings go by the number of calls made.
\<close>

definition link_world :: "trace \<Rightarrow> call \<Rightarrow> reply" where
  "link_world t c = (case c of
       AttrC (C_lstat x) \<Rightarrow> ret_outs 0 [0, if x = [100, 47, 108] then 0xA1FF else 0x41FF]
     | AttrC (C_stat x) \<Rightarrow> ret_outs 0 [0, 0x41FF]
     | FsC (C_opendir x) \<Rightarrow> ret (if x = [100] then 1 else 2)
     | FsC (C_readdir k n) \<Rightarrow>
         if length t = 2 then \<lparr>r_ret = 1, r_data = [108, 0], r_outs = [0], r_pairs = []\<rparr>
         else if length t = 5 then \<lparr>r_ret = 1, r_data = [120, 0], r_outs = [8], r_pairs = []\<rparr>
         else ret 0
     | _ \<Rightarrow> ret 0)"

lemma link_world_names:
  "listed_name \<lparr>r_ret = 1, r_data = [108, 0], r_outs = [0], r_pairs = []\<rparr> = [108]"
  "listed_name \<lparr>r_ret = 1, r_data = [120, 0], r_outs = [8], r_pairs = []\<rparr> = [120]"
  by (rule listed_name_eq; simp)+

lemma link_world_names_ok: "entry_names_ok link_world"
  by (simp add: entry_names_ok_def link_world_def link_world_names proper_name_def)

theorem remove_dir_all_scope_witness:
  "\<exists>t. os_trace (snd (remove_dir_all 7 [100] (boot link_world))) = t
    \<and> list_all (\<lambda>x. removal_call [100] (fst x)) t"
  using remove_dir_all_scope [of "boot link_world" 7 "[100]"] link_world_names_ok by simp



end
