(* ===== verification/Alloc_Aros.thy ===== *)
theory Alloc_Aros
  imports Prelude
begin

text \<open>
  The system allocator \<open>sys/alloc/aros.rs\<close> with \<open>realloc_fallback\<close> of \<open>sys/alloc/mod.rs\<close>. The C
  allocator is a parameter: five functions on the heap. The heap records for every live block its
  bytes and which family of functions it came from, because AROS' \<open>realloc\<close> may only be given a
  block of the first family. What the code relies on is \<open>c_alloc_ok\<close>; it says nothing about
  \<open>realloc\<close> on a block of \<open>posix_memalign\<close>. Raw memory operations outside a live block are
  undefined behaviour, the value \<open>None\<close>.
\<close>

section \<open>The heap and the C allocator\<close>

datatype block_kind = Malloced | Memaligned

record block =
  b_kind :: block_kind
  b_bytes :: bytes

type_synonym heap = "u64 \<Rightarrow> block option"

record c_alloc =
  c_malloc :: "u64 \<Rightarrow> heap \<Rightarrow> u64 \<times> heap"
  c_calloc :: "u64 \<Rightarrow> u64 \<Rightarrow> heap \<Rightarrow> u64 \<times> heap"
  c_realloc :: "u64 \<Rightarrow> u64 \<Rightarrow> heap \<Rightarrow> u64 \<times> heap"
  c_free :: "u64 \<Rightarrow> heap \<Rightarrow> heap"
  c_memalign :: "u64 \<Rightarrow> u64 \<Rightarrow> heap \<Rightarrow> int \<times> u64 \<times> heap"

text \<open>A fresh block of \<open>n\<close> bytes at \<open>p\<close>, aligned to \<open>a\<close>.\<close>

definition fresh_block :: "block_kind \<Rightarrow> nat \<Rightarrow> nat \<Rightarrow> heap \<Rightarrow> u64 \<Rightarrow> bytes \<Rightarrow> heap \<Rightarrow> bool" where
  "fresh_block k n a h p bs h' \<longleftrightarrow> p \<noteq> 0 \<and> h p = None \<and> length bs = n \<and> unat p mod a = 0
     \<and> h' = h(p \<mapsto> \<lparr>b_kind = k, b_bytes = bs\<rparr>)"

definition malloc_ok :: "c_alloc \<Rightarrow> bool" where
  "malloc_ok C \<longleftrightarrow> (\<forall>n h p h'. c_malloc C n h = (p, h') \<longrightarrow>
     (if p = 0 then h' = h else \<exists>bs. fresh_block Malloced (unat n) 16 h p bs h'))"

definition calloc_ok :: "c_alloc \<Rightarrow> bool" where
  "calloc_ok C \<longleftrightarrow> (\<forall>n h p h'. c_calloc C n 1 h = (p, h') \<longrightarrow>
     (if p = 0 then h' = h else fresh_block Malloced (unat n) 16 h p (replicate (unat n) 0) h'))"

definition memalign_ok :: "c_alloc \<Rightarrow> bool" where
  "memalign_ok C \<longleftrightarrow> (\<forall>a n h r p h'. c_memalign C a n h = (r, p, h') \<longrightarrow>
     8 \<le> unat a \<longrightarrow> (\<exists>k. unat a = 2 ^ k) \<longrightarrow>
     (if r \<noteq> 0 then h' = h else \<exists>bs. fresh_block Memaligned (unat n) (unat a) h p bs h'))"

definition realloc_ok :: "c_alloc \<Rightarrow> bool" where
  "realloc_ok C \<longleftrightarrow> (\<forall>p n h q h' bs. c_realloc C p n h = (q, h') \<longrightarrow>
     h p = Some \<lparr>b_kind = Malloced, b_bytes = bs\<rparr> \<longrightarrow> n \<noteq> 0 \<longrightarrow>
     (if q = 0 then h' = h
      else \<exists>bs'. fresh_block Malloced (unat n) 16 (h(p := None)) q bs' h'
        \<and> take (min (unat n) (length bs)) bs' = take (min (unat n) (length bs)) bs))"

definition free_ok :: "c_alloc \<Rightarrow> bool" where
  "free_ok C \<longleftrightarrow> (\<forall>p h. h p \<noteq> None \<longrightarrow> c_free C p h = h(p := None))"

definition c_alloc_ok :: "c_alloc \<Rightarrow> bool" where
  "c_alloc_ok C \<longleftrightarrow> malloc_ok C \<and> calloc_ok C \<and> memalign_ok C \<and> realloc_ok C \<and> free_ok C"

lemma malloc_okE:
  assumes "c_alloc_ok C" "c_malloc C n h = (p, h')"
  obtains "p = 0" "h' = h" | bs where "fresh_block Malloced (unat n) 16 h p bs h'"
  using assms unfolding c_alloc_ok_def malloc_ok_def by meson

lemma calloc_okE:
  assumes "c_alloc_ok C" "c_calloc C n 1 h = (p, h')"
  obtains "p = 0" "h' = h" | "fresh_block Malloced (unat n) 16 h p (replicate (unat n) 0) h'"
  using assms unfolding c_alloc_ok_def calloc_ok_def by meson

lemma memalign_okE:
  assumes "c_alloc_ok C" "c_memalign C a n h = (r, p, h')" "8 \<le> unat a" "\<exists>k. unat a = 2 ^ k"
  obtains "r \<noteq> 0" "h' = h" | bs where "r = 0" "fresh_block Memaligned (unat n) (unat a) h p bs h'"
  using assms unfolding c_alloc_ok_def memalign_ok_def by meson

lemma realloc_okE:
  assumes "c_alloc_ok C" "c_realloc C p n h = (q, h')" "h p = Some \<lparr>b_kind = Malloced, b_bytes = bs\<rparr>"
    "n \<noteq> 0"
  obtains "q = 0" "h' = h"
    | bs' where "q \<noteq> 0" "fresh_block Malloced (unat n) 16 (h(p := None)) q bs' h'"
      "take (min (unat n) (length bs)) bs' = take (min (unat n) (length bs)) bs"
  using assms unfolding c_alloc_ok_def realloc_ok_def by meson

lemma free_okD: "c_alloc_ok C \<Longrightarrow> h p \<noteq> None \<Longrightarrow> c_free C p h = h(p := None)"
  by (simp add: c_alloc_ok_def free_ok_def)

section \<open>The allocator\<close>

record layout =
  l_size :: u64
  l_align :: u64

definition MIN_ALIGN :: u64 where "MIN_ALIGN = 16"

definition aligned_malloc :: "c_alloc \<Rightarrow> layout \<Rightarrow> heap \<Rightarrow> u64 \<times> heap" where
  "aligned_malloc C l h =
    (let align = max (l_align l) 8;
         (ret, out, h') = c_memalign C align (l_size l) h
     in if ret \<noteq> 0 then (0, h') else (out, h'))"

definition sys_alloc :: "c_alloc \<Rightarrow> layout \<Rightarrow> heap \<Rightarrow> u64 \<times> heap" where
  "sys_alloc C l h =
    (if l_align l \<le> MIN_ALIGN \<and> l_align l \<le> l_size l then c_malloc C (l_size l) h
     else aligned_malloc C l h)"

text \<open>\<open>ptr::write_bytes\<close> and \<open>ptr::copy_nonoverlapping\<close> on whole-block pointers.\<close>

definition write_bytes :: "u64 \<Rightarrow> u8 \<Rightarrow> nat \<Rightarrow> heap \<Rightarrow> heap option" where
  "write_bytes p v n h = (case h p of
      None \<Rightarrow> None
    | Some b \<Rightarrow> if n \<le> length (b_bytes b)
        then Some (h(p \<mapsto> b\<lparr>b_bytes := replicate n v @ drop n (b_bytes b)\<rparr>)) else None)"

definition copy_nonoverlapping :: "u64 \<Rightarrow> u64 \<Rightarrow> nat \<Rightarrow> heap \<Rightarrow> heap option" where
  "copy_nonoverlapping src dst n h = (case (h src, h dst) of
      (Some s, Some d) \<Rightarrow>
        if src \<noteq> dst \<and> n \<le> length (b_bytes s) \<and> n \<le> length (b_bytes d)
        then Some (h(dst \<mapsto> d\<lparr>b_bytes := take n (b_bytes s) @ drop n (b_bytes d)\<rparr>)) else None
    | _ \<Rightarrow> None)"

definition sys_alloc_zeroed :: "c_alloc \<Rightarrow> layout \<Rightarrow> heap \<Rightarrow> (u64 \<times> heap) option" where
  "sys_alloc_zeroed C l h =
    (if l_align l \<le> MIN_ALIGN \<and> l_align l \<le> l_size l then Some (c_calloc C (l_size l) 1 h)
     else (let (p, h1) = sys_alloc C l h
       in if p \<noteq> 0 then map_option (\<lambda>h2. (p, h2)) (write_bytes p 0 (unat (l_size l)) h1)
          else Some (p, h1)))"

definition sys_dealloc :: "c_alloc \<Rightarrow> u64 \<Rightarrow> layout \<Rightarrow> heap \<Rightarrow> heap" where
  "sys_dealloc C p l h = c_free C p h"

definition realloc_fallback :: "c_alloc \<Rightarrow> u64 \<Rightarrow> layout \<Rightarrow> u64 \<Rightarrow> heap \<Rightarrow> (u64 \<times> heap) option" where
  "realloc_fallback C p old_layout new_size h =
    (let new_layout = \<lparr>l_size = new_size, l_align = l_align old_layout\<rparr>;
         (new_ptr, h1) = sys_alloc C new_layout h
     in if new_ptr \<noteq> 0 then
          (let n = min (unat (l_size old_layout)) (unat new_size)
           in case copy_nonoverlapping p new_ptr n h1 of
                None \<Rightarrow> None
              | Some h2 \<Rightarrow> Some (new_ptr, sys_dealloc C p old_layout h2))
        else Some (new_ptr, h1))"

definition sys_realloc :: "c_alloc \<Rightarrow> u64 \<Rightarrow> layout \<Rightarrow> u64 \<Rightarrow> heap \<Rightarrow> (u64 \<times> heap) option" where
  "sys_realloc C p l new_size h =
    (if l_align l \<le> MIN_ALIGN \<and> l_align l \<le> l_size l then Some (c_realloc C p new_size h)
     else realloc_fallback C p l new_size h)"

section \<open>Ownership\<close>

definition layout_ok :: "layout \<Rightarrow> bool" where
  "layout_ok l \<longleftrightarrow> 0 < unat (l_size l) \<and> (\<exists>k. unat (l_align l) = 2 ^ k)"

definition fast_layout :: "layout \<Rightarrow> bool" where
  "fast_layout l \<longleftrightarrow> l_align l \<le> MIN_ALIGN \<and> l_align l \<le> l_size l"

text \<open>
  A pointer owned under a layout: a live block of the layout's size and alignment, and one that
  \<open>realloc\<close> may be given if the layout is on the fast path.
\<close>

definition owned :: "heap \<Rightarrow> u64 \<Rightarrow> layout \<Rightarrow> bytes \<Rightarrow> bool" where
  "owned h p l bs \<longleftrightarrow> p \<noteq> 0 \<and> unat p mod unat (l_align l) = 0 \<and> length bs = unat (l_size l)
     \<and> (\<exists>k. h p = Some \<lparr>b_kind = k, b_bytes = bs\<rparr> \<and> (fast_layout l \<longrightarrow> k = Malloced))"

lemma pow2_small_dvd:
  assumes "a = (2 :: nat) ^ k" "a \<le> 16" "n mod 16 = 0"
  shows "n mod a = 0"
proof -
  have "k \<le> 4"
  proof (rule ccontr)
    assume "\<not> k \<le> 4"
    then have "(2 :: nat) ^ 5 \<le> 2 ^ k" by (intro power_increasing) simp_all
    with assms(1,2) show False by simp
  qed
  then have "a dvd 2 ^ 4" unfolding assms(1) by (rule le_imp_power_dvd)
  then have "a dvd 16" by simp
  moreover have "16 dvd n" using assms(3) by (simp add: mod_eq_0_iff_dvd)
  ultimately show ?thesis using dvd_trans mod_eq_0_iff_dvd by blast
qed

lemma pow2_max8:
  assumes "unat (a :: u64) = 2 ^ k"
  shows "8 \<le> unat (max a 8)" "\<exists>k. unat (max a 8) = 2 ^ k" "n mod unat (max a 8) = 0 \<Longrightarrow> n mod unat a = 0"
proof -
  show "8 \<le> unat (max a 8)" by (simp add: max_def word_le_nat_alt)
  show "\<exists>k. unat (max a 8) = 2 ^ k"
  proof (cases "a \<le> 8")
    case True
    then show ?thesis by (intro exI [of _ 3]) (simp add: max_def)
  next
    case False
    then show ?thesis using assms by (auto simp: max_def)
  qed
  show "n mod unat a = 0" if "n mod unat (max a 8) = 0"
  proof (cases "a \<le> 8")
    case True
    then have "unat a \<le> 8" by (simp add: word_le_nat_alt)
    then have "(2 :: nat) ^ k \<le> 2 ^ 3" using assms by simp
    then have "k \<le> 3" using power_le_imp_le_exp [of "2 :: nat" k 3] by simp
    then have "unat a dvd 2 ^ 3" unfolding assms by (rule le_imp_power_dvd)
    moreover have "unat (max a 8) = 2 ^ 3" using True by (simp add: max_def)
    ultimately show ?thesis using that by (metis dvd_trans mod_eq_0_iff_dvd)
  next
    case False
    with that show ?thesis by (simp add: max_def)
  qed
qed

lemma fresh_block_owned:
  assumes "fresh_block kd (unat (l_size l)) al h p bs h'" "unat p mod unat (l_align l) = 0"
    "fast_layout l \<Longrightarrow> kd = Malloced"
  shows "p \<noteq> 0" "h p = None" "owned h' p l bs" "q \<noteq> p \<Longrightarrow> h' q = h q"
  using assms by (simp_all add: fresh_block_def owned_def)

text \<open>A block of the C allocator on the fast path is aligned as the layout asks.\<close>

lemma fast_block_aligned:
  assumes "layout_ok l" "fast_layout l" "fresh_block kd n 16 h p bs h'"
  shows "unat p mod unat (l_align l) = 0"
proof -
  obtain k where "unat (l_align l) = 2 ^ k" using assms(1) by (auto simp: layout_ok_def)
  moreover have "unat (l_align l) \<le> 16"
    using assms(2) by (simp add: fast_layout_def MIN_ALIGN_def word_le_nat_alt)
  moreover have "unat p mod 16 = 0" using assms(3) by (simp add: fresh_block_def)
  ultimately show ?thesis by (rule pow2_small_dvd)
qed

lemma sys_alloc_owned:
  assumes "c_alloc_ok C" "layout_ok l" "sys_alloc C l h = (p, h')"
  shows "if p = 0 then h' = h else h p = None \<and> (\<exists>bs. owned h' p l bs) \<and> (\<forall>q. q \<noteq> p \<longrightarrow> h' q = h q)"
proof -
  obtain k where k: "unat (l_align l) = 2 ^ k" using assms(2) by (auto simp: layout_ok_def)
  show ?thesis
  proof (cases "fast_layout l")
    case True
    then have m: "c_malloc C (l_size l) h = (p, h')"
      using assms(3) by (simp add: sys_alloc_def fast_layout_def)
    from assms(1) m show ?thesis
    proof (cases rule: malloc_okE)
      case 2
      from fresh_block_owned [OF 2 fast_block_aligned [OF assms(2) True 2]] show ?thesis by auto
    qed simp
  next
    case False
    then obtain r out where m: "c_memalign C (max (l_align l) 8) (l_size l) h = (r, out, h')"
      "p = (if r \<noteq> 0 then 0 else out)"
      using assms(3) by (auto simp: sys_alloc_def aligned_malloc_def fast_layout_def Let_def
          split: prod.splits if_splits)
    from assms(1) m(1) pow2_max8(1,2) [OF k] show ?thesis
    proof (cases rule: memalign_okE)
      case 1
      with m(2) show ?thesis by simp
    next
      case (2 bs)
      then have p: "fresh_block Memaligned (unat (l_size l)) (unat (max (l_align l) 8)) h p bs h'"
        using m(2) by simp
      then have "unat p mod unat (l_align l) = 0"
        using pow2_max8(3) [OF k] by (simp add: fresh_block_def)
      from fresh_block_owned [OF p this] False show ?thesis by auto
    qed
  qed
qed

section \<open>Resizing\<close>

text \<open>What a call of \<open>realloc\<close> that returned \<open>q\<close> has done to the block at \<open>p\<close> and to the heap.\<close>

definition resized :: "u64 \<Rightarrow> layout \<Rightarrow> bytes \<Rightarrow> heap \<Rightarrow> u64 \<Rightarrow> heap \<Rightarrow> bool" where
  "resized p l bs h q h' \<longleftrightarrow> (if q = 0 then h' = h
     else (\<exists>bs'. owned h' q l bs' \<and> take (min (unat (l_size l)) (length bs)) bs' = take (min (unat (l_size l)) (length bs)) bs)
       \<and> (q \<noteq> p \<longrightarrow> h' p = None \<and> h q = None) \<and> (\<forall>r. r \<noteq> p \<longrightarrow> r \<noteq> q \<longrightarrow> h' r = h r))"

lemma fast_realloc:
  assumes "c_alloc_ok C" "layout_ok l" "fast_layout l" "h p = Some \<lparr>b_kind = Malloced, b_bytes = bs\<rparr>"
    "new_size \<noteq> 0" "c_realloc C p new_size h = (q, h')"
  shows "resized p \<lparr>l_size = new_size, l_align = l_align l\<rparr> bs h q h'"
  using assms(1,6,4,5)
proof (cases rule: realloc_okE)
  case (2 bs')
  let ?nl = "\<lparr>l_size = new_size, l_align = l_align l\<rparr>"
  have "owned h' q ?nl bs'"
    using 2(2) fresh_block_owned(3) [of Malloced ?nl 16 "h(p := None)" q bs' h']
      fast_block_aligned [OF assms(2,3) 2(2)] by simp
  moreover have "q \<noteq> p \<longrightarrow> h' p = None \<and> h q = None" "\<forall>r. r \<noteq> p \<longrightarrow> r \<noteq> q \<longrightarrow> h' r = h r"
    using 2(2) by (auto simp: fresh_block_def)
  ultimately show ?thesis using 2(1,3) by (auto simp: resized_def)
qed (simp add: resized_def)

text \<open>The copy into the new block, and the release of the old one.\<close>

lemma move_block:
  assumes "c_alloc_ok C" "h p = Some \<lparr>b_kind = k, b_bytes = bs\<rparr>" "length bs = unat (l_size l)"
    "h q = None" "owned h1 q nl bs1" "\<forall>r. r \<noteq> q \<longrightarrow> h1 r = h r"
  shows "\<exists>h2. copy_nonoverlapping p q (min (unat (l_size l)) (unat (l_size nl))) h1 = Some h2
    \<and> resized p nl bs h q (sys_dealloc C p l h2)"
proof -
  have ne: "q \<noteq> p" using assms(2,4) by auto
  obtain k1 where k1: "h1 q = Some \<lparr>b_kind = k1, b_bytes = bs1\<rparr>" "length bs1 = unat (l_size nl)"
    "fast_layout nl \<Longrightarrow> k1 = Malloced" "unat q mod unat (l_align nl) = 0" "q \<noteq> 0"
    using assms(5) by (auto simp: owned_def)
  let ?n = "min (unat (l_size l)) (unat (l_size nl))"
  let ?bs = "take ?n bs @ drop ?n bs1"
  let ?h2 = "h1(q \<mapsto> \<lparr>b_kind = k1, b_bytes = ?bs\<rparr>)"
  have p1: "h1 p = Some \<lparr>b_kind = k, b_bytes = bs\<rparr>" using assms(2,6) ne by simp
  then have "copy_nonoverlapping p q ?n h1 = Some ?h2"
    using k1 ne assms(3) by (simp add: copy_nonoverlapping_def)
  moreover have "?h2 p = Some \<lparr>b_kind = k, b_bytes = bs\<rparr>" using p1 ne by simp
  then have f: "sys_dealloc C p l ?h2 = ?h2(p := None)"
    unfolding sys_dealloc_def using assms(1) by (intro free_okD) simp_all
  have "owned (?h2(p := None)) q nl ?bs" using ne k1 assms(3) by (simp add: owned_def)
  moreover have "take (min (unat (l_size nl)) (length bs)) ?bs = take (min (unat (l_size nl)) (length bs)) bs"
    using assms(3) k1(2) by (simp add: min.commute)
  ultimately have "resized p nl bs h q (?h2(p := None))"
    unfolding resized_def using assms(4,6) k1(5) by (auto intro!: exI [of _ ?bs])
  with f \<open>copy_nonoverlapping p q ?n h1 = Some ?h2\<close> show ?thesis by auto
qed

lemma sys_realloc_resized:
  assumes "c_alloc_ok C" "layout_ok l" "owned h p l bs" "new_size \<noteq> 0"
  shows "\<exists>q h'. sys_realloc C p l new_size h = Some (q, h') \<and> resized p \<lparr>l_size = new_size, l_align = l_align l\<rparr> bs h q h'"
proof -
  let ?nl = "\<lparr>l_size = new_size, l_align = l_align l\<rparr>"
  obtain k where k: "h p = Some \<lparr>b_kind = k, b_bytes = bs\<rparr>" "fast_layout l \<Longrightarrow> k = Malloced" "length bs = unat (l_size l)"
    using assms(3) by (auto simp: owned_def)
  show ?thesis
  proof (cases "fast_layout l")
    case True
    obtain q h' where r: "c_realloc C p new_size h = (q, h')" by fastforce
    have "sys_realloc C p l new_size h = Some (q, h')" using True r by (simp add: sys_realloc_def fast_layout_def)
    with fast_realloc [OF assms(1,2) True _ assms(4) r] k True show ?thesis by auto
  next
    case False
    then have run: "sys_realloc C p l new_size h = realloc_fallback C p l new_size h"
      by (auto simp: sys_realloc_def fast_layout_def)
    obtain q h1 where q: "sys_alloc C ?nl h = (q, h1)" by fastforce
    have "layout_ok ?nl" using assms(2,4) by (auto simp: layout_ok_def unat_gt_0)
    note o = sys_alloc_owned [OF assms(1) this q]
    show ?thesis
    proof (cases "q = 0")
      case True
      with run q o show ?thesis by (simp add: realloc_fallback_def resized_def)
    next
      case nz: False
      then obtain bs1 where o1: "h q = None" "owned h1 q ?nl bs1" "\<forall>r. r \<noteq> q \<longrightarrow> h1 r = h r" using o by auto
      obtain h2 where "copy_nonoverlapping p q (min (unat (l_size l)) (unat (l_size ?nl))) h1 = Some h2"
          "resized p ?nl bs h q (sys_dealloc C p l h2)"
        using move_block [OF assms(1) k(1,3) o1] by blast
      with run q nz show ?thesis by (simp add: realloc_fallback_def)
    qed
  qed
qed

section \<open>Zeroed memory\<close>

lemma calloc_owned:
  assumes "c_alloc_ok C" "layout_ok l" "fast_layout l" "c_calloc C (l_size l) 1 h = (p, h')"
  shows "if p = 0 then h' = h
    else h p = None \<and> owned h' p l (replicate (unat (l_size l)) 0) \<and> (\<forall>q. q \<noteq> p \<longrightarrow> h' q = h q)"
  using assms(1,4)
proof (cases rule: calloc_okE)
  case 2
  from fresh_block_owned [OF 2 fast_block_aligned [OF assms(2,3) 2]] show ?thesis by auto
qed simp

lemma zero_owned:
  assumes "owned h p l bs" "\<not> fast_layout l"
  shows "\<exists>h2. write_bytes p 0 (unat (l_size l)) h = Some h2 \<and> owned h2 p l (replicate (unat (l_size l)) 0)
    \<and> (\<forall>q. q \<noteq> p \<longrightarrow> h2 q = h q)"
  using assms by (auto simp: owned_def write_bytes_def)

lemma sys_alloc_zeroed_owned:
  assumes "c_alloc_ok C" "layout_ok l"
  shows "\<exists>p h'. sys_alloc_zeroed C l h = Some (p, h') \<and> (if p = 0 then h' = h
    else h p = None \<and> owned h' p l (replicate (unat (l_size l)) 0) \<and> (\<forall>q. q \<noteq> p \<longrightarrow> h' q = h q))"
proof (cases "fast_layout l")
  case True
  obtain r h2 where c: "c_calloc C (l_size l) 1 h = (r, h2)" by fastforce
  then have "sys_alloc_zeroed C l h = Some (r, h2)" using True by (simp add: sys_alloc_zeroed_def fast_layout_def)
  with calloc_owned [OF assms True c] show ?thesis by blast
next
  case False
  obtain p h' where a: "sys_alloc C l h = (p, h')" by fastforce
  note o = sys_alloc_owned [OF assms a]
  have z: "sys_alloc_zeroed C l h = (if p \<noteq> 0
      then map_option (\<lambda>h2. (p, h2)) (write_bytes p 0 (unat (l_size l)) h') else Some (p, h'))"
    using False a by (auto simp: sys_alloc_zeroed_def fast_layout_def)
  show ?thesis
  proof (cases "p = 0")
    case nz: False
    then obtain bs where "owned h' p l bs" "h p = None" "\<forall>q. q \<noteq> p \<longrightarrow> h' q = h q" using o by auto
    with zero_owned [of h' p l bs] False z nz show ?thesis by force
  qed (use z o in simp)
qed

section \<open>Properties\<close>

text \<open>
  C2: \<open>realloc\<close> never corrupts the heap. For a block owned under its layout and a non-zero new size,
  it runs without undefined behaviour, so in particular never hands a \<open>posix_memalign\<close> block to the
  C \<open>realloc\<close>. If it returns null the heap is as before and the block still owned. Otherwise
  the new pointer is owned under the new layout with the old contents up to the smaller size, the
  old pointer is released (unless it is the new one), and every other block is untouched.
\<close>

theorem sys_realloc_safe:
  assumes "c_alloc_ok C" "layout_ok l" "owned h p l bs" "new_size \<noteq> 0"
  shows "\<exists>q h'. sys_realloc C p l new_size h = Some (q, h')
    \<and> (if q = 0 then h' = h
       else (\<exists>bs'. owned h' q \<lparr>l_size = new_size, l_align = l_align l\<rparr> bs'
           \<and> take (min (unat new_size) (length bs)) bs' = take (min (unat new_size) (length bs)) bs)
         \<and> (q \<noteq> p \<longrightarrow> h' p = None \<and> h q = None) \<and> (\<forall>r. r \<noteq> p \<longrightarrow> r \<noteq> q \<longrightarrow> h' r = h r))"
  using sys_realloc_resized [OF assms] unfolding resized_def layout.select_convs .

text \<open>
  An allocator that keeps the contract: one slot for \<open>malloc\<close>, one for \<open>realloc\<close>, one for
  \<open>posix_memalign\<close>.
\<close>

definition slot_alloc :: c_alloc where
  "slot_alloc =
    \<lparr>c_malloc = (\<lambda>n h. if h 0x1000 = None
       then (0x1000, h(0x1000 \<mapsto> \<lparr>b_kind = Malloced, b_bytes = replicate (unat n) 0\<rparr>)) else (0, h)),
     c_calloc = (\<lambda>m n h. if h 0x1000 = None \<and> n = 1
       then (0x1000, h(0x1000 \<mapsto> \<lparr>b_kind = Malloced, b_bytes = replicate (unat m) 0\<rparr>)) else (0, h)),
     c_realloc = (\<lambda>p n h. case h p of
         None \<Rightarrow> (0, h)
       | Some b \<Rightarrow> if h 0x2000 = None
           then (0x2000, (h(p := None))(0x2000 \<mapsto> \<lparr>b_kind = Malloced,
             b_bytes = take (unat n) (b_bytes b @ replicate (unat n) 0)\<rparr>)) else (0, h)),
     c_free = (\<lambda>p h. h(p := None)),
     c_memalign = (\<lambda>a n h. if h 0x4000 = None \<and> unat a dvd 0x4000
       then (0, 0x4000, h(0x4000 \<mapsto> \<lparr>b_kind = Memaligned, b_bytes = replicate (unat n) 0\<rparr>))
       else (12, 0, h))\<rparr>"

lemma fresh_blockI:
  "p \<noteq> 0 \<Longrightarrow> h p = None \<Longrightarrow> unat p mod a = 0 \<Longrightarrow> length bs = n \<Longrightarrow>
   fresh_block k n a h p bs (h(p \<mapsto> \<lparr>b_kind = k, b_bytes = bs\<rparr>))"
  by (simp add: fresh_block_def)

lemma slot_alloc_ok: "c_alloc_ok slot_alloc"
proof -
  have "malloc_ok slot_alloc" "calloc_ok slot_alloc" "memalign_ok slot_alloc"
    by (auto simp: malloc_ok_def calloc_ok_def memalign_ok_def slot_alloc_def split: if_splits
        intro!: exI [of _ "replicate _ 0"] fresh_blockI)
  moreover have "free_ok slot_alloc" by (simp add: free_ok_def slot_alloc_def)
  moreover have "realloc_ok slot_alloc"
    unfolding realloc_ok_def
  proof (intro allI impI)
    fix p n :: u64 and h q h' bs
    assume r: "c_realloc slot_alloc p n h = (q, h')" "h p = Some \<lparr>b_kind = Malloced, b_bytes = bs\<rparr>"
    let ?bs = "take (unat n) (bs @ replicate (unat n) 0)"
    show "if q = 0 then h' = h
      else \<exists>bs'. fresh_block Malloced (unat n) 16 (h(p := None)) q bs' h'
        \<and> take (min (unat n) (length bs)) bs' = take (min (unat n) (length bs)) bs"
    proof (cases "h 0x2000 = None")
      case True
      then have "q = 0x2000" "h' = (h(p := None))(0x2000 \<mapsto> \<lparr>b_kind = Malloced, b_bytes = ?bs\<rparr>)"
        using r by (auto simp: slot_alloc_def)
      moreover have "fresh_block Malloced (unat n) 16 (h(p := None)) 0x2000 ?bs
          ((h(p := None))(0x2000 \<mapsto> \<lparr>b_kind = Malloced, b_bytes = ?bs\<rparr>))"
        using True by (intro fresh_blockI) auto
      moreover have "take (min (unat n) (length bs)) ?bs = take (min (unat n) (length bs)) bs"
        by (simp add: min_def)
      ultimately show ?thesis by auto
    next
      case False
      then show ?thesis using r by (auto simp: slot_alloc_def)
    qed
  qed
  ultimately show ?thesis by (simp add: c_alloc_ok_def)
qed

text \<open>An over-aligned block (8 bytes of alignment, 4 of size) that grows onto the fast path.\<close>

theorem sys_realloc_safe_witness:
  "\<exists>q h'. sys_realloc slot_alloc 0x4000 \<lparr>l_size = 4, l_align = 8\<rparr> 100
      [0x4000 \<mapsto> \<lparr>b_kind = Memaligned, b_bytes = [1, 2, 3, 4]\<rparr>] = Some (q, h')
    \<and> (q \<noteq> 0 \<longrightarrow> h' 0x4000 = None \<or> q = 0x4000)"
proof -
  have "layout_ok \<lparr>l_size = 4, l_align = 8\<rparr>"
    by (auto simp: layout_ok_def intro!: exI [of _ 3])
  moreover have "owned [0x4000 \<mapsto> \<lparr>b_kind = Memaligned, b_bytes = [1, 2, 3, 4]\<rparr>] 0x4000
      \<lparr>l_size = 4, l_align = 8\<rparr> [1, 2, 3, 4]"
    by (simp add: owned_def fast_layout_def)
  ultimately show ?thesis
    using sys_realloc_safe [OF slot_alloc_ok, of "\<lparr>l_size = 4, l_align = 8\<rparr>" _ "0x4000" _ 100]
    by (fastforce split: if_splits)
qed

text \<open>
  C6: \<open>alloc\<close> and \<open>alloc_zeroed\<close> hand out owned blocks. For every valid layout, on both the malloc
  and the posix_memalign path, a non-null result is a fresh pointer with the layout's size and
  alignment that no live block had, everything else is untouched, and \<open>alloc_zeroed\<close> runs without
  undefined behaviour and returns only zero bytes; \<open>dealloc\<close> then removes exactly that block.
\<close>

theorem sys_alloc_correct:
  assumes "c_alloc_ok C" "layout_ok l"
  shows "(case sys_alloc C l h of (p, h') \<Rightarrow>
       if p = 0 then h' = h
       else h p = None \<and> (\<exists>bs. owned h' p l bs) \<and> (\<forall>q. q \<noteq> p \<longrightarrow> h' q = h q) \<and> sys_dealloc C p l h' = h)
    \<and> (\<exists>p h'. sys_alloc_zeroed C l h = Some (p, h') \<and>
       (if p = 0 then h' = h
        else h p = None \<and> owned h' p l (replicate (unat (l_size l)) 0) \<and> (\<forall>q. q \<noteq> p \<longrightarrow> h' q = h q)))"
proof (intro conjI)
  obtain p h' where a: "sys_alloc C l h = (p, h')" by fastforce
  note o = sys_alloc_owned [OF assms a]
  have d: "sys_dealloc C p l h' = h" if "p \<noteq> 0"
  proof -
    have "h' p \<noteq> None" "h p = None" "\<forall>q. q \<noteq> p \<longrightarrow> h' q = h q" using o that by (auto simp: owned_def)
    then show ?thesis using free_okD [OF assms(1), of h' p] by (auto simp: sys_dealloc_def)
  qed
  show "case sys_alloc C l h of (p, h') \<Rightarrow> if p = 0 then h' = h
       else h p = None \<and> (\<exists>bs. owned h' p l bs) \<and> (\<forall>q. q \<noteq> p \<longrightarrow> h' q = h q) \<and> sys_dealloc C p l h' = h"
    using o d by (simp add: a)
qed (rule sys_alloc_zeroed_owned [OF assms])

theorem sys_alloc_correct_witness:
  "case sys_alloc slot_alloc \<lparr>l_size = 4, l_align = 8\<rparr> Map.empty of (p, h') \<Rightarrow>
     p = 0x4000 \<and> sys_dealloc slot_alloc p \<lparr>l_size = 4, l_align = 8\<rparr> h' = Map.empty"
proof -
  have "layout_ok \<lparr>l_size = 4, l_align = 8\<rparr>"
    by (auto simp: layout_ok_def intro!: exI [of _ 3])
  moreover have "fst (sys_alloc slot_alloc \<lparr>l_size = 4, l_align = 8\<rparr> Map.empty) = 0x4000"
    by (simp add: sys_alloc_def aligned_malloc_def slot_alloc_def MIN_ALIGN_def max_def)
  ultimately show ?thesis
    using sys_alloc_correct [OF slot_alloc_ok, of "\<lparr>l_size = 4, l_align = 8\<rparr>" Map.empty]
    by (auto split: prod.splits if_splits)
qed

end
