(* ===== verification/Env_Aros.thy ===== *)
theory Env_Aros
  imports Io_Error
begin

text \<open>
  Environment variables, \<open>sys/env/aros.rs\<close>: the process's local variables behind posixc
  \<open>getenv\<close>, \<open>setenv\<close>, \<open>unsetenv\<close> and the enumeration glue. The variables live outside the program;
  \<open>env_after\<close> reads off the history what the successful calls have made of them.
\<close>

definition env_cstr :: "bytes \<Rightarrow> io_error + bytes" where
  "env_cstr s = (if 0 \<in> set s then Inl (Simple InvalidInput) else Inr s)"

text \<open>\<open>env\<close>: the callback pushes each pair; a null value pointer is the empty value.\<close>

definition env_vars :: "(bytes \<times> bytes) list io" where
  "env_vars = io_bind (sys (EnvC C_env_enum)) (\<lambda>r.
     io_return (map (\<lambda>(n, v). (n, case v of None \<Rightarrow> [] | Some b \<Rightarrow> b)) (r_pairs r)))"

definition getenv :: "bytes \<Rightarrow> bytes option io" where
  "getenv k = (case env_cstr k of
       Inl _ \<Rightarrow> io_return None
     | Inr key \<Rightarrow> io_bind (sys (EnvC (C_getenv key))) (\<lambda>r.
         if r_ret r = 0 then io_return None else io_return (Some (until_nul (r_data r)))))"

definition setenv :: "bytes \<Rightarrow> bytes \<Rightarrow> unit io" where
  "setenv k v =
    io_bind (io_of (env_cstr k)) (\<lambda>key.
    io_bind (io_of (env_cstr v)) (\<lambda>val.
    io_bind (sys (EnvC (C_setenv key val 1))) (\<lambda>r.
    if r_ret r = 0 then io_return () else os_fail)))"

definition unsetenv :: "bytes \<Rightarrow> unit io" where
  "unsetenv n =
    io_bind (io_of (env_cstr n)) (\<lambda>key.
    io_bind (sys (EnvC (C_unsetenv key))) (\<lambda>r.
    if r_ret r = 0 then io_return () else os_fail))"

section \<open>The variables, as the history has them\<close>

text \<open>The C functions see their arguments up to the first NUL.\<close>

fun env_step :: "(bytes \<rightharpoonup> bytes) \<Rightarrow> call \<times> reply \<Rightarrow> (bytes \<rightharpoonup> bytes)" where
  "env_step m (EnvC (C_setenv k v ow), r) = (if r_ret r = 0 then m(k \<mapsto> until_nul v) else m)"
| "env_step m (EnvC (C_unsetenv k), r) = (if r_ret r = 0 then m(k := None) else m)"
| "env_step m _ = m"

definition env_after :: "(bytes \<rightharpoonup> bytes) \<Rightarrow> trace \<Rightarrow> (bytes \<rightharpoonup> bytes)" where
  "env_after base t = foldl env_step base t"

text \<open>A truthful \<open>getenv\<close>: it answers with the variables as they are.\<close>

definition env_truthful :: "(bytes \<rightharpoonup> bytes) \<Rightarrow> (trace \<Rightarrow> call \<Rightarrow> reply) \<Rightarrow> bool" where
  "env_truthful base orc \<longleftrightarrow> (\<forall>t k. let r = orc t (EnvC (C_getenv k)) in
     (if r_ret r = 0 then None else Some (until_nul (r_data r))) = env_after base t k)"

lemma env_after_append [simp]: "env_after base (t @ u) = env_after (env_after base t) u"
  by (simp add: env_after_def)

lemma env_after_simps [simp]:
  "env_after base [] = base" "env_after base (x # t) = env_after (env_step base x) t"
  by (simp_all add: env_after_def)

lemma env_after_errno: "\<forall>x\<in>set t. \<exists>c. fst x = ErrnoC c \<Longrightarrow> env_after base t = base"
proof (induction t)
  case (Cons x t)
  obtain c r where "x = (ErrnoC c, r)" using Cons.prems by (cases x) auto
  with Cons show ?case by simp
qed simp

lemma env_after_os_fail:
  assumes "(os_fail :: 'a io) s = (r, s')"
  shows "env_after base (os_trace s') = env_after base (os_trace s)" "os_oracle s' = os_oracle s"
    "r \<noteq> Ok x"
proof -
  obtain e t where "(os_fail :: 'a io) s = (Err (OsError e), s\<lparr>os_trace := os_trace s @ t\<rparr>)"
    "\<forall>x\<in>set t. \<exists>c. fst x = ErrnoC c" using os_fail_cases [of s, where 'a = 'a] by blast
  with assms env_after_errno [of t] show "env_after base (os_trace s') = env_after base (os_trace s)"
    "os_oracle s' = os_oracle s" "r \<noteq> Ok x" by auto
qed

lemma getenv_reads:
  assumes "env_truthful base (os_oracle s)"
  shows "fst (getenv k s) = Ok (if 0 \<in> set k then None else env_after base (os_trace s) k)"
  using assms by (auto simp: getenv_def env_cstr_def env_truthful_def Let_def io_bind_sys split: if_splits)

lemma setenv_writes:
  "setenv k v s = (r, s') \<Longrightarrow> os_oracle s' = os_oracle s
   \<and> env_after base (os_trace s') = (if r = Ok () then (env_after base (os_trace s))(k \<mapsto> v)
        else env_after base (os_trace s))"
  by (auto simp: setenv_def env_cstr_def Let_def io_bind_sys env_after_os_fail(3) until_nul_id
      dest: env_after_os_fail(1,2) split: if_splits)

lemma unsetenv_writes:
  "unsetenv k s = (r, s') \<Longrightarrow> os_oracle s' = os_oracle s
   \<and> env_after base (os_trace s') = (if r = Ok () then (env_after base (os_trace s))(k := None)
        else env_after base (os_trace s))"
  by (auto simp: unsetenv_def env_cstr_def Let_def io_bind_sys env_after_os_fail(3)
      dest: env_after_os_fail(1,2) split: if_splits)

section \<open>Property\<close>

text \<open>
  over a truthful operating system, a variable that was set is read back exactly, an unset one
  is gone, a failed call changes nothing, and neither operation touches another variable; a key
  or a value with a NUL byte is refused with \<open>InvalidInput\<close> without any call.
\<close>

lemma environment_reads_back:
  assumes "env_truthful base (os_oracle s)" "0 \<notin> set k'"
  shows "(case setenv k v s of (r, s') \<Rightarrow>
      fst (getenv k' s') = (if k' = k \<and> r = Ok () then Ok (Some v) else fst (getenv k' s)))
    \<and> (case unsetenv k s of (r, s') \<Rightarrow>
      fst (getenv k' s') = (if k' = k \<and> r = Ok () then Ok None else fst (getenv k' s)))
    \<and> (0 \<in> set k \<union> set v \<longrightarrow> setenv k v s = (Err (Simple InvalidInput), s))"
proof (intro conjI impI)
  obtain r s' where run: "setenv k v s = (r, s')" by fastforce
  with setenv_writes [OF run, of base] getenv_reads [of base s k'] getenv_reads [of base s' k'] assms
  show "case setenv k v s of (r, s') \<Rightarrow>
      fst (getenv k' s') = (if k' = k \<and> r = Ok () then Ok (Some v) else fst (getenv k' s))"
    by auto
next
  obtain r s' where run: "unsetenv k s = (r, s')" by fastforce
  with unsetenv_writes [OF run, of base] getenv_reads [of base s k'] getenv_reads [of base s' k'] assms
  show "case unsetenv k s of (r, s') \<Rightarrow>
      fst (getenv k' s') = (if k' = k \<and> r = Ok () then Ok None else fst (getenv k' s))"
    by auto
next
  assume "0 \<in> set k \<union> set v"
  then show "setenv k v s = (Err (Simple InvalidInput), s)" by (auto simp: setenv_def env_cstr_def)
qed

definition env_oracle :: "trace \<Rightarrow> call \<Rightarrow> reply" where
  "env_oracle t c = (case c of
       EnvC (C_getenv k) \<Rightarrow> (case env_after Map.empty t k of
           None \<Rightarrow> ret 0 | Some v \<Rightarrow> ret_data 1 v)
     | _ \<Rightarrow> ret 0)"

lemma until_nul_idem: "until_nul (until_nul v) = until_nul v"
  by (simp add: until_nul_id until_nul_no_nul)

lemma env_after_c_string:
  "\<forall>k v. base k = Some v \<longrightarrow> until_nul v = v \<Longrightarrow> env_after base t k = Some v \<Longrightarrow> until_nul v = v"
proof (induction t arbitrary: base)
  case (Cons x t)
  have "\<forall>k v. env_step base x k = Some v \<longrightarrow> until_nul v = v"
    using Cons.prems(1) by (cases "(base, x)" rule: env_step.cases) (auto simp: until_nul_idem)
  from Cons.IH [OF this] Cons.prems(2) show ?case by simp
qed simp

lemma env_oracle_truthful: "env_truthful Map.empty env_oracle"
  using env_after_c_string [of Map.empty]
  by (auto simp: env_truthful_def env_oracle_def Let_def split: option.splits)

theorem environment_reads_back_witness:
  "fst (getenv [65] (snd (setenv [65] [66, 67] (boot env_oracle)))) = Ok (Some [66, 67])"
proof -
  have run: "setenv [65] [66, 67] (boot env_oracle) = (Ok (), after (boot env_oracle) (EnvC (C_setenv [65] [66, 67] 1)))"
    by (simp add: setenv_def env_cstr_def bind_sys_after reply_of_def env_oracle_def)
  from environment_reads_back [of Map.empty "boot env_oracle" "[65]" "[65]" "[66, 67]"]
  show ?thesis by (simp add: run env_oracle_truthful)
qed

end
