(* ===== verification/Command_Env.thy ===== *)
theory Command_Env
  imports Env_Aros "HOL-Library.List_Lexorder"
begin

text \<open>
  The environment changes of a \<open>Command\<close>, \<open>sys/process/env.rs\<close>, over the B-tree map of the standard
  library, which the model takes as an association list in ascending key order; keys are compared
  byte by byte, as \<open>OsString\<close> is.
\<close>

section \<open>Ordered maps\<close>

type_synonym ('k, 'v) bt = "('k \<times> 'v) list"

fun bt_insert :: "'k::linorder \<Rightarrow> 'v \<Rightarrow> ('k, 'v) bt \<Rightarrow> ('k, 'v) bt" where
  "bt_insert k v [] = [(k, v)]"
| "bt_insert k v ((k', v') # m) =
    (if k < k' then (k, v) # (k', v') # m
     else if k = k' then (k, v) # m
     else (k', v') # bt_insert k v m)"

definition bt_remove :: "'k \<Rightarrow> ('k, 'v) bt \<Rightarrow> ('k, 'v) bt" where
  "bt_remove k m = filter (\<lambda>(k', v). k' \<noteq> k) m"

definition bt_ok :: "('k::linorder, 'v) bt \<Rightarrow> bool" where
  "bt_ok m \<longleftrightarrow> sorted_wrt (<) (map fst m)"

lemma bt_insert_keys: "set (map fst (bt_insert k v m)) = insert k (set (map fst m))"
  by (induction k v m rule: bt_insert.induct) auto

lemma bt_insert_ok: "bt_ok m \<Longrightarrow> bt_ok (bt_insert k v m)"
proof (induction k v m rule: bt_insert.induct)
  case (2 k v k' v' m)
  then show ?case
    using bt_insert_keys [of k v m] by (auto simp: bt_ok_def)
qed (simp add: bt_ok_def)

lemma bt_remove_ok: "bt_ok m \<Longrightarrow> bt_ok (bt_remove k m)"
  by (auto simp: bt_ok_def bt_remove_def sorted_wrt_map sorted_wrt_filter)

lemma bt_insert_lookup: "bt_ok m \<Longrightarrow> map_of (bt_insert k v m) = (map_of m)(k \<mapsto> v)"
proof (induction k v m rule: bt_insert.induct)
  case (2 k v k' v' m)
  then have "bt_ok m" by (simp add: bt_ok_def)
  with 2 show ?case by auto
qed simp

lemma bt_remove_lookup: "map_of (bt_remove k m) = (map_of m)(k := None)"
  by (induction m) (auto simp: bt_remove_def)

lemma bt_ok_Nil [simp]: "bt_ok []"
  by (simp add: bt_ok_def)

lemma bt_ok_distinct: "bt_ok m \<Longrightarrow> distinct (map fst m)"
  by (simp add: bt_ok_def strict_sorted_iff)

lemma bt_ok_Cons: "bt_ok ((k, v) # m) \<Longrightarrow> bt_ok m \<and> map_of m k = None"
  by (auto simp: bt_ok_def map_of_eq_None_iff)

section \<open>CommandEnv\<close>

record command_env =
  ce_clear :: bool
  ce_saw_path :: bool
  ce_vars :: "(bytes, bytes option) bt"

definition command_env_default :: command_env where
  "command_env_default = \<lparr>ce_clear = False, ce_saw_path = False, ce_vars = []\<rparr>"

definition env_apply :: "bytes \<times> bytes option \<Rightarrow> (bytes, bytes) bt \<Rightarrow> (bytes, bytes) bt" where
  "env_apply kv result = (case kv of
      (k, Some v) \<Rightarrow> bt_insert k v result | (k, None) \<Rightarrow> bt_remove k result)"

definition env_capture :: "command_env \<Rightarrow> (bytes, bytes) bt io" where
  "env_capture ce =
    io_bind (if \<not> ce_clear ce then
        io_bind env_vars (\<lambda>vs. io_return (fold (\<lambda>(k, v). bt_insert k v) vs []))
      else io_return []) (\<lambda>result.
    io_return (fold env_apply (ce_vars ce) result))"

definition env_is_unchanged :: "command_env \<Rightarrow> bool" where
  "env_is_unchanged ce \<longleftrightarrow> \<not> ce_clear ce \<and> ce_vars ce = []"

definition env_capture_if_changed :: "command_env \<Rightarrow> (bytes, bytes) bt option io" where
  "env_capture_if_changed ce = (if env_is_unchanged ce then io_return None
     else io_bind (env_capture ce) (\<lambda>m. io_return (Some m)))"

definition maybe_saw_path :: "bytes \<Rightarrow> command_env \<Rightarrow> command_env" where
  "maybe_saw_path key ce =
    (if \<not> ce_saw_path ce \<and> key = ascii ''PATH'' then ce\<lparr>ce_saw_path := True\<rparr> else ce)"

definition env_set :: "bytes \<Rightarrow> bytes \<Rightarrow> command_env \<Rightarrow> command_env" where
  "env_set key val ce =
    (let ce1 = maybe_saw_path key ce in ce1\<lparr>ce_vars := bt_insert key (Some val) (ce_vars ce1)\<rparr>)"

definition env_remove :: "bytes \<Rightarrow> command_env \<Rightarrow> command_env" where
  "env_remove key ce =
    (let ce1 = maybe_saw_path key ce
     in if ce_clear ce1 then ce1\<lparr>ce_vars := bt_remove key (ce_vars ce1)\<rparr>
        else ce1\<lparr>ce_vars := bt_insert key None (ce_vars ce1)\<rparr>)"

definition env_clear :: "command_env \<Rightarrow> command_env" where
  "env_clear ce = ce\<lparr>ce_clear := True, ce_vars := []\<rparr>"

definition have_changed_path :: "command_env \<Rightarrow> bool" where
  "have_changed_path ce \<longleftrightarrow> ce_saw_path ce \<or> ce_clear ce"

section \<open>What the changes mean\<close>

text \<open>The three operations on the variables themselves, and a sequence of them.\<close>

datatype env_change = SetVar bytes bytes | RemoveVar bytes | ClearVars

fun change_env :: "env_change \<Rightarrow> command_env \<Rightarrow> command_env" where
  "change_env (SetVar k v) = env_set k v"
| "change_env (RemoveVar k) = env_remove k"
| "change_env ClearVars = env_clear"

fun change_spec :: "env_change \<Rightarrow> (bytes \<rightharpoonup> bytes) \<Rightarrow> (bytes \<rightharpoonup> bytes)" where
  "change_spec (SetVar k v) m = m(k \<mapsto> v)"
| "change_spec (RemoveVar k) m = m(k := None)"
| "change_spec ClearVars m = Map.empty"

definition env_meaning :: "command_env \<Rightarrow> (bytes \<rightharpoonup> bytes) \<Rightarrow> (bytes \<rightharpoonup> bytes)" where
  "env_meaning ce base k = (case map_of (ce_vars ce) k of
      Some ov \<Rightarrow> ov | None \<Rightarrow> if ce_clear ce then None else base k)"

lemma maybe_saw_path_sel [simp]:
  "ce_clear (maybe_saw_path k ce) = ce_clear ce" "ce_vars (maybe_saw_path k ce) = ce_vars ce"
  by (simp_all add: maybe_saw_path_def)

lemma change_env_step:
  assumes "bt_ok (ce_vars ce)"
  shows "bt_ok (ce_vars (change_env c ce))"
    and "env_meaning (change_env c ce) base = change_spec c (env_meaning ce base)"
  by (cases c; use assms in \<open>simp add: env_set_def env_remove_def env_clear_def Let_def bt_insert_ok bt_remove_ok\<close>)
     (cases c; use assms in \<open>auto simp: fun_eq_iff env_meaning_def env_set_def env_remove_def env_clear_def Let_def
      bt_insert_lookup bt_remove_lookup\<close>)

lemma change_env_fold:
  "bt_ok (ce_vars ce) \<Longrightarrow> bt_ok (ce_vars (fold change_env cs ce))
   \<and> env_meaning (fold change_env cs ce) base = fold change_spec cs (env_meaning ce base)"
  by (induction cs arbitrary: ce) (simp_all add: change_env_step)

lemma fold_insert_base:
  "bt_ok m \<Longrightarrow> bt_ok (fold (\<lambda>(k, v). bt_insert k v) vs m)
   \<and> map_of (fold (\<lambda>(k, v). bt_insert k v) vs m) = map_of m ++ map_of (rev vs)"
  by (induction vs arbitrary: m)
     (auto simp: bt_insert_ok bt_insert_lookup map_add_def fun_eq_iff split: option.splits)

lemma fold_env_apply:
  "bt_ok vs \<Longrightarrow> bt_ok m \<Longrightarrow> bt_ok (fold env_apply vs m)
   \<and> map_of (fold env_apply vs m) k = (case map_of vs k of Some ov \<Rightarrow> ov | None \<Rightarrow> map_of m k)"
proof (induction vs arbitrary: m)
  case (Cons kv vs)
  obtain k' ov where kv: "kv = (k', ov)" by fastforce
  have "bt_ok (env_apply kv m)" using Cons.prems(2) kv
    by (cases ov) (simp_all add: env_apply_def bt_insert_ok bt_remove_ok)
  moreover have "map_of (env_apply kv m) k = (if k = k' then ov else map_of m k)"
    using Cons.prems(2) kv by (cases ov) (simp_all add: env_apply_def bt_insert_lookup bt_remove_lookup)
  ultimately show ?case using Cons.IH [of "env_apply kv m"] bt_ok_Cons [of k' ov vs] Cons.prems(1) kv
    by (auto split: option.splits)
qed simp

text \<open>The variables the process itself has, when the enumeration is asked for them.\<close>

definition own_env :: "os \<Rightarrow> (bytes \<rightharpoonup> bytes)" where
  "own_env s = map_of (rev (map (\<lambda>(n, v). (n, case v of None \<Rightarrow> [] | Some b \<Rightarrow> b))
     (r_pairs (reply_of s (EnvC C_env_enum)))))"

lemma env_capture_run:
  assumes "bt_ok (ce_vars ce)"
  shows "\<exists>m s'. env_capture ce s = (Ok m, s') \<and> bt_ok m \<and> map_of m = env_meaning ce (own_env s)"
proof -
  define vs where "vs = map (\<lambda>(n, v). (n, case v of None \<Rightarrow> [] | Some b \<Rightarrow> b))
    (r_pairs (reply_of s (EnvC C_env_enum)))"
  let ?base = "if ce_clear ce then [] else fold (\<lambda>(k, v). bt_insert k v) vs []"
  have base: "bt_ok ?base" "map_of ?base = (if ce_clear ce then Map.empty else own_env s)"
    using fold_insert_base [of "[]" vs] by (simp_all add: own_env_def vs_def)
  have run: "\<exists>s'. env_capture ce s = (Ok (fold env_apply (ce_vars ce) ?base), s')"
    by (auto simp: env_capture_def env_vars_def bind_sys_after vs_def)
  have "map_of (fold env_apply (ce_vars ce) ?base) = env_meaning ce (own_env s)"
    using fold_env_apply [OF assms base(1)] base(2) by (auto simp: env_meaning_def fun_eq_iff split: option.splits)
  with run fold_env_apply [OF assms base(1)] show ?thesis by blast
qed

lemma have_changed_path_step:
  "have_changed_path (change_env c ce) \<longleftrightarrow> have_changed_path ce
     \<or> c = ClearVars \<or> (\<exists>v. c = SetVar (ascii ''PATH'') v) \<or> c = RemoveVar (ascii ''PATH'')"
  by (cases c) (auto simp: have_changed_path_def env_set_def env_remove_def env_clear_def Let_def
      maybe_saw_path_def)

lemma have_changed_path_fold:
  "have_changed_path (fold change_env cs ce) \<longleftrightarrow> have_changed_path ce
     \<or> (\<exists>c\<in>set cs. c = ClearVars \<or> (\<exists>v. c = SetVar (ascii ''PATH'') v) \<or> c = RemoveVar (ascii ''PATH''))"
  by (induction cs arbitrary: ce) (auto simp: have_changed_path_step)

section \<open>Property\<close>

text \<open>
  C21: whatever sequence of \<open>set\<close>, \<open>remove\<close> and \<open>clear\<close> built the \<open>CommandEnv\<close>, capturing it
  returns, in ascending key order, exactly the variables that the sequence leaves when it is
  applied to the process's own variables; a changed \<open>PATH\<close> is reported exactly when the sequence
  cleared the environment or touched \<open>PATH\<close>.
\<close>

theorem command_env_captures_changes:
  "(\<exists>m s'. env_capture (fold change_env cs command_env_default) s = (Ok m, s') \<and> bt_ok m
     \<and> map_of m = fold change_spec cs (own_env s))
   \<and> (have_changed_path (fold change_env cs command_env_default) \<longleftrightarrow>
     (\<exists>c. c \<in> set cs \<and> (c = ClearVars \<or> (\<exists>v. c = SetVar (ascii ''PATH'') v) \<or> c = RemoveVar (ascii ''PATH''))))"
proof (rule conjI)
  have d: "bt_ok (ce_vars command_env_default)" "env_meaning command_env_default b = b" for b
    by (auto simp: command_env_default_def env_meaning_def)
  with change_env_fold [OF d(1), of cs "own_env s"]
    env_capture_run [of "fold change_env cs command_env_default" s]
  show "\<exists>m s'. env_capture (fold change_env cs command_env_default) s = (Ok m, s') \<and> bt_ok m
     \<and> map_of m = fold change_spec cs (own_env s)" by simp
  show "have_changed_path (fold change_env cs command_env_default) \<longleftrightarrow>
     (\<exists>c. c \<in> set cs \<and> (c = ClearVars \<or> (\<exists>v. c = SetVar (ascii ''PATH'') v) \<or> c = RemoveVar (ascii ''PATH'')))"
    unfolding have_changed_path_fold by (auto simp: have_changed_path_def command_env_default_def)
qed

end
