(* ===== verification/Number_Text.thy ===== *)
theory Number_Text
  imports Prelude
begin

unbundle bit_operations_syntax

text \<open>
  Numbers as text: what \<open>{}\<close> and \<open>{:x}\<close> print for an integer, and the digits \<open>char::to_digit\<close>
  (\<open>core/char/methods.rs\<close>) reads. Shared by the names and messages of the process layer and by the
  address parser.
\<close>

section \<open>Printing\<close>

fun dec_string :: "nat \<Rightarrow> string" where
  "dec_string n = (if n < 10 then [char_of (48 + n)] else dec_string (n div 10) @ [char_of (48 + n mod 10)])"

declare dec_string.simps [simp del]

definition int_string :: "int \<Rightarrow> string" where
  "int_string i = (if i < 0 then ''-'' @ dec_string (nat (- i)) else dec_string (nat i))"

text \<open>The bytes of a number in a radix up to 16, in lower case.\<close>

definition digit_byte :: "nat \<Rightarrow> u8" where
  "digit_byte d = (if d < 10 then of_nat (48 + d) else of_nat (87 + d))"

function radix_bytes :: "nat \<Rightarrow> nat \<Rightarrow> bytes" where
  "radix_bytes r n = (if n < r \<or> r < 2 then [digit_byte n] else radix_bytes r (n div r) @ [digit_byte (n mod r)])"
  by pat_completeness auto
termination
  by (relation "measure snd") auto

declare radix_bytes.simps [simp del]

lemma of_char_digit: "k < 10 \<Longrightarrow> (of_char (char_of (48 + k :: nat)) :: u8) = digit_byte k"
proof -
  assume "k < 10"
  moreover have "(of_char (char_of (48 + k :: nat)) :: u8) = of_nat ((48 + k) mod 256)"
    by (metis of_char_of of_nat_of_char)
  ultimately show ?thesis by (simp add: digit_byte_def)
qed

text \<open>The string form agrees with the radix form.\<close>

lemma ascii_dec_string: "ascii (dec_string n) = radix_bytes 10 n"
proof (induction n rule: dec_string.induct)
  case (1 n)
  show ?case
  proof (cases "n < 10")
    case True
    then show ?thesis by (subst dec_string.simps, subst radix_bytes.simps) (simp add: of_char_digit)
  next
    case False
    then show ?thesis
      using 1 by (subst dec_string.simps, subst radix_bytes.simps) (simp add: of_char_digit)
  qed
qed

section \<open>Reading digits\<close>

definition to_digit :: "nat \<Rightarrow> u8 \<Rightarrow> nat option" where
  "to_digit radix c =
    (let self = (ucast c :: u32);
         val = (if self > 57 \<and> radix > 10 then ((self - 65) AND NOT 0x20) + 10 else self - 48)
     in if unat val < radix then Some (unat val) else None)"

lemma to_digit_byte:
  "d < 10 \<Longrightarrow> to_digit 10 (digit_byte d) = Some d" "d < 16 \<Longrightarrow> to_digit 16 (digit_byte d) = Some d"
proof -
  have "map (\<lambda>d. to_digit 10 (digit_byte d)) [0..<10] = map Some [0..<10]" by code_simp
  then show "to_digit 10 (digit_byte d) = Some d" if "d < 10" using that by simp
  have "map (\<lambda>d. to_digit 16 (digit_byte d)) [0..<16] = map Some [0..<16]" by code_simp
  then show "to_digit 16 (digit_byte d) = Some d" if "d < 16" using that by simp
qed

lemma to_digit_less: "to_digit r c = Some d \<Longrightarrow> d < r"
  by (auto simp: to_digit_def Let_def split: if_splits)

lemma to_digit_decimal_hex: "to_digit 10 c = Some d \<Longrightarrow> to_digit 16 c \<noteq> None"
proof -
  assume d: "to_digit 10 c = Some d"
  have "(ucast c :: u32) \<le> 57"
  proof (rule ccontr)
    assume "\<not> (ucast c :: u32) \<le> 57"
    then have "57 < unat (ucast c :: u32)" by (simp add: word_le_nat_alt)
    then have "unat ((ucast c :: u32) - 48) = unat (ucast c :: u32) - 48"
      using unat_sub [of "48 :: u32" "ucast c"] by (simp add: word_le_nat_alt)
    with d \<open>57 < unat (ucast c :: u32)\<close> show False by (simp add: to_digit_def Let_def split: if_splits)
  qed
  then have "\<not> 57 < (ucast c :: u32)" by simp
  with d show ?thesis by (simp add: to_digit_def Let_def split: if_splits)
qed

lemma unat_digit_byte: "d < 16 \<Longrightarrow> unat (digit_byte d) = (if d < 10 then 48 + d else 87 + d)"
  using unat_of_nat_less [of "48 + d", where 'a = 8] unat_of_nat_less [of "87 + d", where 'a = 8]
  by (simp add: digit_byte_def)

lemma radix_bytes_digits: "2 \<le> r \<Longrightarrow> r \<le> 16 \<Longrightarrow> \<forall>b\<in>set (radix_bytes r n). \<exists>d<r. b = digit_byte d"
proof (induction r n rule: radix_bytes.induct)
  case (1 r n)
  show ?case
  proof (cases "n < r")
    case True
    then show ?thesis by (subst radix_bytes.simps) auto
  next
    case False
    then have "\<forall>b\<in>set (radix_bytes r (n div r)). \<exists>d<r. b = digit_byte d" using 1 by simp
    moreover have "n mod r < r" using 1(2) by simp
    then have "\<exists>d<r. digit_byte (n mod r) = digit_byte d" by blast
    ultimately show ?thesis using False 1(2) by (subst radix_bytes.simps) auto
  qed
qed

lemma radix_bytes_not_nul: "2 \<le> r \<Longrightarrow> r \<le> 16 \<Longrightarrow> 0 \<notin> set (radix_bytes r n)"
proof
  assume "2 \<le> r" "r \<le> 16" "0 \<in> set (radix_bytes r n)"
  then obtain d where "d < 16" "digit_byte d = 0" using radix_bytes_digits [of r n] by (metis order.strict_trans2)
  then show False using unat_digit_byte [of d] by (simp split: if_splits)
qed

text \<open>The digits of a number: no leading zero, and no more than a bound on the number allows.\<close>

lemma foldl_digits_ge: "1 \<le> (r :: nat) \<Longrightarrow> a \<le> foldl (\<lambda>a d. a * r + d) a ds"
proof (induction ds arbitrary: a)
  case (Cons d ds)
  have "a \<le> a * r + d" using Cons.prems by (simp add: trans_le_add1)
  also have "\<dots> \<le> foldl (\<lambda>a d. a * r + d) (a * r + d) ds" by (rule Cons.IH [OF Cons.prems])
  finally show ?case by simp
qed simp

definition digits_of :: "nat \<Rightarrow> nat \<Rightarrow> nat list \<Rightarrow> bool" where
  "digits_of r n ds \<longleftrightarrow> radix_bytes r n = map digit_byte ds \<and> ds \<noteq> [] \<and> (\<forall>d\<in>set ds. d < r)
    \<and> foldl (\<lambda>a d. a * r + d) 0 ds = n \<and> (hd ds = 0 \<longrightarrow> length ds = 1)
    \<and> (\<forall>k. n < r ^ k \<longrightarrow> 0 < k \<longrightarrow> length ds \<le> k)"

lemma digits_ofD:
  assumes "digits_of r n ds"
  shows "radix_bytes r n = map digit_byte ds" "ds \<noteq> []" "\<forall>d\<in>set ds. d < r"
    "foldl (\<lambda>a d. a * r + d) 0 ds = n" "hd ds = 0 \<Longrightarrow> length ds = 1"
    "n < r ^ k \<Longrightarrow> 0 < k \<Longrightarrow> length ds \<le> k"
  using assms by (simp_all add: digits_of_def)

lemma radix_digits: "2 \<le> r \<Longrightarrow> \<exists>ds. digits_of r n ds"
  unfolding digits_of_def
proof (induction r n rule: radix_bytes.induct)
    case (1 r n)
    show ?case
    proof (cases "n < r")
      case True
      then show ?thesis by (intro exI [of _ "[n]"]) (subst radix_bytes.simps, auto)
    next
      case False
      with 1 obtain ds where ds: "radix_bytes r (n div r) = map digit_byte ds" "ds \<noteq> []" "\<forall>d\<in>set ds. d < r"
        "foldl (\<lambda>a d. a * r + d) 0 ds = n div r" "hd ds = 0 \<longrightarrow> length ds = 1"
        "\<forall>k. n div r < r ^ k \<longrightarrow> 0 < k \<longrightarrow> length ds \<le> k" by auto
      have "0 < n div r" using False 1(2) by (simp add: div_greater_zero_iff)
      have hd: "hd ds \<noteq> 0"
      proof
        assume "hd ds = 0"
        with ds(2,5) have "ds = [0]" by (cases ds) auto
        with ds(4) \<open>0 < n div r\<close> show False by simp
      qed
      have len: "length ds < k" if bound: "n < r ^ k" "0 < k" for k
      proof -
        obtain j where k: "k = Suc j" using bound(2) by (cases k) auto
        have "n div r < r ^ j" using bound(1) k 1(2) by (simp add: less_mult_imp_div_less mult.commute)
        moreover from this \<open>0 < n div r\<close> have "0 < j" by (cases j) auto
        ultimately show ?thesis using ds(6) k by (simp add: le_imp_less_Suc)
      qed
      show ?thesis
      proof (intro exI conjI allI impI)
        show "radix_bytes r n = map digit_byte (ds @ [n mod r])"
          using False 1(2) ds(1) by (subst radix_bytes.simps) simp
        show "foldl (\<lambda>a d. a * r + d) 0 (ds @ [n mod r]) = n" using ds(4) by simp
        show "\<forall>d\<in>set (ds @ [n mod r]). d < r" using ds(3) 1(2) by simp
        show "length (ds @ [n mod r]) = 1" if "hd (ds @ [n mod r]) = 0" using that hd ds(2) by simp
        show "length (ds @ [n mod r]) \<le> k" if "n < r ^ k" "0 < k" for k
          using len [OF that] by simp
      qed simp
    qed
qed

text \<open>Appending a decimal digit to a machine word that has room for it.\<close>

lemma push_digit:
  fixes w :: "'a::len word"
  assumes "unat w * 10 + d < 2 ^ LENGTH('a)" "(10 :: nat) < 2 ^ LENGTH('a)"
  shows "checked_mul w 10 = Some (w * 10) \<and> checked_add (w * 10) (of_nat d) = Some (w * 10 + of_nat d)
    \<and> unat (w * 10 + of_nat d) = unat w * 10 + d"
proof -
  have ten: "unat (10 :: 'a word) = 10" using assms(2) unat_of_nat_less [of 10, where 'a = 'a] by simp
  have d: "unat (of_nat d :: 'a word) = d" using assms(1) by (intro unat_of_nat_less) simp
  have m: "checked_mul w 10 = Some (w * 10)" "unat (w * 10) = unat w * 10"
    using assms(1) ten by (simp_all add: checked_mul_def unat_word_ariths)
  with assms(1) d show ?thesis by (simp add: checked_add_def unat_word_ariths)
qed

end
