(* ===== verification/Process_Aros.thy ===== *)
theory Process_Aros
  imports Command_Env Io_Stream Utf8 Number_Text
begin

unbundle bit_operations_syntax

text \<open>
  Child processes, \<open>sys/process/aros.rs\<close>: the quoting of a command line for the AROS shell, the
  generated script that carries the environment, \<open>spawn\<close> over the process glue, \<open>output\<close> and the
  draining of the two output pipes, and the life of a \<open>Process\<close>: \<open>kill\<close>, \<open>wait\<close>, \<open>try_wait\<close>, \<open>Drop\<close>.
  Text is the list of its characters (\<open>rtext\<close>); it becomes bytes where the code makes a \<open>CString\<close>.
\<close>

section \<open>The error of a failed spawn\<close>

definition spawn_error :: "io_error io" where
  "spawn_error = io_bind (sys (ProcC Proc_last_fail)) (\<lambda>r.
    let ioerr = out_param 0 0 r; st = out_param 1 0 r; why = r_ret r;
        stream = (if why = 2 then ''stdin'' else if why = 3 then ''stdout'' else ''stderr'');
        side = (if st = 1 then ''writing'' else ''reading'')
    in io_return (
      if why = 1 then Custom OutOfMemory ''no memory to track the child''
      else if 2 \<le> why \<and> why \<le> 4 then Custom BrokenPipe
        (''cannot open the '' @ side @ '' end of the child's '' @ stream @ '' pipe (dos error ''
         @ int_string ioerr @ '')'')
      else if why = 5 then Custom NotFound ''cannot open NIL:''
      else if why = 8 then Custom NotFound
        (''cannot reach the working directory (dos error '' @ int_string ioerr @ '')'')
      else if why = 6 then Custom Other
        (''the shell could not be started (dos error '' @ int_string ioerr @ '')'')
      else Custom NotFound ''command could not be run''))"

definition APS_INHERIT :: int where "APS_INHERIT = 0"
definition APS_PIPE :: int where "APS_PIPE = 1"
definition APS_NULL :: int where "APS_NULL = 2"

datatype stdio =
    Stdio_Inherit
  | Stdio_Null
  | MakePipe
  | ParentStdout
  | ParentStderr
  | InheritFile int

definition disposition :: "stdio option \<Rightarrow> int" where
  "disposition s = (case s of
       Some MakePipe \<Rightarrow> APS_PIPE
     | Some Stdio_Null \<Rightarrow> APS_NULL
     | _ \<Rightarrow> APS_INHERIT)"

section \<open>Command\<close>

record command =
  cmd_program :: bytes
  cmd_args :: "bytes list"
  cmd_env :: command_env
  cmd_cwd :: "bytes option"
  cmd_stdin :: "stdio option"
  cmd_stdout :: "stdio option"
  cmd_stderr :: "stdio option"

definition command_new :: "bytes \<Rightarrow> command" where
  "command_new program = \<lparr>cmd_program = program, cmd_args = [program], cmd_env = command_env_default,
     cmd_cwd = None, cmd_stdin = None, cmd_stdout = None, cmd_stderr = None\<rparr>"

definition command_arg :: "bytes \<Rightarrow> command \<Rightarrow> command" where
  "command_arg arg cmd = cmd\<lparr>cmd_args := cmd_args cmd @ [arg]\<rparr>"

definition get_args :: "command \<Rightarrow> bytes list" where
  "get_args cmd = drop 1 (cmd_args cmd)"

definition get_resolved_envs :: "command \<Rightarrow> (bytes \<times> bytes) list io" where
  "get_resolved_envs cmd = env_capture (cmd_env cmd)"

text \<open>\<open>to_string_lossy\<close>, as characters.\<close>

definition to_string_lossy :: "bytes \<Rightarrow> rtext" where
  "to_string_lossy b = str_chars (from_utf8_lossy b)"

definition proc_cstr :: "rtext \<Rightarrow> io_error + bytes" where
  "proc_cstr s = (let b = utf8_bytes s in
     if 0 \<in> set b then Inl (SimpleMessage InvalidInput ''command contains a NUL byte'') else Inr b)"

text \<open>The characters \<open>"\<close> (34), \<open>*\<close> (42), tab (9), newline (10) and space (32).\<close>

definition needs_quotes :: "rtext \<Rightarrow> bool" where
  "needs_quotes s \<longleftrightarrow> s = [] \<or> list_ex (\<lambda>c. c = 32 \<or> c = 34 \<or> c = 42 \<or> c = 9 \<or> c = 10) s"

definition quote_char :: "u32 \<Rightarrow> rtext" where
  "quote_char c = (if c = 34 then [42, 34] else if c = 42 then [42, 42]
     else if c = 10 then [42, 110] else [c])"

definition quote_into :: "bytes \<Rightarrow> rtext \<Rightarrow> rtext" where
  "quote_into arg out =
    (let s = to_string_lossy arg
     in if \<not> needs_quotes s then out @ s
        else fold (\<lambda>c out. out @ quote_char c) s (out @ [34]) @ [34])"

definition command_line :: "command \<Rightarrow> rtext" where
  "command_line cmd =
    (let line = (if cmd_program cmd \<noteq> [] then quote_into (cmd_program cmd) [] else [])
     in fold (\<lambda>arg line. quote_into arg (if line \<noteq> [] then line @ [32] else line))
          (drop 1 (cmd_args cmd)) line)"

definition setup_lines :: "command \<Rightarrow> rtext" where
  "setup_lines cmd = fold (\<lambda>(k, v) setup. (case v of
       Some val \<Rightarrow> quote_into val (quote_into k (setup @ chars ''Set '') @ [32])
     | None \<Rightarrow> quote_into k (setup @ chars ''Unset '')) @ [10]) (ce_vars (cmd_env cmd)) []"

section \<open>The script\<close>

fun write_script_loop :: "int \<Rightarrow> bytes \<Rightarrow> nat \<Rightarrow> nat \<Rightarrow> unit io" where
  "write_script_loop fd data 0 off = io_hang"
| "write_script_loop fd data (Suc fuel) off =
    (if off < length data then
       io_bind (file_write fd (drop off data)) (\<lambda>n.
       if n = 0 then io_fail (SimpleMessage WriteZero ''short script write'')
       else write_script_loop fd data fuel (off + n))
     else io_return ())"

text \<open>Every turn of the loop writes at least one byte, so one more than the length is enough fuel.\<close>

definition write_script :: "path \<Rightarrow> bytes \<Rightarrow> unit io" where
  "write_script p data =
    (let opts = open_options_new\<lparr>oo_write := True, oo_create := True, oo_truncate := True\<rparr>
     in io_bind (file_open p opts) (\<lambda>f.
        io_finally (write_script_loop f data (Suc (length data)) 0) (file_drop f)))"

definition next_script :: "u32 io" where
  "next_script = (\<lambda>s. (Ok (script_seq s), s\<lparr>script_seq := script_seq s + 1\<rparr>))"

definition script_path :: "u32 \<Rightarrow> bytes" where
  "script_path n = ascii (''MacRW:rustcmd-'' @ dec_string (unat n) @ ''.aros'')"

definition script_text :: "command \<Rightarrow> rtext" where
  "script_text cmd =
    (case cmd_cwd cmd of Some dir \<Rightarrow> quote_into dir (chars ''CD '') @ [10] | None \<Rightarrow> [])
      @ setup_lines cmd @ command_line cmd @ [10]"

definition resolve_line :: "command \<Rightarrow> (rtext \<times> path option) io" where
  "resolve_line cmd =
    (let has_env = ce_vars (cmd_env cmd) \<noteq> []
     in if \<not> has_env then io_return (command_line cmd, None)
        else if command_line cmd = [] then io_return ([], None)
        else io_bind next_script (\<lambda>n.
          let p = script_path n in
          io_bind (write_script p (utf8_bytes (script_text cmd))) (\<lambda>_.
          io_return (chars ''Execute '' @ str_chars p, Some p))))"

section \<open>Spawning\<close>

datatype exit_status = ExitStatus i32

record process =
  p_handle :: int
  p_status :: "exit_status option"
  p_script :: "path option"

record stdio_pipes =
  sp_stdin :: "int option"
  sp_stdout :: "int option"
  sp_stderr :: "int option"

definition pipe_opt_drop :: "int option \<Rightarrow> unit io" where
  "pipe_opt_drop p = (case p of Some h \<Rightarrow> pipe_drop h | None \<Rightarrow> io_return ())"

definition stdio_pipes_drop :: "stdio_pipes \<Rightarrow> unit io" where
  "stdio_pipes_drop ps = io_bind (pipe_opt_drop (sp_stdin ps)) (\<lambda>_.
     io_bind (pipe_opt_drop (sp_stdout ps)) (\<lambda>_. pipe_opt_drop (sp_stderr ps)))"

definition remove_script :: "path option \<Rightarrow> unit io" where
  "remove_script p = (case p of Some p \<Rightarrow> io_ignore (fs_unlink p) | None \<Rightarrow> io_return ())"

definition pipe_slot :: "int \<Rightarrow> int option" where
  "pipe_slot h = (if h \<noteq> 0 then Some h else None)"

definition spawn_cwd :: "command \<Rightarrow> bytes option io" where
  "spawn_cwd cmd = (case cmd_cwd cmd of
       Some dir \<Rightarrow> io_bind (io_of (proc_cstr (to_string_lossy dir))) (\<lambda>c. io_return (Some c))
     | None \<Rightarrow> io_return None)"

definition stdio_or :: "stdio option \<Rightarrow> stdio \<Rightarrow> stdio" where
  "stdio_or s d = (case s of Some x \<Rightarrow> x | None \<Rightarrow> d)"

definition spawn :: "command \<Rightarrow> stdio \<Rightarrow> bool \<Rightarrow> (process \<times> stdio_pipes) io" where
  "spawn cmd dflt needs_stdin =
    io_bind (resolve_line cmd) (\<lambda>(line, script).
    io_bind (io_of (proc_cstr line)) (\<lambda>line_c.
    let default_stdin = (if needs_stdin then dflt else Stdio_Null);
        in_mode = disposition (Some (stdio_or (cmd_stdin cmd) default_stdin));
        out_mode = disposition (Some (stdio_or (cmd_stdout cmd) dflt));
        err_mode = disposition (Some (stdio_or (cmd_stderr cmd) dflt));
        interactive = (line = [])
    in io_bind (spawn_cwd cmd) (\<lambda>cwd_c.
    io_bind (sys (ProcC (Proc_spawn line_c in_mode out_mode err_mode
        (if interactive then 1 else 0) cwd_c))) (\<lambda>r.
    if r_ret r = 0 then
      io_bind (remove_script script) (\<lambda>_. io_bind spawn_error io_fail)
    else
      let pipes = \<lparr>sp_stdin = pipe_slot (out_param 0 0 r), sp_stdout = pipe_slot (out_param 1 0 r),
                   sp_stderr = pipe_slot (out_param 2 0 r)\<rparr>;
          child = \<lparr>p_handle = r_ret r, p_status = None, p_script = script\<rparr>;
          setup = setup_lines cmd
      in (case sp_stdin pipes of
           Some h \<Rightarrow>
             if line = [] \<and> setup \<noteq> [] then
               io_bind (io_attempt (pipe_write h (utf8_bytes setup))) (\<lambda>w. case w of
                 Inr _ \<Rightarrow> io_return (child, pipes)
               | Inl e \<Rightarrow> io_bind (stdio_pipes_drop pipes) (\<lambda>_. io_fail e))
             else io_return (child, pipes)
         | None \<Rightarrow> io_return (child, pipes))))))"

section \<open>Process\<close>

definition exit_code :: "exit_status \<Rightarrow> i32 option" where
  "exit_code st = (case st of ExitStatus c \<Rightarrow> Some c)"

datatype exit_status_error = ExitStatusError i32

definition exit_ok :: "exit_status \<Rightarrow> exit_status_error + unit" where
  "exit_ok st = (case st of ExitStatus c \<Rightarrow> if c = 0 then Inr () else Inl (ExitStatusError c))"

definition exit_error_status :: "exit_status_error \<Rightarrow> exit_status" where
  "exit_error_status e = (case e of ExitStatusError c \<Rightarrow> ExitStatus c)"

definition process_kill :: "process \<Rightarrow> process io" where
  "process_kill p = (if p_status p \<noteq> None then io_return p
     else io_bind (sys (ProcC (Proc_interrupt (p_handle p)))) (\<lambda>_. io_return p))"

definition reap :: "process \<Rightarrow> int \<Rightarrow> (exit_status \<times> process) io" where
  "reap p code =
    (let st = ExitStatus (of_int code)
     in io_bind (remove_script (p_script p)) (\<lambda>_.
        io_return (st, p\<lparr>p_status := Some st, p_script := None\<rparr>)))"

text \<open>
  The loop of \<open>wait\<close>: it registers as the waiter, looks whether the child has gone, and sleeps on
  the signal only if not. The result is the exit code seen so far.
\<close>

fun wait_loop :: "nat \<Rightarrow> int \<Rightarrow> int \<Rightarrow> u32 \<Rightarrow> int \<Rightarrow> int io" where
  "wait_loop 0 h me sigmask code = io_hang"
| "wait_loop (Suc fuel) h me sigmask code =
    io_bind (sys (ProcC (Proc_set_waiter h me sigmask))) (\<lambda>already.
    if r_ret already \<noteq> 0 then io_return code
    else io_bind (sys (ProcC (Proc_exited h))) (\<lambda>r.
      let code' = out_param 0 code r in
      if r_ret r \<noteq> 0 then io_return code'
      else io_bind (sys (ProcC (Sig_wait sigmask))) (\<lambda>_. wait_loop fuel h me sigmask code')))"

text \<open>\<open>1u32 << bit\<close> masks the shift distance in a build without overflow checks.\<close>

definition process_wait :: "nat \<Rightarrow> process \<Rightarrow> (exit_status \<times> process) io" where
  "process_wait fuel p = (case p_status p of
      Some st \<Rightarrow> io_return (st, p)
    | None \<Rightarrow>
        io_bind (sys (ProcC Sig_alloc)) (\<lambda>rb. let bit = r_ret rb in
        if bit < 0 then
          io_fail (SimpleMessage Uncategorized ''no free signal to wait for a child'')
        else let sigmask = push_bit (nat bit mod 32) 1 in
          io_bind (sys (ProcC Task_self)) (\<lambda>rm.
          io_bind (wait_loop fuel (p_handle p) (r_ret rm) sigmask 0) (\<lambda>code.
          io_bind (sys (ProcC (Proc_set_waiter (p_handle p) 0 0))) (\<lambda>_.
          io_bind (sys (ProcC (Sig_free bit))) (\<lambda>_.
          io_bind (sys (ProcC (Proc_exited (p_handle p)))) (\<lambda>r.
          reap p (out_param 0 code r))))))))"

definition process_try_wait :: "process \<Rightarrow> (exit_status option \<times> process) io" where
  "process_try_wait p = (case p_status p of
      Some st \<Rightarrow> io_return (Some st, p)
    | None \<Rightarrow> io_bind (sys (ProcC (Proc_exited (p_handle p)))) (\<lambda>r.
        if r_ret r \<noteq> 0 then
          io_bind (reap p (out_param 0 0 r)) (\<lambda>(st, p'). io_return (Some st, p'))
        else io_return (None, p)))"

definition process_drop :: "process \<Rightarrow> unit io" where
  "process_drop p =
    (let free = io_bind (sys (ProcC (Proc_free (p_handle p)))) (\<lambda>_. remove_script (p_script p))
     in if p_status p = None then
          io_bind (sys (ProcC (Proc_exited (p_handle p)))) (\<lambda>r.
          if r_ret r = 0 then io_return () else free)
        else free)"

section \<open>Draining the two streams\<close>

definition yield_now :: "unit io" where
  "yield_now = io_bind (sys (ThrC Thr_yield)) (\<lambda>_. io_return ())"

text \<open>
  One turn of the inner loop for one stream: the collected bytes and whether it has ended, the
  chunk buffer, and whether the turn counts as progress.
\<close>

definition drain_turn :: "int \<Rightarrow> bytes \<times> bool \<Rightarrow> bytes \<Rightarrow> bool \<Rightarrow> ((bytes \<times> bool) \<times> bytes \<times> bool) io" where
  "drain_turn fh acc chunk progressed = (case acc of (buf, done) \<Rightarrow>
     if done then io_return ((buf, done), chunk, progressed)
     else io_bind (io_attempt (pipe_read fh chunk)) (\<lambda>r. case r of
         Inr (n, chunk') \<Rightarrow>
           if n = 0 then io_return ((buf, True), chunk', progressed)
           else if n > length chunk' then io_panic ''range end index out of range''
           else io_return ((buf @ take n chunk', False), chunk', True)
       | Inl e \<Rightarrow>
           if error_kind_of e = WouldBlock then io_return ((buf, False), chunk, progressed)
           else if error_kind_of e = Interrupted then io_return ((buf, False), chunk, True)
           else io_fail e))"

fun drain_loop :: "nat \<Rightarrow> int \<Rightarrow> int \<Rightarrow> bytes \<times> bool \<Rightarrow> bytes \<times> bool \<Rightarrow> bytes \<Rightarrow> (bytes \<times> bytes) io" where
  "drain_loop 0 out err o_acc e_acc chunk = io_hang"
| "drain_loop (Suc fuel) out err o_acc e_acc chunk =
    (if snd o_acc \<and> snd e_acc then io_return (fst o_acc, fst e_acc)
     else io_bind (drain_turn out o_acc chunk False) (\<lambda>(o_acc', chunk1, p1).
       io_bind (drain_turn err e_acc chunk1 p1) (\<lambda>(e_acc', chunk2, progressed).
       io_bind (if \<not> progressed \<and> \<not> (snd o_acc' \<and> snd e_acc') then yield_now else io_return ()) (\<lambda>_.
       drain_loop fuel out err o_acc' e_acc' chunk2))))"

definition read_output :: "nat \<Rightarrow> int \<Rightarrow> bytes \<Rightarrow> int \<Rightarrow> bytes \<Rightarrow> (bytes \<times> bytes) io" where
  "read_output fuel out stdout err stderr =
    io_finally (io_finally
      (io_bind (io_ignore (pipe_set_nonblocking out True)) (\<lambda>_.
       io_bind (io_ignore (pipe_set_nonblocking err True)) (\<lambda>_.
       drain_loop fuel out err (stdout, False) (stderr, False) (replicate 4096 0))))
      (pipe_drop err)) (pipe_drop out)"

text \<open>
  \<open>output\<close>: the pipe to the child's standard input, if the command asked for one, and the process
  itself are dropped when the function ends.
\<close>

definition collect_output :: "nat \<Rightarrow> stdio_pipes \<Rightarrow> (bytes \<times> bytes) io" where
  "collect_output fuel pipes = (case (sp_stdout pipes, sp_stderr pipes) of
      (Some out, Some err) \<Rightarrow> read_output fuel out [] err []
    | (Some out, None) \<Rightarrow>
        io_finally (io_bind (pipe_read_to_end out fuel []) (\<lambda>(_, b). io_return (b, []))) (pipe_drop out)
    | (None, Some err) \<Rightarrow>
        io_finally (io_bind (pipe_read_to_end err fuel []) (\<lambda>(_, b). io_return ([], b))) (pipe_drop err)
    | (None, None) \<Rightarrow> io_return ([], []))"

definition command_output :: "nat \<Rightarrow> command \<Rightarrow> (exit_status \<times> bytes \<times> bytes) io" where
  "command_output fuel cmd =
    io_bind (spawn cmd MakePipe False) (\<lambda>(p, pipes).
    io_bind (io_attempt (collect_output fuel pipes)) (\<lambda>got. case got of
      Inl e \<Rightarrow>
        io_bind (pipe_opt_drop (sp_stdin pipes)) (\<lambda>_. io_bind (process_drop p) (\<lambda>_. io_fail e))
    | Inr (stdout, stderr) \<Rightarrow>
        io_bind (io_attempt (process_wait fuel p)) (\<lambda>w. case w of
          Inl e \<Rightarrow>
            io_bind (pipe_opt_drop (sp_stdin pipes)) (\<lambda>_. io_bind (process_drop p) (\<lambda>_. io_fail e))
        | Inr (status, p') \<Rightarrow>
            io_bind (pipe_opt_drop (sp_stdin pipes)) (\<lambda>_. io_bind (process_drop p') (\<lambda>_.
            io_return (status, stdout, stderr))))))"

fun slurp_loop :: "nat \<Rightarrow> int \<Rightarrow> bytes \<Rightarrow> bytes \<Rightarrow> bytes io" where
  "slurp_loop 0 fd buf out = io_hang"
| "slurp_loop (Suc fuel) fd buf out =
    io_bind (io_attempt (file_read fd buf)) (\<lambda>r. case r of
      Inr (n, buf') \<Rightarrow>
        if n = 0 then io_return out
        else if n > length buf' then io_panic ''range end index out of range''
        else slurp_loop fuel fd buf' (out @ take n buf')
    | Inl _ \<Rightarrow> io_return out)"

definition slurp :: "nat \<Rightarrow> path \<Rightarrow> bytes io" where
  "slurp fuel p = io_bind (io_attempt (file_open p (open_options_new\<lparr>oo_read := True\<rparr>))) (\<lambda>r. case r of
      Inr f \<Rightarrow> io_finally (slurp_loop fuel f (replicate 4096 0) []) (file_drop f)
    | Inl _ \<Rightarrow> io_return [])"

section \<open>Quoting\<close>

text \<open>
  How the shell takes a double-quoted item, as the comment of \<open>quote_into\<close> documents it: \<open>*\<close> escapes a
  quote, a star, or \<open>n\<close> for a newline. What it does with any other escape, or with a line break inside
  the quotes, is not documented, and is no item here.
\<close>

fun read_quoted :: "rtext \<Rightarrow> (rtext \<times> rtext) option" where
  "read_quoted [] = None"
| "read_quoted (c # r) =
    (if c = 34 then Some ([], r)
     else if c = 42 then (case r of
         [] \<Rightarrow> None
       | d # r' \<Rightarrow> if d \<in> {34, 42, 110}
           then map_option (\<lambda>(w, q). ((if d = 110 then 10 else d) # w, q)) (read_quoted r') else None)
     else if c = 10 then None
     else map_option (\<lambda>(w, q). (c # w, q)) (read_quoted r))"

text \<open>
  The shell itself is not part of the repository: a parameter \<open>shell\<close>, from a line to its words, with
  \<open>plain\<close>, the characters that stand for themselves outside quotes. The contract is what the code relies
  on: the five characters \<open>quote_into\<close> looks for are not plain; spaces separate items; a quoted item is
  read as documented; and a run of plain characters is read as it stands. Of a line with another
  character outside quotes it says nothing.
\<close>

definition item_end :: "rtext \<Rightarrow> bool" where
  "item_end r \<longleftrightarrow> r = [] \<or> hd r = 32"

definition shell_contract :: "(u32 \<Rightarrow> bool) \<Rightarrow> (rtext \<Rightarrow> rtext list) \<Rightarrow> bool" where
  "shell_contract plain shell \<longleftrightarrow>
     (\<forall>c. plain c \<longrightarrow> c \<notin> {9, 10, 32, 34, 42})
     \<and> shell [] = [] \<and> (\<forall>r. shell (32 # r) = shell r)
     \<and> (\<forall>b w r. read_quoted b = Some (w, r) \<longrightarrow> item_end r \<longrightarrow> shell (34 # b) = w # shell r)
     \<and> (\<forall>w r. w \<noteq> [] \<longrightarrow> list_all plain w \<longrightarrow> item_end r \<longrightarrow> shell (w @ r) = w # shell r)"

text \<open>
  The words the quoting is good for: the empty one, those with one of the five characters, and those all
  of whose characters are plain. Others, such as \<open>>file\<close> or \<open>a;b\<close> where \<open>>\<close> and \<open>;\<close> mean something to the
  shell, are passed on unquoted.
\<close>

definition word_safe :: "(u32 \<Rightarrow> bool) \<Rightarrow> rtext \<Rightarrow> bool" where
  "word_safe plain w \<longleftrightarrow> w = [] \<or> list_ex (\<lambda>c. c \<in> {9, 10, 32, 34, 42}) w \<or> list_all plain w"

definition quoted :: "rtext \<Rightarrow> rtext" where
  "quoted s = (if needs_quotes s then 34 # concat (map quote_char s) @ [34] else s)"

lemma fold_quote_char: "fold (\<lambda>c out. out @ quote_char c) s out = out @ concat (map quote_char s)"
  by (induction s arbitrary: out) simp_all

lemma quote_into_quoted: "quote_into arg out = out @ quoted (to_string_lossy arg)"
  by (simp add: quote_into_def quoted_def fold_quote_char)

lemma quoted_not_Nil [simp]: "quoted s \<noteq> []"
  by (auto simp: quoted_def needs_quotes_def)

lemma read_quoted_body: "read_quoted (concat (map quote_char s) @ 34 # r) = Some (s, r)"
  by (induction s) (auto simp: quote_char_def)

lemma shell_quoted:
  assumes c: "shell_contract plain shell" and "word_safe plain w" "item_end r"
  shows "shell (quoted w @ r) = w # shell r"
proof (cases "needs_quotes w")
  case True
  have "shell (34 # b) = v # shell r" if "read_quoted b = Some (v, r)" for b v
    using that c assms(3) unfolding shell_contract_def by blast
  with True read_quoted_body [of w r] show ?thesis by (simp add: quoted_def)
next
  case False
  then have "w \<noteq> []" "list_all plain w"
    using assms(2) by (auto simp: needs_quotes_def word_safe_def list_ex_iff)
  then have "shell (w @ r) = w # shell r" using c assms(3) unfolding shell_contract_def by blast
  with False show ?thesis by (simp add: quoted_def)
qed

lemma shell_join:
  assumes c: "shell_contract plain shell"
  shows "list_all (word_safe plain) ws \<Longrightarrow> shell (join_with 32 (map quoted ws)) = ws"
proof (induction ws)
  case Nil
  from c show ?case by (simp add: shell_contract_def)
next
  case (Cons w ws)
  have nil: "shell [] = []" "shell (32 # r) = shell r" for r using c by (simp_all add: shell_contract_def)
  from Cons show ?case
    using shell_quoted [OF c, of w "[]"] shell_quoted [OF c, of w "32 # join_with 32 (map quoted ws)"] nil
    by (cases "ws = []") (simp_all add: join_with_Cons item_end_def)
qed

text \<open>The words of a command line.\<close>

definition command_words :: "command \<Rightarrow> rtext list" where
  "command_words cmd = map to_string_lossy
     ((if cmd_program cmd \<noteq> [] then [cmd_program cmd] else []) @ get_args cmd)"

lemma join_with_snoc: "ps \<noteq> [] \<Longrightarrow> join_with s (ps @ [p]) = join_with s ps @ s # p"
proof (induction ps)
  case (Cons a ps)
  then show ?case by (cases "ps = []") (simp_all add: join_with_Cons)
qed simp

lemma join_quoted_Nil: "join_with 32 (map quoted ws) = [] \<longleftrightarrow> ws = []"
  by (cases ws; cases "tl ws = []") (auto simp: join_with_Cons neq_Nil_conv)

lemma fold_command_line:
  "fold (\<lambda>arg line. quote_into arg (if line \<noteq> [] then line @ [32] else line)) args
     (join_with 32 (map quoted ws)) = join_with 32 (map quoted (ws @ map to_string_lossy args))"
proof (induction args arbitrary: ws)
  case (Cons a args)
  have "quote_into a (if join_with 32 (map quoted ws) \<noteq> [] then join_with 32 (map quoted ws) @ [32]
      else join_with 32 (map quoted ws)) = join_with 32 (map quoted (ws @ [to_string_lossy a]))"
    by (cases "ws = []") (simp_all add: quote_into_quoted join_quoted_Nil join_with_snoc)
  with Cons [of "ws @ [to_string_lossy a]"] show ?case by simp
qed simp

lemma command_line_words: "command_line cmd = join_with 32 (map quoted (command_words cmd))"
  using fold_command_line [of "drop 1 (cmd_args cmd)" "if cmd_program cmd \<noteq> [] then [to_string_lossy (cmd_program cmd)] else []"]
  by (simp add: command_line_def command_words_def get_args_def quote_into_quoted split: if_splits)

lemma quoted_no_newline [simp]: "10 \<notin> set (quoted s)"
  by (auto simp: quoted_def needs_quotes_def list_ex_iff quote_char_def split: if_splits)

lemma join_quoted_no_newline [simp]: "10 \<notin> set (join_with 32 (map quoted ws))"
  using set_join_with [of "32 :: u32" "map quoted ws"] by fastforce

text \<open>The lines of the preamble, as words.\<close>

definition var_words :: "bytes \<times> bytes option \<Rightarrow> rtext list" where
  "var_words kv = (case kv of
      (k, Some v) \<Rightarrow> [chars ''Set'', to_string_lossy k, to_string_lossy v]
    | (k, None) \<Rightarrow> [chars ''Unset'', to_string_lossy k])"

definition script_words :: "command \<Rightarrow> rtext list list" where
  "script_words cmd =
     (case cmd_cwd cmd of Some dir \<Rightarrow> [[chars ''CD'', to_string_lossy dir]] | None \<Rightarrow> [])
     @ map var_words (ce_vars (cmd_env cmd)) @ [command_words cmd]"

definition as_lines :: "rtext list list \<Rightarrow> rtext" where
  "as_lines wss = concat (map (\<lambda>ws. join_with 32 (map quoted ws) @ [10]) wss)"

lemma as_lines_simps [simp]:
  "as_lines [] = []" "as_lines (ws # wss) = join_with 32 (map quoted ws) @ 10 # as_lines wss"
  "as_lines (wss @ wss') = as_lines wss @ as_lines wss'"
  by (simp_all add: as_lines_def)

lemma quoted_commands:
  "chars ''Set '' = quoted (chars ''Set'') @ [32]" "chars ''Unset '' = quoted (chars ''Unset'') @ [32]"
  "chars ''CD '' = quoted (chars ''CD'') @ [32]"
  by (simp_all add: quoted_def needs_quotes_def)

lemma fold_setup_lines:
  "fold (\<lambda>(k, v) setup. (case v of
       Some val \<Rightarrow> quote_into val (quote_into k (setup @ chars ''Set '') @ [32])
     | None \<Rightarrow> quote_into k (setup @ chars ''Unset '')) @ [10]) vs out
   = out @ as_lines (map var_words vs)"
proof (induction vs arbitrary: out)
  case (Cons kv vs)
  obtain k v where kv: "kv = (k, v)" by fastforce
  show ?case
    by (cases v) (simp_all add: Cons kv var_words_def quote_into_quoted quoted_commands del: chars_simps)
qed simp

lemma script_text_lines: "script_text cmd = as_lines (script_words cmd)"
  by (simp add: script_text_def script_words_def setup_lines_def fold_setup_lines quote_into_quoted
      command_line_words quoted_commands del: chars_simps split: option.splits)

lemma split_as_lines:
  assumes c: "shell_contract plain shell"
  shows "list_all (list_all (word_safe plain)) wss \<Longrightarrow> map shell (split_on 10 (as_lines wss)) = wss @ [[]]"
proof (induction wss)
  case Nil
  from c show ?case by (simp add: shell_contract_def)
qed (simp add: split_on_append_sep shell_join [OF c])

text \<open>
  A shell that keeps the contract: items end at a space, and everything but the five characters and
  \<open>;\<close>, \<open><\<close>, \<open>>\<close> and \<open>|\<close> is plain.
\<close>

definition sample_plain :: "u32 \<Rightarrow> bool" where
  "sample_plain c \<longleftrightarrow> c \<notin> {9, 10, 32, 34, 42, 59, 60, 62, 124}"

definition read_item :: "rtext \<Rightarrow> (rtext \<times> rtext) option" where
  "read_item s = (case s of
      [] \<Rightarrow> None
    | c # r \<Rightarrow> if c = 34 then read_quoted r
        else Some (takeWhile (\<lambda>c. c \<noteq> 32) s, dropWhile (\<lambda>c. c \<noteq> 32) s))"

lemma read_quoted_shorter: "read_quoted s = Some (w, r) \<Longrightarrow> length r < length s"
proof (induction s arbitrary: w r rule: read_quoted.induct)
  case (2 c s)
  then show ?case by (fastforce split: if_splits list.splits)
qed simp

lemma read_item_shorter: "s = [] \<or> hd s \<noteq> 32 \<Longrightarrow> read_item s = Some (w, r) \<Longrightarrow> length r < length s"
  by (auto simp: read_item_def length_dropWhile_le le_imp_less_Suc dest: read_quoted_shorter
      split: list.splits if_splits)

function sample_shell :: "rtext \<Rightarrow> rtext list" where
  "sample_shell s = (case read_item (dropWhile (\<lambda>c. c = 32) s) of
      None \<Rightarrow> [] | Some (w, r) \<Rightarrow> w # sample_shell r)"
  by pat_completeness auto
termination
proof (relation "measure length")
  fix s x w r
  assume "read_item (dropWhile (\<lambda>c. c = 32) s) = Some x" "(w, r) = x"
  then have "length r < length (dropWhile (\<lambda>c. c = 32) s)"
    using hd_dropWhile [of "\<lambda>c. c = 32" s] by (intro read_item_shorter [of _ w]) blast+
  also have "\<dots> \<le> length s" by (rule length_dropWhile_le)
  finally show "(r, s) \<in> measure length" by simp
qed simp

declare sample_shell.simps [simp del]

lemma sample_shell_item:
  "s = [] \<or> hd s \<noteq> 32 \<Longrightarrow> read_item s = Some (w, r) \<Longrightarrow> sample_shell s = w # sample_shell r"
  using dropWhile_eq_self_iff [of "\<lambda>c. c = 32" s] by (subst sample_shell.simps) simp

lemma sample_shell_contract: "shell_contract sample_plain sample_shell"
proof -
  have nil: "sample_shell [] = []" by (subst sample_shell.simps) (simp add: read_item_def)
  have space: "sample_shell (32 # r) = sample_shell r" for r
    by (subst (1 2) sample_shell.simps) simp
  have quoted: "sample_shell (34 # b) = w # sample_shell r" if "read_quoted b = Some (w, r)" for b w r
    using that by (intro sample_shell_item) (simp_all add: read_item_def)
  have run: "sample_shell (w @ r) = w # sample_shell r" if w: "w \<noteq> []" "list_all sample_plain w" "item_end r" for w r
  proof -
    have n: "\<forall>c\<in>set w. c \<noteq> 32 \<and> c \<noteq> 34" using w(2) by (auto simp: list_all_iff sample_plain_def)
    then have "takeWhile (\<lambda>c. c \<noteq> 32) (w @ r) = w" "dropWhile (\<lambda>c. c \<noteq> 32) (w @ r) = r"
      using w(3) by (cases r; simp add: takeWhile_append dropWhile_append item_end_def)+
    then show ?thesis using n w(1) by (intro sample_shell_item) (cases w; simp add: read_item_def)+
  qed
  show ?thesis unfolding shell_contract_def using nil space quoted run by (auto simp: sample_plain_def)
qed

section \<open>Waiting\<close>

text \<open>The calls of a turn of \<open>wait_loop\<close> that goes to sleep.\<close>

inductive sleeps :: "int \<Rightarrow> int \<Rightarrow> u32 \<Rightarrow> trace \<Rightarrow> bool" for h me sigmask where
  sleeps_none: "sleeps h me sigmask []"
| sleeps_once: "sleeps h me sigmask t \<Longrightarrow> r_ret r1 = 0 \<Longrightarrow> r_ret r2 = 0 \<Longrightarrow>
    sleeps h me sigmask ((ProcC (Proc_set_waiter h me sigmask), r1) # (ProcC (Proc_exited h), r2)
      # (ProcC (Sig_wait sigmask), r3) # t)"

text \<open>The last turn: the child is found gone by one of the two calls.\<close>

definition found_gone :: "int \<Rightarrow> int \<Rightarrow> u32 \<Rightarrow> trace \<Rightarrow> bool" where
  "found_gone h me sigmask t \<longleftrightarrow>
     (\<exists>r. t = [(ProcC (Proc_set_waiter h me sigmask), r)] \<and> r_ret r \<noteq> 0)
   \<or> (\<exists>r1 r2. t = [(ProcC (Proc_set_waiter h me sigmask), r1), (ProcC (Proc_exited h), r2)]
        \<and> r_ret r1 = 0 \<and> r_ret r2 \<noteq> 0)"

lemma wait_loop_trace:
  "wait_loop fuel h me sigmask code s = (r, s') \<Longrightarrow> r \<noteq> Hang \<Longrightarrow>
   (\<exists>c. r = Ok c) \<and> os_oracle s' = os_oracle s
   \<and> (\<exists>t u. os_trace s' = os_trace s @ t @ u \<and> sleeps h me sigmask t \<and> found_gone h me sigmask u)"
proof (induction fuel arbitrary: code s)
  case (Suc fuel)
  let ?w = "ProcC (Proc_set_waiter h me sigmask)" and ?e = "ProcC (Proc_exited h)"
    and ?z = "ProcC (Sig_wait sigmask)"
  let ?s1 = "after s ?w"
  let ?s2 = "after ?s1 ?e"
  let ?s3 = "after ?s2 ?z"
  consider (gone) "r_ret (reply_of s ?w) \<noteq> 0"
    | (exited) "r_ret (reply_of s ?w) = 0" "r_ret (reply_of ?s1 ?e) \<noteq> 0"
    | (sleep) "r_ret (reply_of s ?w) = 0" "r_ret (reply_of ?s1 ?e) = 0" by blast
  then show ?case
  proof cases
    case gone
    then have "r = Ok code" "s' = ?s1" using Suc.prems(1) by (auto simp: bind_sys_after Let_def)
    with gone show ?thesis
      by (intro conjI exI [of _ "[]"] exI [of _ "[(?w, reply_of s ?w)]"]) (simp_all add: sleeps_none found_gone_def)
  next
    case exited
    then have "\<exists>c. r = Ok c" "s' = ?s2" using Suc.prems(1) by (auto simp: bind_sys_after Let_def)
    with exited show ?thesis
      by (intro conjI exI [of _ "[]"] exI [of _ "[(?w, reply_of s ?w), (?e, reply_of ?s1 ?e)]"])
        (simp_all add: sleeps_none found_gone_def)
  next
    case sleep
    then have "wait_loop fuel h me sigmask (out_param 0 code (reply_of ?s1 ?e)) ?s3 = (r, s')"
      using Suc.prems(1) by (simp add: bind_sys_after Let_def)
    from Suc.IH [OF this Suc.prems(2)] obtain t u where
      tu: "\<exists>c. r = Ok c" "os_oracle s' = os_oracle s" "os_trace s' = os_trace ?s3 @ t @ u"
      "sleeps h me sigmask t" "found_gone h me sigmask u" by auto
    let ?t = "(?w, reply_of s ?w) # (?e, reply_of ?s1 ?e) # (?z, reply_of ?s2 ?z) # t"
    have "sleeps h me sigmask ?t" using tu(4) sleep by (rule sleeps_once)
    moreover have "os_trace s' = os_trace s @ ?t @ u" using tu(3) by simp
    ultimately show ?thesis using tu(1,2,5) by blast
  qed
qed simp

text \<open>The wake-ups in a history.\<close>

fun naps :: "trace \<Rightarrow> nat" where
  "naps [] = 0"
| "naps ((ProcC (Sig_wait m), r) # t) = Suc (naps t)"
| "naps (_ # t) = naps t"

lemma naps_append [simp]: "naps (t @ u) = naps t + naps u"
  by (induction t rule: naps.induct) simp_all

text \<open>The glue has said that the child of \<open>h\<close> is gone.\<close>

definition exit_reply :: "int \<Rightarrow> call \<times> reply \<Rightarrow> bool" where
  "exit_reply h x \<longleftrightarrow> r_ret (snd x) \<noteq> 0 \<and> (case fst x of
      ProcC (Proc_exited h') \<Rightarrow> h' = h | ProcC (Proc_set_waiter h' me m) \<Rightarrow> h' = h | _ \<Rightarrow> False)"

definition exit_seen :: "int \<Rightarrow> trace \<Rightarrow> bool" where
  "exit_seen h t \<longleftrightarrow> list_ex (exit_reply h) t"

text \<open>
  A child that is gone once \<open>n\<close> signals have been slept for, if not before, that stays gone, and
  whose exit code is \<open>code\<close>.
\<close>

definition gone_after :: "int \<Rightarrow> nat \<Rightarrow> int \<Rightarrow> (trace \<Rightarrow> call \<Rightarrow> reply) \<Rightarrow> bool" where
  "gone_after h n code orc \<longleftrightarrow> (\<forall>t.
     (r_ret (orc t (ProcC (Proc_exited h))) \<noteq> 0 \<longrightarrow> r_outs (orc t (ProcC (Proc_exited h))) = [code])
   \<and> (n \<le> naps t \<or> exit_seen h t \<longrightarrow> r_ret (orc t (ProcC (Proc_exited h))) \<noteq> 0))"

lemma wait_loop_returns:
  "gone_after h n code (os_oracle s) \<Longrightarrow> n < fuel + naps (os_trace s) \<Longrightarrow> 0 < fuel \<Longrightarrow>
   fst (wait_loop fuel h me sigmask c s) \<noteq> Hang"
proof (induction fuel arbitrary: c s)
  case (Suc fuel)
  let ?w = "ProcC (Proc_set_waiter h me sigmask)" and ?e = "ProcC (Proc_exited h)"
    and ?z = "ProcC (Sig_wait sigmask)"
  let ?s3 = "after (after (after s ?w) ?e) ?z"
  show ?case
  proof (cases "n \<le> naps (os_trace s)")
    case True
    then have "r_ret (reply_of (after s ?w) ?e) \<noteq> 0"
      using Suc.prems(1) by (simp add: gone_after_def reply_of_def)
    then show ?thesis by (simp add: bind_sys_after Let_def)
  next
    case False
    then have "fst (wait_loop fuel h me sigmask c' ?s3) \<noteq> Hang" for c'
      using Suc.prems by (intro Suc.IH) simp_all
    then show ?thesis by (simp add: bind_sys_after Let_def)
  qed
qed simp

section \<open>The life of a process\<close>

text \<open>What a caller may do with a \<open>Process\<close>, in any order; a failed \<open>wait\<close> leaves it unchanged.\<close>

inductive process_step :: "process \<times> os \<Rightarrow> process \<times> os \<Rightarrow> bool" where
  step_kill: "process_kill p s = (Ok p', s') \<Longrightarrow> process_step (p, s) (p', s')"
| step_wait: "process_wait fuel p s = (Ok (st, p'), s') \<Longrightarrow> process_step (p, s) (p', s')"
| step_wait_err: "process_wait fuel p s = (Err e, s') \<Longrightarrow> process_step (p, s) (p, s')"
| step_try: "process_try_wait p s = (Ok (st, p'), s') \<Longrightarrow> process_step (p, s) (p', s')"

definition freed :: "int \<Rightarrow> trace \<Rightarrow> bool" where
  "freed h t \<longleftrightarrow> ProcC (Proc_free h) \<in> fst ` set t"

definition unlinks :: "trace \<Rightarrow> bytes list" where
  "unlinks t = [c. (FsC (C_unlink c), r) \<leftarrow> t]"

definition no_proc :: "trace \<Rightarrow> bool" where
  "no_proc t \<longleftrightarrow> (\<forall>x\<in>set t. \<forall>c. fst x \<noteq> ProcC c)"

lemma process_trace_simps [simp]:
  "freed h [] = False" "freed h (x # t) \<longleftrightarrow> fst x = ProcC (Proc_free h) \<or> freed h t"
  "freed h (t @ u) \<longleftrightarrow> freed h t \<or> freed h u"
  "exit_seen h (t @ u) \<longleftrightarrow> exit_seen h t \<or> exit_seen h u"
  "exit_seen h (x # t) \<longleftrightarrow> exit_reply h x \<or> exit_seen h t"
  "unlinks [] = []" "unlinks (t @ u) = unlinks t @ unlinks u"
  "unlinks ((ProcC c, r) # t) = unlinks t"
  "no_proc []" "no_proc (t @ u) \<longleftrightarrow> no_proc t \<and> no_proc u"
  "no_proc (x # t) \<longleftrightarrow> (\<forall>c. fst x \<noteq> ProcC c) \<and> no_proc t"
  by (auto simp: freed_def exit_seen_def unlinks_def no_proc_def)

lemma no_proc_freed: "no_proc t \<Longrightarrow> \<not> freed h t"
  by (force simp: no_proc_def freed_def)

lemma errno_trace: "\<forall>x\<in>set t. \<exists>c. fst x = ErrnoC c \<Longrightarrow> unlinks t = [] \<and> no_proc t"
proof (induction t)
  case (Cons x t)
  then obtain c r where "x = (ErrnoC c, r)" by (cases x) auto
  with Cons show ?case by (simp add: unlinks_def)
qed simp

definition script_unlink :: "path option \<Rightarrow> bytes list" where
  "script_unlink sp = (case sp of
      Some q \<Rightarrow> (case cstr q of Inr c \<Rightarrow> [c] | Inl _ \<Rightarrow> []) | None \<Rightarrow> [])"

lemma remove_script_run:
  "\<exists>t s'. remove_script sp s = (Ok (), s') \<and> os_trace s' = os_trace s @ t \<and> os_oracle s' = os_oracle s
     \<and> unlinks t = script_unlink sp \<and> no_proc t"
proof (cases sp)
  case None
  then show ?thesis by (simp add: remove_script_def script_unlink_def exI [of _ "[]"])
next
  case (Some q)
  show ?thesis
  proof (cases "cstr q")
    case (Inl e)
    then show ?thesis using Some
      by (simp add: remove_script_def script_unlink_def fs_unlink_def with_cstr_Inl io_ignore_def exI [of _ "[]"])
  next
    case (Inr c)
    let ?c = "FsC (C_unlink c)"
    have u: "fs_unlink q s = (if r_ret (reply_of s ?c) = 0 then (Ok (), after s ?c) else os_fail (after s ?c))"
      using Inr by (simp add: fs_unlink_def with_cstr_Inr sys_unit_def bind_sys_after)
    obtain e t where f: "(os_fail :: unit io) (after s ?c)
        = (Err (OsError e), (after s ?c)\<lparr>os_trace := os_trace (after s ?c) @ t\<rparr>)"
      "\<forall>x\<in>set t. \<exists>c. fst x = ErrnoC c" using os_fail_cases [where 'a = unit] by blast
    let ?t = "if r_ret (reply_of s ?c) = 0 then [] else t"
    have "remove_script sp s = (Ok (), (after s ?c)\<lparr>os_trace := os_trace s @ (?c, reply_of s ?c) # ?t\<rparr>)"
      using Some u f(1) by (simp add: remove_script_def io_ignore_def io_attempt_def io_bind_def after_def)
    moreover have "unlinks ((?c, reply_of s ?c) # ?t) = script_unlink sp" "no_proc ((?c, reply_of s ?c) # ?t)"
      using errno_trace [OF f(2)] Some Inr by (simp_all add: unlinks_def script_unlink_def)
    ultimately show ?thesis by (metis os_oracle_after os.select_convs(1,2) os.surjective os.update_convs(2))
  qed
qed

lemma reap_run:
  obtains t s' where "reap p code s = (Ok (ExitStatus (of_int code),
      p\<lparr>p_status := Some (ExitStatus (of_int code)), p_script := None\<rparr>), s')"
    "os_trace s' = os_trace s @ t" "os_oracle s' = os_oracle s" "unlinks t = script_unlink (p_script p)" "no_proc t"
proof -
  obtain t s' where "remove_script (p_script p) s = (Ok (), s')" "os_trace s' = os_trace s @ t"
    "os_oracle s' = os_oracle s" "unlinks t = script_unlink (p_script p)" "no_proc t"
    using remove_script_run by blast
  then show thesis by (intro that [of s' t]) (simp_all add: reap_def io_bind_def Let_def)
qed

text \<open>A \<open>wait\<close> on a running child, call by call.\<close>

lemma process_wait_signal:
  assumes "p_status p = None" "0 \<le> r_ret (reply_of s (ProcC Sig_alloc))"
  shows "process_wait fuel p s =
    io_bind (wait_loop fuel (p_handle p) (r_ret (reply_of (after s (ProcC Sig_alloc)) (ProcC Task_self)))
        (push_bit (nat (r_ret (reply_of s (ProcC Sig_alloc))) mod 32) 1) 0) (\<lambda>code.
      io_bind (sys (ProcC (Proc_set_waiter (p_handle p) 0 0))) (\<lambda>_.
      io_bind (sys (ProcC (Sig_free (r_ret (reply_of s (ProcC Sig_alloc)))))) (\<lambda>_.
      io_bind (sys (ProcC (Proc_exited (p_handle p)))) (\<lambda>r.
      reap p (out_param 0 code r))))) (after (after s (ProcC Sig_alloc)) (ProcC Task_self))"
  using assms by (simp add: process_wait_def bind_sys_after Let_def)

lemma process_wait_run:
  assumes "process_wait fuel p s = (r, s')" "r \<noteq> Hang" "p_status p = None"
  obtains (no_signal) rb where "os_trace s' = os_trace s @ [(ProcC Sig_alloc, rb)]" "r_ret rb < 0"
      "rb = reply_of s (ProcC Sig_alloc)"
      "r = Err (SimpleMessage Uncategorized ''no free signal to wait for a child'')"
  | (waited) rb rm t u r1 r2 r3 v st where "0 \<le> r_ret rb"
      "os_trace s' = os_trace s @ [(ProcC Sig_alloc, rb), (ProcC Task_self, rm)] @ t @ u
         @ [(ProcC (Proc_set_waiter (p_handle p) 0 0), r1), (ProcC (Sig_free (r_ret rb)), r2),
            (ProcC (Proc_exited (p_handle p)), r3)] @ v"
      "sleeps (p_handle p) (r_ret rm) (push_bit (nat (r_ret rb) mod 32) 1) t"
      "found_gone (p_handle p) (r_ret rm) (push_bit (nat (r_ret rb) mod 32) 1) u"
      "r = Ok (st, p\<lparr>p_status := Some st, p_script := None\<rparr>)"
      "unlinks v = script_unlink (p_script p)" "no_proc v"
      "\<exists>c. st = ExitStatus (of_int (out_param 0 c r3))" "os_oracle s' = os_oracle s"
      "r3 = os_oracle s (os_trace s @ [(ProcC Sig_alloc, rb), (ProcC Task_self, rm)] @ t @ u
         @ [(ProcC (Proc_set_waiter (p_handle p) 0 0), r1), (ProcC (Sig_free (r_ret rb)), r2)])
         (ProcC (Proc_exited (p_handle p)))"
proof (cases "r_ret (reply_of s (ProcC Sig_alloc)) < 0")
  case True
  with assms show thesis
    by (intro no_signal) (auto simp: process_wait_def bind_sys_after Let_def)
next
  case False
  let ?rb = "reply_of s (ProcC Sig_alloc)"
  let ?s1 = "after s (ProcC Sig_alloc)"
  let ?rm = "reply_of ?s1 (ProcC Task_self)"
  let ?s2 = "after ?s1 (ProcC Task_self)"
  let ?m = "push_bit (nat (r_ret ?rb) mod 32) 1 :: u32"
  obtain w s3 where w: "wait_loop fuel (p_handle p) (r_ret ?rm) ?m 0 ?s2 = (w, s3)" by fastforce
  have run: "process_wait fuel p s = io_bind (wait_loop fuel (p_handle p) (r_ret ?rm) ?m 0) (\<lambda>code.
      io_bind (sys (ProcC (Proc_set_waiter (p_handle p) 0 0))) (\<lambda>_.
      io_bind (sys (ProcC (Sig_free (r_ret ?rb)))) (\<lambda>_.
      io_bind (sys (ProcC (Proc_exited (p_handle p)))) (\<lambda>r.
      reap p (out_param 0 code r))))) ?s2"
    using False assms(3) by (simp add: process_wait_def bind_sys_after Let_def)
  have "w \<noteq> Hang" using run w assms(1,2) by (auto simp: io_bind_def)
  from wait_loop_trace [OF w this] obtain c t u where loop: "w = Ok c" "os_oracle s3 = os_oracle s"
    "os_trace s3 = os_trace ?s2 @ t @ u" "sleeps (p_handle p) (r_ret ?rm) ?m t"
    "found_gone (p_handle p) (r_ret ?rm) ?m u" by auto
  let ?s4 = "after s3 (ProcC (Proc_set_waiter (p_handle p) 0 0))"
  let ?s5 = "after ?s4 (ProcC (Sig_free (r_ret ?rb)))"
  let ?s6 = "after ?s5 (ProcC (Proc_exited (p_handle p)))"
  let ?r3 = "reply_of ?s5 (ProcC (Proc_exited (p_handle p)))"
  obtain v s7 where v: "reap p (out_param 0 c ?r3) ?s6 = (Ok (ExitStatus (of_int (out_param 0 c ?r3)),
      p\<lparr>p_status := Some (ExitStatus (of_int (out_param 0 c ?r3))), p_script := None\<rparr>), s7)"
    "os_trace s7 = os_trace ?s6 @ v" "os_oracle s7 = os_oracle ?s6" "unlinks v = script_unlink (p_script p)" "no_proc v"
    using reap_run [of p "out_param 0 c ?r3" ?s6] by blast
  have fin: "r = Ok (ExitStatus (of_int (out_param 0 c ?r3)),
      p\<lparr>p_status := Some (ExitStatus (of_int (out_param 0 c ?r3))), p_script := None\<rparr>)" "s' = s7"
    using run w loop(1) v(1) assms(1) by (simp_all add: io_bind_Ok bind_sys_after)
  show thesis
  proof (rule waited)
    show "0 \<le> r_ret ?rb" using False by simp
    show "os_trace s' = os_trace s @ [(ProcC Sig_alloc, ?rb), (ProcC Task_self, ?rm)] @ t @ u
       @ [(ProcC (Proc_set_waiter (p_handle p) 0 0), reply_of s3 (ProcC (Proc_set_waiter (p_handle p) 0 0))),
          (ProcC (Sig_free (r_ret ?rb)), reply_of ?s4 (ProcC (Sig_free (r_ret ?rb)))),
          (ProcC (Proc_exited (p_handle p)), ?r3)] @ v"
      using fin v(2) loop(3) by simp
  qed (use fin v loop in \<open>auto simp: reply_of_def\<close>)
qed

lemma sleeps_no_free: "sleeps h me sigmask t \<Longrightarrow> \<not> freed h' t \<and> unlinks t = []"
  by (induction rule: sleeps.induct) auto

lemma found_gone_seen: "found_gone h me sigmask t \<Longrightarrow> exit_seen h t \<and> \<not> freed h' t \<and> unlinks t = []"
  by (auto simp: found_gone_def exit_reply_def)

text \<open>
  The invariant of a process that was spawned as \<open>p0\<close>: nothing has been freed; as long as it has no
  status, its script is untouched; once it has one, the child has been seen to be gone and the
  script has been deleted once.
\<close>

definition process_inv :: "process \<Rightarrow> trace \<Rightarrow> process \<Rightarrow> bool" where
  "process_inv p0 t p \<longleftrightarrow> p_handle p = p_handle p0 \<and> \<not> freed (p_handle p0) t
     \<and> (case p_status p of
          None \<Rightarrow> p_script p = p_script p0 \<and> unlinks t = []
        | Some _ \<Rightarrow> p_script p = None \<and> unlinks t = script_unlink (p_script p0)
            \<and> exit_seen (p_handle p0) t)"

lemma process_step_inv:
  assumes "process_step (p, s) (p', s')" "os_trace s = t0 @ t" "process_inv p0 t p"
  shows "\<exists>u. os_trace s' = t0 @ t @ u \<and> process_inv p0 (t @ u) p'"
  using assms(1)
proof cases
  case step_kill
  show ?thesis
  proof (cases "p_status p")
    case None
    with step_kill assms(2,3) show ?thesis
      by (auto simp: process_kill_def bind_sys_after process_inv_def intro!: exI [of _ "[(ProcC (Proc_interrupt (p_handle p)), r)]" for r])
  next
    case (Some st)
    with step_kill assms(2,3) show ?thesis by (auto simp: process_kill_def intro: exI [of _ "[]"])
  qed
next
  case (step_wait fuel st)
  show ?thesis
  proof (cases "p_status p")
    case None
    have "Ok (st, p') \<noteq> Hang" by simp
    from step_wait this None show ?thesis
    proof (cases rule: process_wait_run)
      case (waited rb rm t' u r1 r2 r3 v st')
      let ?u = "[(ProcC Sig_alloc, rb), (ProcC Task_self, rm)] @ t' @ u
         @ [(ProcC (Proc_set_waiter (p_handle p) 0 0), r1), (ProcC (Sig_free (r_ret rb)), r2),
            (ProcC (Proc_exited (p_handle p)), r3)] @ v"
      have "process_inv p0 (t @ ?u) p'"
        using assms(3) None waited(5,6) sleeps_no_free [OF waited(3)] found_gone_seen [OF waited(4)]
          no_proc_freed [OF waited(7)]
        by (simp add: process_inv_def)
      moreover have "os_trace s' = t0 @ t @ ?u" using waited(2) assms(2) by simp
      ultimately show ?thesis by blast
    qed simp
  next
    case (Some st')
    with step_wait assms(2,3) show ?thesis by (auto simp: process_wait_def intro: exI [of _ "[]"])
  qed
next
  case (step_wait_err fuel e)
  show ?thesis
  proof (cases "p_status p")
    case None
    have "Err e \<noteq> (Hang :: (exit_status \<times> process) outcome)" by simp
    from step_wait_err(2) this None show ?thesis
    proof (cases rule: process_wait_run)
      case (no_signal rb)
      with assms(2,3) None step_wait_err(1) show ?thesis
        by (auto simp: process_inv_def intro!: exI [of _ "[(ProcC Sig_alloc, rb)]"])
    qed simp
  next
    case (Some st')
    with step_wait_err show ?thesis by (simp add: process_wait_def)
  qed
next
  case (step_try st)
  show ?thesis
  proof (cases "p_status p")
    case None
    let ?e = "ProcC (Proc_exited (p_handle p))"
    show ?thesis
    proof (cases "r_ret (reply_of s ?e) = 0")
      case True
      with step_try None assms(2,3) show ?thesis
        by (auto simp: process_try_wait_def bind_sys_after process_inv_def intro!: exI [of _ "[(?e, reply_of s ?e)]"])
    next
      case False
      obtain v s2 where v: "reap p (out_param 0 0 (reply_of s ?e)) (after s ?e)
          = (Ok (ExitStatus (of_int (out_param 0 0 (reply_of s ?e))),
             p\<lparr>p_status := Some (ExitStatus (of_int (out_param 0 0 (reply_of s ?e)))), p_script := None\<rparr>), s2)"
        "os_trace s2 = os_trace (after s ?e) @ v" "unlinks v = script_unlink (p_script p)" "no_proc v"
        using reap_run [of p "out_param 0 0 (reply_of s ?e)" "after s ?e"] by blast
      have fin: "p' = p\<lparr>p_status := Some (ExitStatus (of_int (out_param 0 0 (reply_of s ?e)))), p_script := None\<rparr>"
        "s' = s2"
        using step_try None False v(1) by (auto simp: process_try_wait_def bind_sys_after io_bind_Ok)
      let ?u = "(?e, reply_of s ?e) # v"
      have "process_inv p0 (t @ ?u) p'"
        using assms(3) None fin v(3) no_proc_freed [OF v(4)] False
        by (simp add: process_inv_def exit_reply_def)
      moreover have "os_trace s' = t0 @ t @ ?u" using fin(2) v(2) assms(2) by simp
      ultimately show ?thesis by blast
    qed
  next
    case (Some st')
    with step_try assms(2,3) show ?thesis by (auto simp: process_try_wait_def intro: exI [of _ "[]"])
  qed
qed

lemma process_reachable_inv:
  assumes "process_step\<^sup>*\<^sup>* (p0, s0) (p, s)" "p_status p0 = None"
  shows "\<exists>t. os_trace s = os_trace s0 @ t \<and> process_inv p0 t p"
  using assms(1)
proof (induction "(p, s)" arbitrary: p s rule: rtranclp_induct)
  case base
  then show ?case using assms(2) by (intro exI [of _ "[]"]) (simp add: process_inv_def)
next
  case (step y)
  obtain p1 s1 where y: "y = (p1, s1)" by fastforce
  with step(3) obtain t where "os_trace s1 = os_trace s0 @ t" "process_inv p0 t p1" by blast
  with process_step_inv step(2) y show ?case by blast
qed

text \<open>\<open>Drop\<close>: either the child still runs and nothing is touched, or it is gone and the handle is freed.\<close>

lemma process_drop_run:
  assumes "process_drop p s = (r, s')"
  obtains (running) r0 where "p_status p = None" "r = Ok ()" "r_ret r0 = 0"
      "os_trace s' = os_trace s @ [(ProcC (Proc_exited (p_handle p)), r0)]"
  | (gone) u1 r0 u2 where "r = Ok ()"
      "os_trace s' = os_trace s @ u1 @ (ProcC (Proc_free (p_handle p)), r0) # u2"
      "\<not> freed (p_handle p) u1" "unlinks u1 = []" "no_proc u2" "unlinks u2 = script_unlink (p_script p)"
      "p_status p = None \<Longrightarrow> exit_seen (p_handle p) u1"
proof (cases "p_status p = None \<and> r_ret (reply_of s (ProcC (Proc_exited (p_handle p)))) = 0")
  case True
  with assms show thesis
    by (intro running [of "reply_of s (ProcC (Proc_exited (p_handle p)))"])
      (auto simp: process_drop_def bind_sys_after)
next
  case False
  let ?e = "ProcC (Proc_exited (p_handle p))" and ?f = "ProcC (Proc_free (p_handle p))"
  let ?s1 = "if p_status p = None then after s ?e else s"
  obtain v s2 where v: "remove_script (p_script p) (after ?s1 ?f) = (Ok (), s2)"
    "os_trace s2 = os_trace (after ?s1 ?f) @ v" "unlinks v = script_unlink (p_script p)" "no_proc v"
    using remove_script_run by blast
  have fin: "r = Ok ()" "s' = s2"
    using assms False v(1) by (auto simp: process_drop_def bind_sys_after split: if_splits)
  show thesis
    by (rule gone [of "if p_status p = None then [(?e, reply_of s ?e)] else []" "reply_of ?s1 ?f" v])
      (use fin v False in \<open>simp_all add: exit_seen_def exit_reply_def\<close>)
qed

section \<open>Draining both streams\<close>

text \<open>
  What a pipe that serves \<open>data\<close> still has. In non-blocking mode it may also answer that it is empty for
  now, a bounded number of times; with the patience that is left this bounds the turns of a stream.
\<close>

definition pipe_rest :: "int \<Rightarrow> bytes \<Rightarrow> os \<Rightarrow> bytes" where
  "pipe_rest fh data s = drop (length (pipe_got fh (os_trace s))) data"

fun empties :: "int \<Rightarrow> trace \<Rightarrow> nat" where
  "empties fh [] = 0"
| "empties fh ((PipeC (P_read fh' n), r) # t) = (if fh' = fh \<and> r_ret r = - 2 then 1 else 0) + empties fh t"
| "empties fh (_ # t) = empties fh t"

lemma empties_append [simp]: "empties fh (t @ u) = empties fh t + empties fh u"
  by (induction fh t rule: empties.induct) simp_all

definition pipe_trickles :: "int \<Rightarrow> bytes \<Rightarrow> nat \<Rightarrow> (trace \<Rightarrow> call \<Rightarrow> reply) \<Rightarrow> bool" where
  "pipe_trickles fh data w orc \<longleftrightarrow> (\<forall>t n.
     next_piece data (pipe_got fh t) n (orc t (PipeC (P_read fh n)))
     \<or> r_ret (orc t (PipeC (P_read fh n))) = - 2 \<and> empties fh t < w)"

definition turns :: "int \<Rightarrow> bytes \<Rightarrow> nat \<Rightarrow> bytes \<times> bool \<Rightarrow> os \<Rightarrow> nat" where
  "turns fh data w acc s =
    length (pipe_rest fh data s) + (w - empties fh (os_trace s)) + (if snd acc then 0 else 1)"

lemma pipe_rest_after [simp]:
  "(\<And>n. c \<noteq> PipeC (P_read fh n)) \<Longrightarrow> pipe_rest fh data (after s c) = pipe_rest fh data s"
  by (cases c; (rename_tac p, case_tac p)?) (auto simp: pipe_rest_def stream_simps)

lemma empties_after [simp]:
  "(\<And>n. c \<noteq> PipeC (P_read fh n)) \<Longrightarrow> empties fh (os_trace (after s c)) = empties fh (os_trace s)"
  by (cases c; (rename_tac p, case_tac p)?) auto

lemma pipe_read_trickles:
  assumes "pipe_trickles fh data w (os_oracle s)" "buf \<noteq> []"
  obtains (piece) n buf' where "pipe_read fh buf s = (Ok (n, buf'), after s (PipeC (P_read fh (length buf))))"
      "length buf' = length buf" "n \<le> length buf" "n \<le> length (pipe_rest fh data s)"
      "take n buf' = take n (pipe_rest fh data s)" "n = 0 \<Longrightarrow> pipe_rest fh data s = []"
      "pipe_rest fh data (after s (PipeC (P_read fh (length buf)))) = drop n (pipe_rest fh data s)"
      "empties fh (os_trace (after s (PipeC (P_read fh (length buf))))) = empties fh (os_trace s)"
  | (wait) "pipe_read fh buf s = (Err (SimpleMessage WouldBlock ''pipe is empty''), after s (PipeC (P_read fh (length buf))))"
      "pipe_rest fh data (after s (PipeC (P_read fh (length buf)))) = pipe_rest fh data s"
      "empties fh (os_trace s) < w"
      "empties fh (os_trace (after s (PipeC (P_read fh (length buf))))) = Suc (empties fh (os_trace s))"
proof -
  let ?c = "PipeC (P_read fh (length buf))"
  consider "next_piece data (pipe_got fh (os_trace s)) (length buf) (reply_of s ?c)"
    | "r_ret (reply_of s ?c) = - 2" "empties fh (os_trace s) < w"
    using assms(1) unfolding pipe_trickles_def reply_of_def by blast
  then show thesis
  proof cases
    case 1
    then have k: "0 \<le> r_ret (reply_of s ?c)" "nat (r_ret (reply_of s ?c)) \<le> length buf"
      "nat (r_ret (reply_of s ?c)) \<le> length (pipe_rest fh data s)"
      "r_data (reply_of s ?c) = take (nat (r_ret (reply_of s ?c))) (pipe_rest fh data s)"
      "nat (r_ret (reply_of s ?c)) = 0 \<longrightarrow> length buf = 0 \<or> pipe_rest fh data s = []"
      unfolding next_piece_def Let_def pipe_rest_def by blast+
    show thesis
    proof (rule piece)
      show "pipe_read fh buf s = (Ok (nat (r_ret (reply_of s ?c)), overwrite buf (r_data (reply_of s ?c))), after s ?c)"
        using k(1) by (simp add: pipe_read_run Let_def)
      show "pipe_rest fh data (after s ?c) = drop (nat (r_ret (reply_of s ?c))) (pipe_rest fh data s)"
        using k(1,3,4) by (simp add: pipe_rest_def stream_simps add.commute)
    qed (use k assms(2) in \<open>auto simp: take_overwrite_le\<close>)
  next
    case 2
    show thesis by (rule wait) (use 2 in \<open>simp_all add: pipe_read_run Let_def pipe_rest_def stream_simps\<close>)
  qed
qed

lemma drain_turn_served:
  assumes "pipe_trickles fh data w (os_oracle s)" "chunk \<noteq> []"
    and "snd acc \<Longrightarrow> pipe_rest fh data s = []"
  obtains acc' chunk' p' s' where "drain_turn fh acc chunk p s = (Ok (acc', chunk', p'), s')"
    "os_oracle s' = os_oracle s" "chunk' \<noteq> []"
    "fst acc' @ pipe_rest fh data s' = fst acc @ pipe_rest fh data s"
    "snd acc' \<Longrightarrow> pipe_rest fh data s' = []"
    "turns fh data w acc' s' \<le> turns fh data w acc s - (if snd acc then 0 else 1)"
    "\<And>fh' d. fh' \<noteq> fh \<Longrightarrow> pipe_rest fh' d s' = pipe_rest fh' d s \<and> empties fh' (os_trace s') = empties fh' (os_trace s)"
proof (cases "snd acc")
  case True
  with assms show thesis
    by (cases acc) (intro that [of acc chunk p s], simp_all add: drain_turn_def)
next
  case False
  let ?s' = "after s (PipeC (P_read fh (length chunk)))"
  obtain buf where acc: "acc = (buf, False)" using False by (cases acc) simp
  from assms(1,2) show thesis
  proof (cases rule: pipe_read_trickles)
    case (piece n chunk')
    have c: "chunk' \<noteq> []" using piece(2) assms(2) by auto
    show thesis
    proof (cases "n = 0")
      case True
      with piece acc c show thesis
        by (intro that [of "(buf, True)" chunk' p ?s'])
          (simp_all add: drain_turn_def io_bind_def io_attempt_def turns_def)
    next
      case n: False
      with piece acc c show thesis
        by (intro that [of "(buf @ take n chunk', False)" chunk' True ?s'])
          (auto simp: drain_turn_def io_bind_def io_attempt_def turns_def)
    qed
  next
    case wait
    with acc assms(2) show thesis
      by (intro that [of "(buf, False)" chunk p ?s'])
        (simp_all add: drain_turn_def io_bind_def io_attempt_def turns_def error_kind_of_def)
  qed
qed

lemma drain_loop_served:
  assumes "pipe_trickles out od w (os_oracle s)" "pipe_trickles err ed w' (os_oracle s)" "out \<noteq> err" "chunk \<noteq> []"
    and "snd oa \<Longrightarrow> pipe_rest out od s = []" "snd ea \<Longrightarrow> pipe_rest err ed s = []"
    and "turns out od w oa s + turns err ed w' ea s < fuel"
  shows "\<exists>s'. drain_loop fuel out err oa ea chunk s
    = (Ok (fst oa @ pipe_rest out od s, fst ea @ pipe_rest err ed s), s')"
  using assms
proof (induction fuel arbitrary: oa ea chunk s)
  case (Suc fuel)
  show ?case
  proof (cases "snd oa \<and> snd ea")
    case True
    with Suc.prems(5,6) show ?thesis by simp
  next
    case False
    obtain oa' c1 p1 s1 where t1: "drain_turn out oa chunk False s = (Ok (oa', c1, p1), s1)"
      "os_oracle s1 = os_oracle s" "c1 \<noteq> []" "fst oa' @ pipe_rest out od s1 = fst oa @ pipe_rest out od s"
      "snd oa' \<Longrightarrow> pipe_rest out od s1 = []"
      "turns out od w oa' s1 \<le> turns out od w oa s - (if snd oa then 0 else 1)"
      "\<And>fh' d. fh' \<noteq> out \<Longrightarrow> pipe_rest fh' d s1 = pipe_rest fh' d s \<and> empties fh' (os_trace s1) = empties fh' (os_trace s)"
      using drain_turn_served [OF Suc.prems(1,4,5), where p = False] by metis
    have e1: "pipe_trickles err ed w' (os_oracle s1)" "snd ea \<Longrightarrow> pipe_rest err ed s1 = []"
      "pipe_rest err ed s1 = pipe_rest err ed s" "turns err ed w' ea s1 = turns err ed w' ea s"
      using Suc.prems(2,3,6) t1(2,7) by (auto simp: turns_def)
    obtain ea' c2 p2 s2 where t2: "drain_turn err ea c1 p1 s1 = (Ok (ea', c2, p2), s2)"
      "os_oracle s2 = os_oracle s1" "c2 \<noteq> []" "fst ea' @ pipe_rest err ed s2 = fst ea @ pipe_rest err ed s1"
      "snd ea' \<Longrightarrow> pipe_rest err ed s2 = []"
      "turns err ed w' ea' s2 \<le> turns err ed w' ea s1 - (if snd ea then 0 else 1)"
      "\<And>fh' d. fh' \<noteq> err \<Longrightarrow> pipe_rest fh' d s2 = pipe_rest fh' d s1 \<and> empties fh' (os_trace s2) = empties fh' (os_trace s1)"
      using drain_turn_served [OF e1(1) t1(3) e1(2), where p = p1] by metis
    define s3 where "s3 = (if \<not> p2 \<and> \<not> (snd oa' \<and> snd ea') then after s2 (ThrC Thr_yield) else s2)"
    have run: "drain_loop (Suc fuel) out err oa ea chunk s = drain_loop fuel out err oa' ea' c2 s3"
      using False t1(1) t2(1) by (auto simp: io_bind_Ok yield_now_def bind_sys_after s3_def)
    have rest: "pipe_rest out od s3 = pipe_rest out od s1" "pipe_rest err ed s3 = pipe_rest err ed s2"
      "os_oracle s3 = os_oracle s" "turns out od w oa' s3 = turns out od w oa' s1"
      "turns err ed w' ea' s3 = turns err ed w' ea' s2"
      using t2(2,7) Suc.prems(3) t1(2) by (simp_all add: s3_def turns_def)
    have "turns out od w oa' s3 + turns err ed w' ea' s3 < fuel"
      using Suc.prems(7) t1(6) t2(6) False unfolding rest e1(4) by (auto simp: turns_def split: if_splits)
    then have "\<exists>s'. drain_loop fuel out err oa' ea' c2 s3
        = (Ok (fst oa' @ pipe_rest out od s3, fst ea' @ pipe_rest err ed s3), s')"
      using Suc.prems(1-3) t1(5) t2(3,5) by (intro Suc.IH) (simp_all add: rest)
    then show ?thesis using run t1(4) t2(4) e1(3) by (simp add: rest)
  qed
qed simp

lemma process_wait_Ok:
  assumes "p_status p = None" "gone_after (p_handle p) n code (os_oracle s)"
    and "n < fuel + naps (os_trace s)" "0 < fuel" "0 \<le> r_ret (reply_of s (ProcC Sig_alloc))"
  shows "\<exists>x s'. process_wait fuel p s = (Ok x, s')"
proof -
  let ?s2 = "after (after s (ProcC Sig_alloc)) (ProcC Task_self)"
  let ?m = "push_bit (nat (r_ret (reply_of s (ProcC Sig_alloc))) mod 32) 1"
  obtain w s3 where w: "wait_loop fuel (p_handle p) (r_ret (reply_of (after s (ProcC Sig_alloc)) (ProcC Task_self)))
      ?m 0 ?s2 = (w, s3)" by fastforce
  have "fst (wait_loop fuel (p_handle p) me ?m 0 ?s2) \<noteq> Hang" for me
    by (rule wait_loop_returns [of _ n code]) (use assms(2-4) in simp_all)
  then have "w \<noteq> Hang" using w by (metis fst_conv)
  with wait_loop_trace [OF w] obtain c where c: "w = Ok c" by blast
  have "\<exists>c' s''. process_wait fuel p s = reap p c' s''"
    unfolding process_wait_signal [OF assms(1,5)] io_bind_def [of "wait_loop _ _ _ _ _"] w c
    by (simp add: bind_sys_after) blast
  then obtain c' s'' where "process_wait fuel p s = reap p c' s''" by blast
  moreover obtain x s4 where "reap p c' s'' = (Ok x, s4)" using reap_run [of p c' s''] by metis
  ultimately show ?thesis by auto
qed

section \<open>Properties\<close>

text \<open>
  C15: The quoting keeps words and lines apart. Take any shell that reads quoted items the way the code
  documents, and words that are safe for it: those with a space, a tab, a line break, a quote or a star,
  the empty one, and those all of whose characters the shell takes as they are. It reads the command line
  back as the program and its arguments, the line holds no line break, and it reads the script for a
  command with environment changes, line by line, as the change of directory, one \<open>Set\<close> or \<open>Unset\<close> per
  variable, and the command. (The words are those of \<open>to_string_lossy\<close>: a name that is not UTF-8 has its
  invalid parts replaced. A word with another character special to the shell, such as \<open>>\<close>, is not safe.)
\<close>

theorem command_text_reads_back:
  assumes "shell_contract plain shell" "list_all (list_all (word_safe plain)) (script_words cmd)"
  shows "shell (command_line cmd) = command_words cmd
   \<and> 10 \<notin> set (command_line cmd)
   \<and> map shell (split_on 10 (script_text cmd)) = script_words cmd @ [[]]"
proof -
  have "list_all (word_safe plain) (command_words cmd)" using assms(2) by (simp add: script_words_def)
  then show ?thesis
    using shell_join [OF assms(1)] split_as_lines [OF assms(1,2)]
    by (simp add: command_line_words script_text_lines)
qed

text \<open>An argument with a space and a redirection in it, one with a star, one with a line break.\<close>

definition quoting_command :: command where
  "quoting_command = (command_new (ascii ''C:List''))
    \<lparr>cmd_args := [ascii ''C:List'', ascii ''a >b'', ascii ''*'', [120, 10], []], cmd_cwd := Some (ascii ''Work:'')\<rparr>"

lemma quoting_command_words:
  "command_words quoting_command = [chars ''C:List'', chars ''a >b'', chars ''*'', [120, 10], []]"
  "script_words quoting_command = [[chars ''CD'', chars ''Work:''], command_words quoting_command]"
  by code_simp+

theorem command_text_reads_back_witness:
  "sample_shell (command_line quoting_command) = [chars ''C:List'', chars ''a >b'', chars ''*'', [120, 10], []]
   \<and> map sample_shell (split_on 10 (script_text quoting_command)) =
      [[chars ''CD'', chars ''Work:''], [chars ''C:List'', chars ''a >b'', chars ''*'', [120, 10], []], []]"
proof -
  have "list_all (list_all (word_safe sample_plain)) (script_words quoting_command)"
    unfolding quoting_command_words by code_simp
  from command_text_reads_back [OF sample_shell_contract this] show ?thesis
    by (simp only: quoting_command_words append.simps simp_thms)
qed

text \<open>
  C17: \<open>wait\<close> on a running child that is gone after at most \<open>n\<close> wake-ups returns, with the child's
  exit code, and the process is then marked reaped. Before every sleep it has registered as the
  waiter and then seen the child still running, so that no exit is slept through; it clears the
  registration before it frees the signal, and it frees the signal it allocated.
\<close>

theorem wait_returns_exit_code:
  assumes "p_status p = None" "gone_after (p_handle p) n code (os_oracle s)"
    and "n < fuel + naps (os_trace s)" "0 < fuel" "0 \<le> r_ret (reply_of s (ProcC Sig_alloc))"
  shows "\<exists>s' rb rm t u r1 r2 r3 v.
      process_wait fuel p s = (Ok (ExitStatus (of_int code),
        p\<lparr>p_status := Some (ExitStatus (of_int code)), p_script := None\<rparr>), s')
    \<and> os_trace s' = os_trace s @ [(ProcC Sig_alloc, rb), (ProcC Task_self, rm)] @ t @ u
         @ [(ProcC (Proc_set_waiter (p_handle p) 0 0), r1), (ProcC (Sig_free (r_ret rb)), r2),
            (ProcC (Proc_exited (p_handle p)), r3)] @ v
    \<and> sleeps (p_handle p) (r_ret rm) (push_bit (nat (r_ret rb) mod 32) 1) t
    \<and> found_gone (p_handle p) (r_ret rm) (push_bit (nat (r_ret rb) mod 32) 1) u"
proof -
  obtain x s' where run: "process_wait fuel p s = (Ok x, s')" using process_wait_Ok [OF assms] by blast
  have "Ok x \<noteq> Hang" by simp
  from run this assms(1) show ?thesis
  proof (cases rule: process_wait_run)
    case (no_signal rb)
    with assms(5) show ?thesis by simp
  next
    case (waited rb rm t u r1 r2 r3 v st)
    have "exit_seen (p_handle p) (os_trace s @ [(ProcC Sig_alloc, rb), (ProcC Task_self, rm)] @ t @ u
         @ [(ProcC (Proc_set_waiter (p_handle p) 0 0), r1), (ProcC (Sig_free (r_ret rb)), r2)])"
      using found_gone_seen [OF waited(4)] by simp
    then have "r_ret r3 \<noteq> 0" "r_outs r3 = [code]"
      using assms(2) waited(10) by (simp_all add: gone_after_def)
    then have "st = ExitStatus (of_int code)" using waited(8) by (auto simp: out_param_def)
    with run waited(2-5) show ?thesis by blast
  qed
qed

text \<open>A child that exits with code 5 after two wake-ups.\<close>

definition child_oracle :: "trace \<Rightarrow> call \<Rightarrow> reply" where
  "child_oracle t c = (case c of
      ProcC Sig_alloc \<Rightarrow> ret 17
    | ProcC (Proc_exited h) \<Rightarrow> if 2 \<le> naps t \<or> exit_seen h t then ret_outs 1 [5] else ret 0
    | _ \<Rightarrow> ret 0)"

definition child :: "path option \<Rightarrow> process" where
  "child script = \<lparr>p_handle = 64, p_status = None, p_script = script\<rparr>"

theorem wait_returns_exit_code_witness:
  "\<exists>s'. process_wait 3 (child None) (boot child_oracle)
     = (Ok (ExitStatus 5, (child None)\<lparr>p_status := Some (ExitStatus 5), p_script := None\<rparr>), s')"
proof -
  have "p_status (child None) = None" "(2::nat) < 3 + naps (os_trace (boot child_oracle))" "(0::nat) < 3"
    "0 \<le> r_ret (reply_of (boot child_oracle) (ProcC Sig_alloc))"
    by (simp_all add: child_def reply_of_def child_oracle_def)
  moreover have "gone_after (p_handle (child None)) 2 5 (os_oracle (boot child_oracle))"
    by (auto simp: gone_after_def child_oracle_def)
  ultimately show ?thesis using wait_returns_exit_code [of "child None" 2 5 "boot child_oracle" 3] by auto
qed

text \<open>
  C16: A process handle is freed only after the child is gone. In every life of a process, whatever
  sequence of \<open>kill\<close>, \<open>wait\<close> and \<open>try_wait\<close> precedes its drop, nothing but the drop frees the handle, and
  the drop does one of two things. If the process has no status and the glue says the child still runs,
  the drop makes no other call: the handle is leaked, and the script is left on disk. Otherwise the handle
  is freed once, after the glue has reported the child gone, and in the whole life the script has been
  deleted exactly once. Before the drop, a process without a status still has its script on disk, and one
  with a status has had it deleted.
\<close>

theorem process_freed_after_exit:
  assumes "process_step\<^sup>*\<^sup>* (p0, s0) (p, s)" "p_status p0 = None" "process_drop p s = (r, s')"
  shows "\<exists>t u. os_trace s = os_trace s0 @ t \<and> os_trace s' = os_trace s @ u
    \<and> \<not> freed (p_handle p0) t
    \<and> unlinks t = (if p_status p = None then [] else script_unlink (p_script p0))
    \<and> (p_status p = None \<and> unlinks (t @ u) = []
         \<and> (\<exists>r0. r_ret r0 = 0 \<and> u = [(ProcC (Proc_exited (p_handle p0)), r0)])
       \<or> (\<exists>u1 r0 u2. u = u1 @ (ProcC (Proc_free (p_handle p0)), r0) # u2 \<and> \<not> freed (p_handle p0) (u1 @ u2)
            \<and> exit_seen (p_handle p0) (t @ u1) \<and> unlinks (t @ u) = script_unlink (p_script p0)))"
proof -
  obtain t where t: "os_trace s = os_trace s0 @ t" "process_inv p0 t p"
    using process_reachable_inv [OF assms(1,2)] by blast
  have h: "p_handle p = p_handle p0" "\<not> freed (p_handle p0) t"
    "unlinks t = (if p_status p = None then [] else script_unlink (p_script p0))"
    using t(2) by (auto simp: process_inv_def split: option.splits)
  from assms(3) show ?thesis
  proof (cases rule: process_drop_run)
    case (running r0)
    have "unlinks [(ProcC (Proc_exited (p_handle p0)), r0)] = []" by (simp add: unlinks_def)
    with running t(1) h show ?thesis by auto
  next
    case (gone u1 r0 u2)
    let ?u = "u1 @ (ProcC (Proc_free (p_handle p0)), r0) # u2"
    have "unlinks (t @ ?u) = script_unlink (p_script p0)" "exit_seen (p_handle p0) (t @ u1)"
      using t(2) gone(4,6,7) h by (auto simp: process_inv_def script_unlink_def split: option.splits)
    moreover have "\<not> freed (p_handle p0) (u1 @ u2)"
      using gone(3,5) h(1) no_proc_freed [of u2] by simp
    ultimately show ?thesis using t(1) h gone(2) by metis
  qed
qed

text \<open>
  A child with a script: it is asked for its status while it runs, interrupted, waited for, and dropped.
\<close>

lemma child_oracle_gone: "gone_after 64 2 5 child_oracle"
  by (auto simp: gone_after_def child_oracle_def)

lemma child_life:
  obtains s st where "process_step\<^sup>*\<^sup>* (child (Some f), boot child_oracle)
    ((child (Some f))\<lparr>p_status := Some st, p_script := None\<rparr>, s)"
proof -
  let ?p = "child (Some f)"
  define s1 where "s1 = after (boot child_oracle) (ProcC (Proc_exited 64))"
  define s2 where "s2 = after s1 (ProcC (Proc_interrupt 64))"
  have st: "p_status ?p = None" "p_handle ?p = 64" by (simp_all add: child_def)
  have "process_try_wait ?p (boot child_oracle) = (Ok (None, ?p), s1)"
    using st by (simp add: process_try_wait_def bind_sys_after reply_of_def child_oracle_def exit_seen_def s1_def)
  then have step1: "process_step (?p, boot child_oracle) (?p, s1)" by (rule step_try)
  have "process_kill ?p s1 = (Ok ?p, s2)" using st by (simp add: process_kill_def bind_sys_after s2_def)
  then have step2: "process_step (?p, s1) (?p, s2)" by (rule step_kill)
  have sig: "0 \<le> r_ret (reply_of s2 (ProcC Sig_alloc))" "os_oracle s2 = child_oracle"
    by (simp_all add: s2_def s1_def reply_of_def child_oracle_def)
  obtain x s3 where run: "process_wait 3 ?p s2 = (Ok x, s3)"
    using process_wait_Ok [of ?p 2 5 s2 3] st sig child_oracle_gone by auto
  have "Ok x \<noteq> Hang" by simp
  from run this st(1) obtain y where "x = (y, ?p\<lparr>p_status := Some y, p_script := None\<rparr>)"
    by (cases rule: process_wait_run) auto
  with run have step3: "process_step (?p, s2) (?p\<lparr>p_status := Some y, p_script := None\<rparr>, s3)"
    using step_wait by blast
  have "process_step\<^sup>*\<^sup>* (?p, boot child_oracle) (?p\<lparr>p_status := Some y, p_script := None\<rparr>, s3)"
    using step1 step2 step3 rtranclp.rtrancl_refl [of process_step] rtranclp.rtrancl_into_rtrancl [of process_step]
    by blast
  then show thesis by (rule that)
qed

lemma child_script: "script_unlink (p_script (child (Some (ascii ''MacRW:x'')))) = [ascii ''MacRW:x'']"
  by code_simp

theorem process_freed_after_exit_witness:
  "\<exists>p s. process_step\<^sup>*\<^sup>* (child (Some (ascii ''MacRW:x'')), boot child_oracle) (p, s)
    \<and> (let t = os_trace (snd (process_drop p s))
       in freed 64 t \<and> exit_seen 64 t \<and> unlinks t = [ascii ''MacRW:x''])"
proof -
  let ?start = "child (Some (ascii ''MacRW:x''))"
  obtain s st where life: "process_step\<^sup>*\<^sup>* (?start, boot child_oracle) (?start\<lparr>p_status := Some st, p_script := None\<rparr>, s)"
    by (rule child_life)
  let ?p = "?start\<lparr>p_status := Some st, p_script := None\<rparr>"
  obtain r s' where drop: "process_drop ?p s = (r, s')" by fastforce
  have h: "p_handle ?start = 64" "p_status ?start = None" "p_status ?p \<noteq> None" by (simp_all add: child_def)
  from process_freed_after_exit [OF life h(2) drop] obtain t u u1 r0 u2
    where t: "os_trace s = t" "os_trace s' = t @ u" "u = u1 @ (ProcC (Proc_free 64), r0) # u2"
      "exit_seen 64 (t @ u1)" "unlinks (t @ u) = [ascii ''MacRW:x'']"
    unfolding h(1) child_script using h(3) by auto
  then have "freed 64 (t @ u)" "exit_seen 64 (t @ u)" by (auto simp: freed_def exit_seen_def)
  with life t(2,5) drop show ?thesis by (intro exI [of _ ?p] exI [of _ s]) (simp add: Let_def)
qed

text \<open>
  C18: draining two different pipes in non-blocking mode returns everything each of them still has, in
  order, behind what the buffers held; the bytes of the two streams do not mix, however the pipes cut
  them into pieces and however often, a bounded number of times, either of them is empty for now.
\<close>

theorem read_output_complete:
  assumes "pipe_trickles out od w (os_oracle s)" "pipe_trickles err ed w' (os_oracle s)" "out \<noteq> err"
    and "length (pipe_rest out od s) + length (pipe_rest err ed s) + w + w' + 2 < fuel"
  shows "\<exists>s'. read_output fuel out stdout err stderr s
    = (Ok (stdout @ pipe_rest out od s, stderr @ pipe_rest err ed s), s')"
proof -
  let ?s1 = "after s (PipeC (P_set_nonblock out 1))"
  let ?s2 = "after ?s1 (PipeC (P_set_nonblock err 1))"
  have nb: "io_ignore (pipe_set_nonblocking fh True) s = (Ok (), after s (PipeC (P_set_nonblock fh 1)))" for fh s
    by (simp add: io_ignore_def pipe_set_nonblocking_def io_attempt_bind_sys io_bind_def io_attempt_def sys_def after_def reply_of_def Let_def)
  have "turns out od w (stdout, False) ?s2 + turns err ed w' (stderr, False) ?s2 < fuel"
    using assms(4) by (simp add: turns_def)
  then obtain s3 where "drain_loop fuel out err (stdout, False) (stderr, False) (replicate 4096 0) ?s2
      = (Ok (stdout @ pipe_rest out od ?s2, stderr @ pipe_rest err ed ?s2), s3)"
    using drain_loop_served [of out od w ?s2 err ed w' "replicate 4096 0" "(stdout, False)" "(stderr, False)" fuel] assms(1-3)
    by auto
  then show ?thesis
    by (simp add: read_output_def io_finally_def io_attempt_def io_bind_def nb pipe_drop_def sys_def Let_def)
qed

definition two_pipes :: "trace \<Rightarrow> call \<Rightarrow> reply" where
  "two_pipes t c = (case c of
      PipeC (P_read fh n) \<Rightarrow>
        if fh = 8 then (if empties 8 t < 2 then ret (- 2) else serve [1, 2, 3] (pipe_got 8 t) n)
        else if fh = 9 then serve [7] (pipe_got 9 t) n else ret 0
    | _ \<Rightarrow> ret 0)"

theorem read_output_complete_witness:
  "\<exists>s'. read_output 9 8 [] 9 [] (boot two_pipes) = (Ok ([1, 2, 3], [7]), s')"
proof -
  have "pipe_trickles 8 [1, 2, 3] 2 two_pipes" "pipe_trickles 9 [7] 0 two_pipes"
    by (auto simp: pipe_trickles_def next_piece_def two_pipes_def serve_def Let_def min_def)
  then show ?thesis using read_output_complete [of 8 "[1, 2, 3]" 2 "boot two_pipes" 9 "[7]" 0 9 "[]" "[]"]
    by (simp add: pipe_rest_def)
qed

end
