(* ===== verification/Process_Spawn.thy ===== *)
theory Process_Spawn
  imports Process_Aros
begin

text \<open>
  What spawning a child leaves behind: the script that carries the environment is written in full
  and belongs to the process, or is removed; and the order in which \<open>output\<close> lets go of the child's
  streams.
\<close>

section \<open>The script on disk\<close>

definition opens :: "int \<Rightarrow> (trace \<Rightarrow> call \<Rightarrow> reply) \<Rightarrow> bool" where
  "opens fd orc \<longleftrightarrow> 0 \<le> fd \<and> (\<forall>t c f m. r_ret (orc t (FsC (C_open c f m))) = fd)"

lemma script_path_cstr: "\<exists>c. cstr (script_path n) = Inr c"
proof -
  have "0 \<notin> set (script_path n)"
    using radix_bytes_not_nul [of 10 "unat n"]
    by (auto simp: script_path_def ascii_dec_string [symmetric] ascii_def)
  then show ?thesis using cstr_Inl [of "script_path n"] by (cases "cstr (script_path n)") auto
qed

lemma write_script_loop_run:
  "file_accepts fd (os_oracle s) \<Longrightarrow> length data - off < fuel \<Longrightarrow>
   \<exists>s'. write_script_loop fd data fuel off s = (Ok (), s') \<and> os_oracle s' = os_oracle s
     \<and> script_seq s' = script_seq s
     \<and> fd_sent fd (os_trace s') = fd_sent fd (os_trace s) @ drop off data"
proof (induction fuel arbitrary: off s)
  case (Suc fuel)
  show ?case
  proof (cases "off < length data")
    case True
    let ?b = "drop off data"
    let ?c = "FsC (C_write fd ?b)"
    let ?n = "nat (r_ret (reply_of s ?c))"
    have n: "0 < r_ret (reply_of s ?c)" "r_ret (reply_of s ?c) \<le> int (length ?b)"
      using file_acceptsD [OF Suc.prems(1), of ?b "os_trace s"] True by (simp_all add: reply_of_def)
    then have "length data - (off + ?n) < fuel" using Suc.prems(2) True by linarith
    moreover have "file_accepts fd (os_oracle (after s ?c))" using Suc.prems(1) by simp
    ultimately obtain s' where "write_script_loop fd data fuel (off + ?n) (after s ?c) = (Ok (), s')"
      "os_oracle s' = os_oracle s" "script_seq s' = script_seq (after s ?c)"
      "fd_sent fd (os_trace s') = fd_sent fd (os_trace (after s ?c)) @ drop (off + ?n) data"
      using Suc.IH [of "after s ?c" "off + ?n"] by auto
    moreover have "file_write fd ?b s = (Ok ?n, after s ?c)" using n by (simp add: file_write_run Let_def)
    moreover have "take ?n ?b @ drop (off + ?n) data = ?b"
      by (metis add.commute append_take_drop_id drop_drop)
    ultimately show ?thesis
      using True n by (simp add: io_bind_Ok stream_simps after_def)
  qed simp
qed simp

text \<open>With environment changes and a command: the script is written and its execution is the line.\<close>

lemma resolve_line_script:
  assumes "ce_vars (cmd_env cmd) \<noteq> []" "command_line cmd \<noteq> []"
    and "opens fd (os_oracle s)" "file_accepts fd (os_oracle s)"
  shows "\<exists>s'. resolve_line cmd s
       = (Ok (chars ''Execute '' @ str_chars (script_path (script_seq s)), Some (script_path (script_seq s))), s')
     \<and> script_seq s' = script_seq s + 1
     \<and> fd_sent fd (os_trace s') = fd_sent fd (os_trace s) @ utf8_bytes (script_text cmd)
     \<and> (\<exists>r. last (os_trace s') = (FsC (C_close fd), r))"
proof -
  let ?q = "script_path (script_seq s)" and ?d = "utf8_bytes (script_text cmd)"
  let ?o = "open_options_new\<lparr>oo_write := True, oo_create := True, oo_truncate := True\<rparr>"
  let ?s0 = "s\<lparr>script_seq := script_seq s + 1\<rparr>"
  obtain c where c: "cstr ?q = Inr c" using script_path_cstr by blast
  obtain f where f: "open_flags ?o = Inr f"
    by (simp add: open_flags_def open_options_new_def open_creation_def Let_def)
  let ?co = "FsC (C_open c f 0x1B6)"
  have op: "file_open ?q ?o ?s0 = (Ok fd, after ?s0 ?co)"
    using assms(3) by (simp add: file_open_def with_cstr_Inr [OF c] f bind_sys_after opens_def reply_of_def)
  obtain s1 where s1: "write_script_loop fd ?d (Suc (length ?d)) 0 (after ?s0 ?co) = (Ok (), s1)"
    "script_seq s1 = script_seq s + 1"
    "fd_sent fd (os_trace s1) = fd_sent fd (os_trace s) @ ?d"
    using write_script_loop_run [of fd "after ?s0 ?co" ?d 0 "Suc (length ?d)"] assms(4)
    by (auto simp: stream_simps after_def)
  have "write_script ?q ?d ?s0 = (Ok (), after s1 (FsC (C_close fd)))"
    using op s1(1) by (simp add: write_script_def Let_def io_bind_Ok io_finally_def io_attempt_def io_bind_def
        file_drop_def bind_sys_after sys_def after_def reply_of_def del: write_script_loop.simps)
  then show ?thesis
    using assms(1,2) s1(2,3)
    by (simp add: resolve_line_def next_script_def Let_def io_bind_def stream_simps after_def)
qed

lemma resolve_line_Some: "resolve_line cmd s = (Ok (line, Some q), s1) \<Longrightarrow> line \<noteq> []"
  by (auto simp: resolve_line_def Let_def next_script_def io_bind_def split: if_splits prod.splits outcome.splits)

section \<open>Properties\<close>

text \<open>
  a command with environment changes is handed to the shell as the execution of a script; on an
  operating system that opens the file and takes the writes, in pieces of any size, exactly the
  script text has been written, the file is closed, and the next command gets another number.
\<close>

lemma script_written_in_full:
  assumes "ce_vars (cmd_env cmd) \<noteq> []" "command_line cmd \<noteq> []"
    and "opens fd (os_oracle s)" "file_accepts fd (os_oracle s)"
  shows "\<exists>s' r. resolve_line cmd s
       = (Ok (chars ''Execute '' @ str_chars (script_path (script_seq s)), Some (script_path (script_seq s))), s')
     \<and> fd_sent fd (os_trace s') = fd_sent fd (os_trace s) @ utf8_bytes (script_text cmd)
     \<and> last (os_trace s') = (FsC (C_close fd), r) \<and> script_seq s' = script_seq s + 1"
  using resolve_line_script [OF assms] by blast

definition env_command :: "bytes option \<Rightarrow> command" where
  "env_command dir = (command_new [100])\<lparr>cmd_env := env_set [65] [66] command_env_default, cmd_cwd := dir\<rparr>"

lemma command_line_Nil: "command_line cmd = [] \<longleftrightarrow> command_words cmd = []"
  by (simp add: command_line_words join_quoted_Nil)

lemma env_command_script: "ce_vars (cmd_env (env_command d)) \<noteq> []" "command_line (env_command d) \<noteq> []"
  by (simp_all add: env_command_def env_set_def command_env_default_def Let_def command_new_def
      command_line_Nil command_words_def)

lemma serve_oracle_opens: "opens 0 (serve_oracle 7 d)"
  by (simp add: opens_def serve_oracle_def)

theorem script_written_in_full_witness:
  "case resolve_line (env_command None) (boot (serve_oracle 7 [])) of (r, s') \<Rightarrow>
     r = Ok (chars ''Execute '' @ str_chars (script_path 0), Some (script_path 0))
   \<and> fd_sent 0 (os_trace s') = utf8_bytes (script_text (env_command None))"
  using script_written_in_full [OF env_command_script, of 0 "boot (serve_oracle 7 [])" None]
  by (auto simp: serve_oracle_opens serve_oracle_serves)

text \<open>
  C19: the fate of the script once it is on disk. If the glue cannot start the child, the script is
  removed and the error reported; if it can, the script belongs to the returned process, which
  removes it when it is reaped. But if the working directory cannot be made a C string, \<open>spawn\<close>
  returns with the script left behind: nothing removes it.
\<close>

theorem spawn_script_fate:
  assumes "resolve_line cmd s = (Ok (line, Some q), s1)" "proc_cstr line = Inr line_c"
  shows "(spawn_cwd cmd s1 = (Err e, s1) \<longrightarrow> spawn cmd d ns s = (Err e, s1))
    \<and> (spawn_cwd cmd s1 = (Ok cwd_c, s1) \<longrightarrow> (\<exists>c r t s' res. spawn cmd d ns s = (res, s')
      \<and> os_trace s' = os_trace s1 @ (ProcC c, r) # t
      \<and> (if r_ret r = 0 then (\<exists>e. res = Err e) \<and> unlinks t = script_unlink (Some q)
          else t = [] \<and> (\<exists>pipes. res = Ok (\<lparr>p_handle = r_ret r, p_status = None, p_script = Some q\<rparr>, pipes)))))"
proof (intro conjI impI)
  note line = resolve_line_Some [OF assms(1)]
  assume "spawn_cwd cmd s1 = (Err e, s1)"
  then show "spawn cmd d ns s = (Err e, s1)"
    using assms by (simp add: spawn_def io_bind_Ok io_bind_Err Let_def)
next
  note line = resolve_line_Some [OF assms(1)]
  assume cwd: "spawn_cwd cmd s1 = (Ok cwd_c, s1)"
  let ?im = "disposition (Some (stdio_or (cmd_stdin cmd) (if ns then d else Stdio_Null)))"
    and ?om = "disposition (Some (stdio_or (cmd_stdout cmd) d))"
    and ?em = "disposition (Some (stdio_or (cmd_stderr cmd) d))"
  have run: "spawn cmd d ns s = (let c = ProcC (Proc_spawn line_c ?im ?om ?em 0 cwd_c);
      r = reply_of s1 c in if r_ret r = 0 then io_bind (remove_script (Some q)) (\<lambda>_. io_bind spawn_error io_fail) (after s1 c)
      else (Ok (\<lparr>p_handle = r_ret r, p_status = None, p_script = Some q\<rparr>,
        \<lparr>sp_stdin = pipe_slot (out_param 0 0 r), sp_stdout = pipe_slot (out_param 1 0 r),
         sp_stderr = pipe_slot (out_param 2 0 r)\<rparr>), after s1 c))"
    using assms cwd line
    by (cases "r_ret (reply_of s1 (ProcC (Proc_spawn line_c ?im ?om ?em 0 cwd_c))) = 0")
      (simp_all add: spawn_def io_bind_Ok bind_sys_after Let_def pipe_slot_def)
  let ?c = "Proc_spawn line_c ?im ?om ?em 0 cwd_c"
  show "\<exists>c r t s' res. spawn cmd d ns s = (res, s') \<and> os_trace s' = os_trace s1 @ (ProcC c, r) # t
      \<and> (if r_ret r = 0 then (\<exists>e. res = Err e) \<and> unlinks t = script_unlink (Some q)
          else t = [] \<and> (\<exists>pipes. res = Ok (\<lparr>p_handle = r_ret r, p_status = None, p_script = Some q\<rparr>, pipes)))"
  proof (cases "r_ret (reply_of s1 (ProcC ?c)) = 0")
    case False
    then show ?thesis unfolding run
      by (intro exI [of _ ?c] exI [of _ "reply_of s1 (ProcC ?c)"] exI [of _ "[]"]) (simp add: Let_def)
  next
    case True
    obtain t s2 where t: "remove_script (Some q) (after s1 (ProcC ?c)) = (Ok (), s2)"
      "os_trace s2 = os_trace (after s1 (ProcC ?c)) @ t" "unlinks t = script_unlink (Some q)"
      using remove_script_run by blast
    let ?f = "ProcC Proc_last_fail"
    have "\<exists>e. spawn cmd d ns s = (Err e, after s2 ?f)"
      unfolding run using True t(1) by (simp add: Let_def io_bind_Ok spawn_error_def bind_sys_after)
    with t(2,3) True show ?thesis
      by (intro exI [of _ ?c] exI [of _ "reply_of s1 (ProcC ?c)"] exI [of _ "t @ [(?f, reply_of s2 ?f)]"]) auto
  qed
qed

theorem spawn_script_fate_witness:
  "case spawn (env_command (Some [0])) MakePipe True (boot (serve_oracle 7 [])) of (r, s') \<Rightarrow>
     r = Err (SimpleMessage InvalidInput ''command contains a NUL byte'')
   \<and> fd_sent 0 (os_trace s') = utf8_bytes (script_text (env_command (Some [0])))"
proof -
  let ?cmd = "env_command (Some [0])" and ?s = "boot (serve_oracle 7 [])"
  obtain s1 where s1: "resolve_line ?cmd ?s
      = (Ok (chars ''Execute '' @ str_chars (script_path 0), Some (script_path 0)), s1)"
    "fd_sent 0 (os_trace s1) = utf8_bytes (script_text ?cmd)"
    using resolve_line_script [OF env_command_script, of 0 ?s "Some [0]"]
    by (auto simp: serve_oracle_opens serve_oracle_serves)
  have "case proc_cstr (chars ''Execute '' @ str_chars (script_path 0)) of Inr c \<Rightarrow> True | Inl _ \<Rightarrow> False"
    by code_simp
  then obtain c where c: "proc_cstr (chars ''Execute '' @ str_chars (script_path 0)) = Inr c"
    by (auto split: sum.splits)
  have "proc_cstr (to_string_lossy [0]) = Inl (SimpleMessage InvalidInput ''command contains a NUL byte'')"
    by code_simp
  then have "spawn_cwd ?cmd s1 = (Err (SimpleMessage InvalidInput ''command contains a NUL byte''), s1)"
    by (simp add: spawn_cwd_def env_command_def)
  from spawn_script_fate [OF s1(1) c, of "SimpleMessage InvalidInput ''command contains a NUL byte''"] this s1(2) show ?thesis by simp
qed

section \<open>The order in which output lets go\<close>

text \<open>No call of an action closes the pipe endpoint \<open>h\<close>.\<close>

abbreviation keeps_pipe :: "int \<Rightarrow> call \<Rightarrow> bool" where
  "keeps_pipe h c \<equiv> c \<noteq> PipeC (P_close h)"

lemma keeps_pipe_read: "io_calls (keeps_pipe h) (pipe_read fh b)"
  unfolding pipe_read_def by (intro calls_intros) simp_all

lemma keeps_read_to_end_loop: "io_calls (keeps_pipe h) (read_to_end_loop (pipe_read fh) fuel chunk buf)"
proof (induction fuel arbitrary: chunk buf)
  case (Suc fuel)
  have "io_calls (keeps_pipe h) (case r of
        Inr (n, chunk') \<Rightarrow> if n = 0 then io_return buf
          else if n > length chunk' then io_panic ''range end index out of range''
          else read_to_end_loop (pipe_read fh) fuel chunk' (buf @ take n chunk')
      | Inl e \<Rightarrow> if error_kind_of e = Interrupted then read_to_end_loop (pipe_read fh) fuel chunk buf
          else io_fail e)" for r
    by (cases r) (auto intro!: calls_intros Suc split: prod.splits)
  then show ?case by (simp add: calls_intros keeps_pipe_read)
qed (simp add: calls_intros)

lemma keeps_drain_turn: "io_calls (keeps_pipe h) (drain_turn fh acc chunk p)"
  unfolding drain_turn_def
  by (auto intro!: calls_intros keeps_pipe_read split: prod.splits sum.splits)

lemma keeps_drain_loop: "io_calls (keeps_pipe h) (drain_loop fuel out err oa ea chunk)"
proof (induction fuel arbitrary: oa ea chunk)
  case (Suc fuel)
  show ?case
    by (auto intro!: calls_intros keeps_drain_turn Suc simp: yield_now_def split: prod.splits)
qed (simp add: calls_intros)

lemma keeps_pipe_drop: "fh \<noteq> h \<Longrightarrow> io_calls (keeps_pipe h) (pipe_drop fh)"
  unfolding pipe_drop_def by (auto intro!: calls_intros)

lemma keeps_collect_output:
  assumes "sp_stdout pipes \<noteq> Some h" "sp_stderr pipes \<noteq> Some h"
  shows "io_calls (keeps_pipe h) (collect_output fuel pipes)"
  using assms unfolding collect_output_def read_output_def pipe_read_to_end_def pipe_set_nonblocking_def Let_def
  by (auto intro!: calls_intros keeps_read_to_end_loop keeps_drain_loop keeps_pipe_drop
      split: option.splits prod.splits)

lemma keeps_remove_script: "io_calls (keeps_pipe h) (remove_script q)"
  unfolding remove_script_def fs_unlink_def with_cstr_def sys_unit_def
  by (auto intro!: calls_intros split: option.splits)

lemma keeps_wait_loop: "io_calls (keeps_pipe h) (wait_loop fuel c me m code)"
proof (induction fuel arbitrary: code)
  case (Suc fuel)
  show ?case by (auto intro!: calls_intros Suc simp: Let_def)
qed (simp add: calls_intros)

lemma keeps_process_wait: "io_calls (keeps_pipe h) (process_wait fuel p)"
  unfolding process_wait_def reap_def Let_def
  by (auto intro!: calls_intros keeps_wait_loop keeps_remove_script split: option.splits)

lemma process_wait_seen:
  assumes "process_wait fuel p s = (Ok x, s')" "p_status p = None"
  obtains t where "os_trace s' = os_trace s @ t" "exit_seen (p_handle p) t"
proof -
  have "Ok x \<noteq> Hang" by simp
  from assms(1) this assms(2) show thesis
  proof (cases rule: process_wait_run)
    case (waited rb rm t u r1 r2 r3 v st)
    from found_gone_seen [OF waited(4), where h' = 0] show thesis by (intro that [OF waited(2)]) simp
  qed simp
qed

lemma process_drop_Ok: "\<exists>u s'. process_drop p s = (Ok (), s') \<and> os_trace s' = os_trace s @ u"
proof -
  obtain r s' where d: "process_drop p s = (r, s')" by fastforce
  then show ?thesis by (cases rule: process_drop_run) (use d in auto)
qed

text \<open>The history of the two actions \<open>output\<close> runs before it lets go of the pipe only grows.\<close>

lemma pipe_ext: "io_ext (pipe_read fh b)" "io_ext (pipe_drop fh)" "io_ext (pipe_set_nonblocking fh nb)"
  unfolding pipe_read_def pipe_drop_def pipe_set_nonblocking_def Let_def by (intro ext_intros)+

lemma read_to_end_loop_ext: "io_ext (read_to_end_loop (pipe_read fh) fuel chunk buf)"
proof (induction fuel arbitrary: chunk buf)
  case 0
  show ?case by (simp only: read_to_end_loop.simps ext_intros)
next
  case (Suc fuel)
  have "io_ext (case r of
        Inr (n, chunk') \<Rightarrow> if n = 0 then io_return buf
          else if n > length chunk' then io_panic ''range end index out of range''
          else read_to_end_loop (pipe_read fh) fuel chunk' (buf @ take n chunk')
      | Inl e \<Rightarrow> if error_kind_of e = Interrupted then read_to_end_loop (pipe_read fh) fuel chunk buf
          else io_fail e)" for r
    by (cases r) (auto simp only: sum.case prod.case intro!: ext_intros Suc split: prod.splits)
  then show ?case unfolding read_to_end_loop.simps by (intro ext_intros pipe_ext)
qed

lemma drain_turn_ext: "io_ext (drain_turn fh acc chunk p)"
  unfolding drain_turn_def
  by (auto simp only: prod.case split: prod.splits intro!: ext_intros pipe_ext) (auto split: sum.splits intro!: ext_intros)

lemma drain_loop_ext: "io_ext (drain_loop fuel out err oa ea chunk)"
proof (induction fuel arbitrary: oa ea chunk)
  case 0
  show ?case by (simp only: drain_loop.simps ext_intros)
next
  case (Suc fuel)
  show ?case
    unfolding drain_loop.simps yield_now_def
    by (intro ext_intros drain_turn_ext) (auto simp only: prod.case split: prod.splits intro!: ext_intros drain_turn_ext Suc)
qed

lemma io_ext_Pair: "io_ext (Pair r)"
  by (simp add: io_ext_def)

lemma collect_output_ext: "io_ext (collect_output fuel pipes)"
  unfolding collect_output_def read_output_def pipe_read_to_end_def Let_def
  by (auto intro!: ext_intros io_ext_Pair pipe_ext read_to_end_loop_ext drain_loop_ext split: option.splits prod.splits)

text \<open>
  A child that reads its input to the end: as long as the writing end \<open>h\<close> of its standard input has not
  been closed, the glue says that it runs.
\<close>

definition reads_to_end :: "int \<Rightarrow> int \<Rightarrow> os \<Rightarrow> bool" where
  "reads_to_end ph h s \<longleftrightarrow> (\<forall>u. list_all (\<lambda>x. keeps_pipe h (fst x)) u \<longrightarrow>
     r_ret (os_oracle s (os_trace s @ u) (ProcC (Proc_exited ph))) = 0
     \<and> (\<forall>me m. r_ret (os_oracle s (os_trace s @ u) (ProcC (Proc_set_waiter ph me m))) = 0))"

lemma reads_to_end_ext:
  assumes "reads_to_end ph h s" "os_oracle s' = os_oracle s" "os_trace s' = os_trace s @ t"
    "list_all (\<lambda>x. keeps_pipe h (fst x)) t"
  shows "reads_to_end ph h s'"
  unfolding reads_to_end_def
proof (intro allI impI)
  fix u :: trace assume "list_all (\<lambda>x. keeps_pipe h (fst x)) u"
  with assms(4) have "list_all (\<lambda>x. keeps_pipe h (fst x)) (t @ u)" by simp
  with assms(1-3) show "r_ret (os_oracle s' (os_trace s' @ u) (ProcC (Proc_exited ph))) = 0
     \<and> (\<forall>me m. r_ret (os_oracle s' (os_trace s' @ u) (ProcC (Proc_set_waiter ph me m))) = 0)"
    unfolding reads_to_end_def by simp
qed

lemma reads_to_end_after: "reads_to_end ph h s \<Longrightarrow> keeps_pipe h c \<Longrightarrow> reads_to_end ph h (after s c)"
  by (rule reads_to_end_ext [of _ _ s _ "[(c, reply_of s c)]"]) simp_all

lemma reads_to_end_reply:
  assumes "reads_to_end ph h s"
  shows "r_ret (reply_of s (ProcC (Proc_exited ph))) = 0" "r_ret (reply_of s (ProcC (Proc_set_waiter ph me m))) = 0"
proof -
  have "list_all (\<lambda>x. keeps_pipe h (fst x)) []" by simp
  with assms show "r_ret (reply_of s (ProcC (Proc_exited ph))) = 0"
    "r_ret (reply_of s (ProcC (Proc_set_waiter ph me m))) = 0"
    unfolding reads_to_end_def reply_of_def by (metis append_Nil2)+
qed

text \<open>Waiting for such a child never ends.\<close>

lemma wait_loop_hangs: "reads_to_end ph h s \<Longrightarrow> fst (wait_loop fuel ph me m code s) = Hang"
proof (induction fuel arbitrary: code s)
  case (Suc fuel)
  let ?c1 = "ProcC (Proc_set_waiter ph me m)" and ?c2 = "ProcC (Proc_exited ph)" and ?c3 = "ProcC (Sig_wait m)"
  have r: "reads_to_end ph h (after s ?c1)" "reads_to_end ph h (after (after (after s ?c1) ?c2) ?c3)"
    using Suc.prems by (simp_all add: reads_to_end_after)
  show ?case
    using reads_to_end_reply [OF Suc.prems] reads_to_end_reply(1) [OF r(1)] Suc.IH [OF r(2)]
    by (simp add: bind_sys_after Let_def)
qed simp

lemma process_wait_hangs:
  assumes "p_status p = None" "reads_to_end (p_handle p) h s"
  shows "if 0 \<le> r_ret (reply_of s (ProcC Sig_alloc)) then fst (process_wait fuel p s) = Hang
    else \<exists>e. fst (process_wait fuel p s) = Err e"
proof (cases "0 \<le> r_ret (reply_of s (ProcC Sig_alloc))")
  case True
  let ?s2 = "after (after s (ProcC Sig_alloc)) (ProcC Task_self)"
  have "reads_to_end (p_handle p) h ?s2" using assms(2) by (simp add: reads_to_end_after)
  then have "fst (wait_loop fuel (p_handle p) me m 0 ?s2) = Hang" for me m by (rule wait_loop_hangs)
  then obtain s3 where "wait_loop fuel (p_handle p) (r_ret (reply_of (after s (ProcC Sig_alloc)) (ProcC Task_self)))
      (push_bit (nat (r_ret (reply_of s (ProcC Sig_alloc))) mod 32) 1) 0 ?s2 = (Hang, s3)"
    by (metis prod.collapse)
  then have "fst (process_wait fuel p s) = Hang"
    unfolding process_wait_signal [OF assms(1) True] io_bind_def [of "wait_loop _ _ _ _ _"] by simp
  with True show ?thesis by simp
qed (use assms in \<open>simp add: process_wait_def bind_sys_after Let_def\<close>)

text \<open>Letting go at the end: the pipe is closed, then the process dropped.\<close>

definition lets_go :: "int \<Rightarrow> os \<Rightarrow> os \<Rightarrow> bool" where
  "lets_go h s s' \<longleftrightarrow> (\<exists>r v. os_trace s' = os_trace s @ (PipeC (P_close h), r) # v)"

lemma output_lets_go:
  assumes "h \<noteq> 0"
  shows "\<exists>s'. lets_go h s s' \<and> (\<forall>k :: (exit_status \<times> bytes \<times> bytes) io.
    io_bind (pipe_opt_drop (Some h)) (\<lambda>_. io_bind (process_drop p) (\<lambda>_. k)) s = k s')"
proof -
  let ?s1 = "after s (PipeC (P_close h))"
  obtain u s' where d: "process_drop p ?s1 = (Ok (), s')" "os_trace s' = os_trace ?s1 @ u"
    using process_drop_Ok by blast
  have "lets_go h s s'" using d(2) by (simp add: lets_go_def)
  moreover have "io_bind (pipe_opt_drop (Some h)) (\<lambda>_. io_bind (process_drop p) (\<lambda>_. k)) s = k s'"
    for k :: "(exit_status \<times> bytes \<times> bytes) io"
    using d(1) assms by (simp add: pipe_opt_drop_def pipe_drop_def bind_sys_after io_bind_Ok)
  ultimately show ?thesis by blast
qed

text \<open>How \<open>output\<close> ends, by how collecting the output and waiting end.\<close>

lemma attempt_run: "m s = (r, s') \<Longrightarrow> io_attempt m s = (case r of Ok x \<Rightarrow> (Ok (Inr x), s')
    | Err e \<Rightarrow> (Ok (Inl e), s') | Panic q \<Rightarrow> (Panic q, s') | Hang \<Rightarrow> (Hang, s'))"
  by (simp add: io_attempt_def)

lemma output_collects:
  assumes spawn: "spawn cmd MakePipe False s = (Ok (p, pipes), s1)"
    and h: "sp_stdin pipes = Some h" "h \<noteq> 0"
    and run: "command_output fuel cmd s = (res, s')" "collect_output fuel pipes s1 = (got, s2)" "got \<noteq> Ok out"
  shows "case got of Ok out' \<Rightarrow> out' \<noteq> out
    | Err e \<Rightarrow> res = Err e \<and> lets_go h s2 s'
    | Panic m \<Rightarrow> res = Panic m \<and> s' = s2
    | Hang \<Rightarrow> res = Hang \<and> s' = s2"
proof -
  obtain s4 where g: "lets_go h s2 s4"
    "\<And>k :: (exit_status \<times> bytes \<times> bytes) io.
      io_bind (pipe_opt_drop (Some h)) (\<lambda>_. io_bind (process_drop p) (\<lambda>_. k)) s2 = k s4"
    using output_lets_go [OF h(2)] by blast
  show ?thesis
    using run g by (cases got) (auto simp: command_output_def io_bind_Ok [where m = "spawn cmd MakePipe False" and s = s, OF spawn] io_bind_def [of "io_attempt _"]
        attempt_run [where m = "collect_output fuel pipes" and s = s1, OF run(2)] h(1))
qed

lemma output_waits:
  assumes spawn: "spawn cmd MakePipe False s = (Ok (p, pipes), s1)"
    and h: "sp_stdin pipes = Some h" "h \<noteq> 0"
    and run: "command_output fuel cmd s = (res, s')" "collect_output fuel pipes s1 = (Ok out, s2)"
      "process_wait fuel p s2 = (w, s3)"
  shows "case w of Ok (status, _) \<Rightarrow> res = Ok (status, out) \<and> lets_go h s3 s'
    | Err e \<Rightarrow> res = Err e \<and> lets_go h s3 s'
    | Panic m \<Rightarrow> res = Panic m \<and> s' = s3
    | Hang \<Rightarrow> res = Hang \<and> s' = s3"
proof -
  have g: "\<exists>s4. lets_go h s3 s4 \<and> (\<forall>k :: (exit_status \<times> bytes \<times> bytes) io.
      io_bind (pipe_opt_drop (Some h)) (\<lambda>_. io_bind (process_drop q) (\<lambda>_. k)) s3 = k s4)" for q
    by (rule output_lets_go [OF h(2)])
  obtain o1 o2 where out: "out = (o1, o2)" by fastforce
  have e: "command_output fuel cmd s = io_bind (io_attempt (process_wait fuel p)) (\<lambda>w. case w of
      Inl e \<Rightarrow> io_bind (pipe_opt_drop (Some h)) (\<lambda>_. io_bind (process_drop p) (\<lambda>_. io_fail e))
    | Inr (status, p') \<Rightarrow> io_bind (pipe_opt_drop (Some h)) (\<lambda>_. io_bind (process_drop p') (\<lambda>_.
        io_return (status, o1, o2)))) s2"
    using run(2) by (simp add: command_output_def io_bind_Ok [where m = "spawn cmd MakePipe False" and s = s, OF spawn] io_bind_def [of "io_attempt (collect_output _ _)"]
        attempt_run [where m = "collect_output fuel pipes" and s = s1, OF run(2)] h(1) out)
  note att = attempt_run [where m = "process_wait fuel p" and s = s2, OF run(3)]
  show ?thesis
  proof (cases w)
    case (Ok x)
    obtain st q where x: "x = (st, q)" by fastforce
    with g [of q] run(1,3) Ok show ?thesis
      by (auto simp: e io_bind_def [of "io_attempt _"] att out)
  next
    case (Err e)
    with g [of p] run(1,3) show ?thesis
      by (auto simp: e io_bind_def [of "io_attempt _"] att)
  qed (use run(1,3) in \<open>simp_all add: e io_bind_def [of "io_attempt _"] att\<close>)
qed

text \<open>
  C20: When a command asks for a pipe to its standard input, \<open>output\<close> keeps the writing end open until the
  very end. However it ends, the end is closed only after the output has been collected and the child
  waited for: on success, after the child has been seen gone; on an error, after the failed call. If
  \<open>output\<close> never returns, it has not closed it. So for a child that ends only when its input does,
  \<open>output\<close> waits for ever, at every fuel: once the output is collected, the wait hangs, unless there is no
  signal left to wait with.
\<close>

theorem output_closes_stdin_last:
  assumes "spawn cmd MakePipe False s = (Ok (p, pipes), s1)" "p_status p = None"
    and "sp_stdin pipes = Some h" "h \<noteq> 0" "sp_stdout pipes \<noteq> Some h" "sp_stderr pipes \<noteq> Some h"
    and "command_output fuel cmd s = (res, s')" "collect_output fuel pipes s1 = (got, s2)"
  shows "(\<exists>t u. os_trace s' = os_trace s1 @ t @ u \<and> list_all (\<lambda>x. keeps_pipe h (fst x)) t
      \<and> (case res of
          Ok x \<Rightarrow> exit_seen (p_handle p) t \<and> (\<exists>r v. u = (PipeC (P_close h), r) # v)
        | Err e \<Rightarrow> \<exists>r v. u = (PipeC (P_close h), r) # v
        | Panic m \<Rightarrow> u = []
        | Hang \<Rightarrow> u = []))
    \<and> (reads_to_end (p_handle p) h s1 \<longrightarrow> (case got of
          Ok x \<Rightarrow> if 0 \<le> r_ret (reply_of s2 (ProcC Sig_alloc)) then res = Hang else \<exists>e. res = Err e
        | Err e \<Rightarrow> res = Err e
        | Panic m \<Rightarrow> res = Panic m
        | Hang \<Rightarrow> res = Hang))"
proof -
  obtain t1 where t1: "os_trace s2 = os_trace s1 @ t1" "list_all (\<lambda>x. keeps_pipe h (fst x)) t1"
    using io_callsE [OF keeps_collect_output [OF assms(5,6)] assms(8)] by blast
  have "os_oracle s2 = os_oracle s1"
    using collect_output_ext [of fuel pipes] assms(8) unfolding io_ext_def by (metis snd_conv)
  then have deaf: "reads_to_end (p_handle p) h s1 \<Longrightarrow> reads_to_end (p_handle p) h s2"
    using reads_to_end_ext t1 by blast
  obtain w s3 where w: "process_wait fuel p s2 = (w, s3)" by fastforce
  obtain t2 where t2: "os_trace s3 = os_trace s2 @ t2" "list_all (\<lambda>x. keeps_pipe h (fst x)) t2"
    using io_callsE [OF keeps_process_wait w] by blast
  have seen: "exit_seen (p_handle p) t2" if "w = Ok x" for x
    using process_wait_seen [OF w [unfolded that] assms(2)] t2(1) by (metis same_append_eq)
  have hang: "reads_to_end (p_handle p) h s1 \<Longrightarrow>
      if 0 \<le> r_ret (reply_of s2 (ProcC Sig_alloc)) then w = Hang else \<exists>e. w = Err e"
    using process_wait_hangs [OF assms(2) deaf, of fuel] w by (auto split: if_splits)
  show ?thesis
  proof (cases "\<exists>out. got = Ok out")
    case False
    then have "got \<noteq> Ok out" for out by blast
    from output_collects [OF assms(1,3,4,7,8) this] t1 show ?thesis
      by (cases got) (fastforce simp: lets_go_def)+
  next
    case True
    then obtain out where got: "got = Ok out" by blast
    define t where "t = t1 @ t2"
    have t: "os_trace s3 = os_trace s1 @ t" "list_all (\<lambda>x. keeps_pipe h (fst x)) t"
      "\<And>x. w = Ok x \<Longrightarrow> exit_seen (p_handle p) t"
      using t1 t2 seen by (simp_all add: t_def)
    note ends = output_waits [OF assms(1,3,4,7) assms(8) [unfolded got] w]
    have "\<exists>t u. os_trace s' = os_trace s1 @ t @ u \<and> list_all (\<lambda>x. keeps_pipe h (fst x)) t
      \<and> (case res of
          Ok x \<Rightarrow> exit_seen (p_handle p) t \<and> (\<exists>r v. u = (PipeC (P_close h), r) # v)
        | Err e \<Rightarrow> \<exists>r v. u = (PipeC (P_close h), r) # v
        | Panic m \<Rightarrow> u = []
        | Hang \<Rightarrow> u = [])"
      using ends t by (cases w) (fastforce simp: lets_go_def split: prod.splits)+
    moreover have "reads_to_end (p_handle p) h s1 \<Longrightarrow>
        if 0 \<le> r_ret (reply_of s2 (ProcC Sig_alloc)) then res = Hang else \<exists>e. res = Err e"
      using ends hang by (cases w) (auto split: if_splits)
    ultimately show ?thesis unfolding got by simp
  qed
qed

text \<open>A child with a pipe to its standard input only.\<close>

definition stdin_oracle :: "trace \<Rightarrow> call \<Rightarrow> reply" where
  "stdin_oracle t c = (case c of
      ProcC (Proc_spawn l i o1 e n d) \<Rightarrow> ret_outs 64 [3, 0, 0]
    | _ \<Rightarrow> child_oracle t c)"

definition stdin_command :: command where
  "stdin_command = (command_new [100])\<lparr>cmd_stdin := Some MakePipe, cmd_stdout := Some Stdio_Null,
     cmd_stderr := Some Stdio_Null\<rparr>"

text \<open>The same command with a child that ends when its input does.\<close>

definition cat_oracle :: "trace \<Rightarrow> call \<Rightarrow> reply" where
  "cat_oracle t c = (case c of
      ProcC (Proc_spawn l i o1 e n d) \<Rightarrow> ret_outs 64 [3, 0, 0]
    | ProcC (Proc_exited h) \<Rightarrow> if PipeC (P_close 3) \<in> fst ` set t then ret_outs 1 [0] else ret 0
    | ProcC Sig_alloc \<Rightarrow> ret 17
    | _ \<Rightarrow> ret 0)"

abbreviation stdin_pipes :: stdio_pipes where
  "stdin_pipes \<equiv> \<lparr>sp_stdin = Some 3, sp_stdout = None, sp_stderr = None\<rparr>"

lemma stdin_spawn:
  assumes "\<And>l i o1 e n d. orc [] (ProcC (Proc_spawn l i o1 e n d)) = ret_outs 64 [3, 0, 0]"
  obtains s1 where "spawn stdin_command MakePipe False (boot orc) = (Ok (child None, stdin_pipes), s1)"
    "os_oracle s1 = orc" "naps (os_trace s1) = 0" "PipeC (P_close 3) \<notin> fst ` set (os_trace s1)"
proof -
  have "case proc_cstr (command_line stdin_command) of Inr c \<Rightarrow> True | Inl _ \<Rightarrow> False"
    by code_simp
  then obtain c where c: "proc_cstr (command_line stdin_command) = Inr c" by (auto split: sum.splits)
  have line: "command_line stdin_command \<noteq> []"
    by (simp add: command_line_Nil command_words_def stdin_command_def command_new_def)
  have env: "ce_vars (cmd_env stdin_command) = []" "cmd_cwd stdin_command = None"
    by (simp_all add: stdin_command_def command_new_def command_env_default_def)
  show thesis
    using c line env that
    by (simp add: spawn_def resolve_line_def spawn_cwd_def bind_sys_after Let_def reply_of_def assms
        pipe_slot_def out_param_def child_def after_def)
qed

lemma stdin_collect: "collect_output fuel stdin_pipes s = (Ok ([], []), s)"
  by (simp add: collect_output_def)

lemma cat_reads_to_end:
  assumes "os_oracle s = cat_oracle" "PipeC (P_close 3) \<notin> fst ` set (os_trace s)"
  shows "reads_to_end 64 3 s"
  using assms by (force simp: reads_to_end_def cat_oracle_def list_all_iff)

theorem output_closes_stdin_last_witness:
  "(\<exists>t r u. os_trace (snd (command_output 3 stdin_command (boot stdin_oracle))) = t @ (PipeC (P_close 3), r) # u
      \<and> exit_seen 64 t)
    \<and> (\<forall>fuel. fst (command_output fuel stdin_command (boot cat_oracle)) = Hang)"
proof
  obtain s1 where s1: "spawn stdin_command MakePipe False (boot stdin_oracle) = (Ok (child None, stdin_pipes), s1)"
    "os_oracle s1 = stdin_oracle" "naps (os_trace s1) = 0"
    using stdin_spawn [of stdin_oracle] by (auto simp: stdin_oracle_def)
  have gone: "gone_after 64 2 5 (os_oracle s1)" "p_status (child None) = None" "p_handle (child None) = 64"
    "0 \<le> r_ret (reply_of s1 (ProcC Sig_alloc))"
    by (auto simp: s1(2) gone_after_def stdin_oracle_def child_oracle_def child_def reply_of_def)
  obtain x s2 where w: "process_wait 3 (child None) s1 = (Ok x, s2)"
    using process_wait_Ok [of "child None" 2 5 s1 3] gone s1(3) by auto
  obtain res s' where run: "command_output 3 stdin_command (boot stdin_oracle) = (res, s')" by fastforce
  have "\<exists>y. res = Ok y"
    using output_waits [OF s1(1) _ _ run stdin_collect w, of 3] by (cases x) simp
  with output_closes_stdin_last [OF s1(1) gone(2) _ _ _ _ run stdin_collect, of 3] obtain t r u where
    "os_trace s' = os_trace s1 @ t @ (PipeC (P_close 3), r) # u" "exit_seen 64 t"
    by (auto simp: gone(3))
  then show "\<exists>t r u. os_trace (snd (command_output 3 stdin_command (boot stdin_oracle))) = t @ (PipeC (P_close 3), r) # u
      \<and> exit_seen 64 t"
    by (intro exI [of _ "os_trace s1 @ t"] exI [of _ r] exI [of _ u]) (simp add: run)
next
  obtain s1 where s1: "spawn stdin_command MakePipe False (boot cat_oracle) = (Ok (child None, stdin_pipes), s1)"
    "os_oracle s1 = cat_oracle" "PipeC (P_close 3) \<notin> fst ` set (os_trace s1)"
    using stdin_spawn [of cat_oracle] by (auto simp: cat_oracle_def)
  have c: "p_status (child None) = None" "reads_to_end (p_handle (child None)) 3 s1"
    "0 \<le> r_ret (reply_of s1 (ProcC Sig_alloc))"
    using cat_reads_to_end s1(2,3) by (simp_all add: child_def reply_of_def cat_oracle_def)
  show "\<forall>fuel. fst (command_output fuel stdin_command (boot cat_oracle)) = Hang"
  proof
    fix fuel
    obtain res s' where run: "command_output fuel stdin_command (boot cat_oracle) = (res, s')" by fastforce
    from output_closes_stdin_last [OF s1(1) c(1) _ _ _ _ run stdin_collect, of 3] c(2,3)
    show "fst (command_output fuel stdin_command (boot cat_oracle)) = Hang" by (simp add: run)
  qed
qed

end
