(* ===== verification/Net_Parse.thy ===== *)
theory Net_Parse
  imports Number_Text
begin

text \<open>
  Addresses and their text form: the parser of \<open>core/net/parser.rs\<close>, which \<open>lookup_host\<close> and
  \<open>lookup_host_string\<close> run on what a program names as a host, and the printing of addresses
  (\<open>core/net/ip_addr.rs\<close>, without padding). A parser takes the input left and returns its result
  and the input left afterwards.
\<close>

section \<open>Addresses\<close>

text \<open>
  An IPv4 address is its four octets; an IPv6 address is its eight segments, which the code stores
  as sixteen octets in network order.
\<close>

datatype ipv4_addr = Ipv4Addr u8 u8 u8 u8
datatype ipv6_addr = Ipv6Addr (segments: "u16 list")
datatype ip_addr = IpV4 ipv4_addr | IpV6 ipv6_addr

datatype socket_addr_v4 = SocketAddrV4 ipv4_addr u16

record socket_addr_v6 =
  v6_ip :: ipv6_addr
  v6_port :: u16
  v6_flowinfo :: u32
  v6_scope_id :: u32

datatype socket_addr = SockV4 socket_addr_v4 | SockV6 socket_addr_v6

fun octets :: "ipv4_addr \<Rightarrow> u8 list" where
  "octets (Ipv4Addr a b c d) = [a, b, c, d]"

fun ipv4_of_octets :: "u8 list \<Rightarrow> ipv4_addr option" where
  "ipv4_of_octets [a, b, c, d] = Some (Ipv4Addr a b c d)"
| "ipv4_of_octets _ = None"

definition u16_from_be_bytes :: "u8 \<Rightarrow> u8 \<Rightarrow> u16" where
  "u16_from_be_bytes a b = of_nat (unat a * 256 + unat b)"

section \<open>The parser\<close>

type_synonym 'a parser = "bytes \<Rightarrow> 'a option \<times> bytes"

definition p_return :: "'a \<Rightarrow> 'a parser" where
  "p_return x = (\<lambda>s. (Some x, s))"

definition p_fail :: "'a parser" where
  "p_fail = (\<lambda>s. (None, s))"

definition p_bind :: "'a parser \<Rightarrow> ('a \<Rightarrow> 'b parser) \<Rightarrow> 'b parser" where
  "p_bind m k = (\<lambda>s. case m s of (None, s') \<Rightarrow> (None, s') | (Some x, s') \<Rightarrow> k x s')"

definition read_atomically :: "'a parser \<Rightarrow> 'a parser" where
  "read_atomically inner = (\<lambda>s. case inner s of (None, s') \<Rightarrow> (None, s) | (Some x, s') \<Rightarrow> (Some x, s'))"

definition parse_with :: "'a parser \<Rightarrow> bytes \<Rightarrow> 'a option" where
  "parse_with inner s = (case inner s of (result, s') \<Rightarrow> if s' = [] then result else None)"

fun read_char :: "u8 parser" where
  "read_char [] = (None, [])"
| "read_char (b # tail) = (Some b, tail)"

definition read_given_char :: "u8 \<Rightarrow> unit parser" where
  "read_given_char target = read_atomically (p_bind read_char (\<lambda>c.
     if c = target then p_return () else p_fail))"

definition read_separator :: "u8 \<Rightarrow> nat \<Rightarrow> 'a parser \<Rightarrow> 'a parser" where
  "read_separator sep index inner = read_atomically
     (if index > 0 then p_bind (read_given_char sep) (\<lambda>_. inner) else inner)"

text \<open>
  The digit loop: its result and the number of digits, or failure when there are too many. With at
  most six digits the 32-bit accumulator does not overflow, so it is a number here.
\<close>

fun radix_loop :: "nat \<Rightarrow> nat \<Rightarrow> nat \<Rightarrow> nat \<Rightarrow> (nat \<times> nat) parser" where
  "radix_loop radix max_digits result count [] = (Some (result, count), [])"
| "radix_loop radix max_digits result count (c # s) = (case to_digit radix c of
      None \<Rightarrow> (Some (result, count), c # s)
    | Some digit \<Rightarrow>
        if count \<ge> max_digits then (None, s)
        else radix_loop radix max_digits (result * radix + digit) (count + 1) s)"

text \<open>\<open>limit\<close> is the largest value of the target type.\<close>

definition read_radix_max_digits :: "nat \<Rightarrow> nat \<Rightarrow> bool \<Rightarrow> nat \<Rightarrow> nat parser" where
  "read_radix_max_digits radix max_digits allow_zero_prefix limit = read_atomically
     (p_bind read_char (\<lambda>c. case to_digit radix c of
         None \<Rightarrow> p_fail
       | Some first \<Rightarrow> p_bind (radix_loop radix max_digits first 1) (\<lambda>(result, digit_count).
           if \<not> allow_zero_prefix \<and> first = 0 \<and> digit_count > 1 then p_fail
           else if result \<le> limit then p_return result else p_fail)))"

fun decimal_loop :: "'a::len word \<Rightarrow> 'a word parser" where
  "decimal_loop result [] = (Some result, [])"
| "decimal_loop result (c # s) = (case to_digit 10 c of
      None \<Rightarrow> (Some result, c # s)
    | Some digit \<Rightarrow> (case checked_mul result 10 of
        None \<Rightarrow> (None, s)
      | Some m \<Rightarrow> (case checked_add m (of_nat digit) of
          None \<Rightarrow> (None, s)
        | Some a \<Rightarrow> decimal_loop a s)))"

definition read_decimal :: "'a::len word parser" where
  "read_decimal = read_atomically (p_bind read_char (\<lambda>c. case to_digit 10 c of
      None \<Rightarrow> p_fail
    | Some first \<Rightarrow> (case checked_add 0 (of_nat first) of
        None \<Rightarrow> p_fail | Some r \<Rightarrow> decimal_loop r)))"

text \<open>The bytes \<open>.\<close> (46), \<open>:\<close> (58), \<open>%\<close> (37), \<open>[\<close> (91) and \<open>]\<close> (93).\<close>

fun read_octets :: "nat \<Rightarrow> nat \<Rightarrow> u8 list parser" where
  "read_octets i 0 = p_return []"
| "read_octets i (Suc n) = p_bind (read_separator 46 i (read_radix_max_digits 10 3 False 255))
     (\<lambda>b. p_bind (read_octets (i + 1) n) (\<lambda>bs. p_return (of_nat b # bs)))"

definition read_ipv4_addr :: "ipv4_addr parser" where
  "read_ipv4_addr = read_atomically (p_bind (read_octets 0 4) (\<lambda>groups.
     case ipv4_of_octets groups of Some a \<Rightarrow> p_return a | None \<Rightarrow> p_fail))"

text \<open>
  \<open>read_groups\<close>: from the slot \<open>i\<close> of an array \<open>groups\<close>. The result is the array, the number of
  groups read and whether an embedded IPv4 address ended them. It never fails.
\<close>

function read_groups :: "u16 list \<Rightarrow> nat \<Rightarrow> bytes \<Rightarrow> (u16 list \<times> nat \<times> bool) \<times> bytes" where
  "read_groups groups i s =
    (let limit = length groups in
     if i \<ge> limit then ((groups, limit, False), s)
     else
       let (ipv4, s1) = (if i < limit - 1 then read_separator 58 i read_ipv4_addr s else (None, s))
       in case ipv4 of
         Some (Ipv4Addr one two three four) \<Rightarrow>
           ((groups[i := u16_from_be_bytes one two, i + 1 := u16_from_be_bytes three four], i + 2, True), s1)
       | None \<Rightarrow>
         (case read_separator 58 i (read_radix_max_digits 16 4 True 65535) s1 of
            (Some g, s2) \<Rightarrow> read_groups (groups[i := of_nat g]) (i + 1) s2
          | (None, s2) \<Rightarrow> ((groups, i, False), s2)))"
  by pat_completeness auto
termination
  by (relation "measure (\<lambda>(gs, i, s). length gs - i)") auto

declare read_groups.simps [simp del]

definition read_ipv6_addr :: "ipv6_addr parser" where
  "read_ipv6_addr = read_atomically (\<lambda>s.
    let ((head, head_size, head_ipv4), s1) = read_groups (replicate 8 0) 0 s in
    if head_size = 8 then (Some (Ipv6Addr head), s1)
    else if head_ipv4 then (None, s1)
    else p_bind (read_given_char 58) (\<lambda>_. p_bind (read_given_char 58) (\<lambda>_ s2.
      let limit = 8 - (head_size + 1);
          ((tail, tail_size, _), s3) = read_groups (replicate limit 0) 0 s2
      in (Some (Ipv6Addr (take (8 - tail_size) head @ take tail_size tail)), s3))) s1)"

definition or_else :: "'a parser \<Rightarrow> 'a parser \<Rightarrow> 'a parser" where
  "or_else m n = (\<lambda>s. case m s of (None, s') \<Rightarrow> n s' | r \<Rightarrow> r)"

definition read_ip_addr :: "ip_addr parser" where
  "read_ip_addr = or_else (p_bind read_ipv4_addr (\<lambda>a. p_return (IpV4 a)))
     (p_bind read_ipv6_addr (\<lambda>a. p_return (IpV6 a)))"

definition read_port :: "u16 parser" where
  "read_port = read_atomically (p_bind (read_given_char 58) (\<lambda>_. read_decimal))"

definition read_scope_id :: "u32 parser" where
  "read_scope_id = read_atomically (p_bind (read_given_char 37) (\<lambda>_. read_decimal))"

definition read_socket_addr_v4 :: "socket_addr_v4 parser" where
  "read_socket_addr_v4 = read_atomically (p_bind read_ipv4_addr (\<lambda>ip. p_bind read_port (\<lambda>port.
     p_return (SocketAddrV4 ip port))))"

text \<open>A missing scope is 0 (\<open>unwrap_or(0)\<close>).\<close>

definition optional :: "'a \<Rightarrow> 'a parser \<Rightarrow> 'a parser" where
  "optional d m = (\<lambda>s. case m s of (None, s') \<Rightarrow> (Some d, s') | r \<Rightarrow> r)"

definition read_socket_addr_v6 :: "socket_addr_v6 parser" where
  "read_socket_addr_v6 = read_atomically (p_bind (read_given_char 91) (\<lambda>_.
     p_bind read_ipv6_addr (\<lambda>ip. p_bind (optional 0 read_scope_id) (\<lambda>scope_id.
     p_bind (read_given_char 93) (\<lambda>_. p_bind read_port (\<lambda>port.
     p_return \<lparr>v6_ip = ip, v6_port = port, v6_flowinfo = 0, v6_scope_id = scope_id\<rparr>))))))"

definition read_socket_addr :: "socket_addr parser" where
  "read_socket_addr = or_else (p_bind read_socket_addr_v4 (\<lambda>a. p_return (SockV4 a)))
     (p_bind read_socket_addr_v6 (\<lambda>a. p_return (SockV6 a)))"

definition ipv4_parse :: "bytes \<Rightarrow> ipv4_addr option" where
  "ipv4_parse b = (if length b > 15 then None else parse_with read_ipv4_addr b)"

definition ipv6_parse :: "bytes \<Rightarrow> ipv6_addr option" where
  "ipv6_parse b = parse_with read_ipv6_addr b"

definition ip_parse :: "bytes \<Rightarrow> ip_addr option" where
  "ip_parse b = parse_with read_ip_addr b"

definition socket_v4_parse :: "bytes \<Rightarrow> socket_addr_v4 option" where
  "socket_v4_parse b = parse_with read_socket_addr_v4 b"

definition socket_v6_parse :: "bytes \<Rightarrow> socket_addr_v6 option" where
  "socket_v6_parse b = parse_with read_socket_addr_v6 b"

definition socket_parse :: "bytes \<Rightarrow> socket_addr option" where
  "socket_parse b = parse_with read_socket_addr b"

section \<open>Printing\<close>

fun ipv4_display :: "ipv4_addr \<Rightarrow> bytes" where
  "ipv4_display (Ipv4Addr a b c d) = radix_bytes 10 (unat a) @ 46 # radix_bytes 10 (unat b)
     @ 46 # radix_bytes 10 (unat c) @ 46 # radix_bytes 10 (unat d)"

definition to_ipv4_mapped :: "ipv6_addr \<Rightarrow> ipv4_addr option" where
  "to_ipv4_mapped a = (let g = segments a in
     if take 5 g = replicate 5 0 \<and> g ! 5 = 0xFFFF
     then Some (Ipv4Addr (ucast (drop_bit 8 (g ! 6))) (ucast (g ! 6)) (ucast (drop_bit 8 (g ! 7))) (ucast (g ! 7)))
     else None)"

text \<open>A span is its start and its length; the loop over the segments finds the first longest span of zeros.\<close>

type_synonym span = "nat \<times> nat"

fun zero_span :: "nat \<Rightarrow> span \<Rightarrow> span \<Rightarrow> u16 list \<Rightarrow> span" where
  "zero_span i longest current [] = longest"
| "zero_span i longest current (x # xs) =
    (if x = 0 then
       let current' = ((if snd current = 0 then i else fst current), snd current + 1)
       in zero_span (i + 1) (if snd current' > snd longest then current' else longest) current' xs
     else zero_span (i + 1) longest (0, 0) xs)"

definition fmt_subslice :: "u16 list \<Rightarrow> bytes" where
  "fmt_subslice chunk = join_with 58 (map (\<lambda>g. radix_bytes 16 (unat g)) chunk)"

definition ipv6_display :: "ipv6_addr \<Rightarrow> bytes" where
  "ipv6_display a = (case to_ipv4_mapped a of
      Some v4 \<Rightarrow> [58, 58, 102, 102, 102, 102, 58] @ ipv4_display v4
    | None \<Rightarrow>
        let g = segments a; (start, len) = zero_span 0 (0, 0) (0, 0) g
        in if len > 1 then fmt_subslice (take start g) @ [58, 58] @ fmt_subslice (drop (start + len) g)
           else fmt_subslice g)"

definition ip_display :: "ip_addr \<Rightarrow> bytes" where
  "ip_display a = (case a of IpV4 v \<Rightarrow> ipv4_display v | IpV6 v \<Rightarrow> ipv6_display v)"

fun socket_v4_display :: "socket_addr_v4 \<Rightarrow> bytes" where
  "socket_v4_display (SocketAddrV4 ip port) = ipv4_display ip @ 58 # radix_bytes 10 (unat port)"

definition socket_v6_display :: "socket_addr_v6 \<Rightarrow> bytes" where
  "socket_v6_display a =
     (if v6_scope_id a = 0 then 91 # ipv6_display (v6_ip a) @ 93 # 58 # radix_bytes 10 (unat (v6_port a))
      else 91 # ipv6_display (v6_ip a) @ 37 # radix_bytes 10 (unat (v6_scope_id a))
        @ 93 # 58 # radix_bytes 10 (unat (v6_port a)))"

definition socket_display :: "socket_addr \<Rightarrow> bytes" where
  "socket_display a = (case a of SockV4 v \<Rightarrow> socket_v4_display v | SockV6 v \<Rightarrow> socket_v6_display v)"

section \<open>Reading numbers back\<close>

text \<open>Where a number ends: at the end of the input or at a byte that is no digit.\<close>

definition no_digit :: "nat \<Rightarrow> bytes \<Rightarrow> bool" where
  "no_digit r s \<longleftrightarrow> s = [] \<or> to_digit r (hd s) = None"

lemma no_digit_simps [simp]:
  "no_digit r []" "no_digit 10 (46 # s)" "no_digit 16 (58 # s)" "no_digit 10 (58 # s)"
  "no_digit 10 (37 # s)" "no_digit 10 (93 # s)" "no_digit 16 (37 # s)" "no_digit 16 (93 # s)"
  by (simp_all add: no_digit_def to_digit_def Let_def)

definition number_radix :: "nat \<Rightarrow> bool" where
  "number_radix r \<longleftrightarrow> r = 10 \<or> r = 16"

lemma to_digit_printed: "number_radix r \<Longrightarrow> d < r \<Longrightarrow> to_digit r (digit_byte d) = Some d"
  by (auto simp: number_radix_def to_digit_byte)

lemma radix_loop_digits:
  assumes "number_radix r" "\<forall>d\<in>set ds. d < r" "no_digit r rest" "c + length ds \<le> m"
  shows "radix_loop r m a c (map digit_byte ds @ rest)
    = (Some (foldl (\<lambda>a d. a * r + d) a ds, c + length ds), rest)"
  using assms(2,4)
proof (induction ds arbitrary: a c)
  case Nil
  with assms(3) show ?case by (cases rest) (simp_all add: no_digit_def)
qed (use assms(1) in \<open>simp add: to_digit_printed\<close>)

lemma read_radix_number:
  assumes "number_radix r" "n < r ^ m" "0 < m" "n \<le> limit" "no_digit r rest"
  shows "read_radix_max_digits r m z limit (radix_bytes r n @ rest) = (Some n, rest)"
proof -
  have "2 \<le> r" using assms(1) by (auto simp: number_radix_def)
  then obtain ds where dg: "digits_of r n ds" using radix_digits by blast
  note ds = digits_ofD [OF dg]
  obtain d es where es: "ds = d # es" using ds(2) by (cases ds) auto
  have "radix_loop r m d 1 (map digit_byte es @ rest) = (Some (n, 1 + length es), rest)"
    using radix_loop_digits [OF assms(1) _ assms(5), of es 1 m d] ds(3,4) ds(6) [OF assms(2,3)] es by simp
  moreover have "\<not> (d = 0 \<and> 1 + length es > 1)" using ds(5) es by auto
  ultimately show ?thesis
    using ds(1,3) es assms(1,4)
    by (auto simp: read_radix_max_digits_def read_atomically_def p_bind_def p_return_def to_digit_printed)
qed

lemma decimal_loop_digits:
  fixes w :: "'a::len word"
  assumes "\<forall>d\<in>set ds. d < 10" "no_digit 10 rest" "(10 :: nat) < 2 ^ LENGTH('a)"
    "foldl (\<lambda>a d. a * 10 + d) (unat w) ds < 2 ^ LENGTH('a)"
  shows "decimal_loop w (map digit_byte ds @ rest) = (Some (of_nat (foldl (\<lambda>a d. a * 10 + d) (unat w) ds)), rest)"
  using assms(1,4)
proof (induction ds arbitrary: w)
  case Nil
  with assms(2) show ?case by (cases rest) (simp_all add: no_digit_def)
next
  case (Cons d ds)
  let ?a = "unat w * 10 + d"
  have "?a \<le> foldl (\<lambda>a d. a * 10 + d) ?a ds" by (rule foldl_digits_ge) simp
  then have a: "?a < 2 ^ LENGTH('a)" using Cons.prems(2) by simp
  with push_digit [OF a assms(3)] show ?case using Cons by (simp add: to_digit_byte)
qed

lemma read_decimal_number:
  fixes w :: "'a::len word"
  assumes "no_digit 10 rest" "(10 :: nat) < 2 ^ LENGTH('a)"
  shows "read_decimal (radix_bytes 10 (unat w) @ rest) = (Some w, rest)"
proof -
  obtain ds where dg: "digits_of 10 (unat w) ds" using radix_digits [of 10 "unat w"] by auto
  note ds = digits_ofD [OF dg]
  obtain d es where es: "ds = d # es" using ds(2) by (cases ds) auto
  have d: "d < 10" "unat (of_nat d :: 'a word) = d"
    using ds(3) es assms(2) by (auto intro: unat_of_nat_less)
  have "checked_add 0 (of_nat d) = Some (of_nat d :: 'a word)"
    using d unat_less_pow [of "of_nat d :: 'a word"] by (simp add: checked_add_def)
  moreover have "decimal_loop (of_nat d) (map digit_byte es @ rest) = (Some w, rest)"
    using decimal_loop_digits [of es rest "of_nat d :: 'a word"] ds(3,4) es assms d(2) unat_less_pow [of w] by simp
  ultimately show ?thesis
    using ds(1) es d(1)
    by (simp add: read_decimal_def read_atomically_def p_bind_def to_digit_byte)
qed

section \<open>Reading IPv4 addresses back\<close>

lemma read_separator_simps [simp]:
  "read_separator sep 0 p s = read_atomically p s"
  "0 < i \<Longrightarrow> read_separator sep i p (sep # s) = (case p s of (None, _) \<Rightarrow> (None, sep # s) | r \<Rightarrow> r)"
  "0 < i \<Longrightarrow> s = [] \<or> hd s \<noteq> sep \<Longrightarrow> read_separator sep i p s = (None, s)"
  by (auto simp: read_separator_def read_given_char_def read_atomically_def p_bind_def p_return_def p_fail_def
      neq_Nil_conv split: prod.splits option.splits)
     (cases s; auto simp: p_return_def)

lemma octet_number:
  "no_digit 10 rest \<Longrightarrow>
   read_radix_max_digits 10 3 False 255 (radix_bytes 10 (unat (b :: u8)) @ rest) = (Some (unat b), rest)"
  using unat_u8 [of b] by (intro read_radix_number) (simp_all add: number_radix_def)

lemma read_octets_4: "read_octets i 4 = read_octets i (Suc (Suc (Suc (Suc 0))))"
  by (simp only: eval_nat_numeral BitM.simps pred_numeral_simps)

lemma read_ipv4_display: "no_digit 10 rest \<Longrightarrow> read_ipv4_addr (ipv4_display a @ rest) = (Some a, rest)"
proof -
  assume "no_digit 10 rest"
  then show ?thesis
    by (cases a) (simp add: read_ipv4_addr_def read_octets_4 read_atomically_def p_bind_def p_return_def octet_number)
qed

section \<open>Reading IPv6 addresses back\<close>

lemma read_radix_none: "no_digit r s \<Longrightarrow> read_radix_max_digits r m z limit s = (None, s)"
  by (cases s) (simp_all add: read_radix_max_digits_def read_atomically_def p_bind_def p_fail_def no_digit_def)

lemma radix_loop_rest:
  "radix_loop r m a c s = (Some x, s') \<Longrightarrow> s' = dropWhile (\<lambda>b. to_digit r b \<noteq> None) s"
  by (induction s arbitrary: a c) (auto split: option.splits if_splits)

lemma read_radix_rest:
  "read_radix_max_digits r m z limit s = (Some x, s') \<Longrightarrow> s' = dropWhile (\<lambda>b. to_digit r b \<noteq> None) s"
  by (cases s) (auto simp: read_radix_max_digits_def read_atomically_def p_bind_def p_fail_def p_return_def
      dest!: radix_loop_rest split: option.splits prod.splits if_splits)

lemma not_ipv4:
  assumes "dropWhile (\<lambda>b. to_digit 10 b \<noteq> None) s = [] \<or> hd (dropWhile (\<lambda>b. to_digit 10 b \<noteq> None) s) \<noteq> 46"
  shows "read_ipv4_addr s = (None, s)"
proof -
  obtain x s' where x: "read_radix_max_digits 10 3 False 255 s = (x, s')" by fastforce
  show ?thesis
  proof (cases x)
    case None
    with x show ?thesis
      by (simp add: read_ipv4_addr_def read_octets_4 read_atomically_def p_bind_def)
  next
    case (Some v)
    with read_radix_rest [of 10 3 False 255 s v s'] x assms have "s' = [] \<or> hd s' \<noteq> 46" by simp
    with x Some show ?thesis
      by (simp add: read_ipv4_addr_def read_octets_4 read_atomically_def p_bind_def)
  qed
qed

text \<open>Where a group ends: at no digit and no dot.\<close>

definition group_end :: "bytes \<Rightarrow> bool" where
  "group_end s \<longleftrightarrow> no_digit 16 s \<and> (s = [] \<or> hd s \<noteq> 46)"

lemma no_digit_hex: "no_digit 16 s \<Longrightarrow> no_digit 10 s"
  using to_digit_decimal_hex by (fastforce simp: no_digit_def)

lemma group_end_simps [simp]: "group_end []" "group_end (58 # s)" "group_end (93 # s)" "group_end (37 # s)"
  by (simp_all add: group_end_def)

lemma group_end_not_ipv4: "group_end s \<Longrightarrow> read_ipv4_addr s = (None, s)"
  using no_digit_hex [of s] by (intro not_ipv4) (cases s; auto simp: group_end_def no_digit_def)

lemma dropWhile_append_cases:
  "dropWhile P (xs @ ys) = dropWhile P ys \<or> hd (dropWhile P (xs @ ys)) \<in> set xs"
  by (induction xs) auto

lemma hex_no_dot: "46 \<notin> set (radix_bytes 16 n)"
proof
  assume "46 \<in> set (radix_bytes 16 n)"
  then obtain d where "d < 16" "(46 :: u8) = digit_byte d" using radix_bytes_digits [of 16 n] by auto
  then have "unat (46 :: u8) = (if d < 10 then 48 + d else 87 + d)" using unat_digit_byte [of d] by metis
  then show False by (simp split: if_splits)
qed

lemma hex_not_ipv4: "group_end rest \<Longrightarrow> read_ipv4_addr (radix_bytes 16 n @ rest) = (None, radix_bytes 16 n @ rest)"
proof (rule not_ipv4)
  assume "group_end rest"
  then have "dropWhile (\<lambda>b. to_digit 10 b \<noteq> None) rest = rest" "rest = [] \<or> hd rest \<noteq> 46"
    using no_digit_hex [of rest] by (cases rest; auto simp: group_end_def no_digit_def)+
  then show "dropWhile (\<lambda>b. to_digit 10 b \<noteq> None) (radix_bytes 16 n @ rest) = []
    \<or> hd (dropWhile (\<lambda>b. to_digit 10 b \<noteq> None) (radix_bytes 16 n @ rest)) \<noteq> 46"
    using dropWhile_append_cases [of "\<lambda>b. to_digit 10 b \<noteq> None" "radix_bytes 16 n" rest] hex_no_dot [of n]
    by metis
qed

lemma hex_number:
  "group_end rest \<Longrightarrow>
   read_radix_max_digits 16 4 True 65535 (radix_bytes 16 (unat (g :: u16)) @ rest) = (Some (unat g), rest)"
  using unat_u16 [of g] by (intro read_radix_number) (simp_all add: number_radix_def group_end_def)

text \<open>The text of the groups \<open>gs\<close> when they start at slot \<open>i\<close>.\<close>

fun groups_text :: "nat \<Rightarrow> u16 list \<Rightarrow> bytes \<Rightarrow> bytes" where
  "groups_text i [] rest = rest"
| "groups_text i (g # gs) rest =
     (if i > 0 then [58] else []) @ radix_bytes 16 (unat g) @ groups_text (i + 1) gs rest"

lemma groups_text_Suc: "gs \<noteq> [] \<Longrightarrow> groups_text (Suc i) gs rest = 58 # fmt_subslice gs @ rest"
proof (induction gs arbitrary: i)
  case (Cons g gs)
  then show ?case by (cases "gs = []") (simp_all add: fmt_subslice_def join_with_Cons)
qed simp

lemma groups_text_0: "groups_text 0 gs rest = fmt_subslice gs @ rest"
proof (cases gs)
  case (Cons g gs')
  then show ?thesis by (cases "gs' = []") (simp_all add: fmt_subslice_def groups_text_Suc join_with_Cons)
qed (simp add: fmt_subslice_def)

lemma group_end_groups_text: "group_end rest \<Longrightarrow> group_end (groups_text (Suc i) gs rest)"
  by (cases gs) simp_all

lemma read_atomically_idem [simp]: "read_atomically (read_atomically m) = read_atomically m"
  by (auto simp: read_atomically_def fun_eq_iff split: prod.splits option.splits)

lemma read_atomic_parsers [simp]:
  "read_atomically read_ipv4_addr = read_ipv4_addr"
  "read_atomically (read_radix_max_digits r m z l) = read_radix_max_digits r m z l"
  by (simp_all add: read_ipv4_addr_def read_radix_max_digits_def)

lemma read_groups_step:
  assumes "i < length G" "group_end rest"
  shows "read_groups G i ((if i > 0 then [58] else []) @ radix_bytes 16 (unat g) @ rest)
    = read_groups (G[i := g]) (i + 1) rest"
  using assms hex_not_ipv4 [OF assms(2), of "unat g"] hex_number [OF assms(2), of g]
  by (subst read_groups.simps) (auto simp: Let_def)

lemma read_groups_text:
  "group_end rest \<Longrightarrow> i + length gs \<le> length G \<Longrightarrow>
   read_groups G i (groups_text i gs rest)
     = read_groups (take i G @ gs @ drop (i + length gs) G) (i + length gs) rest"
proof (induction gs arbitrary: i G)
  case (Cons g gs)
  have "read_groups G i (groups_text i (g # gs) rest) = read_groups (G[i := g]) (Suc i) (groups_text (Suc i) gs rest)"
    using read_groups_step [of i G "groups_text (Suc i) gs rest" g] Cons.prems group_end_groups_text [of rest i gs]
    by simp
  also have "\<dots> = read_groups (take (Suc i) (G[i := g]) @ gs @ drop (Suc i + length gs) (G[i := g]))
      (Suc i + length gs) rest"
    using Cons.prems by (intro Cons.IH) simp_all
  also have "take (Suc i) (G[i := g]) = take i G @ [g]"
    using Cons.prems by (simp add: take_Suc_conv_app_nth)
  finally show ?case by simp
qed simp

text \<open>Where the groups stop before the array is full: no separator, or a double colon.\<close>

definition groups_end :: "nat \<Rightarrow> bytes \<Rightarrow> bool" where
  "groups_end i s \<longleftrightarrow> group_end s \<and> (i = 0 \<or> s = [] \<or> hd s \<noteq> 58 \<or> (tl s \<noteq> [] \<and> hd (tl s) = 58))"

lemma read_groups_stop:
  assumes "groups_end i s" "i < length G"
  shows "read_groups G i s = ((G, i, False), s)"
proof -
  have g: "group_end s" using assms(1) by (simp add: groups_end_def)
  have "read_separator 58 i read_ipv4_addr s = (None, s)"
    "read_separator 58 i (read_radix_max_digits 16 4 True 65535) s = (None, s)"
  proof (atomize (full), cases "i = 0")
    case True
    with g show "read_separator 58 i read_ipv4_addr s = (None, s)
      \<and> read_separator 58 i (read_radix_max_digits 16 4 True 65535) s = (None, s)"
      by (simp add: group_end_not_ipv4 read_radix_none group_end_def)
  next
    case False
    consider "s = [] \<or> hd s \<noteq> 58" | t where "s = 58 # 58 # t"
      using assms(1) False by (cases s; cases "tl s") (auto simp: groups_end_def)
    then show "read_separator 58 i read_ipv4_addr s = (None, s)
      \<and> read_separator 58 i (read_radix_max_digits 16 4 True 65535) s = (None, s)"
      using False by cases (simp_all add: group_end_not_ipv4 read_radix_none)
  qed
  then show ?thesis using assms(2) by (subst read_groups.simps) (simp add: Let_def)
qed

lemma read_groups_full: "length G \<le> i \<Longrightarrow> read_groups G i s = ((G, length G, False), s)"
  by (subst read_groups.simps) (simp add: Let_def)

section \<open>The span of zeros\<close>

definition zeros_at :: "u16 list \<Rightarrow> span \<Rightarrow> bool" where
  "zeros_at g sp \<longleftrightarrow> fst sp + snd sp \<le> length g \<and> take (snd sp) (drop (fst sp) g) = replicate (snd sp) 0"

lemma zeros_at_append: "zeros_at g sp \<Longrightarrow> zeros_at (g @ xs) sp"
  by (auto simp: zeros_at_def)

lemma zeros_at_extend: "zeros_at g (s, n) \<Longrightarrow> s + n = length g \<Longrightarrow> zeros_at (g @ [0]) (s, Suc n)"
  by (auto simp: zeros_at_def replicate_append_same)

lemma zero_span_zeros:
  "zeros_at g longest \<Longrightarrow> zeros_at g current \<Longrightarrow> snd current = 0 \<or> fst current + snd current = length g \<Longrightarrow>
   i = length g \<Longrightarrow> zeros_at (g @ xs) (zero_span i longest current xs)"
proof (induction xs arbitrary: g i longest current)
  case (Cons x xs)
  show ?case
  proof (cases "x = 0")
    case True
    let ?c = "(if snd current = 0 then i else fst current, snd current + 1)"
    have c: "zeros_at (g @ [0]) ?c"
    proof (cases "snd current = 0")
      case True
      then show ?thesis using Cons.prems by (simp add: zeros_at_def)
    next
      case False
      then show ?thesis using zeros_at_extend [of g "fst current" "snd current"] Cons.prems by simp
    qed
    have "zeros_at ((g @ [0]) @ xs) (zero_span (i + 1) (if snd ?c > snd longest then ?c else longest) ?c xs)"
      using Cons.prems c zeros_at_append [OF Cons.prems(1)] by (intro Cons.IH) auto
    with True show ?thesis by (auto simp: Let_def split: if_splits)
  next
    case False
    have "zeros_at ((g @ [x]) @ xs) (zero_span (i + 1) longest (0, 0) xs)"
      using Cons.prems zeros_at_append [OF Cons.prems(1)] by (intro Cons.IH) (auto simp: zeros_at_def)
    with False show ?thesis by simp
  qed
qed simp

section \<open>Whole addresses\<close>

lemma group_end_bracket: "rest = [] \<or> hd rest \<in> {93, 37} \<Longrightarrow> group_end rest \<and> groups_end i rest \<and> no_digit 10 rest"
  by (cases rest) (auto simp: groups_end_def)

lemma read_given_char_simps [simp]: "read_given_char c (c # s) = (Some (), s)"
  by (simp add: read_given_char_def read_atomically_def p_bind_def p_return_def)

lemma p_bind_Some: "m s = (Some x, s') \<Longrightarrow> p_bind m k s = k x s'"
  by (simp add: p_bind_def)

text \<open>The address after a \<open>::\<close>, from what the two calls of \<open>read_groups\<close> give.\<close>

lemma read_ipv6_gap:
  assumes "read_groups (replicate 8 0) 0 s = ((head, n, False), 58 # 58 # s2)" "n < 8"
    and "read_groups (replicate (7 - n) 0) 0 s2 = ((tl', k, b), rest)"
  shows "read_ipv6_addr s = (Some (Ipv6Addr (take (8 - k) head @ take k tl')), rest)"
proof -
  have "8 - (n + 1) = 7 - n" by simp
  then show ?thesis
    using assms by (simp add: read_ipv6_addr_def read_atomically_def p_bind_Some Let_def)
qed

lemma split_u16: "u16_from_be_bytes (ucast (drop_bit 8 x)) (ucast (x :: u16)) = x"
proof -
  have "unat (ucast (drop_bit 8 x) :: u8) = unat x div 256"
    using unat_u16 [of x] by (simp add: unat_ucast unat_shiftr)
  moreover have "unat (ucast x :: u8) = unat x mod 256" by (simp add: unat_ucast)
  ultimately show ?thesis by (simp add: u16_from_be_bytes_def)
qed

lemma drop5: "length g = 8 \<Longrightarrow> drop 5 g = [g ! 5, g ! 6, g ! 7]"
  by (rule nth_equalityI) (auto simp: less_Suc_eq numeral_eq_Suc)

lemma read_ipv6_mapped:
  assumes "length (segments a) = 8" "to_ipv4_mapped a = Some v4" "rest = [] \<or> hd rest \<in> {93, 37}"
  shows "read_ipv6_addr ([58, 58, 102, 102, 102, 102, 58] @ ipv4_display v4 @ rest) = (Some a, rest)"
proof -
  obtain g where a: "a = Ipv6Addr g" "length g = 8" using assms(1) by (cases a) auto
  have g: "take 5 g = replicate 5 0" "g ! 5 = 0xFFFF"
    "v4 = Ipv4Addr (ucast (drop_bit 8 (g ! 6))) (ucast (g ! 6)) (ucast (drop_bit 8 (g ! 7))) (ucast (g ! 7))"
    using assms(2) a by (auto simp: to_ipv4_mapped_def Let_def split: if_splits)
  let ?s2 = "102 # 102 # 102 # 102 # 58 # ipv4_display v4 @ rest"
  have ffff: "radix_bytes 16 (unat (0xFFFF :: u16)) = [102, 102, 102, 102]"
    by (simp add: radix_bytes.simps digit_byte_def)
  have rep7: "replicate 7 (0 :: u16) = [0, 0, 0, 0, 0, 0, 0]" by (simp add: numeral_eq_Suc)
  have head: "read_groups (replicate 8 0) 0 (58 # 58 # ?s2) = ((replicate 8 0, 0, False), 58 # 58 # ?s2)"
    by (rule read_groups_stop) (simp_all add: groups_end_def)
  have "read_groups (replicate 7 0) 0 ?s2
      = read_groups ((replicate 7 0)[0 := 0xFFFF]) 1 (58 # ipv4_display v4 @ rest)"
    using read_groups_step [where i = 0 and G = "replicate 7 0" and rest = "58 # ipv4_display v4 @ rest" and g = "0xFFFF"] ffff by simp
  also have "\<dots> = (([0xFFFF, g ! 6, g ! 7, 0, 0, 0, 0], 3, True), rest)"
    using read_ipv4_display [of rest v4] group_end_bracket [OF assms(3), of 0]
    by (subst read_groups.simps) (simp add: g(3) split_u16 rep7)
  finally have tail: "read_groups (replicate (7 - 0) 0) 0 ?s2 = (([0xFFFF, g ! 6, g ! 7, 0, 0, 0, 0], 3, True), rest)"
    by simp
  have "take (8 - 3) (replicate 8 (0 :: u16)) @ take 3 [0xFFFF, g ! 6, g ! 7, 0, 0, 0, 0] = g"
    using append_take_drop_id [of 5 g] drop5 [OF a(2)] g(1,2) by (simp add: numeral_3_eq_3)
  with read_ipv6_gap [OF head _ tail] a show ?thesis by simp
qed

lemma read_ipv6_display:
  assumes "length (segments a) = 8" "rest = [] \<or> hd rest \<in> {93, 37}"
  shows "read_ipv6_addr (ipv6_display a @ rest) = (Some a, rest)"
proof (cases "to_ipv4_mapped a")
  case (Some v4)
  with read_ipv6_mapped [OF assms(1) Some assms(2)] show ?thesis by (simp add: ipv6_display_def)
next
  case None
  obtain g where a: "a = Ipv6Addr g" and len8: "length g = 8" using assms(1) by (cases a) auto
  note ends = group_end_bracket [OF assms(2)]
  obtain start len where sp: "zero_span 0 (0, 0) (0, 0) g = (start, len)" by fastforce
  have z: "start + len \<le> 8" "take len (drop start g) = replicate len 0"
    using zero_span_zeros [of "[]" "(0, 0)" "(0, 0)" 0 g] sp len8 by (simp_all add: zeros_at_def)
  show ?thesis
  proof (cases "len > 1")
    case False
    have "read_groups (replicate 8 0) 0 (fmt_subslice g @ rest) = ((g, 8, False), rest)"
      using read_groups_text [of rest 0 g "replicate 8 0"] read_groups_full [of g 8 rest] ends len8
      by (simp add: groups_text_0)
    with False None sp a show ?thesis
      by (simp add: ipv6_display_def read_ipv6_addr_def read_atomically_def Let_def)
  next
    case True
    let ?h = "take start g" and ?t = "drop (start + len) g"
    let ?s2 = "fmt_subslice ?t @ rest"
    have head: "read_groups (replicate 8 0) 0 (fmt_subslice ?h @ 58 # 58 # ?s2)
        = ((?h @ replicate (8 - start) 0, start, False), 58 # 58 # ?s2)"
      using read_groups_text [of "58 # 58 # ?s2" 0 ?h "replicate 8 0"] z(1) True len8
        read_groups_stop [of start "58 # 58 # ?s2" "?h @ replicate (8 - start) 0"]
      by (simp add: groups_text_0 groups_end_def)
    have tail: "read_groups (replicate (7 - start) 0) 0 ?s2
        = ((?t @ replicate (7 - start - length ?t) 0, length ?t, False), rest)"
      using read_groups_text [of rest 0 ?t "replicate (7 - start) 0"] z(1) True len8 ends
        read_groups_stop [of "length ?t" rest "?t @ replicate (7 - start - length ?t) 0"]
        group_end_bracket [OF assms(2), of "length ?t"]
      by (simp add: groups_text_0)
    have "take (8 - length ?t) (?h @ replicate (8 - start) 0) @ take (length ?t) (?t @ replicate (7 - start - length ?t) 0)
        = ?h @ take len (drop start g) @ ?t"
      using z len8 by (auto simp: min_def)
    also have "\<dots> = g" by (metis add.commute append_take_drop_id drop_drop)
    finally show ?thesis
      using read_ipv6_gap [OF head _ tail] z(1) True None sp a by (simp add: ipv6_display_def)
  qed
qed

lemma ipv6_not_ipv4:
  assumes "length (segments a) = 8" "rest = [] \<or> hd rest \<in> {93, 37}"
  shows "read_ipv4_addr (ipv6_display a @ rest) = (None, ipv6_display a @ rest)"
proof -
  have chunk: "read_ipv4_addr (fmt_subslice gs @ s) = (None, fmt_subslice gs @ s)" if "group_end s" for gs s
  proof (cases gs)
    case (Cons g gs')
    with hex_not_ipv4 [of "if gs' = [] then s else 58 # fmt_subslice gs' @ s" "unat g"] that
    show ?thesis by (cases "gs' = []") (simp_all add: fmt_subslice_def join_with_Cons)
  qed (use that in \<open>simp add: fmt_subslice_def group_end_not_ipv4\<close>)
  show ?thesis
    using group_end_bracket [OF assms(2), of 0] chunk [of rest "segments a"] group_end_not_ipv4
    by (auto simp: ipv6_display_def Let_def chunk split: option.splits prod.splits)
qed

lemma ipv4_display_length: "length (ipv4_display a) \<le> 15"
proof -
  have len: "length (radix_bytes 10 (unat (b :: u8))) \<le> 3" for b
  proof -
    obtain ds where dg: "digits_of 10 (unat b) ds" using radix_digits [of 10 "unat b"] by auto
    have "unat b < 10 ^ 3" using unat_u8 [of b] by simp
    with digits_ofD(1,6) [OF dg] show ?thesis by auto
  qed
  show ?thesis
  proof (cases a)
    case (Ipv4Addr p q r t)
    with len [of p] len [of q] len [of r] len [of t] show ?thesis by simp
  qed
qed

section \<open>Only the printed form of an IPv4 address is read\<close>

lemma to_digit_decimal: "to_digit 10 c = Some d \<Longrightarrow> c = digit_byte d"
proof -
  assume d: "to_digit 10 c = Some d"
  then have v: "unat ((ucast c :: u32) - 48) = d" "d < 10"
    by (auto simp: to_digit_def Let_def split: if_splits)
  have c: "unat (ucast c :: u32) = unat c" "unat c < 256" using unat_u8 [of c] by (simp_all add: unat_ucast)
  have "\<not> (ucast c :: u32) < 48"
  proof
    assume "(ucast c :: u32) < 48"
    then have "unat c < 48" using c by (simp add: word_less_nat_alt)
    then have "unat ((ucast c :: u32) - 48) = 2 ^ 32 + unat c - 48"
      using c by (simp add: unat_sub_if')
    with v show False by simp
  qed
  then have "unat c = 48 + d" using c v by (simp add: word_less_nat_alt unat_sub_if')
  then show ?thesis using v(2) unat_digit_byte [of d] by (simp add: word_unat_eq_iff)
qed

lemma radix_loop_sound:
  "radix_loop 10 m a c s = (Some (v, k), s') \<Longrightarrow>
   \<exists>ds. s = map digit_byte ds @ s' \<and> (\<forall>d\<in>set ds. d < 10) \<and> v = foldl (\<lambda>a d. a * 10 + d) a ds \<and> k = c + length ds"
proof (induction s arbitrary: a c)
  case (Cons x s)
  show ?case
  proof (cases "to_digit 10 x")
    case (Some d)
    with Cons.prems have "radix_loop 10 m (a * 10 + d) (c + 1) s = (Some (v, k), s')"
      by (auto split: if_splits)
    from Cons.IH [OF this] obtain ds where ds: "s = map digit_byte ds @ s'" "\<forall>d\<in>set ds. d < 10"
      "v = foldl (\<lambda>a d. a * 10 + d) (a * 10 + d) ds" "k = c + 1 + length ds" by blast
    then show ?thesis using to_digit_decimal [OF Some] to_digit_less [OF Some]
      by (intro exI [of _ "d # ds"]) simp
  qed (use Cons.prems in \<open>auto intro: exI [of _ "[]"]\<close>)
qed simp

lemma radix_bytes_foldl:
  "ds \<noteq> [] \<Longrightarrow> \<forall>d\<in>set ds. d < 10 \<Longrightarrow> hd ds \<noteq> 0 \<or> length ds = 1 \<Longrightarrow>
   radix_bytes 10 (foldl (\<lambda>a d. a * 10 + d) 0 ds) = map digit_byte ds"
proof (induction ds rule: rev_induct)
  case (snoc d ds)
  show ?case
  proof (cases "ds = []")
    case True
    with snoc.prems show ?thesis by (subst radix_bytes.simps) simp
  next
    case False
    let ?q = "foldl (\<lambda>a d. a * 10 + d) 0 ds"
    obtain e es where ds: "ds = e # es" using False by (cases ds) auto
    have "e \<noteq> 0" using snoc.prems(3) ds by simp
    moreover have "e \<le> ?q" using foldl_digits_ge [of 10 e es] ds by simp
    ultimately have "10 \<le> ?q * 10 + d" by simp
    moreover have "radix_bytes 10 ?q = map digit_byte ds"
      using snoc False \<open>e \<noteq> 0\<close> ds by simp
    moreover have "d < 10" using snoc.prems(2) by simp
    ultimately show ?thesis by (subst radix_bytes.simps) simp
  qed
qed simp

lemma read_octet_sound:
  assumes "read_radix_max_digits 10 3 False 255 s = (Some n, s')"
  shows "n \<le> 255 \<and> s = radix_bytes 10 n @ s'"
proof -
  obtain c t where s: "s = c # t" using assms
    by (cases s) (auto simp: read_radix_max_digits_def read_atomically_def p_bind_def)
  obtain d k where d: "to_digit 10 c = Some d" "radix_loop 10 3 d 1 t = (Some (n, k), s')" "\<not> (d = 0 \<and> k > 1)" "n \<le> 255"
    using assms s by (auto simp: read_radix_max_digits_def read_atomically_def p_bind_def p_fail_def p_return_def
        split: option.splits prod.splits if_splits)
  obtain ds where ds: "t = map digit_byte ds @ s'" "\<forall>d\<in>set ds. d < 10" "n = foldl (\<lambda>a d. a * 10 + d) d ds" "k = 1 + length ds"
    using radix_loop_sound [OF d(2)] by blast
  have "radix_bytes 10 (foldl (\<lambda>a d. a * 10 + d) 0 (d # ds)) = map digit_byte (d # ds)"
    by (rule radix_bytes_foldl) (use d(1,3) ds(2,4) to_digit_less in auto)
  with ds d s to_digit_decimal [OF d(1)] show ?thesis by simp
qed

lemma read_separator_sound:
  "read_separator sep i p s = (Some x, s') \<Longrightarrow> 0 < i \<Longrightarrow> \<exists>t. s = sep # t \<and> p t = (Some x, s')"
  by (cases s) (auto simp: read_separator_def read_given_char_def read_atomically_def p_bind_def p_return_def
      p_fail_def split: option.splits prod.splits if_splits)

lemma read_octets_sound:
  "read_octets (Suc i) n s = (Some bs, s') \<Longrightarrow>
   length bs = n \<and> s = concat (map (\<lambda>b. 46 # radix_bytes 10 (unat b)) bs) @ s'"
proof (induction n arbitrary: i s bs)
  case (Suc n)
  then obtain m s1 cs where m: "read_separator 46 (Suc i) (read_radix_max_digits 10 3 False 255) s = (Some m, s1)"
    "read_octets (Suc (Suc i)) n s1 = (Some cs, s')" "bs = of_nat m # cs"
    by (auto simp: p_bind_def p_return_def split: option.splits prod.splits)
  obtain t where t: "s = 46 # t" "read_radix_max_digits 10 3 False 255 t = (Some m, s1)"
    using read_separator_sound [OF m(1)] by auto
  have "m \<le> 255" "t = radix_bytes 10 m @ s1" using read_octet_sound [OF t(2)] by auto
  moreover from this have "unat (of_nat m :: u8) = m" by (intro unat_of_nat_less) simp
  ultimately show ?case using t(1) m(3) Suc.IH [OF m(2)] by simp
qed (simp add: p_return_def)

lemma read_ipv4_sound: "read_ipv4_addr s = (Some a, s') \<Longrightarrow> s = ipv4_display a @ s'"
proof -
  assume "read_ipv4_addr s = (Some a, s')"
  then obtain bs where bs: "read_octets 0 4 s = (Some bs, s')" "ipv4_of_octets bs = Some a"
    by (auto simp: read_ipv4_addr_def read_atomically_def p_bind_def p_return_def p_fail_def
        split: option.splits prod.splits)
  then obtain m s1 cs where m: "read_radix_max_digits 10 3 False 255 s = (Some m, s1)"
    "read_octets (Suc 0) 3 s1 = (Some cs, s')" "bs = of_nat m # cs"
    unfolding read_octets_4
    by (auto simp: p_bind_def p_return_def numeral_3_eq_3 split: option.splits prod.splits)
  have "m \<le> 255" "s = radix_bytes 10 m @ s1" using read_octet_sound [OF m(1)] by auto
  moreover from this have "unat (of_nat m :: u8) = m" by (intro unat_of_nat_less) simp
  moreover obtain x y z where "cs = [x, y, z]"
    using read_octets_sound [OF m(2)] by (auto simp: numeral_3_eq_3 length_Suc_conv)
  ultimately show ?thesis using read_octets_sound [OF m(2)] m(3) bs(2) by auto
qed

section \<open>Socket addresses\<close>

lemma bracket_not_ipv4: "read_ipv4_addr (91 # s) = (None, 91 # s)"
  by (rule not_ipv4) (simp add: to_digit_def Let_def)

lemma no_scope: "optional 0 read_scope_id (93 # s) = (Some 0, 93 # s)"
  by (simp add: optional_def read_scope_id_def read_given_char_def read_atomically_def p_bind_def p_fail_def)

lemma scope_text:
  "optional 0 read_scope_id (37 # radix_bytes 10 (unat w) @ 93 # s) = (Some w, 93 # s)"
  by (simp add: optional_def read_scope_id_def read_atomically_def p_bind_Some read_decimal_number)

lemma read_port_text: "read_port (58 # radix_bytes 10 (unat w)) = (Some w, [])"
  using read_decimal_number [of "[]" w]
  by (simp add: read_port_def read_atomically_def p_bind_Some)

section \<open>Properties\<close>

text \<open>
  C29: \<open>Ipv4Addr\<close> parses exactly what it prints: a text is accepted, as the address \<open>a\<close>, if and only
  if it is the dotted form of \<open>a\<close>. Leading zeros, octets above 255, missing or additional parts and
  trailing bytes are all refused.
\<close>

theorem ipv4_text_canonical: "ipv4_parse b = Some a \<longleftrightarrow> b = ipv4_display a"
proof
  assume "ipv4_parse b = Some a"
  then have "read_ipv4_addr b = (Some a, [])"
    by (auto simp: ipv4_parse_def parse_with_def split: if_splits prod.splits)
  from read_ipv4_sound [OF this] show "b = ipv4_display a" by simp
next
  assume b: "b = ipv4_display a"
  with ipv4_display_length [of a] read_ipv4_display [of "[]" a] show "ipv4_parse b = Some a"
    by (simp add: ipv4_parse_def parse_with_def)
qed

lemma address_texts:
  assumes "length (segments v6) = 8" "length (segments (v6_ip s6)) = 8" "v6_flowinfo s6 = 0"
  shows "ipv6_parse (ipv6_display v6) = Some v6
    \<and> ip_parse (ip_display (IpV4 v4)) = Some (IpV4 v4) \<and> ip_parse (ip_display (IpV6 v6)) = Some (IpV6 v6)
    \<and> socket_v4_parse (socket_v4_display s4) = Some s4 \<and> socket_v6_parse (socket_v6_display s6) = Some s6
    \<and> socket_parse (socket_display (SockV4 s4)) = Some (SockV4 s4)
    \<and> socket_parse (socket_display (SockV6 s6)) = Some (SockV6 s6)"
proof -
  have v6: "read_ipv6_addr (ipv6_display v6) = (Some v6, [])"
    "read_ipv4_addr (ipv6_display v6) = (None, ipv6_display v6)"
    using read_ipv6_display [OF assms(1), of "[]"] ipv6_not_ipv4 [OF assms(1), of "[]"] by simp_all
  have v4: "read_ipv4_addr (ipv4_display v4) = (Some v4, [])" using read_ipv4_display [of "[]" v4] by simp
  have sock4: "read_socket_addr_v4 (socket_v4_display s4) = (Some s4, [])"
    by (cases s4) (simp add: read_socket_addr_v4_def read_port_def read_atomically_def p_bind_Some p_return_def
        read_ipv4_display read_decimal_number [where rest = "[]", simplified])
  have sock6: "read_socket_addr_v6 (socket_v6_display s6) = (Some s6, [])"
  proof (cases "v6_scope_id s6 = 0")
    case True
    then show ?thesis using assms(2,3)
      by (simp add: socket_v6_display_def read_socket_addr_v6_def read_atomically_def p_bind_Some p_return_def
          read_ipv6_display no_scope read_port_text)
  next
    case False
    then show ?thesis using assms(2,3)
      by (simp add: socket_v6_display_def read_socket_addr_v6_def read_atomically_def p_bind_Some p_return_def
          read_ipv6_display scope_text read_port_text)
  qed
  have no4: "read_socket_addr_v4 (socket_v6_display s6) = (None, socket_v6_display s6)"
    by (simp add: read_socket_addr_v4_def read_atomically_def p_bind_def socket_v6_display_def bracket_not_ipv4)
  show ?thesis using v6 v4 sock4 sock6 no4
    by (simp add: ipv6_parse_def ip_parse_def socket_v4_parse_def socket_v6_parse_def socket_parse_def parse_with_def
        ip_display_def socket_display_def read_ip_addr_def read_socket_addr_def or_else_def p_bind_def p_return_def)
qed

text \<open>
  C25: every address and socket address, of either family, is read back from its text: the
  compressed form of IPv6 with its span of zeros and its embedded IPv4 form included. The flow
  information, which is not printed, has to be 0.
\<close>

theorem address_text_roundtrip:
  assumes "length (segments v6) = 8" "length (segments (v6_ip s6)) = 8" "v6_flowinfo s6 = 0"
  shows "ipv6_parse (ipv6_display v6) = Some v6
    \<and> ip_parse (ip_display (IpV4 v4)) = Some (IpV4 v4) \<and> ip_parse (ip_display (IpV6 v6)) = Some (IpV6 v6)
    \<and> socket_v4_parse (socket_v4_display s4) = Some s4 \<and> socket_v6_parse (socket_v6_display s6) = Some s6
    \<and> socket_parse (socket_display (SockV4 s4)) = Some (SockV4 s4)
    \<and> socket_parse (socket_display (SockV6 s6)) = Some (SockV6 s6)"
  using address_texts [OF assms] .

theorem address_text_roundtrip_witness:
  "ipv6_parse (ipv6_display (Ipv6Addr [0x2001, 0xdb8, 0, 0, 0, 0, 0, 1]))
    = Some (Ipv6Addr [0x2001, 0xdb8, 0, 0, 0, 0, 0, 1])"
  using address_text_roundtrip [of "Ipv6Addr [0x2001, 0xdb8, 0, 0, 0, 0, 0, 1]"
      "\<lparr>v6_ip = Ipv6Addr [0, 0, 0, 0, 0, 0, 0, 1], v6_port = 80, v6_flowinfo = 0, v6_scope_id = 3\<rparr>"
      "Ipv4Addr 127 0 0 1" "SocketAddrV4 (Ipv4Addr 127 0 0 1) 80"] by simp

end
