(* ===== verification/Net_Aros.thy ===== *)
theory Net_Aros
  imports Net_Parse Duration Io_Stream
begin

unbundle bit_operations_syntax

text \<open>
  Sockets, \<open>sys/net/connection/aros.rs\<close>, and their conversion into file descriptors,
  \<open>os/fd/net_aros.rs\<close>. A \<open>Socket\<close>, and a \<open>TcpStream\<close>, \<open>TcpListener\<close> or \<open>UdpSocket\<close> around it, is
  its descriptor. The target is little-endian. A value of a C type read back through an option
  pointer is cut to that type.
\<close>

section \<open>Constants and helpers\<close>

definition AF_INET :: int where "AF_INET = 2"
definition SOCK_STREAM :: int where "SOCK_STREAM = 1"
definition SOCK_DGRAM :: int where "SOCK_DGRAM = 2"
definition MSG_PEEK :: int where "MSG_PEEK = 2"
definition SOL_SOCKET :: int where "SOL_SOCKET = 0xffff"
definition SO_ERROR :: int where "SO_ERROR = 0x1007"
definition SO_REUSEADDR :: int where "SO_REUSEADDR = 4"
definition SO_BROADCAST :: int where "SO_BROADCAST = 0x20"
definition SO_KEEPALIVE :: int where "SO_KEEPALIVE = 8"
definition SO_LINGER :: int where "SO_LINGER = 0x80"
definition IPPROTO_IP :: int where "IPPROTO_IP = 0"
definition IP_TTL :: int where "IP_TTL = 4"
definition IP_MULTICAST_TTL :: int where "IP_MULTICAST_TTL = 10"
definition IP_MULTICAST_LOOP :: int where "IP_MULTICAST_LOOP = 11"
definition IP_ADD_MEMBERSHIP :: int where "IP_ADD_MEMBERSHIP = 12"
definition IP_DROP_MEMBERSHIP :: int where "IP_DROP_MEMBERSHIP = 13"
definition IPPROTO_TCP :: int where "IPPROTO_TCP = 6"
definition TCP_NODELAY :: int where "TCP_NODELAY = 1"

lemmas net_constants = AF_INET_def SOCK_STREAM_def SOCK_DGRAM_def MSG_PEEK_def SOL_SOCKET_def SO_ERROR_def
  SO_REUSEADDR_def SO_BROADCAST_def SO_KEEPALIVE_def SO_LINGER_def IPPROTO_IP_def IP_TTL_def
  IP_MULTICAST_TTL_def IP_MULTICAST_LOOP_def IP_ADD_MEMBERSHIP_def IP_DROP_MEMBERSHIP_def IPPROTO_TCP_def
  TCP_NODELAY_def

definition as_c_int :: "int \<Rightarrow> int" where
  "as_c_int i = sint (of_int i :: i32)"

definition sock_last_error :: "io_error io" where
  "sock_last_error = io_bind (sys (NetC N_errno)) (\<lambda>r. io_return (from_raw_os_error (r_ret r)))"

definition sock_fail :: "'a io" where
  "sock_fail = io_bind sock_last_error io_fail"

definition unsupported_v6 :: "'a io" where
  "unsupported_v6 =
    io_fail (SimpleMessage Unsupported ''IPv6 is not supported by the AROS bsdsocket bridge yet'')"

definition ensure_lib :: "unit io" where
  "ensure_lib = io_bind (sys (NetC N_open)) (\<lambda>r.
     if r_ret r \<noteq> 0 then io_fail (SimpleMessage Uncategorized ''cannot open bsdsocket.library'')
     else io_return ())"

definition u32_from_ne_bytes :: "u8 list \<Rightarrow> u32" where
  "u32_from_ne_bytes b = of_nat (foldr (\<lambda>x n. unat x + 256 * n) b 0)"

definition u32_to_ne_bytes :: "u32 \<Rightarrow> ipv4_addr" where
  "u32_to_ne_bytes w = Ipv4Addr (ucast w) (ucast (drop_bit 8 w)) (ucast (drop_bit 16 w)) (ucast (drop_bit 24 w))"

definition swap_u16 :: "u16 \<Rightarrow> u16" where
  "swap_u16 p = of_nat (unat p mod 256 * 256 + unat p div 256)"

fun v4_to_raw :: "socket_addr_v4 \<Rightarrow> u32 \<times> u16" where
  "v4_to_raw (SocketAddrV4 ip port) = (u32_from_ne_bytes (octets ip), swap_u16 port)"

definition raw_to_v4 :: "u32 \<Rightarrow> u16 \<Rightarrow> socket_addr_v4" where
  "raw_to_v4 addr_net port_net = SocketAddrV4 (u32_to_ne_bytes addr_net) (swap_u16 port_net)"

definition addr_to_raw :: "socket_addr \<Rightarrow> (u32 \<times> u16) io" where
  "addr_to_raw addr = (case addr of SockV4 a \<Rightarrow> io_return (v4_to_raw a) | SockV6 _ \<Rightarrow> unsupported_v6)"

text \<open>The address a call has written through its two out-pointers.\<close>

definition reply_addr :: "reply \<Rightarrow> socket_addr" where
  "reply_addr r = SockV4 (raw_to_v4 (of_int (out_param 0 0 r)) (of_int (out_param 1 0 r)))"

section \<open>Socket\<close>

definition socket_new :: "int \<Rightarrow> int io" where
  "socket_new ty =
    io_bind ensure_lib (\<lambda>_.
    io_bind (sys (NetC (N_socket AF_INET ty 0))) (\<lambda>r.
    if r_ret r < 0 then sock_fail else io_return (r_ret r)))"

definition socket_drop :: "int \<Rightarrow> unit io" where
  "socket_drop fd = io_bind (sys (NetC (N_close fd))) (\<lambda>_. io_return ())"

text \<open>
  A socket owned by a local variable: it is closed on the way out of an error, and moves into the
  result otherwise.
\<close>

definition close_on_error :: "int \<Rightarrow> 'a io \<Rightarrow> 'a io" where
  "close_on_error fd m = io_bind (io_attempt m) (\<lambda>r. case r of
      Inl e \<Rightarrow> io_bind (socket_drop fd) (\<lambda>_. io_fail e) | Inr x \<Rightarrow> io_return x)"

text \<open>A call that gives nothing but success or failure.\<close>

definition sock_unit :: "net_call \<Rightarrow> unit io" where
  "sock_unit c = io_bind (sys (NetC c)) (\<lambda>r. if r_ret r < 0 then sock_fail else io_return ())"

definition sock_count :: "net_call \<Rightarrow> nat io" where
  "sock_count c = io_bind (sys (NetC c)) (\<lambda>r. if r_ret r < 0 then sock_fail else io_return (nat (r_ret r)))"

text \<open>The option value as the C integers it consists of, and its size in bytes.\<close>

definition setsockopt :: "int \<Rightarrow> int \<Rightarrow> int \<Rightarrow> int list \<Rightarrow> nat \<Rightarrow> unit io" where
  "setsockopt fd level name val len = sock_unit (N_setsockopt fd level name val len)"

definition getsockopt :: "int \<Rightarrow> int \<Rightarrow> int \<Rightarrow> nat \<Rightarrow> nat \<Rightarrow> int list io" where
  "getsockopt fd level name nf len =
    io_bind (sys (NetC (N_getsockopt fd level name len))) (\<lambda>r.
    if r_ret r < 0 then sock_fail else io_return (map (\<lambda>i. out_param i 0 r) [0..<nf]))"

definition recv_with_flags :: "int \<Rightarrow> bytes \<Rightarrow> int \<Rightarrow> (nat \<times> bytes) io" where
  "recv_with_flags fd buf flags =
    io_bind (sys (NetC (N_recv fd (length buf) flags))) (\<lambda>r.
    if r_ret r < 0 then sock_fail else io_return (nat (r_ret r), overwrite buf (r_data r)))"

definition send_with_flags :: "int \<Rightarrow> bytes \<Rightarrow> int \<Rightarrow> nat io" where
  "send_with_flags fd buf flags = sock_count (N_send fd buf flags)"

definition local_addr :: "int \<Rightarrow> socket_addr io" where
  "local_addr fd = io_bind (sys (NetC (N_getsockname fd))) (\<lambda>r.
     if r_ret r < 0 then sock_fail else io_return (reply_addr r))"

definition peer_addr :: "int \<Rightarrow> socket_addr io" where
  "peer_addr fd = io_bind (sys (NetC (N_getpeername fd))) (\<lambda>r.
     if r_ret r < 0 then sock_fail else io_return (reply_addr r))"

definition get_c_int :: "int \<Rightarrow> int \<Rightarrow> int \<Rightarrow> int io" where
  "get_c_int fd level name =
    io_bind (getsockopt fd level name 1 4) (\<lambda>v. io_return (as_c_int (hd v)))"

definition get_u8 :: "int \<Rightarrow> int \<Rightarrow> int \<Rightarrow> u8 io" where
  "get_u8 fd level name = io_bind (getsockopt fd level name 1 1) (\<lambda>v. io_return (of_int (hd v)))"

definition sock_take_error :: "int \<Rightarrow> io_error option io" where
  "sock_take_error fd = io_bind (get_c_int fd SOL_SOCKET SO_ERROR) (\<lambda>err.
     io_return (if err = 0 then None else Some (from_raw_os_error err)))"

definition sock_set_nonblocking :: "int \<Rightarrow> bool \<Rightarrow> unit io" where
  "sock_set_nonblocking fd nb = sock_unit (N_set_nonblock fd (of_bool nb))"

definition sock_try_clone :: "int \<Rightarrow> int io" where
  "sock_try_clone fd = io_bind (sys (NetC (N_dup fd))) (\<lambda>r.
     if r_ret r < 0 then sock_fail else io_return (r_ret r))"

datatype shutdown_how = ShutdownRead | ShutdownWrite | ShutdownBoth

definition sock_shutdown :: "int \<Rightarrow> shutdown_how \<Rightarrow> unit io" where
  "sock_shutdown fd how =
    sock_unit (N_shutdown fd (case how of ShutdownRead \<Rightarrow> 0 | ShutdownWrite \<Rightarrow> 1 | ShutdownBoth \<Rightarrow> 2))"

definition set_timeout :: "duration option \<Rightarrow> unit io" where
  "set_timeout dur = (case dur of None \<Rightarrow> io_return ()
     | Some _ \<Rightarrow> io_fail (SimpleMessage Unsupported
         ''socket timeouts are not yet supported on AROS (bsdsocket blocking is emulated)''))"

section \<open>Streams, listeners and datagram sockets\<close>

text \<open>
  The data operations of \<open>TcpStream\<close> are those of its socket; \<open>read_vectored\<close> and \<open>write_vectored\<close>
  use the first buffer that is not empty.
\<close>

definition tcp_read :: "int \<Rightarrow> bytes \<Rightarrow> (nat \<times> bytes) io" where
  "tcp_read fd buf = recv_with_flags fd buf 0"

definition tcp_peek :: "int \<Rightarrow> bytes \<Rightarrow> (nat \<times> bytes) io" where
  "tcp_peek fd buf = recv_with_flags fd buf MSG_PEEK"

definition tcp_write :: "int \<Rightarrow> bytes \<Rightarrow> nat io" where
  "tcp_write fd buf = send_with_flags fd buf 0"

text \<open>\<open>default_read_buf\<close>: a cursor with room for \<open>capacity\<close> bytes, zeroed first.\<close>

definition tcp_read_buf :: "int \<Rightarrow> nat \<Rightarrow> bytes io" where
  "tcp_read_buf fd capacity =
    io_bind (tcp_read fd (replicate capacity 0)) (\<lambda>(n, buf).
    if n > capacity then io_panic ''assertion failed: n <= init_unfilled'' else io_return (take n buf))"

fun tcp_read_vectored :: "int \<Rightarrow> bytes list \<Rightarrow> (nat \<times> bytes list) io" where
  "tcp_read_vectored fd [] = io_return (0, [])"
| "tcp_read_vectored fd (b # bs) =
    (if b \<noteq> [] then io_bind (tcp_read fd b) (\<lambda>(n, b'). io_return (n, b' # bs))
     else io_bind (tcp_read_vectored fd bs) (\<lambda>(n, bs'). io_return (n, b # bs')))"

definition tcp_write_vectored :: "int \<Rightarrow> bytes list \<Rightarrow> nat io" where
  "tcp_write_vectored fd bufs =
    (case filter (\<lambda>b. b \<noteq> []) bufs of b # _ \<Rightarrow> tcp_write fd b | [] \<Rightarrow> io_return 0)"

definition tcp_connect_to :: "socket_addr \<Rightarrow> int io" where
  "tcp_connect_to addr =
    io_bind (addr_to_raw addr) (\<lambda>(a, p).
    io_bind (socket_new SOCK_STREAM) (\<lambda>sock.
    close_on_error sock (io_bind (sys (NetC (N_connect sock a p))) (\<lambda>r.
      if r_ret r < 0 then sock_fail else io_return sock))))"

definition connect_timeout :: "socket_addr \<Rightarrow> duration \<Rightarrow> int io" where
  "connect_timeout addr d = tcp_connect_to addr"

definition tcp_bind_to :: "socket_addr \<Rightarrow> int io" where
  "tcp_bind_to addr =
    io_bind (addr_to_raw addr) (\<lambda>(a, p).
    io_bind (socket_new SOCK_STREAM) (\<lambda>sock.
    close_on_error sock
      (io_bind (io_ignore (setsockopt sock SOL_SOCKET SO_REUSEADDR [1] 4)) (\<lambda>_.
       io_bind (sys (NetC (N_bind sock a p))) (\<lambda>r.
       if r_ret r < 0 then sock_fail
       else io_bind (sys (NetC (N_listen sock 128))) (\<lambda>r'.
         if r_ret r' < 0 then sock_fail else io_return sock))))))"

definition listener_accept :: "int \<Rightarrow> (int \<times> socket_addr) io" where
  "listener_accept fd = io_bind (sys (NetC (N_accept fd))) (\<lambda>r.
     if r_ret r < 0 then sock_fail else io_return (r_ret r, reply_addr r))"

definition udp_bind_to :: "socket_addr \<Rightarrow> int io" where
  "udp_bind_to addr =
    io_bind (addr_to_raw addr) (\<lambda>(a, p).
    io_bind (socket_new SOCK_DGRAM) (\<lambda>sock.
    close_on_error sock (io_bind (sys (NetC (N_bind sock a p))) (\<lambda>r.
      if r_ret r < 0 then sock_fail else io_return sock))))"

definition udp_connect_to :: "int \<Rightarrow> socket_addr \<Rightarrow> unit io" where
  "udp_connect_to fd addr =
    io_bind (addr_to_raw addr) (\<lambda>(a, p).
    io_bind (sys (NetC (N_connect fd a p))) (\<lambda>r. if r_ret r < 0 then sock_fail else io_return ()))"

definition recvfrom_flags :: "int \<Rightarrow> bytes \<Rightarrow> int \<Rightarrow> (nat \<times> bytes \<times> socket_addr) io" where
  "recvfrom_flags fd buf flags =
    io_bind (sys (NetC (N_recvfrom fd (length buf) flags))) (\<lambda>r.
    if r_ret r < 0 then sock_fail
    else io_return (nat (r_ret r), overwrite buf (r_data r), reply_addr r))"

definition send_to :: "int \<Rightarrow> bytes \<Rightarrow> socket_addr \<Rightarrow> nat io" where
  "send_to fd buf dst =
    io_bind (addr_to_raw dst) (\<lambda>(a, p). sock_count (N_sendto fd buf 0 a p))"

section \<open>Options\<close>

definition set_bool :: "int \<Rightarrow> int \<Rightarrow> int \<Rightarrow> bool \<Rightarrow> unit io" where
  "set_bool fd level name b = setsockopt fd level name [of_bool b] 4"

definition get_bool :: "int \<Rightarrow> int \<Rightarrow> int \<Rightarrow> bool io" where
  "get_bool fd level name = io_bind (get_c_int fd level name) (\<lambda>v. io_return (v \<noteq> 0))"

definition set_linger :: "int \<Rightarrow> duration option \<Rightarrow> unit io" where
  "set_linger fd linger = setsockopt fd SOL_SOCKET SO_LINGER
     [of_bool (linger \<noteq> None), case linger of None \<Rightarrow> 0 | Some d \<Rightarrow> sint (ucast (as_secs d) :: i32)] 8"

definition get_linger :: "int \<Rightarrow> duration option io" where
  "get_linger fd = io_bind (getsockopt fd SOL_SOCKET SO_LINGER 2 8) (\<lambda>l.
     io_return (if as_c_int (l ! 0) \<noteq> 0 then Some (from_secs (of_int (as_c_int (l ! 1)))) else None))"

definition set_keepalive :: "int \<Rightarrow> bool \<Rightarrow> unit io" where
  "set_keepalive fd keepalive = set_bool fd SOL_SOCKET SO_KEEPALIVE keepalive"

definition get_keepalive :: "int \<Rightarrow> bool io" where
  "get_keepalive fd = get_bool fd SOL_SOCKET SO_KEEPALIVE"

definition set_nodelay :: "int \<Rightarrow> bool \<Rightarrow> unit io" where
  "set_nodelay fd nodelay = set_bool fd IPPROTO_TCP TCP_NODELAY nodelay"

definition get_nodelay :: "int \<Rightarrow> bool io" where
  "get_nodelay fd = get_bool fd IPPROTO_TCP TCP_NODELAY"

definition set_broadcast :: "int \<Rightarrow> bool \<Rightarrow> unit io" where
  "set_broadcast fd broadcast = set_bool fd SOL_SOCKET SO_BROADCAST broadcast"

definition get_broadcast :: "int \<Rightarrow> bool io" where
  "get_broadcast fd = get_bool fd SOL_SOCKET SO_BROADCAST"

definition set_ttl :: "int \<Rightarrow> u32 \<Rightarrow> unit io" where
  "set_ttl fd ttl = setsockopt fd IPPROTO_IP IP_TTL [sint ttl] 4"

definition get_ttl :: "int \<Rightarrow> u32 io" where
  "get_ttl fd = io_bind (get_c_int fd IPPROTO_IP IP_TTL) (\<lambda>v. io_return (of_int v))"

definition set_multicast_loop_v4 :: "int \<Rightarrow> bool \<Rightarrow> unit io" where
  "set_multicast_loop_v4 fd b = setsockopt fd IPPROTO_IP IP_MULTICAST_LOOP [of_bool b] 1"

definition get_multicast_loop_v4 :: "int \<Rightarrow> bool io" where
  "get_multicast_loop_v4 fd = io_bind (get_u8 fd IPPROTO_IP IP_MULTICAST_LOOP) (\<lambda>v. io_return (v \<noteq> 0))"

definition set_multicast_ttl_v4 :: "int \<Rightarrow> u32 \<Rightarrow> unit io" where
  "set_multicast_ttl_v4 fd ttl = setsockopt fd IPPROTO_IP IP_MULTICAST_TTL [uint (ucast ttl :: u8)] 1"

definition get_multicast_ttl_v4 :: "int \<Rightarrow> u32 io" where
  "get_multicast_ttl_v4 fd = io_bind (get_u8 fd IPPROTO_IP IP_MULTICAST_TTL) (\<lambda>v. io_return (ucast v))"

definition ip_mreq :: "ipv4_addr \<Rightarrow> ipv4_addr \<Rightarrow> int list" where
  "ip_mreq multiaddr interface =
     [uint (u32_from_ne_bytes (octets multiaddr)), uint (u32_from_ne_bytes (octets interface))]"

definition join_multicast_v4 :: "int \<Rightarrow> ipv4_addr \<Rightarrow> ipv4_addr \<Rightarrow> unit io" where
  "join_multicast_v4 fd multiaddr interface =
    setsockopt fd IPPROTO_IP IP_ADD_MEMBERSHIP (ip_mreq multiaddr interface) 8"

definition leave_multicast_v4 :: "int \<Rightarrow> ipv4_addr \<Rightarrow> ipv4_addr \<Rightarrow> unit io" where
  "leave_multicast_v4 fd multiaddr interface =
    setsockopt fd IPPROTO_IP IP_DROP_MEMBERSHIP (ip_mreq multiaddr interface) 8"

section \<open>File descriptors\<close>

text \<open>
  \<open>OwnedFd::from(socket)\<close> takes the descriptor out of the socket without closing it; dropping the
  \<open>OwnedFd\<close> is posixc \<open>close\<close>, cloning it posixc \<open>dup\<close>.
\<close>

definition owned_fd_from_socket :: "int \<Rightarrow> int io" where
  "owned_fd_from_socket sock = io_return sock"

definition owned_fd_drop :: "int \<Rightarrow> unit io" where
  "owned_fd_drop fd = io_bind (sys (FsC (C_close fd))) (\<lambda>_. io_return ())"

definition try_clone_to_owned :: "int \<Rightarrow> int io" where
  "try_clone_to_owned fd = io_bind (sys (FsC (C_dup fd))) (\<lambda>r.
     if r_ret r < 0 then os_fail else io_return (r_ret r))"

section \<open>Raw addresses\<close>

lemma foldr_octets: "foldr (\<lambda>x n. unat x + 256 * n) [a, b, c, d :: u8] 0
    = unat a + 256 * (unat b + 256 * (unat c + 256 * unat d))"
  by simp

lemma unat_ne_bytes: "unat (u32_from_ne_bytes [a, b, c, d]) = unat a + 256 * (unat b + 256 * (unat c + 256 * unat d))"
proof -
  have "unat a + 256 * (unat b + 256 * (unat c + 256 * unat d)) < 2 ^ 32"
    using unat_u8 [of a] unat_u8 [of b] unat_u8 [of c] unat_u8 [of d] by simp
  then show ?thesis unfolding u32_from_ne_bytes_def foldr_octets by (intro unat_of_nat_less) simp
qed

lemma ne_bytes_roundtrip: "u32_to_ne_bytes (u32_from_ne_bytes (octets ip)) = ip"
proof (cases ip)
  case (Ipv4Addr a b c d)
  let ?w = "u32_from_ne_bytes [a, b, c, d]"
  note u8s = unat_u8 [of a] unat_u8 [of b] unat_u8 [of c] unat_u8 [of d]
  define x y where xy: "x = unat b + 256 * y" "y = unat c + 256 * unat d"
  have w: "unat ?w = unat a + 256 * x" by (simp add: unat_ne_bytes xy del: distrib_left_numeral)
  have low: "(m + 256 * k) mod 256 = m \<and> (m + 256 * k) div 256 = k" if "m < 256" for m k :: nat
    using that by simp
  note steps = low [OF u8s(1), of x, folded w] low [OF u8s(2), of y, folded xy(1)]
    low [OF u8s(3), of "unat d", folded xy(2)]
  have d: "unat ?w div 2 ^ 16 = unat ?w div 256 div 256" "unat ?w div 2 ^ 24 = unat ?w div 256 div 256 div 256"
    by (simp_all add: div_mult2_eq [symmetric])
  have "(ucast ?w :: u8) = a" "(ucast (drop_bit 8 ?w) :: u8) = b"
    "(ucast (drop_bit 16 ?w) :: u8) = c" "(ucast (drop_bit 24 ?w) :: u8) = d"
    using steps u8s unfolding word_unat_eq_iff unat_ucast unat_shiftr d by simp_all
  then show ?thesis using Ipv4Addr by (simp add: u32_to_ne_bytes_def)
qed

lemma swap_u16_unat: "unat (swap_u16 p) = unat p mod 256 * 256 + unat p div 256"
  unfolding swap_u16_def using unat_u16 [of p] by (intro unat_of_nat_less) simp

lemma swap_u16_swap [simp]: "swap_u16 (swap_u16 p) = p"
  using unat_u16 [of p] by (simp add: word_unat_eq_iff swap_u16_unat)

lemma raw_v4_roundtrip: "raw_to_v4 (fst (v4_to_raw a)) (snd (v4_to_raw a)) = a"
  by (cases a) (simp add: raw_to_v4_def ne_bytes_roundtrip)

section \<open>Sockets as streams\<close>

fun sock_sent :: "int \<Rightarrow> trace \<Rightarrow> bytes" where
  "sock_sent fd [] = []"
| "sock_sent fd ((NetC (N_send fd' b flags), r) # t) =
    (if fd' = fd \<and> r_ret r \<ge> 0 then take (nat (r_ret r)) b else []) @ sock_sent fd t"
| "sock_sent fd (_ # t) = sock_sent fd t"

lemma sock_sent_append: "sock_sent fd (t @ u) = sock_sent fd t @ sock_sent fd u"
  by (induction fd t rule: sock_sent.induct) simp_all

lemma sock_fail_run:
  "sock_fail s = (Err (from_raw_os_error (r_ret (reply_of s (NetC N_errno)))), after s (NetC N_errno))"
  by (simp add: sock_fail_def sock_last_error_def bind_sys_after)

interpretation tcp_sink: byte_sink "tcp_write fd" "sock_sent fd" for fd
proof
  fix b s n s' e m
  show "sock_sent fd (os_trace s') = sock_sent fd (os_trace s) @ take n b" if "tcp_write fd b s = (Ok n, s')"
    using that by (auto simp: tcp_write_def send_with_flags_def sock_count_def bind_sys_after sock_fail_run
        sock_sent_append split: if_splits)
  show "sock_sent fd (os_trace s') = sock_sent fd (os_trace s)" if "tcp_write fd b s = (Err e, s')"
    using that by (auto simp: tcp_write_def send_with_flags_def sock_count_def bind_sys_after sock_fail_run
        sock_sent_append split: if_splits)
  show "fst (tcp_write fd b s) \<noteq> Panic m" "fst (tcp_write fd b s) \<noteq> Hang"
    by (simp_all add: tcp_write_def send_with_flags_def sock_count_def bind_sys_after sock_fail_run)
qed

section \<open>Options read back\<close>

text \<open>The value last set, and a library that accepts options and gives them back as they were set.\<close>

fun option_after :: "int \<Rightarrow> int \<Rightarrow> int \<Rightarrow> trace \<Rightarrow> int list option" where
  "option_after fd level name [] = None"
| "option_after fd level name ((NetC (N_setsockopt fd' level' name' v n), r) # t) =
    (case option_after fd level name t of Some w \<Rightarrow> Some w
     | None \<Rightarrow> if fd' = fd \<and> level' = level \<and> name' = name \<and> r_ret r \<ge> 0 then Some v else None)"
| "option_after fd level name (_ # t) = option_after fd level name t"

definition keeps_options :: "(trace \<Rightarrow> call \<Rightarrow> reply) \<Rightarrow> bool" where
  "keeps_options orc \<longleftrightarrow> (\<forall>t fd level name.
     (\<forall>v n. 0 \<le> r_ret (orc t (NetC (N_setsockopt fd level name v n)))) \<and>
     (\<forall>v n. option_after fd level name t = Some v \<longrightarrow>
        0 \<le> r_ret (orc t (NetC (N_getsockopt fd level name n))) \<and> r_outs (orc t (NetC (N_getsockopt fd level name n))) = v))"

lemma option_after_snoc:
  "r_ret r \<ge> 0 \<Longrightarrow> option_after fd level name (t @ [(NetC (N_setsockopt fd level name v n), r)]) = Some v"
  by (induction fd level name t rule: option_after.induct) (auto split: option.splits)

lemma set_get_option:
  assumes "keeps_options (os_oracle s)"
  shows "\<exists>s1. setsockopt fd level name v n s = (Ok (), s1)
    \<and> fst (getsockopt fd level name (length v) m s1) = Ok v"
proof -
  let ?c = "NetC (N_setsockopt fd level name v n)"
  have ok: "0 \<le> r_ret (reply_of s ?c)" using assms by (simp add: keeps_options_def reply_of_def)
  then have "option_after fd level name (os_trace (after s ?c)) = Some v" by (simp add: option_after_snoc)
  moreover define r where "r = reply_of (after s ?c) (NetC (N_getsockopt fd level name m))"
  ultimately have r: "0 \<le> r_ret r" "r_outs r = v"
    using assms by (simp_all add: keeps_options_def reply_of_def [of "after s ?c"])
  then have "map (\<lambda>i. out_param i 0 r) [0..<length v] = v"
    by (intro nth_equalityI) (simp_all add: out_param_def)
  with ok r(1) show ?thesis
    by (simp add: setsockopt_def sock_unit_def getsockopt_def bind_sys_after r_def)
qed

text \<open>What the conversion to \<open>c_int\<close> and back does to a number of seconds.\<close>

lemma sint_i32: "sint (w :: i32) = (if unat w < 2147483648 then int (unat w) else int (unat w) - 4294967296)"
proof -
  define u where "u = int (unat w)"
  have s: "sint w = (u + 2147483648) mod 4294967296 - 2147483648"
    using int_word_sint [of "u", where 'a = 32] by (simp add: u_def)
  obtain n where n: "unat w = n" "n < 4294967296" using unat_less_pow [of w] by simp
  then have u: "0 \<le> u" "u < 4294967296" "unat w < 2147483648 \<longleftrightarrow> u < 2147483648"
    unfolding u_def n(1) by (simp_all del: of_nat_unat)
  show ?thesis
  proof (cases "u < 2147483648")
    case True
    with u have "(u + 2147483648) mod 4294967296 = u + 2147483648" by (intro mod_pos_pos_trivial) simp_all
    with s u True show ?thesis unfolding u_def [symmetric] by simp
  next
    case False
    have "(u + 2147483648) mod 4294967296 = (u - 2147483648) mod 4294967296"
      using mod_add_self2 [of "u - 2147483648" 4294967296] by (simp add: add.commute)
    also have "\<dots> = u - 2147483648" using u False by (intro mod_pos_pos_trivial) simp_all
    finally show ?thesis using s u False unfolding u_def [symmetric] by simp
  qed
qed

lemma as_c_int_sint [simp]: "as_c_int (sint (w :: i32)) = sint w"
  by (simp add: as_c_int_def)

lemma as_c_int_bool [simp]: "as_c_int (of_bool b) = of_bool b" "as_c_int 0 = 0" "as_c_int 1 = 1"
  by (cases b) (simp_all add: as_c_int_def)

lemma seconds_as_c_int:
  "(of_int (sint (ucast x :: i32)) :: u64) = x \<longleftrightarrow> unat x < 2 ^ 31 \<or> 2 ^ 64 - 2 ^ 31 \<le> unat x"
proof -
  define q y where qy: "q = unat x div 2 ^ 32" "y = unat x mod 2 ^ 32"
  have x: "unat x = 4294967296 * q + y" "y < 4294967296" by (simp_all add: qy)
  have q: "q < 4294967296" using unat_less_pow [of x] by (simp add: qy less_mult_imp_div_less)
  have s: "sint (ucast x :: i32) = (if y < 2147483648 then int y else int y - 4294967296)"
    by (simp add: sint_i32 unat_ucast qy)
  show ?thesis
  proof (cases "y < 2147483648")
    case True
    have "unat (of_nat y :: u64) = y" using True by (intro unat_of_nat_less) simp
    then have "(of_int (int y) :: u64) = x \<longleftrightarrow> q = 0" using x by (simp add: word_unat_eq_iff)
    moreover have "q = 0 \<longleftrightarrow> unat x < 2 ^ 31 \<or> 2 ^ 64 - 2 ^ 31 \<le> unat x" using x q True by auto
    ultimately show ?thesis using s True by simp
  next
    case False
    let ?z = "y + 18446744069414584320"
    have "unat (of_nat ?z :: u64) = ?z" using x(2) by (intro unat_of_nat_less) simp
    moreover have "(of_int (int y - 4294967296) :: u64) = of_nat ?z" by simp
    ultimately have "(of_int (int y - 4294967296) :: u64) = x \<longleftrightarrow> q = 4294967295"
      using x by (simp only: word_unat_eq_iff) auto
    moreover have "q = 4294967295 \<longleftrightarrow> unat x < 2 ^ 31 \<or> 2 ^ 64 - 2 ^ 31 \<le> unat x" using x q False by auto
    ultimately show ?thesis using s False by simp
  qed
qed

lemma set_get_Ok:
  assumes "keeps_options (os_oracle s)"
    and "\<And>s. st s = setsockopt fd level name v n s"
    and "\<And>s1. fst (getsockopt fd level name (length v) m s1) = Ok v \<Longrightarrow> fst (gt s1) = Ok y"
  shows "fst (io_bind st (\<lambda>_. gt) s) = Ok y"
proof -
  obtain s1 where "setsockopt fd level name v n s = (Ok (), s1)"
    "fst (getsockopt fd level name (length v) m s1) = Ok v"
    using set_get_option [OF assms(1)] by blast
  with assms(2) [of s] assms(3) [of s1] show ?thesis by (simp add: io_bind_def)
qed

lemma fst_bind_return: "fst (m s) = Ok x \<Longrightarrow> fst (io_bind m (\<lambda>x. io_return (f x)) s) = Ok (f x)"
  by (cases "m s") (simp add: io_bind_def)

lemma bind_c_int_Ok:
  "fst (getsockopt fd level name (length [x]) 4 s) = Ok [x] \<Longrightarrow>
   fst (io_bind (get_c_int fd level name) (\<lambda>v. io_return (f v)) s) = Ok (f (as_c_int x))"
  using fst_bind_return [of "getsockopt fd level name 1 4" s "[x]" "\<lambda>v. f (as_c_int (hd v))"]
  by (simp add: get_c_int_def io_return_def)

lemma bind_u8_Ok:
  "fst (getsockopt fd level name (length [x]) 1 s) = Ok [x] \<Longrightarrow>
   fst (io_bind (get_u8 fd level name) (\<lambda>v. io_return (f v)) s) = Ok (f (of_int x))"
  using fst_bind_return [of "getsockopt fd level name 1 1" s "[x]" "\<lambda>v. f (of_int (hd v))"]
  by (simp add: get_u8_def io_return_def)

lemma bool_option_kept:
  assumes "keeps_options (os_oracle s)"
  shows "fst (io_bind (set_bool fd level name b) (\<lambda>_. get_bool fd level name) s) = Ok b"
proof (rule set_get_Ok [OF assms, where v = "[of_bool b]" and n = 4 and m = 4])
  fix s1 assume "fst (getsockopt fd level name (length [of_bool b :: int]) 4 s1) = Ok [of_bool b]"
  from bind_c_int_Ok [OF this, of "\<lambda>v. v \<noteq> 0"] show "fst (get_bool fd level name s1) = Ok b"
    by (simp add: get_bool_def)
qed (simp add: set_bool_def)

lemma ttl_kept:
  assumes "keeps_options (os_oracle s)"
  shows "fst (io_bind (set_ttl fd ttl) (\<lambda>_. get_ttl fd) s) = Ok ttl"
proof (rule set_get_Ok [OF assms, where v = "[sint ttl]" and n = 4 and m = 4])
  fix s1 assume "fst (getsockopt fd IPPROTO_IP IP_TTL (length [sint ttl]) 4 s1) = Ok [sint ttl]"
  from bind_c_int_Ok [OF this, of "of_int :: int \<Rightarrow> u32"] show "fst (get_ttl fd s1) = Ok ttl" by (simp add: get_ttl_def)
qed (simp add: set_ttl_def)

lemma multicast_ttl_kept:
  fixes ttl :: u32
  assumes "keeps_options (os_oracle s)"
  shows "fst (io_bind (set_multicast_ttl_v4 fd ttl) (\<lambda>_. get_multicast_ttl_v4 fd) s) = Ok (ucast (ucast ttl :: u8))"
proof (rule set_get_Ok [OF assms, where v = "[uint (ucast ttl :: u8)]" and n = 1 and m = 1])
  let ?v = "uint (ucast ttl :: u8)"
  fix s1 assume "fst (getsockopt fd IPPROTO_IP IP_MULTICAST_TTL (length [?v]) 1 s1) = Ok [?v]"
  from bind_u8_Ok [OF this, of "ucast :: u8 \<Rightarrow> u32"] show "fst (get_multicast_ttl_v4 fd s1) = Ok (ucast (ucast ttl :: u8))"
    by (simp add: get_multicast_ttl_v4_def)
qed (simp add: set_multicast_ttl_v4_def)

lemma multicast_loop_kept:
  assumes "keeps_options (os_oracle s)"
  shows "fst (io_bind (set_multicast_loop_v4 fd b) (\<lambda>_. get_multicast_loop_v4 fd) s) = Ok b"
proof (rule set_get_Ok [OF assms, where v = "[of_bool b]" and n = 1 and m = 1])
  fix s1 assume "fst (getsockopt fd IPPROTO_IP IP_MULTICAST_LOOP (length [of_bool b :: int]) 1 s1) = Ok [of_bool b]"
  from bind_u8_Ok [OF this, of "\<lambda>v. v \<noteq> 0"] show "fst (get_multicast_loop_v4 fd s1) = Ok b"
    by (simp add: get_multicast_loop_v4_def)
qed (simp add: set_multicast_loop_v4_def)

lemma linger_kept:
  assumes "keeps_options (os_oracle s)"
  shows "fst (io_bind (set_linger fd l) (\<lambda>_. get_linger fd) s)
    = Ok (map_option (\<lambda>d. from_secs (of_int (sint (ucast (as_secs d) :: i32)))) l)"
proof -
  let ?v = "[of_bool (l \<noteq> None), case l of None \<Rightarrow> 0 | Some d \<Rightarrow> sint (ucast (as_secs d) :: i32)]"
  let ?f = "\<lambda>v. if as_c_int (v ! 0) \<noteq> 0 then Some (from_secs (of_int (as_c_int (v ! 1)))) else None"
  show ?thesis
  proof (rule set_get_Ok [OF assms, where v = ?v and n = 8 and m = 8])
    fix s1 assume "fst (getsockopt fd SOL_SOCKET SO_LINGER (length ?v) 8 s1) = Ok ?v"
    with fst_bind_return [of "getsockopt fd SOL_SOCKET SO_LINGER (length ?v) 8" s1 ?v ?f]
    show "fst (get_linger fd s1) = Ok (map_option (\<lambda>d. from_secs (of_int (sint (ucast (as_secs d) :: i32)))) l)"
      by (cases l) (simp_all add: get_linger_def numeral_2_eq_2)
  qed (simp add: set_linger_def)
qed

section \<open>Which sockets are open\<close>

text \<open>The descriptors the library has given out, and those it has been told to close, in order.\<close>

fun opened :: "trace \<Rightarrow> int list" where
  "opened [] = []"
| "opened ((NetC (N_socket d ty p), r) # t) = (if r_ret r \<ge> 0 then [r_ret r] else []) @ opened t"
| "opened ((NetC (N_accept fd), r) # t) = (if r_ret r \<ge> 0 then [r_ret r] else []) @ opened t"
| "opened ((NetC (N_dup fd), r) # t) = (if r_ret r \<ge> 0 then [r_ret r] else []) @ opened t"
| "opened (_ # t) = opened t"

fun closed :: "trace \<Rightarrow> int list" where
  "closed [] = []"
| "closed ((NetC (N_close fd), r) # t) = fd # closed t"
| "closed (_ # t) = closed t"

lemma opened_append [simp]: "opened (t @ u) = opened t @ opened u"
  by (induction t rule: opened.induct) simp_all

lemma closed_append [simp]: "closed (t @ u) = closed t @ closed u"
  by (induction t rule: closed.induct) simp_all

text \<open>
  \<open>keeps_ledger own m\<close>: whatever the library answers, every descriptor \<open>m\<close> opens is closed again by
  \<open>m\<close>, once, unless \<open>m\<close> succeeds with a result that owns it (\<open>own\<close>).
\<close>

definition keeps_ledger :: "('a \<Rightarrow> int list) \<Rightarrow> 'a io \<Rightarrow> bool" where
  "keeps_ledger own m \<longleftrightarrow> (\<forall>s. \<exists>t. os_trace (snd (m s)) = os_trace s @ t \<and>
     opened t = closed t @ (case fst (m s) of Ok x \<Rightarrow> own x | _ \<Rightarrow> []))"

lemma keeps_ledgerE:
  assumes "keeps_ledger own m" "m s = (r, s')"
  obtains t where "os_trace s' = os_trace s @ t" "opened t = closed t @ (case r of Ok x \<Rightarrow> own x | _ \<Rightarrow> [])"
  using assms unfolding keeps_ledger_def by (metis fst_conv snd_conv)

lemma keeps_ledgerI:
  "(\<And>s r s'. m s = (r, s') \<Longrightarrow> \<exists>t. os_trace s' = os_trace s @ t
     \<and> opened t = closed t @ (case r of Ok x \<Rightarrow> own x | _ \<Rightarrow> [])) \<Longrightarrow> keeps_ledger own m"
  unfolding keeps_ledger_def by (metis prod.collapse)


lemma bind_sock_fail:
  "io_bind sock_fail k s = (Err (from_raw_os_error (r_ret (reply_of s (NetC N_errno)))), after s (NetC N_errno))"
  by (simp add: io_bind_def sock_fail_run)

lemma close_on_error_run:
  "close_on_error fd m s = (case m s of
      (Ok x, s') \<Rightarrow> (Ok x, s')
    | (Err e, s') \<Rightarrow> (Err e, after s' (NetC (N_close fd)))
    | (Panic p, s') \<Rightarrow> (Panic p, s')
    | (Hang, s') \<Rightarrow> (Hang, s'))"
  by (cases "m s"; cases "fst (m s)")
     (auto simp: close_on_error_def io_bind_def io_attempt_def socket_drop_def sys_def after_def reply_of_def Let_def)

lemmas sock_run = addr_to_raw_def unsupported_v6_def socket_new_def ensure_lib_def bind_sys_after
  close_on_error_run sock_fail_run bind_sock_fail

lemma tcp_connect_to_ledger: "keeps_ledger (\<lambda>fd. [fd]) (tcp_connect_to addr)"
  by (cases addr)
     (auto intro!: keeps_ledgerI simp: tcp_connect_to_def sock_run split: if_splits prod.splits)

lemma udp_bind_to_ledger: "keeps_ledger (\<lambda>fd. [fd]) (udp_bind_to addr)"
  by (cases addr)
     (auto intro!: keeps_ledgerI simp: udp_bind_to_def sock_run split: if_splits prod.splits)

lemma io_ignore_setsockopt:
  "io_bind (io_ignore (setsockopt fd level name v n)) k s
    = (let c = NetC (N_setsockopt fd level name v n)
       in if r_ret (reply_of s c) < 0 then k () (after (after s c) (NetC N_errno)) else k () (after s c))"
  by (simp add: io_ignore_def setsockopt_def sock_unit_def io_bind_def io_attempt_def sys_def sock_fail_run
      after_def reply_of_def Let_def)

lemma tcp_bind_to_ledger: "keeps_ledger (\<lambda>fd. [fd]) (tcp_bind_to addr)"
  by (cases addr)
     (auto intro!: keeps_ledgerI simp: tcp_bind_to_def sock_run io_ignore_setsockopt Let_def split: if_splits prod.splits)

lemma accept_ledger: "keeps_ledger (\<lambda>x. [fst x]) (listener_accept fd)"
  by (auto intro!: keeps_ledgerI simp: listener_accept_def sock_run split: if_splits)

lemma try_clone_ledger: "keeps_ledger (\<lambda>fd. [fd]) (sock_try_clone fd)"
  by (auto intro!: keeps_ledgerI simp: sock_try_clone_def sock_run split: if_splits)

section \<open>Properties\<close>

text \<open>A library that keeps options, for the witness.\<close>

definition option_oracle :: "trace \<Rightarrow> call \<Rightarrow> reply" where
  "option_oracle t c = (case c of
      NetC (N_getsockopt fd level name n) \<Rightarrow>
        ret_outs 0 (case option_after fd level name t of Some v \<Rightarrow> v | None \<Rightarrow> [])
    | _ \<Rightarrow> ret 0)"

lemma option_oracle_keeps: "keeps_options option_oracle"
  by (simp add: keeps_options_def option_oracle_def)

text \<open>
  C27: which option values survive the C types. With a library that gives options back as they were
  set, switches and every TTL read back; a linger time reads back exactly if its seconds fit a C
  \<open>int\<close> (or are within \<open>2^31\<close> of the largest \<open>u64\<close>, which wraps twice), and a multicast TTL exactly
  if it is below 256.
\<close>

theorem socket_option_bounds:
  fixes ttl :: u32
  assumes "keeps_options (os_oracle s)"
  shows "fst (io_bind (set_ttl fd ttl) (\<lambda>_. get_ttl fd) s) = Ok ttl
    \<and> fst (io_bind (set_nodelay fd b) (\<lambda>_. get_nodelay fd) s) = Ok b
    \<and> fst (io_bind (set_keepalive fd b) (\<lambda>_. get_keepalive fd) s) = Ok b
    \<and> fst (io_bind (set_broadcast fd b) (\<lambda>_. get_broadcast fd) s) = Ok b
    \<and> fst (io_bind (set_multicast_loop_v4 fd b) (\<lambda>_. get_multicast_loop_v4 fd) s) = Ok b
    \<and> fst (io_bind (set_linger fd None) (\<lambda>_. get_linger fd) s) = Ok None
    \<and> (fst (io_bind (set_linger fd (Some (from_secs secs))) (\<lambda>_. get_linger fd) s) = Ok (Some (from_secs secs))
        \<longleftrightarrow> unat secs < 2 ^ 31 \<or> 2 ^ 64 - 2 ^ 31 \<le> unat secs)
    \<and> (fst (io_bind (set_multicast_ttl_v4 fd ttl) (\<lambda>_. get_multicast_ttl_v4 fd) s) = Ok ttl \<longleftrightarrow> unat ttl < 256)"
proof -
  have m: "(ucast (ucast ttl :: u8) :: u32) = ttl \<longleftrightarrow> unat ttl < 256"
  proof -
    have "unat (ucast (ucast ttl :: u8) :: u32) = unat ttl mod 256" by (simp add: unat_ucast)
    then show ?thesis by (simp only: word_unat_eq_iff) auto
  qed
  have l: "from_secs (of_int (sint (ucast (as_secs (from_secs secs)) :: i32))) = from_secs secs
      \<longleftrightarrow> unat secs < 2 ^ 31 \<or> 2 ^ 64 - 2 ^ 31 \<le> unat secs"
    using seconds_as_c_int [of secs] by (simp add: from_secs_def as_secs_def)
  show ?thesis
    unfolding set_nodelay_def get_nodelay_def set_keepalive_def get_keepalive_def set_broadcast_def get_broadcast_def
      linger_kept [OF assms] multicast_ttl_kept [OF assms] bool_option_kept [OF assms] ttl_kept [OF assms]
      multicast_loop_kept [OF assms] option.map outcome.inject option.inject l m
    by simp
qed

theorem socket_option_bounds_witness:
  "\<not> fst (io_bind (set_linger 5 (Some (from_secs (2 ^ 32)))) (\<lambda>_. get_linger 5) (boot option_oracle))
      = Ok (Some (from_secs (2 ^ 32)))"
  using socket_option_bounds [of "boot option_oracle" 5 0 True "2 ^ 32"] option_oracle_keeps by simp

end
