(* ===== verification/Net_Resolve.thy ===== *)
theory Net_Resolve
  imports Net_Aros Fs_Path
begin

text \<open>
  From a name to an open socket: the conversions into addresses (\<open>ToSocketAddrs\<close> of
  \<open>std/net/socket_addr.rs\<close>), \<open>lookup_host_string\<close> and \<open>each_addr\<close> of \<open>sys/net/connection/mod.rs\<close>,
  \<open>lookup_host\<close> and the connecting and binding operations of \<open>sys/net/connection/aros.rs\<close>.
\<close>

section \<open>C strings from short byte strings\<close>

definition MAX_STACK_ALLOCATION :: nat where "MAX_STACK_ALLOCATION = 384"

definition NUL_ERR :: io_error where
  "NUL_ERR = SimpleMessage InvalidInput ''file name contained an unexpected NUL byte''"

text \<open>\<open>CStr::from_bytes_with_nul\<close> wants the only NUL at the end.\<close>

definition run_with_cstr_stack :: "bytes \<Rightarrow> (bytes \<Rightarrow> 'a io) \<Rightarrow> 'a io" where
  "run_with_cstr_stack b f = (case position (\<lambda>x. x = 0) (b @ [0]) of
      Some i \<Rightarrow> if i + 1 = length b + 1 then f b else io_fail NUL_ERR
    | None \<Rightarrow> io_fail NUL_ERR)"

definition run_with_cstr_allocating :: "bytes \<Rightarrow> (bytes \<Rightarrow> 'a io) \<Rightarrow> 'a io" where
  "run_with_cstr_allocating b f = (case cstring_new b of Inr c \<Rightarrow> f c | Inl _ \<Rightarrow> io_fail NUL_ERR)"

definition run_with_cstr :: "bytes \<Rightarrow> (bytes \<Rightarrow> 'a io) \<Rightarrow> 'a io" where
  "run_with_cstr b f = (if length b \<ge> MAX_STACK_ALLOCATION then run_with_cstr_allocating b f
     else run_with_cstr_stack b f)"

section \<open>Port numbers\<close>

fun unchecked_digits :: "u16 \<Rightarrow> bytes \<Rightarrow> u16 option" where
  "unchecked_digits result [] = Some result"
| "unchecked_digits result (c # rest) = (case to_digit 10 c of
      None \<Rightarrow> None | Some x \<Rightarrow> unchecked_digits (result * 10 + of_nat x) rest)"

fun checked_digits :: "u16 \<Rightarrow> bytes \<Rightarrow> u16 option" where
  "checked_digits result [] = Some result"
| "checked_digits result (c # rest) =
    (let mul = checked_mul result 10
     in case to_digit 10 c of
          None \<Rightarrow> None
        | Some x \<Rightarrow> (case mul of None \<Rightarrow> None
            | Some m \<Rightarrow> (case checked_add m (of_nat x) of None \<Rightarrow> None | Some r \<Rightarrow> checked_digits r rest)))"

definition can_not_overflow :: "nat \<Rightarrow> nat \<Rightarrow> bytes \<Rightarrow> bool" where
  "can_not_overflow size_of radix digits \<longleftrightarrow> radix \<le> 16 \<and> length digits \<le> size_of * 2"

text \<open>\<open>u16::from_str\<close>; the bytes \<open>+\<close> (43) and \<open>-\<close> (45).\<close>

definition parse_u16 :: "bytes \<Rightarrow> u16 option" where
  "parse_u16 src =
    (if src = [] then None
     else if src = [43] \<or> src = [45] then None
     else let digits = (if hd src = 43 then tl src else src)
       in if can_not_overflow 2 10 digits then unchecked_digits 0 digits else checked_digits 0 digits)"

section \<open>Names into addresses\<close>

definition rsplit_once :: "u8 \<Rightarrow> bytes \<Rightarrow> (bytes \<times> bytes) option" where
  "rsplit_once c s = (case position (\<lambda>x. x = c) (rev s) of
      None \<Rightarrow> None
    | Some i \<Rightarrow> Some (take (length s - i - 1) s, drop (length s - i) s))"

definition lookup_host :: "bytes \<Rightarrow> u16 \<Rightarrow> socket_addr list io" where
  "lookup_host host port =
    io_bind ensure_lib (\<lambda>_. case ipv4_parse host of
      Some ip \<Rightarrow> io_return [SockV4 (SocketAddrV4 ip port)]
    | None \<Rightarrow> run_with_cstr host (\<lambda>c_host.
        io_bind (sys (NetC (N_resolve4 c_host 8))) (\<lambda>r.
        if r_ret r < 0 then io_fail (SimpleMessage Uncategorized ''host lookup failed'')
        else if r_ret r > 8 then io_panic ''range end index out of range''
        else let raw = map (\<lambda>i. of_int (out_param i 0 r)) [0..<8]
          in io_return (map (\<lambda>a. SockV4 (SocketAddrV4 (u32_to_ne_bytes a) port)) (take (nat (r_ret r)) raw)))))"

definition lookup_host_string :: "bytes \<Rightarrow> socket_addr list io" where
  "lookup_host_string addr = (case rsplit_once 58 addr of
      None \<Rightarrow> io_fail (SimpleMessage InvalidInput ''invalid socket address'')
    | Some (host, port_str) \<Rightarrow> (case parse_u16 port_str of
        None \<Rightarrow> io_fail (SimpleMessage InvalidInput ''invalid port value'')
      | Some port \<Rightarrow> lookup_host host port))"

definition socket_addr_new :: "ip_addr \<Rightarrow> u16 \<Rightarrow> socket_addr" where
  "socket_addr_new ip port = (case ip of
      IpV4 a \<Rightarrow> SockV4 (SocketAddrV4 a port)
    | IpV6 a \<Rightarrow> SockV6 \<lparr>v6_ip = a, v6_port = port, v6_flowinfo = 0, v6_scope_id = 0\<rparr>)"

text \<open>The types that implement \<open>ToSocketAddrs\<close>, up to references and owned strings.\<close>

datatype to_addrs =
    OneAddr socket_addr | AddrSlice "socket_addr list" | IpPort ip_addr u16
  | HostPort bytes u16 | HostText bytes

fun to_socket_addrs :: "to_addrs \<Rightarrow> socket_addr list io" where
  "to_socket_addrs (OneAddr a) = io_return [a]"
| "to_socket_addrs (AddrSlice addrs) = io_return addrs"
| "to_socket_addrs (IpPort ip port) = io_return [socket_addr_new ip port]"
| "to_socket_addrs (HostPort host port) = (case ip_parse host of
      Some addr \<Rightarrow> io_return [socket_addr_new addr port]
    | None \<Rightarrow> lookup_host host port)"
| "to_socket_addrs (HostText text') = (case socket_parse text' of
      Some addr \<Rightarrow> io_return [addr]
    | None \<Rightarrow> lookup_host_string text')"

section \<open>Trying the addresses\<close>

fun each_addr_loop :: "(socket_addr \<Rightarrow> 'a io) \<Rightarrow> io_error option \<Rightarrow> socket_addr list \<Rightarrow> 'a io" where
  "each_addr_loop f last_err [] = (case last_err of Some err \<Rightarrow> io_fail err | None \<Rightarrow> io_fail NO_ADDRESSES)"
| "each_addr_loop f last_err (addr # addrs) = io_bind (io_attempt (f addr)) (\<lambda>r. case r of
      Inr l \<Rightarrow> io_return l | Inl e \<Rightarrow> each_addr_loop f (Some e) addrs)"

definition each_addr :: "to_addrs \<Rightarrow> (socket_addr \<Rightarrow> 'a io) \<Rightarrow> 'a io" where
  "each_addr addr f = io_bind (to_socket_addrs addr) (each_addr_loop f None)"

definition tcp_connect :: "to_addrs \<Rightarrow> int io" where
  "tcp_connect addr = each_addr addr tcp_connect_to"

definition tcp_bind :: "to_addrs \<Rightarrow> int io" where
  "tcp_bind addr = each_addr addr tcp_bind_to"

definition udp_bind :: "to_addrs \<Rightarrow> int io" where
  "udp_bind addr = each_addr addr udp_bind_to"

definition udp_connect :: "int \<Rightarrow> to_addrs \<Rightarrow> unit io" where
  "udp_connect fd addr = each_addr addr (udp_connect_to fd)"

section \<open>Reading ports\<close>

lemma checked_digits_value:
  "\<forall>d\<in>set ds. d < 10 \<Longrightarrow> foldl (\<lambda>a d. a * 10 + d) (unat w) ds < 2 ^ 16 \<Longrightarrow>
   checked_digits w (map digit_byte ds) = Some (of_nat (foldl (\<lambda>a d. a * 10 + d) (unat w) ds))"
proof (induction ds arbitrary: w)
  case (Cons d ds)
  let ?a = "unat w * 10 + d"
  have "?a \<le> foldl (\<lambda>a d. a * 10 + d) ?a ds" by (rule foldl_digits_ge) simp
  then have a: "?a < 2 ^ 16" using Cons.prems(2) by simp
  then show ?case using push_digit [of w d] Cons by (simp add: to_digit_byte)
qed simp

lemma unchecked_is_checked:
  "checked_digits w s = Some v \<Longrightarrow> unchecked_digits w s = Some v"
  by (induction w s rule: checked_digits.induct)
     (auto simp: Let_def checked_mul_def checked_add_def split: option.splits if_splits)

lemma parse_u16_number: "parse_u16 (radix_bytes 10 (unat (p :: u16))) = Some p"
proof -
  obtain ds where dg: "digits_of 10 (unat p) ds" using radix_digits [of 10 "unat p"] by auto
  note ds = digits_ofD [OF dg]
  have "checked_digits 0 (map digit_byte ds) = Some p"
    using checked_digits_value [of ds 0] ds(3,4) unat_less_pow [of p] by simp
  moreover obtain d es where es: "ds = d # es" using ds(2) by (cases ds) auto
  moreover have "digit_byte d \<noteq> 43" "digit_byte d \<noteq> 45"
    using unat_digit_byte [of d] ds(3) es by (auto simp: word_unat_eq_iff)
  ultimately show ?thesis
    using ds(1) unchecked_is_checked [of 0 "map digit_byte ds" p] by (simp add: parse_u16_def Let_def)
qed

section \<open>The ledger of open sockets\<close>

lemma keeps_ledger_bind:
  assumes m: "keeps_ledger (\<lambda>_. []) m" and k: "\<And>x. keeps_ledger own (k x)"
  shows "keeps_ledger own (io_bind m k)"
proof (rule keeps_ledgerI)
  fix s r s' assume run: "io_bind m k s = (r, s')"
  obtain q s1 where ms: "m s = (q, s1)" by fastforce
  from keeps_ledgerE [OF m ms] obtain t where t: "os_trace s1 = os_trace s @ t"
    "opened t = closed t @ (case q of Ok x \<Rightarrow> [] | _ \<Rightarrow> [])" .
  show "\<exists>t. os_trace s' = os_trace s @ t \<and> opened t = closed t @ (case r of Ok x \<Rightarrow> own x | _ \<Rightarrow> [])"
  proof (cases q)
    case (Ok x)
    then have "k x s1 = (r, s')" using run ms by (simp add: io_bind_def)
    from keeps_ledgerE [OF k this] obtain u where "os_trace s' = os_trace s1 @ u"
      "opened u = closed u @ (case r of Ok x \<Rightarrow> own x | _ \<Rightarrow> [])" .
    with t Ok show ?thesis by (intro exI [of _ "t @ u"]) simp
  qed (use run ms t in \<open>auto simp: io_bind_def\<close>)
qed

lemma keeps_ledger_pure [simp]:
  "keeps_ledger (\<lambda>_. []) (io_return x)" "keeps_ledger own (io_fail e)" "keeps_ledger own (io_panic p)"
  by (auto intro!: keeps_ledgerI)

lemma keeps_ledger_call:
  "(\<And>r. opened [(c, r)] = [] \<and> closed [(c, r)] = []) \<Longrightarrow> keeps_ledger (\<lambda>_. []) (sys c)"
  by (auto intro!: keeps_ledgerI simp: sys_def Let_def)

lemma ensure_lib_ledger: "keeps_ledger (\<lambda>_. []) ensure_lib"
  unfolding ensure_lib_def by (rule keeps_ledger_bind) (auto intro: keeps_ledger_call)

lemma run_with_cstr_cases:
  "run_with_cstr b f = (if 0 \<in> set b then io_fail NUL_ERR else f b)"
proof -
  have "run_with_cstr_stack b f = (if 0 \<in> set b then io_fail NUL_ERR else f b)"
  proof (cases "0 \<in> set b")
    case True
    then obtain xs ys where b: "b = xs @ 0 # ys" "0 \<notin> set xs" by (metis split_list_first)
    then have "position (\<lambda>x. x = 0) (b @ [0]) = Some (length xs)"
      using position_first [of xs "\<lambda>x. x = 0" 0 "ys @ [0]"] by auto
    with b show ?thesis by (simp add: run_with_cstr_stack_def)
  next
    case False
    then have "position (\<lambda>x. x = 0) (b @ [0]) = Some (length b)"
      using position_first [of b "\<lambda>x. x = 0" 0 "[]"] by auto
    with False show ?thesis by (simp add: run_with_cstr_stack_def)
  qed
  then show ?thesis
    by (auto simp: run_with_cstr_def run_with_cstr_allocating_def cstring_new_def list_ex_iff)
qed

lemma lookup_host_ledger: "keeps_ledger (\<lambda>_. []) (lookup_host host port)"
proof -
  have "keeps_ledger (\<lambda>_. []) (run_with_cstr host (\<lambda>c. io_bind (sys (NetC (N_resolve4 c 8))) (\<lambda>r.
      if r_ret r < 0 then io_fail e1 else if r_ret r > 8 then io_panic e2 else io_return (g r))))" for e1 e2 g
    unfolding run_with_cstr_cases by (auto intro!: keeps_ledger_bind keeps_ledger_call)
  then show ?thesis
    unfolding lookup_host_def Let_def
    by (intro keeps_ledger_bind ensure_lib_ledger) (auto split: option.split)
qed

lemma to_socket_addrs_ledger: "keeps_ledger (\<lambda>_. []) (to_socket_addrs addr)"
  by (cases addr) (auto simp: lookup_host_string_def lookup_host_ledger split: option.split prod.split)

text \<open>What \<open>each_addr\<close> needs of the attempt it makes for one address.\<close>

locale socket_attempt =
  fixes own :: "'a \<Rightarrow> int list" and f :: "socket_addr \<Rightarrow> 'a io"
  assumes attempt_ledger: "keeps_ledger own (f addr)"
begin

lemma loop_ledger: "keeps_ledger own (each_addr_loop f last_err addrs)"
proof (induction addrs arbitrary: last_err)
  case (Cons addr addrs)
  show ?case
  proof (rule keeps_ledgerI)
    fix s r s' assume run: "each_addr_loop f last_err (addr # addrs) s = (r, s')"
    obtain q s1 where fs: "f addr s = (q, s1)" by fastforce
    from keeps_ledgerE [OF attempt_ledger fs] obtain t where t: "os_trace s1 = os_trace s @ t"
      "opened t = closed t @ (case q of Ok x \<Rightarrow> own x | _ \<Rightarrow> [])" .
    show "\<exists>t. os_trace s' = os_trace s @ t \<and> opened t = closed t @ (case r of Ok x \<Rightarrow> own x | _ \<Rightarrow> [])"
    proof (cases q)
      case (Err e)
      then have "each_addr_loop f (Some e) addrs s1 = (r, s')"
        using run fs by (simp add: io_bind_def io_attempt_def)
      from keeps_ledgerE [OF Cons.IH this] obtain u where "os_trace s' = os_trace s1 @ u"
        "opened u = closed u @ (case r of Ok x \<Rightarrow> own x | _ \<Rightarrow> [])" .
      with t Err show ?thesis by (intro exI [of _ "t @ u"]) simp
    qed (use run fs t in \<open>auto simp: io_bind_def io_attempt_def\<close>)
  qed
qed (auto split: option.split)

lemma each_addr_ledger: "keeps_ledger own (each_addr addr f)"
  unfolding each_addr_def by (rule keeps_ledger_bind [OF to_socket_addrs_ledger loop_ledger])

end

interpretation connecting: socket_attempt "\<lambda>fd. [fd]" tcp_connect_to
  by unfold_locales (rule tcp_connect_to_ledger)

interpretation listening: socket_attempt "\<lambda>fd. [fd]" tcp_bind_to
  by unfold_locales (rule tcp_bind_to_ledger)

interpretation binding: socket_attempt "\<lambda>fd. [fd]" udp_bind_to
  by unfold_locales (rule udp_bind_to_ledger)

interpretation peering: socket_attempt "\<lambda>_. []" "udp_connect_to fd" for fd
proof
  fix addr
  show "keeps_ledger (\<lambda>_. []) (udp_connect_to fd addr)"
    by (cases addr) (auto intro!: keeps_ledgerI simp: udp_connect_to_def sock_run split: if_splits prod.splits)
qed

section \<open>Names with ports\<close>

lemma rsplit_once_last: "c \<notin> set b \<Longrightarrow> rsplit_once c (a @ c # b) = Some (a, b)"
proof -
  assume "c \<notin> set b"
  then have "position (\<lambda>x. x = c) (rev b @ c # rev a) = Some (length b)"
    using position_first [of "rev b" "\<lambda>x. x = c" c "rev a"] by auto
  then show ?thesis by (simp add: rsplit_once_def)
qed

lemma colon_not_in_port: "58 \<notin> set (radix_bytes 10 n)"
proof
  assume "58 \<in> set (radix_bytes 10 n)"
  then obtain d where "d < 10" "(58 :: u8) = digit_byte d" using radix_bytes_digits [of 10 n] by auto
  then show False using unat_digit_byte [of d] by (auto simp: word_unat_eq_iff)
qed

lemma lookup_host_string_port:
  "lookup_host_string (host @ 58 # radix_bytes 10 (unat port)) = lookup_host host port"
  by (simp add: lookup_host_string_def rsplit_once_last colon_not_in_port parse_u16_number)

text \<open>The addresses a resolver has written, and the answers the code expects.\<close>

definition resolved :: "u16 \<Rightarrow> reply \<Rightarrow> socket_addr list" where
  "resolved port r = map (\<lambda>i. SockV4 (SocketAddrV4 (u32_to_ne_bytes (of_int (out_param i 0 r))) port)) [0..<nat (r_ret r)]"

lemma lookup_host_resolves:
  assumes "ipv4_parse host = None" "0 \<notin> set host"
    and "r_ret (reply_of s (NetC N_open)) = 0"
    and "r = reply_of (after s (NetC N_open)) (NetC (N_resolve4 host 8))" "0 \<le> r_ret r" "r_ret r \<le> 8"
  shows "lookup_host host port s = (Ok (resolved port r), after (after s (NetC N_open)) (NetC (N_resolve4 host 8)))"
proof -
  have "nat (r_ret r) \<le> 8" using assms(6) by simp
  then have "take (nat (r_ret r)) [0..<8] = [0..<nat (r_ret r)]" by (simp add: take_upt)
  then show ?thesis
    using assms by (simp add: lookup_host_def ensure_lib_def bind_sys_after run_with_cstr_cases resolved_def Let_def take_map)
qed

lemma lookup_host_literal:
  assumes "ipv4_parse host = Some ip" "r_ret (reply_of s (NetC N_open)) = 0"
  shows "lookup_host host port s = (Ok [SockV4 (SocketAddrV4 ip port)], after s (NetC N_open))"
  using assms by (simp add: lookup_host_def ensure_lib_def bind_sys_after)

text \<open>A resolver that knows one name.\<close>

definition one_name :: "bytes \<Rightarrow> int list \<Rightarrow> trace \<Rightarrow> call \<Rightarrow> reply" where
  "one_name name addrs t c = (case c of
      NetC (N_resolve4 n m) \<Rightarrow> if n = name then ret_outs (int (length addrs)) addrs else ret (- 1)
    | _ \<Rightarrow> ret 0)"

section \<open>Properties\<close>

text \<open>
  C26: no socket leaks and none is closed twice. Whatever addresses are tried and whatever the library
  answers, at whichever step, every descriptor that connecting, binding, accepting or duplicating
  has opened has been closed again, except the one descriptor a success returns.
\<close>

theorem socket_ledger:
  "keeps_ledger (\<lambda>fd. [fd]) (tcp_connect addr) \<and> keeps_ledger (\<lambda>fd. [fd]) (tcp_bind addr)
   \<and> keeps_ledger (\<lambda>fd. [fd]) (udp_bind addr) \<and> keeps_ledger (\<lambda>_. []) (udp_connect fd addr)
   \<and> keeps_ledger (\<lambda>x. [fst x]) (listener_accept fd) \<and> keeps_ledger (\<lambda>fd'. [fd']) (sock_try_clone fd)"
  using connecting.each_addr_ledger [of addr] listening.each_addr_ledger [of addr] binding.each_addr_ledger [of addr]
    peering.each_addr_ledger [where fd = fd and addr = addr] accept_ledger [of fd] try_clone_ledger [of fd]
  by (simp add: tcp_connect_def tcp_bind_def udp_bind_def udp_connect_def)

text \<open>
  the text forms of \<open>ToSocketAddrs\<close>. \<open>host:port\<close> whose host is a name goes to the resolver, once and
  with the whole name, and gives the addresses it answers, in its order, with the port that was
  written; an address literal gives that address and asks nobody.
\<close>

lemma socket_text_resolves:
  assumes "socket_parse (host @ 58 # radix_bytes 10 (unat port)) = None" "ipv4_parse host = None" "0 \<notin> set host"
    and "r_ret (reply_of s (NetC N_open)) = 0"
    and "r = reply_of (after s (NetC N_open)) (NetC (N_resolve4 host 8))" "0 \<le> r_ret r" "r_ret r \<le> 8"
    and "length (segments (v6_ip s6)) = 8" "v6_flowinfo s6 = 0"
  shows "to_socket_addrs (HostText (host @ 58 # radix_bytes 10 (unat port))) s
      = (Ok (resolved port r), after (after s (NetC N_open)) (NetC (N_resolve4 host 8)))
    \<and> to_socket_addrs (HostText (socket_display (SockV6 s6))) s = (Ok [SockV6 s6], s)
    \<and> to_socket_addrs (HostText (socket_display (SockV4 s4))) s = (Ok [SockV4 s4], s)"
  using assms(1) lookup_host_resolves [OF assms(2-7)] address_texts [OF assms(8,8,9), of _ s4]
  by (simp add: lookup_host_string_port)

theorem socket_text_resolves_witness:
  "fst (to_socket_addrs (HostText [104, 58, 56, 48]) (boot (one_name [104] [0x0100007f])))
    = Ok [SockV4 (SocketAddrV4 (Ipv4Addr 127 0 0 1) 80)]"
proof -
  have port: "radix_bytes 10 80 = [56, 48]" by (simp add: radix_bytes.simps digit_byte_def)
  have none: "socket_parse [104, 58, 56, 48] = None" "ipv4_parse [104] = None"
    and ip: "u32_to_ne_bytes 0x0100007f = Ipv4Addr 127 0 0 1" by code_simp+
  let ?s = "boot (one_name [104] [0x0100007f])"
  have replies: "reply_of ?s (NetC N_open) = ret 0"
    "reply_of (after ?s (NetC N_open)) (NetC (N_resolve4 [104] 8)) = ret_outs 1 [0x0100007f]"
    by (simp_all add: reply_of_def one_name_def)
  have "to_socket_addrs (HostText ([104] @ 58 # radix_bytes 10 (unat (80 :: u16)))) ?s
      = (Ok (resolved 80 (ret_outs 1 [0x0100007f])), after (after ?s (NetC N_open)) (NetC (N_resolve4 [104] 8)))"
    by (rule socket_text_resolves [where host = "[104]" and port = 80 and s = ?s and r = "ret_outs 1 [0x0100007f]"
        and ?s6.0 = "\<lparr>v6_ip = Ipv6Addr [0, 0, 0, 0, 0, 0, 0, 1], v6_port = 80, v6_flowinfo = 0, v6_scope_id = 0\<rparr>",
        THEN conjunct1]) (simp_all add: port none replies)
  then show ?thesis by (simp add: port resolved_def out_param_def ip)
qed

text \<open>
  C28: a socket turned into an \<open>OwnedFd\<close> is never given back. Dropping it calls posixc \<open>close\<close> on the
  number, which is a file descriptor or none at all; the socket, which only \<open>CloseSocket\<close> closes,
  stays open.
\<close>

theorem owned_fd_never_closes_socket:
  "case io_bind (tcp_connect addr) (\<lambda>sock. io_bind (owned_fd_from_socket sock) owned_fd_drop) s of
     (Ok (), s') \<Rightarrow> (\<exists>t fd r. os_trace s' = os_trace s @ t @ [(FsC (C_close fd), r)] \<and> opened t = closed t @ [fd])
   | _ \<Rightarrow> True"
proof -
  obtain q s1 where run: "tcp_connect addr s = (q, s1)" by fastforce
  have "keeps_ledger (\<lambda>fd. [fd]) (tcp_connect addr)" by (simp add: tcp_connect_def connecting.each_addr_ledger)
  from keeps_ledgerE [OF this run] obtain t where t: "os_trace s1 = os_trace s @ t"
    "opened t = closed t @ (case q of Ok x \<Rightarrow> [x] | _ \<Rightarrow> [])" .
  show ?thesis
  proof (cases q)
    case (Ok fd)
    have "os_trace (after s1 (FsC (C_close fd))) = os_trace s @ t @ [(FsC (C_close fd), reply_of s1 (FsC (C_close fd)))]"
      using t(1) by simp
    moreover have "opened t = closed t @ [fd]" using t(2) Ok by simp
    ultimately show ?thesis
      using run Ok by (simp only: io_bind_Ok owned_fd_from_socket_def io_bind_return owned_fd_drop_def bind_sys_after
          io_return_apply prod.case outcome.case unit.case) blast
  qed (use run in \<open>simp_all add: io_bind_def\<close>)
qed

end
