(* ===== verification/Net_Surface.thy ===== *)
theory Net_Surface
  imports Net_Resolve
begin

text \<open>
  The operations of \<open>TcpStream\<close>, \<open>TcpListener\<close> and \<open>UdpSocket\<close> (\<open>sys/net/connection/aros.rs\<close>) that pass a call on to the
  socket, or do without one, and the raw descriptors (\<open>os/fd/net_aros.rs\<close>). With the operations of \<open>Net_Aros\<close> and
  \<open>Net_Resolve\<close> these are all of them: each type of operations has a constructor for each, and \<open>socket_run\<close> is any use of a socket.
\<close>

section \<open>Streams, listeners and datagram sockets\<close>

definition tcp_set_read_timeout :: "int \<Rightarrow> duration option \<Rightarrow> unit io" where
  "tcp_set_read_timeout fd dur = set_timeout dur"
definition tcp_set_write_timeout :: "int \<Rightarrow> duration option \<Rightarrow> unit io" where
  "tcp_set_write_timeout fd dur = set_timeout dur"
definition tcp_read_timeout :: "int \<Rightarrow> duration option io" where "tcp_read_timeout fd = io_return None"
definition tcp_write_timeout :: "int \<Rightarrow> duration option io" where "tcp_write_timeout fd = io_return None"
definition udp_set_read_timeout :: "int \<Rightarrow> duration option \<Rightarrow> unit io" where
  "udp_set_read_timeout fd dur = set_timeout dur"
definition udp_set_write_timeout :: "int \<Rightarrow> duration option \<Rightarrow> unit io" where
  "udp_set_write_timeout fd dur = set_timeout dur"
definition udp_read_timeout :: "int \<Rightarrow> duration option io" where "udp_read_timeout fd = io_return None"
definition udp_write_timeout :: "int \<Rightarrow> duration option io" where "udp_write_timeout fd = io_return None"
definition tcp_is_read_vectored :: "int \<Rightarrow> bool" where "tcp_is_read_vectored fd = False"
definition tcp_is_write_vectored :: "int \<Rightarrow> bool" where "tcp_is_write_vectored fd = False"
definition tcp_shutdown :: "int \<Rightarrow> shutdown_how \<Rightarrow> unit io" where
  "tcp_shutdown fd how = sock_shutdown fd how"
definition tcp_peer_addr :: "int \<Rightarrow> socket_addr io" where "tcp_peer_addr fd = peer_addr fd"
definition udp_peer_addr :: "int \<Rightarrow> socket_addr io" where "udp_peer_addr fd = peer_addr fd"
definition tcp_socket_addr :: "int \<Rightarrow> socket_addr io" where "tcp_socket_addr fd = local_addr fd"
definition tcp_duplicate :: "int \<Rightarrow> int io" where "tcp_duplicate fd = sock_try_clone fd"
definition tcp_take_error :: "int \<Rightarrow> io_error option io" where "tcp_take_error fd = sock_take_error fd"
definition tcp_set_nonblocking :: "int \<Rightarrow> bool \<Rightarrow> unit io" where
  "tcp_set_nonblocking fd nonblocking = sock_set_nonblocking fd nonblocking"
definition listener_socket_addr :: "int \<Rightarrow> socket_addr io" where "listener_socket_addr fd = local_addr fd"
definition listener_duplicate :: "int \<Rightarrow> int io" where "listener_duplicate fd = sock_try_clone fd"
definition listener_set_ttl :: "int \<Rightarrow> u32 \<Rightarrow> unit io" where
  "listener_set_ttl fd ttl = setsockopt fd IPPROTO_IP IP_TTL [sint ttl] 4"
definition listener_ttl :: "int \<Rightarrow> u32 io" where
  "listener_ttl fd = io_bind (get_c_int fd IPPROTO_IP IP_TTL) (\<lambda>v. io_return (of_int v))"
definition listener_take_error :: "int \<Rightarrow> io_error option io" where
  "listener_take_error fd = sock_take_error fd"
definition listener_set_nonblocking :: "int \<Rightarrow> bool \<Rightarrow> unit io" where
  "listener_set_nonblocking fd nonblocking = sock_set_nonblocking fd nonblocking"
definition udp_socket_addr :: "int \<Rightarrow> socket_addr io" where "udp_socket_addr fd = local_addr fd"
definition udp_duplicate :: "int \<Rightarrow> int io" where "udp_duplicate fd = sock_try_clone fd"
definition udp_set_ttl :: "int \<Rightarrow> u32 \<Rightarrow> unit io" where
  "udp_set_ttl fd ttl = setsockopt fd IPPROTO_IP IP_TTL [sint ttl] 4"
definition udp_ttl :: "int \<Rightarrow> u32 io" where
  "udp_ttl fd = io_bind (get_c_int fd IPPROTO_IP IP_TTL) (\<lambda>v. io_return (of_int v))"
definition udp_take_error :: "int \<Rightarrow> io_error option io" where "udp_take_error fd = sock_take_error fd"
definition udp_set_nonblocking :: "int \<Rightarrow> bool \<Rightarrow> unit io" where
  "udp_set_nonblocking fd nonblocking = sock_set_nonblocking fd nonblocking"
definition listener_set_only_v6 :: "int \<Rightarrow> bool \<Rightarrow> unit io" where
  "listener_set_only_v6 fd b = unsupported_v6"
definition listener_only_v6 :: "int \<Rightarrow> bool io" where "listener_only_v6 fd = io_return False"
definition udp_recv_from :: "int \<Rightarrow> bytes \<Rightarrow> (nat \<times> bytes \<times> socket_addr) io" where
  "udp_recv_from fd buf = recvfrom_flags fd buf 0"
definition udp_peek_from :: "int \<Rightarrow> bytes \<Rightarrow> (nat \<times> bytes \<times> socket_addr) io" where
  "udp_peek_from fd buf = recvfrom_flags fd buf MSG_PEEK"
definition udp_recv :: "int \<Rightarrow> bytes \<Rightarrow> (nat \<times> bytes) io" where
  "udp_recv fd buf = recv_with_flags fd buf 0"
definition udp_peek :: "int \<Rightarrow> bytes \<Rightarrow> (nat \<times> bytes) io" where
  "udp_peek fd buf = recv_with_flags fd buf MSG_PEEK"
definition udp_send :: "int \<Rightarrow> bytes \<Rightarrow> nat io" where
  "udp_send fd buf = send_with_flags fd buf 0"
definition udp_set_multicast_loop_v6 :: "int \<Rightarrow> bool \<Rightarrow> unit io" where
  "udp_set_multicast_loop_v6 fd b = unsupported_v6"
definition udp_multicast_loop_v6 :: "int \<Rightarrow> bool io" where "udp_multicast_loop_v6 fd = unsupported_v6"
definition udp_join_multicast_v6 :: "int \<Rightarrow> ipv6_addr \<Rightarrow> u32 \<Rightarrow> unit io" where
  "udp_join_multicast_v6 fd multiaddr interface = unsupported_v6"
definition udp_leave_multicast_v6 :: "int \<Rightarrow> ipv6_addr \<Rightarrow> u32 \<Rightarrow> unit io" where
  "udp_leave_multicast_v6 fd multiaddr interface = unsupported_v6"

section \<open>Raw descriptors\<close>

text \<open>\<open>into_raw\<close> forgets the socket, so its drop does not run; the other conversions only wrap or show the number.\<close>

definition sock_from_raw :: "int \<Rightarrow> int" where "sock_from_raw fd = fd"
definition sock_fd :: "int \<Rightarrow> int" where "sock_fd sock = sock"
definition sock_into_raw :: "int \<Rightarrow> int io" where "sock_into_raw sock = io_return sock"

definition as_raw_fd :: "int \<Rightarrow> int" where "as_raw_fd sock = sock_fd sock"
definition into_raw_fd :: "int \<Rightarrow> int io" where "into_raw_fd sock = sock_into_raw sock"
definition from_raw_fd :: "int \<Rightarrow> int" where "from_raw_fd fd = sock_from_raw fd"

definition as_fd :: "int \<Rightarrow> int" where "as_fd sock = as_raw_fd sock"

definition socket_from_owned_fd :: "int \<Rightarrow> int io" where
  "socket_from_owned_fd owned = io_return (from_raw_fd owned)"

section \<open>Any use of a socket\<close>

definition discard :: "'a io \<Rightarrow> unit io" where
  "discard m = io_bind (io_attempt m) (\<lambda>_. io_return ())"

datatype stream_op =
    Do_tcp_set_read_timeout "duration option"
  | Do_tcp_set_write_timeout "duration option"
  | Do_tcp_read_timeout
  | Do_tcp_write_timeout
  | Do_tcp_shutdown shutdown_how
  | Do_tcp_peer_addr
  | Do_tcp_socket_addr
  | Do_tcp_duplicate
  | Do_tcp_take_error
  | Do_tcp_set_nonblocking bool
  | Do_tcp_read bytes
  | Do_tcp_peek bytes
  | Do_tcp_read_buf nat
  | Do_tcp_read_vectored "bytes list"
  | Do_tcp_write bytes
  | Do_tcp_write_vectored "bytes list"
  | Do_set_linger "duration option"
  | Do_get_linger
  | Do_set_keepalive bool
  | Do_get_keepalive
  | Do_set_nodelay bool
  | Do_get_nodelay
  | Do_set_ttl u32
  | Do_get_ttl

primrec stream_exec :: "int \<Rightarrow> stream_op \<Rightarrow> unit io" where
  "stream_exec fd (Do_tcp_set_read_timeout a) = discard (tcp_set_read_timeout fd a)"
| "stream_exec fd (Do_tcp_set_write_timeout a) = discard (tcp_set_write_timeout fd a)"
| "stream_exec fd Do_tcp_read_timeout = discard (tcp_read_timeout fd)"
| "stream_exec fd Do_tcp_write_timeout = discard (tcp_write_timeout fd)"
| "stream_exec fd (Do_tcp_shutdown a) = discard (tcp_shutdown fd a)"
| "stream_exec fd Do_tcp_peer_addr = discard (tcp_peer_addr fd)"
| "stream_exec fd Do_tcp_socket_addr = discard (tcp_socket_addr fd)"
| "stream_exec fd Do_tcp_duplicate = discard (tcp_duplicate fd)"
| "stream_exec fd Do_tcp_take_error = discard (tcp_take_error fd)"
| "stream_exec fd (Do_tcp_set_nonblocking a) = discard (tcp_set_nonblocking fd a)"
| "stream_exec fd (Do_tcp_read a) = discard (tcp_read fd a)"
| "stream_exec fd (Do_tcp_peek a) = discard (tcp_peek fd a)"
| "stream_exec fd (Do_tcp_read_buf a) = discard (tcp_read_buf fd a)"
| "stream_exec fd (Do_tcp_read_vectored a) = discard (tcp_read_vectored fd a)"
| "stream_exec fd (Do_tcp_write a) = discard (tcp_write fd a)"
| "stream_exec fd (Do_tcp_write_vectored a) = discard (tcp_write_vectored fd a)"
| "stream_exec fd (Do_set_linger a) = discard (set_linger fd a)"
| "stream_exec fd Do_get_linger = discard (get_linger fd)"
| "stream_exec fd (Do_set_keepalive a) = discard (set_keepalive fd a)"
| "stream_exec fd Do_get_keepalive = discard (get_keepalive fd)"
| "stream_exec fd (Do_set_nodelay a) = discard (set_nodelay fd a)"
| "stream_exec fd Do_get_nodelay = discard (get_nodelay fd)"
| "stream_exec fd (Do_set_ttl a) = discard (set_ttl fd a)"
| "stream_exec fd Do_get_ttl = discard (get_ttl fd)"

datatype listener_op =
    Do_listener_socket_addr
  | Do_listener_duplicate
  | Do_listener_set_ttl u32
  | Do_listener_ttl
  | Do_listener_take_error
  | Do_listener_set_nonblocking bool
  | Do_listener_set_only_v6 bool
  | Do_listener_only_v6
  | Do_listener_accept

primrec listener_exec :: "int \<Rightarrow> listener_op \<Rightarrow> unit io" where
  "listener_exec fd Do_listener_socket_addr = discard (listener_socket_addr fd)"
| "listener_exec fd Do_listener_duplicate = discard (listener_duplicate fd)"
| "listener_exec fd (Do_listener_set_ttl a) = discard (listener_set_ttl fd a)"
| "listener_exec fd Do_listener_ttl = discard (listener_ttl fd)"
| "listener_exec fd Do_listener_take_error = discard (listener_take_error fd)"
| "listener_exec fd (Do_listener_set_nonblocking a) = discard (listener_set_nonblocking fd a)"
| "listener_exec fd (Do_listener_set_only_v6 a) = discard (listener_set_only_v6 fd a)"
| "listener_exec fd Do_listener_only_v6 = discard (listener_only_v6 fd)"
| "listener_exec fd Do_listener_accept = discard (listener_accept fd)"

datatype datagram_op =
    Do_udp_set_read_timeout "duration option"
  | Do_udp_set_write_timeout "duration option"
  | Do_udp_read_timeout
  | Do_udp_write_timeout
  | Do_udp_peer_addr
  | Do_udp_socket_addr
  | Do_udp_duplicate
  | Do_udp_set_ttl u32
  | Do_udp_ttl
  | Do_udp_take_error
  | Do_udp_set_nonblocking bool
  | Do_udp_recv_from bytes
  | Do_udp_peek_from bytes
  | Do_udp_recv bytes
  | Do_udp_peek bytes
  | Do_udp_send bytes
  | Do_udp_set_multicast_loop_v6 bool
  | Do_udp_multicast_loop_v6
  | Do_udp_join_multicast_v6 ipv6_addr u32
  | Do_udp_leave_multicast_v6 ipv6_addr u32
  | Do_send_to bytes socket_addr
  | Do_set_broadcast bool
  | Do_get_broadcast
  | Do_set_multicast_loop_v4 bool
  | Do_get_multicast_loop_v4
  | Do_set_multicast_ttl_v4 u32
  | Do_get_multicast_ttl_v4
  | Do_join_multicast_v4 ipv4_addr ipv4_addr
  | Do_leave_multicast_v4 ipv4_addr ipv4_addr
  | Do_udp_connect_to socket_addr

primrec datagram_exec :: "int \<Rightarrow> datagram_op \<Rightarrow> unit io" where
  "datagram_exec fd (Do_udp_set_read_timeout a) = discard (udp_set_read_timeout fd a)"
| "datagram_exec fd (Do_udp_set_write_timeout a) = discard (udp_set_write_timeout fd a)"
| "datagram_exec fd Do_udp_read_timeout = discard (udp_read_timeout fd)"
| "datagram_exec fd Do_udp_write_timeout = discard (udp_write_timeout fd)"
| "datagram_exec fd Do_udp_peer_addr = discard (udp_peer_addr fd)"
| "datagram_exec fd Do_udp_socket_addr = discard (udp_socket_addr fd)"
| "datagram_exec fd Do_udp_duplicate = discard (udp_duplicate fd)"
| "datagram_exec fd (Do_udp_set_ttl a) = discard (udp_set_ttl fd a)"
| "datagram_exec fd Do_udp_ttl = discard (udp_ttl fd)"
| "datagram_exec fd Do_udp_take_error = discard (udp_take_error fd)"
| "datagram_exec fd (Do_udp_set_nonblocking a) = discard (udp_set_nonblocking fd a)"
| "datagram_exec fd (Do_udp_recv_from a) = discard (udp_recv_from fd a)"
| "datagram_exec fd (Do_udp_peek_from a) = discard (udp_peek_from fd a)"
| "datagram_exec fd (Do_udp_recv a) = discard (udp_recv fd a)"
| "datagram_exec fd (Do_udp_peek a) = discard (udp_peek fd a)"
| "datagram_exec fd (Do_udp_send a) = discard (udp_send fd a)"
| "datagram_exec fd (Do_udp_set_multicast_loop_v6 a) = discard (udp_set_multicast_loop_v6 fd a)"
| "datagram_exec fd Do_udp_multicast_loop_v6 = discard (udp_multicast_loop_v6 fd)"
| "datagram_exec fd (Do_udp_join_multicast_v6 a b) = discard (udp_join_multicast_v6 fd a b)"
| "datagram_exec fd (Do_udp_leave_multicast_v6 a b) = discard (udp_leave_multicast_v6 fd a b)"
| "datagram_exec fd (Do_send_to a b) = discard (send_to fd a b)"
| "datagram_exec fd (Do_set_broadcast a) = discard (set_broadcast fd a)"
| "datagram_exec fd Do_get_broadcast = discard (get_broadcast fd)"
| "datagram_exec fd (Do_set_multicast_loop_v4 a) = discard (set_multicast_loop_v4 fd a)"
| "datagram_exec fd Do_get_multicast_loop_v4 = discard (get_multicast_loop_v4 fd)"
| "datagram_exec fd (Do_set_multicast_ttl_v4 a) = discard (set_multicast_ttl_v4 fd a)"
| "datagram_exec fd Do_get_multicast_ttl_v4 = discard (get_multicast_ttl_v4 fd)"
| "datagram_exec fd (Do_join_multicast_v4 a b) = discard (join_multicast_v4 fd a b)"
| "datagram_exec fd (Do_leave_multicast_v4 a b) = discard (leave_multicast_v4 fd a b)"
| "datagram_exec fd (Do_udp_connect_to a) = discard (udp_connect_to fd a)"

text \<open>A use of a socket is a sequence of operations of its type.\<close>

fun socket_run :: "('op \<Rightarrow> unit io) \<Rightarrow> 'op list \<Rightarrow> unit io" where
  "socket_run exec [] = io_return ()"
| "socket_run exec (x # xs) = io_bind (exec x) (\<lambda>_. socket_run exec xs)"

text \<open>The calls an owner of descriptor \<open>fd\<close> may make while it keeps the socket.\<close>

fun on_descriptor :: "int \<Rightarrow> net_call \<Rightarrow> bool" where
  "on_descriptor fd N_errno = True"
| "on_descriptor fd (N_connect k _ _) = (k = fd)"
| "on_descriptor fd (N_accept k) = (k = fd)"
| "on_descriptor fd (N_send k _ _) = (k = fd)"
| "on_descriptor fd (N_recv k _ _) = (k = fd)"
| "on_descriptor fd (N_sendto k _ _ _ _) = (k = fd)"
| "on_descriptor fd (N_recvfrom k _ _) = (k = fd)"
| "on_descriptor fd (N_getsockname k) = (k = fd)"
| "on_descriptor fd (N_getpeername k) = (k = fd)"
| "on_descriptor fd (N_shutdown k _) = (k = fd)"
| "on_descriptor fd (N_setsockopt k _ _ _ _) = (k = fd)"
| "on_descriptor fd (N_getsockopt k _ _ _) = (k = fd)"
| "on_descriptor fd (N_set_nonblock k _) = (k = fd)"
| "on_descriptor fd (N_dup k) = (k = fd)"
| "on_descriptor fd _ = False"

abbreviation only_on :: "int \<Rightarrow> 'a io \<Rightarrow> bool" where
  "only_on fd \<equiv> io_calls (\<lambda>c. case c of NetC n \<Rightarrow> on_descriptor fd n | _ \<Rightarrow> False)"

lemma on_fail [calls_intros]: "only_on fd (sock_fail :: 'a io)"
  by (auto simp: sock_fail_def sock_last_error_def intro!: calls_intros)

lemma on_socket [calls_intros]:
  "only_on fd (recv_with_flags fd buf flags)" "only_on fd (send_with_flags fd buf flags)"
  "only_on fd (local_addr fd)" "only_on fd (peer_addr fd)" "only_on fd (sock_set_nonblocking fd nb)"
  "only_on fd (sock_try_clone fd)" "only_on fd (sock_shutdown fd how)" "only_on fd (recvfrom_flags fd buf flags)"
  "only_on fd (setsockopt fd level name val len)" "only_on fd (getsockopt fd level name nf len)"
  "only_on fd (listener_accept fd)"
  by (auto simp: recv_with_flags_def send_with_flags_def sock_count_def local_addr_def peer_addr_def sock_unit_def
      sock_set_nonblocking_def sock_try_clone_def sock_shutdown_def recvfrom_flags_def setsockopt_def getsockopt_def
      listener_accept_def intro!: calls_intros)

lemma on_addr [calls_intros]: "only_on fd (addr_to_raw addr)" "only_on fd (unsupported_v6 :: 'a io)"
  by (auto simp: addr_to_raw_def unsupported_v6_def intro!: calls_intros split: socket_addr.split)

lemma on_connect [calls_intros]: "only_on fd (udp_connect_to fd addr)" "only_on fd (send_to fd b addr)"
  by (auto simp: udp_connect_to_def send_to_def sock_count_def intro!: calls_intros split: prod.split)

lemma on_get [calls_intros]: "only_on fd (get_c_int fd level name)" "only_on fd (get_u8 fd level name)"
  by (auto simp: get_c_int_def get_u8_def intro!: calls_intros)

lemma on_option [calls_intros]: "only_on fd (set_bool fd level name b)" "only_on fd (get_bool fd level name)"
  "only_on fd (sock_take_error fd)" "only_on fd (set_timeout dur)"
  by (auto simp: set_bool_def get_bool_def sock_take_error_def set_timeout_def intro!: calls_intros split: option.split)

lemma on_vectored [calls_intros]: "only_on fd (tcp_read_vectored fd bufs)" "only_on fd (tcp_write_vectored fd bufs)"
proof -
  show "only_on fd (tcp_read_vectored fd bufs)"
    by (induction bufs) (auto simp: tcp_read_def intro!: calls_intros split: prod.split)
  show "only_on fd (tcp_write_vectored fd bufs)"
    by (auto simp: tcp_write_vectored_def tcp_write_def intro!: calls_intros split: list.split)
qed

lemma on_discard [calls_intros]: "only_on fd m \<Longrightarrow> only_on fd (discard m)"
  unfolding discard_def by (intro calls_intros)

text \<open>
  While a socket is kept, whatever is done with it, every call is one on its own descriptor, and nothing is closed.
\<close>

lemma stream_on_descriptor: "only_on fd (stream_exec fd x)"
  by (cases x)
    (auto intro!: calls_intros split: prod.split
      simp:
        tcp_set_read_timeout_def tcp_set_write_timeout_def tcp_read_timeout_def tcp_write_timeout_def
        tcp_shutdown_def tcp_peer_addr_def tcp_socket_addr_def tcp_duplicate_def tcp_take_error_def
        tcp_set_nonblocking_def tcp_read_def tcp_peek_def tcp_read_buf_def tcp_write_def set_linger_def
        get_linger_def set_keepalive_def get_keepalive_def set_nodelay_def get_nodelay_def set_ttl_def
        get_ttl_def)

lemma listener_on_descriptor: "only_on fd (listener_exec fd x)"
  by (cases x)
    (auto intro!: calls_intros split: prod.split
      simp:
        listener_socket_addr_def listener_duplicate_def listener_set_ttl_def listener_ttl_def
        listener_take_error_def listener_set_nonblocking_def listener_set_only_v6_def listener_only_v6_def)

lemma datagram_on_descriptor: "only_on fd (datagram_exec fd x)"
  by (cases x)
    (auto intro!: calls_intros split: prod.split
      simp:
        udp_set_read_timeout_def udp_set_write_timeout_def udp_read_timeout_def udp_write_timeout_def
        udp_peer_addr_def udp_socket_addr_def udp_duplicate_def udp_set_ttl_def udp_ttl_def udp_take_error_def
        udp_set_nonblocking_def udp_recv_from_def udp_peek_from_def udp_recv_def udp_peek_def udp_send_def
        udp_set_multicast_loop_v6_def udp_multicast_loop_v6_def udp_join_multicast_v6_def
        udp_leave_multicast_v6_def set_broadcast_def get_broadcast_def set_multicast_loop_v4_def
        get_multicast_loop_v4_def set_multicast_ttl_v4_def get_multicast_ttl_v4_def join_multicast_v4_def
        leave_multicast_v4_def)

lemma socket_run_calls: "(\<And>x. io_calls P (exec x)) \<Longrightarrow> io_calls P (socket_run exec ops)"
  by (induction ops) (auto intro!: calls_intros)

lemma socket_run_on_descriptor:
  "only_on fd (socket_run (stream_exec fd) xs)" "only_on fd (socket_run (listener_exec fd) ys)"
  "only_on fd (socket_run (datagram_exec fd) zs)"
  by (rule socket_run_calls, rule stream_on_descriptor listener_on_descriptor datagram_on_descriptor)+

text \<open>
  The raw descriptor of a socket goes out and comes back without a call: ownership moves, the socket stays open.
\<close>

lemma raw_fd_roundtrip:
  "io_bind (into_raw_fd sock) (\<lambda>fd. io_return (from_raw_fd fd)) s = (Ok sock, s)"
  "io_bind (owned_fd_from_socket sock) socket_from_owned_fd s = (Ok sock, s)"
  by (simp_all add: into_raw_fd_def sock_into_raw_def from_raw_fd_def sock_from_raw_def owned_fd_from_socket_def
      socket_from_owned_fd_def)

end
