(* ===== verification/Lazy_Race.thy ===== *)
theory Lazy_Race
  imports Prelude
begin

text \<open>
  Racy initialisation, which the layer uses wherever a resource has to exist before the first lock:
  \<open>LazyKey\<close> (\<open>sys/thread_local/key/racy.rs\<close> over \<open>key/aros.rs\<close>) and \<open>OnceBox\<close>
  (\<open>sys/sync/once_box.rs\<close>). Any number of threads run the code at once; the model interleaves
  their atomic operations and library calls. The abstract machine is a race for one cell, and both
  programs refine it.
\<close>

section \<open>The abstract race\<close>

text \<open>
  A cell that is 0 until somebody publishes, the resources that exist, those each thread holds
  privately, and what each thread has learned.
\<close>

record race =
  r_cell :: nat
  r_live :: "nat set"
  r_held :: "nat \<Rightarrow> nat set"
  r_result :: "nat \<Rightarrow> nat option"

definition race_start :: "nat set \<Rightarrow> race" where
  "race_start L = \<lparr>r_cell = 0, r_live = L, r_held = (\<lambda>_. {}), r_result = (\<lambda>_. None)\<rparr>"

inductive race_step :: "race \<Rightarrow> race \<Rightarrow> bool" where
  race_skip: "race_step v v"
| race_take: "k \<notin> r_live v \<Longrightarrow>
    race_step v (v\<lparr>r_live := insert k (r_live v), r_held := (r_held v)(i := insert k (r_held v i))\<rparr>)"
| race_drop: "k \<in> r_held v i \<Longrightarrow>
    race_step v (v\<lparr>r_live := r_live v - {k}, r_held := (r_held v)(i := r_held v i - {k})\<rparr>)"
| race_publish: "k \<in> r_held v i \<Longrightarrow> r_cell v = 0 \<Longrightarrow> k \<noteq> 0 \<Longrightarrow>
    race_step v (v\<lparr>r_cell := k, r_held := (r_held v)(i := r_held v i - {k}),
                   r_result := (r_result v)(i := Some k)\<rparr>)"
| race_observe: "r_cell v \<noteq> 0 \<Longrightarrow> race_step v (v\<lparr>r_result := (r_result v)(i := Some (r_cell v))\<rparr>)"

text \<open>Everybody learned the one published resource, and nothing else is left but what is held.\<close>

definition published :: "race \<Rightarrow> nat set" where
  "published v = (if r_cell v = 0 then {} else {r_cell v})"

definition race_inv :: "nat set \<Rightarrow> race \<Rightarrow> bool" where
  "race_inv L v \<longleftrightarrow>
     (\<forall>i n. r_result v i = Some n \<longrightarrow> n = r_cell v \<and> n \<noteq> 0)
     \<and> (\<forall>x. x \<in> r_live v \<longleftrightarrow> x \<in> L \<or> x \<in> published v \<or> (\<exists>i. x \<in> r_held v i))
     \<and> (\<forall>x i. x \<in> r_held v i \<longrightarrow> x \<notin> L \<and> x \<notin> published v)
     \<and> (\<forall>x. x \<in> published v \<longrightarrow> x \<notin> L)
     \<and> (\<forall>x i j. x \<in> r_held v i \<longrightarrow> x \<in> r_held v j \<longrightarrow> i = j)"

lemma race_invD:
  assumes "race_inv L v"
  shows "r_result v i = Some n \<Longrightarrow> n = r_cell v \<and> n \<noteq> 0"
    "x \<in> r_live v \<longleftrightarrow> x \<in> L \<or> x \<in> published v \<or> (\<exists>i. x \<in> r_held v i)"
    "x \<in> r_held v i \<Longrightarrow> x \<notin> L \<and> x \<notin> published v"
    "x \<in> published v \<Longrightarrow> x \<notin> L"
    "x \<in> r_held v i \<Longrightarrow> x \<in> r_held v j \<Longrightarrow> i = j"
  using assms unfolding race_inv_def by blast+

lemma race_inv_start: "race_inv L (race_start L)"
  by (simp add: race_inv_def race_start_def published_def)

lemma held_insert: "(\<exists>j. x \<in> (h(i := insert k (h i))) j) \<longleftrightarrow> x = k \<or> (\<exists>j. x \<in> h j)"
  by (metis fun_upd_apply insert_iff)

lemma race_inv_step:
  assumes "race_step v v'" "race_inv L v"
  shows "race_inv L v'"
  using assms(1)
proof cases
  case race_skip
  with assms(2) show ?thesis by simp
next
  case (race_take k i)
  have p: "published v' = published v" using race_take(1) by (simp add: published_def)
  have k: "k \<notin> L" "k \<notin> published v" "\<And>j. k \<notin> r_held v j"
    using race_take(2) race_invD(2) [OF assms(2), of k] by auto
  have sel: "r_result v' = r_result v" "r_cell v' = r_cell v" "r_live v' = insert k (r_live v)"
    "r_held v' = (r_held v)(i := insert k (r_held v i))" using race_take(1) by simp_all
  have "x \<in> r_live v' \<longleftrightarrow> x \<in> L \<or> x \<in> published v' \<or> (\<exists>j. x \<in> r_held v' j)" for x
    unfolding sel p held_insert using race_invD(2) [OF assms(2), of x] by blast
  with race_invD(1,3,4,5) [OF assms(2)] k show ?thesis
    unfolding race_inv_def p sel by (auto split: if_splits)
next
  case (race_drop k i)
  have p: "published v' = published v" using race_drop(1) by (simp add: published_def)
  have k: "k \<notin> L" "k \<notin> published v" "\<And>j. j \<noteq> i \<Longrightarrow> k \<notin> r_held v j"
    using race_drop(2) race_invD(3,5) [OF assms(2)] by blast+
  have sel: "r_result v' = r_result v" "r_cell v' = r_cell v" "r_live v' = r_live v - {k}"
    "r_held v' = (r_held v)(i := r_held v i - {k})" using race_drop(1) by simp_all
  have "x \<in> r_live v' \<longleftrightarrow> x \<in> L \<or> x \<in> published v' \<or> (\<exists>j. x \<in> r_held v' j)" for x
    unfolding sel p using race_invD(2) [OF assms(2), of x] k by (metis Diff_iff fun_upd_apply singletonD singletonI)
  with race_invD(1,3,4,5) [OF assms(2)] k show ?thesis
    unfolding race_inv_def p sel by (auto split: if_splits)
next
  case (race_publish k i)
  have p: "published v = {}" "published v' = {k}" using race_publish by (simp_all add: published_def)
  have k: "k \<notin> L" "\<And>j. j \<noteq> i \<Longrightarrow> k \<notin> r_held v j"
    using race_publish(2) race_invD(3,5) [OF assms(2)] by blast+
  have sel: "r_result v' = (r_result v)(i := Some k)" "r_cell v' = k" "r_live v' = r_live v"
    "r_held v' = (r_held v)(i := r_held v i - {k})" using race_publish(1) by simp_all
  have "x \<in> r_live v' \<longleftrightarrow> x \<in> L \<or> x \<in> published v' \<or> (\<exists>j. x \<in> r_held v' j)" for x
    unfolding sel p using race_invD(2) [OF assms(2), of x] k race_publish(2)
    by (metis Diff_iff empty_iff fun_upd_apply p(1) singletonD singletonI)
  with race_invD(1,3,4,5) [OF assms(2)] k p(1) race_publish(3,4) show ?thesis
    unfolding race_inv_def p(2) sel by (auto split: if_splits)
next
  case (race_observe i)
  have p: "published v' = published v" using race_observe(1) by (simp add: published_def)
  with race_invD [OF assms(2)] race_observe(2) show ?thesis
    unfolding race_inv_def by (auto simp: race_observe(1) split: if_splits)
qed

section \<open>Interleavings\<close>

text \<open>
  \<open>exec i a s\<close> is the next operation of thread \<open>i\<close>, where \<open>a\<close> is what the library answers to it;
  \<open>runs\<close> are the interleavings of any number of threads.
\<close>

inductive runs :: "(nat \<Rightarrow> 'a \<Rightarrow> 's \<Rightarrow> 's option) \<Rightarrow> 's \<Rightarrow> 's \<Rightarrow> bool" for exec s0 where
  runs_start: "runs exec s0 s0"
| runs_next: "runs exec s0 s \<Longrightarrow> exec i a s = Some s' \<Longrightarrow> runs exec s0 s'"

text \<open>A schedule: which thread moves, and what it is answered.\<close>

fun schedule :: "(nat \<Rightarrow> 'a \<Rightarrow> 's \<Rightarrow> 's option) \<Rightarrow> (nat \<times> 'a) list \<Rightarrow> 's \<Rightarrow> 's option" where
  "schedule exec [] s = Some s"
| "schedule exec ((i, a) # l) s = (case exec i a s of None \<Rightarrow> None | Some s' \<Rightarrow> schedule exec l s')"

lemma runs_schedule: "runs exec s0 s \<Longrightarrow> schedule exec l s = Some s' \<Longrightarrow> runs exec s0 s'"
proof (induction l arbitrary: s)
  case (Cons x l)
  then obtain s1 where "exec (fst x) (snd x) s = Some s1" "schedule exec l s1 = Some s'"
    by (cases x) (auto split: option.splits)
  with Cons.IH [of s1] runs_next [of exec s0 s "fst x" "snd x" s1] Cons.prems(1) show ?case by simp
qed simp

lemmas schedule_runs = runs_schedule [OF runs_start]

text \<open>What a program has to show to be an instance of the race.\<close>

locale racing =
  fixes exec :: "nat \<Rightarrow> 'a \<Rightarrow> 's \<Rightarrow> 's option" and view :: "'s \<Rightarrow> race" and good :: "'s \<Rightarrow> bool"
    and start :: "nat set \<Rightarrow> 's"
  assumes view_start: "view (start L) = race_start L" and good_start: "good (start L)"
    and sim: "exec i a s = Some s' \<Longrightarrow> good s \<Longrightarrow> race_inv L (view s) \<Longrightarrow> race_step (view s) (view s') \<and> good s'"
begin

lemma reaches: "runs exec (start L) s \<Longrightarrow> good s \<and> race_inv L (view s)"
proof (induction rule: runs.induct)
  case runs_start
  show ?case by (simp add: good_start view_start race_inv_start)
next
  case (runs_next s i a s')
  then show ?case using sim [OF runs_next(2)] race_inv_step by blast
qed

lemma agree: "runs exec (start L) s \<Longrightarrow> r_result (view s) i = Some n \<Longrightarrow> n = r_cell (view s) \<and> n \<noteq> 0"
  using reaches race_invD(1) by blast

lemma nothing_left:
  "runs exec (start L) s \<Longrightarrow> (\<And>i. r_held (view s) i = {}) \<Longrightarrow> r_live (view s) = L \<union> published (view s)"
  using reaches [of L s] race_invD(2) [of L "view s"] by blast

end

section \<open>LazyKey\<close>

definition KEY_SENTVAL :: nat where "KEY_SENTVAL = 0"

text \<open>
  Where a thread is in \<open>force\<close>; the constructors from \<open>Create1\<close> to \<open>Lost\<close> are inside \<open>lazy_init\<close>.
\<close>

datatype key_pc =
    Force | Create1 | Create2 nat | Destroy1 nat nat | Check nat | Cas nat | Lost nat nat | Forced nat

record lazy_key =
  key_cell :: nat
  live_keys :: "nat set"
  key_pc :: "nat \<Rightarrow> key_pc"
  key_abort :: "string option"

definition lazy_key_new :: "nat set \<Rightarrow> lazy_key" where
  "lazy_key_new L = \<lparr>key_cell = KEY_SENTVAL, live_keys = L, key_pc = (\<lambda>_. Force), key_abort = None\<rparr>"

definition key_goto :: "nat \<Rightarrow> key_pc \<Rightarrow> lazy_key \<Rightarrow> lazy_key" where
  "key_goto i p s = s\<lparr>key_pc := (key_pc s)(i := p)\<rparr>"

text \<open>
  \<open>create\<close>: the library gives a key that is not in use, or none, which aborts the process. An answer
  that is in use is no answer.
\<close>

definition key_create :: "nat \<Rightarrow> nat option \<Rightarrow> (nat \<Rightarrow> key_pc) \<Rightarrow> lazy_key \<Rightarrow> lazy_key option" where
  "key_create i answer k s = (case answer of
      None \<Rightarrow> Some (s\<lparr>key_abort := Some ''out of TLS keys''\<rparr>)
    | Some key \<Rightarrow> if key \<in> live_keys s then None
        else Some (key_goto i (k key) (s\<lparr>live_keys := insert key (live_keys s)\<rparr>)))"

definition key_destroy :: "nat \<Rightarrow> lazy_key \<Rightarrow> lazy_key" where
  "key_destroy key s = s\<lparr>live_keys := live_keys s - {key}\<rparr>"

definition lazy_key_exec :: "nat \<Rightarrow> nat option \<Rightarrow> lazy_key \<Rightarrow> lazy_key option" where
  "lazy_key_exec i answer s =
    (if key_abort s \<noteq> None then None
     else case key_pc s i of
       Force \<Rightarrow> Some (key_goto i (if key_cell s = KEY_SENTVAL then Create1 else Forced (key_cell s)) s)
     | Create1 \<Rightarrow> key_create i answer (\<lambda>key1. if key1 \<noteq> KEY_SENTVAL then Check key1 else Create2 key1) s
     | Create2 key1 \<Rightarrow> key_create i answer (\<lambda>key2. Destroy1 key1 key2) s
     | Destroy1 key1 key2 \<Rightarrow> Some (key_goto i (Check key2) (key_destroy key1 s))
     | Check key \<Rightarrow> Some (if key \<noteq> KEY_SENTVAL then key_goto i (Cas key) s
         else s\<lparr>key_abort := Some ''assertion failed''\<rparr>)
     | Cas key \<Rightarrow> Some (if key_cell s = KEY_SENTVAL then key_goto i (Forced key) (s\<lparr>key_cell := key\<rparr>)
         else key_goto i (Lost key (key_cell s)) s)
     | Lost key n \<Rightarrow> Some (key_goto i (Forced n) (key_destroy key s))
     | Forced n \<Rightarrow> None)"

fun key_held :: "key_pc \<Rightarrow> nat set" where
  "key_held (Create2 key1) = {key1}"
| "key_held (Destroy1 key1 key2) = {key1, key2}"
| "key_held (Check key) = {key}"
| "key_held (Cas key) = {key}"
| "key_held (Lost key n) = {key}"
| "key_held _ = {}"

fun key_result :: "key_pc \<Rightarrow> nat option" where
  "key_result (Lost key n) = Some n"
| "key_result (Forced n) = Some n"
| "key_result _ = None"

definition key_view :: "lazy_key \<Rightarrow> race" where
  "key_view s = \<lparr>r_cell = key_cell s, r_live = live_keys s, r_held = key_held \<circ> key_pc s,
                 r_result = key_result \<circ> key_pc s\<rparr>"

fun key_pc_good :: "key_pc \<Rightarrow> bool" where
  "key_pc_good (Create2 key1) \<longleftrightarrow> key1 = 0"
| "key_pc_good (Destroy1 key1 key2) \<longleftrightarrow> key1 = 0 \<and> key2 \<noteq> 0"
| "key_pc_good (Check key) \<longleftrightarrow> key \<noteq> 0"
| "key_pc_good (Cas key) \<longleftrightarrow> key \<noteq> 0"
| "key_pc_good _ \<longleftrightarrow> True"

definition key_good :: "lazy_key \<Rightarrow> bool" where
  "key_good s \<longleftrightarrow> (\<forall>i. key_pc_good (key_pc s i)) \<and> key_abort s \<noteq> Some ''assertion failed''"

section \<open>OnceBox\<close>

text \<open>A pointer is its address, 0 the null pointer; \<open>Box\<close> allocations are fresh and never null.\<close>

datatype box_pc = Get | Init | BoxCas nat | BoxLost nat nat | Got nat

record once_box =
  box_ptr :: nat
  boxes :: "nat set"
  box_pc :: "nat \<Rightarrow> box_pc"

definition once_box_new :: "nat set \<Rightarrow> once_box" where
  "once_box_new L = \<lparr>box_ptr = 0, boxes = L, box_pc = (\<lambda>_. Get)\<rparr>"

definition box_goto :: "nat \<Rightarrow> box_pc \<Rightarrow> once_box \<Rightarrow> once_box" where
  "box_goto i p s = s\<lparr>box_pc := (box_pc s)(i := p)\<rparr>"

definition once_box_exec :: "nat \<Rightarrow> nat \<Rightarrow> once_box \<Rightarrow> once_box option" where
  "once_box_exec i fresh s = (case box_pc s i of
       Get \<Rightarrow> Some (box_goto i (if box_ptr s = 0 then Init else Got (box_ptr s)) s)
     | Init \<Rightarrow> if fresh \<in> boxes s \<or> fresh = 0 then None
         else Some (box_goto i (BoxCas fresh) (s\<lparr>boxes := insert fresh (boxes s)\<rparr>))
     | BoxCas new_ptr \<Rightarrow> Some (if box_ptr s = 0 then box_goto i (Got new_ptr) (s\<lparr>box_ptr := new_ptr\<rparr>)
         else box_goto i (BoxLost new_ptr (box_ptr s)) s)
     | BoxLost new_ptr ptr \<Rightarrow> Some (box_goto i (Got ptr) (s\<lparr>boxes := boxes s - {new_ptr}\<rparr>))
     | Got ptr \<Rightarrow> None)"

text \<open>\<open>take\<close>, and \<open>Drop\<close>, which need the box for themselves: the pointer that is taken out.\<close>

definition once_box_take :: "once_box \<Rightarrow> nat option \<times> once_box" where
  "once_box_take s = ((if box_ptr s = 0 then None else Some (box_ptr s)), s\<lparr>box_ptr := 0\<rparr>)"

definition once_box_drop :: "once_box \<Rightarrow> once_box" where
  "once_box_drop s = (case once_box_take s of
      (None, s') \<Rightarrow> s' | (Some p, s') \<Rightarrow> s'\<lparr>boxes := boxes s' - {p}\<rparr>)"

fun box_held :: "box_pc \<Rightarrow> nat set" where
  "box_held (BoxCas p) = {p}"
| "box_held (BoxLost p q) = {p}"
| "box_held _ = {}"

fun box_result :: "box_pc \<Rightarrow> nat option" where
  "box_result (BoxLost p q) = Some q"
| "box_result (Got q) = Some q"
| "box_result _ = None"

definition box_view :: "once_box \<Rightarrow> race" where
  "box_view s = \<lparr>r_cell = box_ptr s, r_live = boxes s, r_held = box_held \<circ> box_pc s,
                 r_result = box_result \<circ> box_pc s\<rparr>"

definition box_good :: "once_box \<Rightarrow> bool" where
  "box_good s \<longleftrightarrow> (\<forall>i p. box_pc s i = BoxCas p \<longrightarrow> p \<noteq> 0)"

section \<open>Both programs are races\<close>

lemma key_view_sel [simp]:
  "r_cell (key_view s) = key_cell s" "r_live (key_view s) = live_keys s"
  "r_held (key_view s) i = key_held (key_pc s i)" "r_result (key_view s) i = key_result (key_pc s i)"
  by (simp_all add: key_view_def)

lemmas key_view_eq = key_view_def key_goto_def key_destroy_def fun_eq_iff

lemma key_good_goto: "key_good s \<Longrightarrow> key_pc_good p \<Longrightarrow> key_good (key_goto i p s)"
  by (simp add: key_good_def key_goto_def)

lemma key_good_fields [simp]:
  "key_good (s\<lparr>live_keys := L\<rparr>) = key_good s" "key_good (s\<lparr>key_cell := c\<rparr>) = key_good s"
  "key_good (key_destroy k s) = key_good s"
  by (simp_all add: key_good_def key_destroy_def)

text \<open>The steps of a thread, as steps of the race.\<close>

lemma key_quiet:
  assumes "key_held p = key_held (key_pc s i)" "key_result p = key_result (key_pc s i)"
  shows "race_step (key_view s) (key_view (key_goto i p s))"
proof -
  have "key_view (key_goto i p s) = key_view s" using assms by (auto simp: key_view_eq)
  then show ?thesis by (simp add: race_skip)
qed

lemma key_observes:
  assumes "key_held p = key_held (key_pc s i)" "key_result p = Some (key_cell s)" "key_cell s \<noteq> 0"
  shows "race_step (key_view s) (key_view (key_goto i p s))"
proof -
  have "key_view (key_goto i p s) = (key_view s)\<lparr>r_result := (r_result (key_view s))(i := Some (r_cell (key_view s)))\<rparr>"
    using assms(1,2) by (auto simp: key_view_eq)
  then show ?thesis using race_observe [of "key_view s" i] assms(3) by simp
qed

lemma key_drops:
  assumes "k \<in> key_held (key_pc s i)" "key_held p = key_held (key_pc s i) - {k}" "key_result p = key_result (key_pc s i)"
  shows "race_step (key_view s) (key_view (key_goto i p (key_destroy k s)))"
proof -
  have "key_view (key_goto i p (key_destroy k s)) = (key_view s)\<lparr>r_live := r_live (key_view s) - {k},
      r_held := (r_held (key_view s))(i := r_held (key_view s) i - {k})\<rparr>"
    using assms(2,3) by (auto simp: key_view_eq)
  then show ?thesis using race_drop [of k "key_view s" i] assms(1) by simp
qed

lemma key_create_sim:
  assumes "key_create i a k s = Some s'" "key_good s" "key_result (key_pc s i) = None"
    and "\<And>key. key \<notin> live_keys s \<Longrightarrow> key_held (k key) = insert key (key_held (key_pc s i))
       \<and> key_result (k key) = None \<and> key_pc_good (k key)"
  shows "race_step (key_view s) (key_view s') \<and> key_good s'"
proof (cases a)
  case None
  with assms(1) have s': "s' = s\<lparr>key_abort := Some ''out of TLS keys''\<rparr>" by (simp add: key_create_def)
  then have "key_view s' = key_view s" by (simp add: key_view_def)
  with assms(2) s' show ?thesis by (simp add: race_skip key_good_def)
next
  case (Some key)
  with assms(1) have key: "key \<notin> live_keys s" "s' = key_goto i (k key) (s\<lparr>live_keys := insert key (live_keys s)\<rparr>)"
    by (simp_all add: key_create_def split: if_splits)
  then have "key_view s' = (key_view s)\<lparr>r_live := insert key (r_live (key_view s)),
      r_held := (r_held (key_view s))(i := insert key (r_held (key_view s) i))\<rparr>"
    using assms(3,4) by (auto simp: key_view_eq)
  then show ?thesis
    using race_take [of key "key_view s" i] key assms(2,4) by (simp add: key_good_goto)
qed

lemma key_sim:
  assumes exec: "lazy_key_exec i a s = Some s'" and good: "key_good s" and inv: "race_inv L (key_view s)"
  shows "race_step (key_view s) (key_view s') \<and> key_good s'"
proof -
  have na: "key_abort s = None" using exec by (simp add: lazy_key_exec_def split: if_splits)
  have pc: "key_pc_good (key_pc s i)" using good by (simp add: key_good_def)
  note run = exec [unfolded lazy_key_exec_def, simplified na, simplified]
  show ?thesis
  proof (cases "key_pc s i")
    case Force
    then show ?thesis using run good key_quiet [of Create1 s i] key_observes [of "Forced (key_cell s)" s i]
      by (auto simp: KEY_SENTVAL_def key_good_goto split: if_splits)
  next
    case Create1
    then show ?thesis using run good by (intro key_create_sim) (auto simp: KEY_SENTVAL_def split: if_splits)
  next
    case (Create2 k)
    have "k \<in> r_held (key_view s) i" using Create2 by simp
    then have "k \<in> r_live (key_view s)" using race_invD(2) [OF inv] by blast
    then have "k \<in> live_keys s" by simp
    then show ?thesis using run good pc Create2 by (intro key_create_sim) (auto intro!: gr0I)
  next
    case (Destroy1 k1 k2)
    then show ?thesis using run good pc key_drops [of k1 s i "Check k2"] by (auto simp: key_good_goto)
  next
    case (Check k)
    then show ?thesis using run good pc key_quiet [of "Cas k" s i] by (auto simp: KEY_SENTVAL_def key_good_goto)
  next
    case (Cas k)
    show ?thesis
    proof (cases "key_cell s = 0")
      case True
      have "key_view s' = (key_view s)\<lparr>r_cell := k, r_held := (r_held (key_view s))(i := r_held (key_view s) i - {k}),
          r_result := (r_result (key_view s))(i := Some k)\<rparr>"
        using run True Cas by (auto simp: key_view_eq KEY_SENTVAL_def)
      then show ?thesis
        using race_publish [of k "key_view s" i] run good pc Cas True by (auto simp: KEY_SENTVAL_def key_good_goto)
    next
      case False
      then show ?thesis
        using run good Cas key_observes [of "Lost k (key_cell s)" s i] by (auto simp: KEY_SENTVAL_def key_good_goto)
    qed
  next
    case (Lost k n)
    then show ?thesis using run good key_drops [of k s i "Forced n"] by (auto simp: key_good_goto)
  next
    case Forced
    then show ?thesis using run by simp
  qed
qed

interpretation key_race: racing lazy_key_exec key_view key_good lazy_key_new
proof
  show "key_view (lazy_key_new L) = race_start L" for L
    by (simp add: key_view_def lazy_key_new_def race_start_def KEY_SENTVAL_def comp_def)
  show "key_good (lazy_key_new L)" for L by (simp add: key_good_def lazy_key_new_def)
qed (rule key_sim)

lemma box_view_sel [simp]:
  "r_cell (box_view s) = box_ptr s" "r_live (box_view s) = boxes s"
  "r_held (box_view s) i = box_held (box_pc s i)" "r_result (box_view s) i = box_result (box_pc s i)"
  by (simp_all add: box_view_def)

lemmas box_view_eq = box_view_def box_goto_def fun_eq_iff

lemma box_good_goto: "box_good s \<Longrightarrow> \<forall>q. p = BoxCas q \<longrightarrow> q \<noteq> 0 \<Longrightarrow> box_good (box_goto i p s)"
  by (auto simp: box_good_def box_goto_def)

lemma box_good_fields [simp]:
  "box_good (s\<lparr>boxes := B\<rparr>) = box_good s" "box_good (s\<lparr>box_ptr := q\<rparr>) = box_good s"
  by (simp_all add: box_good_def)

lemma box_observes:
  assumes "box_held p = box_held (box_pc s i)" "box_result p = Some (box_ptr s)" "box_ptr s \<noteq> 0"
  shows "race_step (box_view s) (box_view (box_goto i p s))"
proof -
  have "box_view (box_goto i p s) = (box_view s)\<lparr>r_result := (r_result (box_view s))(i := Some (r_cell (box_view s)))\<rparr>"
    using assms(1,2) by (auto simp: box_view_eq)
  then show ?thesis using race_observe [of "box_view s" i] assms(3) by simp
qed

lemma box_sim:
  assumes exec: "once_box_exec i a s = Some s'" and good: "box_good s"
  shows "race_step (box_view s) (box_view s') \<and> box_good s'"
proof (cases "box_pc s i")
  case Get
  have "box_view (box_goto i Init s) = box_view s" using Get by (auto simp: box_view_eq)
  with Get show ?thesis using exec good box_observes [of "Got (box_ptr s)" s i] race_skip [of "box_view s"]
    by (auto simp: once_box_exec_def box_good_goto split: if_splits)
next
  case Init
  with exec have a: "a \<notin> boxes s" "a \<noteq> 0" "s' = box_goto i (BoxCas a) (s\<lparr>boxes := insert a (boxes s)\<rparr>)"
    by (auto simp: once_box_exec_def split: if_splits)
  then have "box_view s' = (box_view s)\<lparr>r_live := insert a (r_live (box_view s)),
      r_held := (r_held (box_view s))(i := insert a (r_held (box_view s) i))\<rparr>"
    using Init by (auto simp: box_view_eq)
  with a good show ?thesis using race_take [of a "box_view s" i] by (simp add: box_good_goto)
next
  case (BoxCas p)
  show ?thesis
  proof (cases "box_ptr s = 0")
    case True
    with exec BoxCas have s': "s' = box_goto i (Got p) (s\<lparr>box_ptr := p\<rparr>)" by (simp add: once_box_exec_def)
    then have "box_view s' = (box_view s)\<lparr>r_cell := p, r_held := (r_held (box_view s))(i := r_held (box_view s) i - {p}),
        r_result := (r_result (box_view s))(i := Some p)\<rparr>"
      using BoxCas by (auto simp: box_view_eq)
    moreover have "p \<noteq> 0" using good BoxCas by (simp add: box_good_def)
    ultimately show ?thesis
      using race_publish [of p "box_view s" i] good s' BoxCas True by (simp add: box_good_goto)
  next
    case False
    then show ?thesis
      using exec good BoxCas box_observes [of "BoxLost p (box_ptr s)" s i] by (auto simp: once_box_exec_def box_good_goto)
  qed
next
  case (BoxLost p q)
  with exec have s': "s' = box_goto i (Got q) (s\<lparr>boxes := boxes s - {p}\<rparr>)" by (simp add: once_box_exec_def)
  then have "box_view s' = (box_view s)\<lparr>r_live := r_live (box_view s) - {p},
      r_held := (r_held (box_view s))(i := r_held (box_view s) i - {p})\<rparr>"
    using BoxLost by (auto simp: box_view_eq)
  then show ?thesis using race_drop [of p "box_view s" i] s' good BoxLost by (simp add: box_good_goto)
next
  case Got
  with exec show ?thesis by (simp add: once_box_exec_def)
qed

interpretation box_race: racing once_box_exec box_view box_good once_box_new
proof
  show "box_view (once_box_new L) = race_start L" for L
    by (simp add: box_view_def once_box_new_def race_start_def comp_def)
  show "box_good (once_box_new L)" for L by (simp add: box_good_def once_box_new_def)
qed (rule box_sim)

section \<open>Properties\<close>

text \<open>
  C31: racy initialisation agrees. However many threads force one \<open>LazyKey\<close> or one \<open>OnceBox\<close>, and in
  whatever order their operations interleave: all get the same key or box, which is not 0; the
  assertion on the key never fails; and once nobody is under way, the only resource left is the one
  that was published, every loser having destroyed its own.
\<close>

theorem racy_initialisation_agrees:
  assumes "runs lazy_key_exec (lazy_key_new L) s" "runs once_box_exec (once_box_new B) b"
  shows "(key_pc s i = Forced n \<longrightarrow> n = key_cell s \<and> n \<noteq> 0)
    \<and> key_abort s \<noteq> Some ''assertion failed''
    \<and> ((\<forall>i. key_held (key_pc s i) = {}) \<longrightarrow> live_keys s = L \<union> published (key_view s))
    \<and> (box_pc b i = Got p \<longrightarrow> p = box_ptr b \<and> p \<noteq> 0)
    \<and> ((\<forall>i. box_held (box_pc b i) = {}) \<longrightarrow> boxes b = B \<union> published (box_view b))"
  using key_race.reaches [OF assms(1)] key_race.agree [OF assms(1), of i n] key_race.nothing_left [OF assms(1)]
    box_race.agree [OF assms(2), of i p] box_race.nothing_left [OF assms(2)]
  by (auto simp: key_good_def)

text \<open>Two threads: the first is given the key 0 and has to try again, and loses.\<close>

theorem racy_initialisation_agrees_witness:
  "\<exists>s b. runs lazy_key_exec (lazy_key_new {}) s \<and> runs once_box_exec (once_box_new {}) b
     \<and> key_pc s 0 = Forced 5 \<and> key_pc s 1 = Forced 5 \<and> key_cell s = 5 \<and> live_keys s \<subseteq> {5} \<and> box_ptr b = 9"
proof -
  let ?l = "[(0, None), (1, None), (0, Some 0), (1, Some 5), (0, Some 7), (0, None), (0, None), (1, None),
    (1, None), (0, None), (0, None)] :: (nat \<times> nat option) list"
  obtain s where s: "schedule lazy_key_exec ?l (lazy_key_new {}) = Some s" "key_pc s 0 = Forced 5" "key_pc s 1 = Forced 5"
    "\<forall>i. i \<noteq> 0 \<longrightarrow> i \<noteq> 1 \<longrightarrow> key_pc s i = Force"
    by (simp add: lazy_key_exec_def lazy_key_new_def key_create_def key_goto_def key_destroy_def KEY_SENTVAL_def)
  obtain b where b: "schedule once_box_exec [(0, 9), (0, 9), (0, 9)] (once_box_new {}) = Some b" "box_pc b 0 = Got 9"
    by (simp add: once_box_exec_def once_box_new_def box_goto_def)
  note runs = schedule_runs [OF s(1)] schedule_runs [OF b(1)]
  have "key_held (key_pc s i) = {}" for i using s(2-4) by (cases "i = 0"; cases "i = 1") auto
  with racy_initialisation_agrees [OF runs, where i = 0 and n = 5 and p = 9] s(2,3) b(2) runs show ?thesis
    by (intro exI [of _ s] exI [of _ b]) (auto simp: published_def)
qed

end
