(* ===== verification/Thread_Park.thy ===== *)
theory Thread_Park
  imports Lazy_Race
begin

text \<open>
  Parking and one-time initialisation. \<open>Parker\<close> (\<open>sys/sync/thread_parking/pthread.rs\<close>) is shared by
  the one thread that parks and any number of threads that unpark it; thread 0 of the model is the
  parker. \<open>Once\<close> is the one AROS selects, \<open>sys/sync/once/no_threads.rs\<close>. Both are interleavings of the
  atomic operations of the code; a mutex is its owner, a condition variable whether the parker
  waits on it.
\<close>

section \<open>Parker\<close>














section \<open>The invariant\<close>















section \<open>Once\<close>

datatype once_state = Incomplete | Poisoned | Running | Complete

text \<open>
  A call of \<open>call(ignore_poisoning, f)\<close>: the state is a plain \<open>Cell\<close>, read and written in separate
  operations, and \<open>f\<close> runs in between. \<open>f\<close> may poison; if it panics, the process ends.
\<close>

datatype once_pc = OnceIdle | Read once_state | InClosure bool | Returned | OncePanic string

record once =
  once_cell :: once_state
  once_pc :: "nat \<Rightarrow> once_pc"
  once_runs :: nat

definition once_new :: once where
  "once_new = \<lparr>once_cell = Incomplete, once_pc = (\<lambda>_. OnceIdle), once_runs = 0\<rparr>"

definition once_goto :: "nat \<Rightarrow> once_pc \<Rightarrow> once \<Rightarrow> once" where
  "once_goto i p s = s\<lparr>once_pc := (once_pc s)(i := p)\<rparr>"

definition once_exec :: "bool \<Rightarrow> nat \<Rightarrow> bool \<Rightarrow> once \<Rightarrow> once option" where
  "once_exec ignore_poisoning i poisons s = (case once_pc s i of
       OnceIdle \<Rightarrow> Some (once_goto i (Read (once_cell s)) s)
     | Read state \<Rightarrow>
         if state = Poisoned \<and> \<not> ignore_poisoning
         then Some (once_goto i (OncePanic ''Once instance has previously been poisoned'') s)
         else (case state of
             Running \<Rightarrow> Some (once_goto i (OncePanic ''one-time initialization may not be performed recursively'') s)
           | Complete \<Rightarrow> Some (once_goto i Returned s)
           | _ \<Rightarrow> Some (once_goto i (InClosure (state = Poisoned))
               (s\<lparr>once_cell := Running, once_runs := once_runs s + 1\<rparr>)))
     | InClosure p \<Rightarrow> Some (once_goto i Returned (s\<lparr>once_cell := if poisons then Poisoned else Complete\<rparr>))
     | Returned \<Rightarrow> Some (once_goto i OnceIdle s)
     | OncePanic m \<Rightarrow> None)"

text \<open>With one thread, and no poisoning, the closure runs once.\<close>

definition once_alone :: "once \<Rightarrow> bool" where
  "once_alone s \<longleftrightarrow> once_runs s = (if once_cell s = Incomplete then 0 else 1) \<and> once_cell s \<noteq> Poisoned
     \<and> (once_cell s = Running \<longleftrightarrow> (\<exists>p. once_pc s 0 = InClosure p))
     \<and> (\<forall>st. once_pc s 0 = Read st \<longrightarrow> st = once_cell s) \<and> (\<forall>m. once_pc s 0 \<noteq> OncePanic m)"

lemma once_alone_step:
  assumes "once_exec False 0 False s = Some s'" "once_alone s"
  shows "once_alone s'"
  using assms
  by (cases "once_pc s 0"; cases "once_cell s")
     (auto simp: once_exec_def once_alone_def once_goto_def split: if_splits once_state.splits)

section \<open>Properties\<close>



text \<open>
  C40: the \<open>Once\<close> that AROS is built with is not a once for threads. Two threads can both be inside the
  closure, which then runs twice; and a thread that merely comes second panics, with the message for
  recursion. One thread by itself runs the closure once.
\<close>

theorem once_is_not_exclusive:
  "(\<exists>s. runs (once_exec False) once_new s \<and> once_pc s 0 = InClosure False \<and> once_pc s 1 = InClosure False
       \<and> once_runs s = 2)
   \<and> (\<exists>s. runs (once_exec False) once_new s \<and> once_pc s 0 = InClosure False
       \<and> once_pc s 1 = OncePanic ''one-time initialization may not be performed recursively'')
   \<and> {s. runs (\<lambda>i a. if i = 0 \<and> \<not> a then once_exec False i a else (\<lambda>_. None)) once_new s} \<subseteq> {s. once_runs s \<le> 1}"
proof -
  note defs = once_exec_def once_new_def once_goto_def
  obtain s where s: "schedule (once_exec False) [(0, False), (1, False), (0, False), (1, False)] once_new = Some s"
    "once_pc s 0 = InClosure False" "once_pc s 1 = InClosure False" "once_runs s = 2"
    by (simp add: defs)
  obtain u where u: "schedule (once_exec False) [(0, False), (0, False), (1, False), (1, False)] once_new = Some u"
    "once_pc u 0 = InClosure False"
    "once_pc u 1 = OncePanic ''one-time initialization may not be performed recursively''"
    by (simp add: defs)
  have "once_alone t" if "runs (\<lambda>i a. if i = 0 \<and> \<not> a then once_exec False i a else (\<lambda>_. None)) once_new t" for t
    using that
  proof (induction rule: runs.induct)
    case runs_start
    show ?case by (simp add: once_alone_def once_new_def)
  next
    case (runs_next s i a s')
    then show ?case using once_alone_step [of s s'] by (auto split: if_splits)
  qed
  then have "{t. runs (\<lambda>i a. if i = 0 \<and> \<not> a then once_exec False i a else (\<lambda>_. None)) once_new t} \<subseteq> {t. once_runs t \<le> 1}"
    by (auto simp: once_alone_def)
  with s u schedule_runs [OF s(1)] schedule_runs [OF u(1)] show ?thesis by blast
qed

end
