(* ===== verification/Sync_Aros.thy ===== *)
theory Sync_Aros
  imports Time_Aros
begin

text \<open>
  Locks, condition variables, thread-local keys and threads over the pthread glue:
  \<open>sys/pal/unsupported/sync/mutex.rs\<close> and \<open>condvar.rs\<close>, the wrappers that allocate them on first use
  (\<open>sys/sync/mutex/pthread.rs\<close>, \<open>sys/sync/condvar/pthread.rs\<close>), \<open>sys/thread_local/key/aros.rs\<close> and
  \<open>sys/thread/aros.rs\<close>. An object of the glue is the address of its buffer; 0 is the null pointer of a
  \<open>OnceBox\<close> that has not been filled. How threads race for the first use is the subject of the
  theory on lazy initialisation.
\<close>

section \<open>The platform mutex\<close>

definition MUTEX_WORDS :: nat where "MUTEX_WORDS = 20"

definition pal_mutex_init :: "nat \<Rightarrow> unit io" where
  "pal_mutex_init m =
    io_bind (sys (MtxC Mtx_size)) (\<lambda>sz.
    if r_ret sz > int (MUTEX_WORDS * 8) then io_panic ''pthread_mutex_t larger than the pal buffer''
    else io_bind (sys (MtxC (Mtx_init m))) (\<lambda>r.
      if r_ret r \<noteq> 0 then io_panic ''pthread_mutex_init failed'' else io_return ()))"

definition pal_mutex_lock :: "nat \<Rightarrow> unit io" where
  "pal_mutex_lock m = io_bind (sys (MtxC (Mtx_lock m))) (\<lambda>r.
     if r_ret r \<noteq> 0 then io_panic ''failed to lock mutex'' else io_return ())"

definition pal_mutex_try_lock :: "nat \<Rightarrow> bool io" where
  "pal_mutex_try_lock m = io_bind (sys (MtxC (Mtx_trylock m))) (\<lambda>r. io_return (r_ret r = 0))"

text \<open>\<open>debug_assert_eq\<close> is not compiled into the release library.\<close>

definition pal_mutex_unlock :: "nat \<Rightarrow> unit io" where
  "pal_mutex_unlock m = io_bind (sys (MtxC (Mtx_unlock m))) (\<lambda>_. io_return ())"

definition pal_mutex_drop :: "nat \<Rightarrow> unit io" where
  "pal_mutex_drop m = io_bind (sys (MtxC (Mtx_destroy m))) (\<lambda>_. io_return ())"

section \<open>The platform condition variable\<close>

definition COND_WORDS :: nat where "COND_WORDS = 22"

definition PRECISE_TIMEOUT :: bool where "PRECISE_TIMEOUT = False"

definition pal_cond_init :: "nat \<Rightarrow> unit io" where
  "pal_cond_init c =
    io_bind (sys (CondC Cond_size)) (\<lambda>sz.
    if r_ret sz > int (COND_WORDS * 8) then io_panic ''pthread_cond_t larger than the pal buffer''
    else io_bind (sys (CondC (Cond_init c))) (\<lambda>r.
      if r_ret r \<noteq> 0 then io_panic ''pthread_cond_init failed'' else io_return ()))"

definition pal_cond_notify_one :: "nat \<Rightarrow> unit io" where
  "pal_cond_notify_one c = io_bind (sys (CondC (Cond_signal c))) (\<lambda>_. io_return ())"

definition pal_cond_notify_all :: "nat \<Rightarrow> unit io" where
  "pal_cond_notify_all c = io_bind (sys (CondC (Cond_broadcast c))) (\<lambda>_. io_return ())"

definition pal_cond_wait :: "nat \<Rightarrow> nat \<Rightarrow> unit io" where
  "pal_cond_wait c m = io_bind (sys (CondC (Cond_wait c m))) (\<lambda>_. io_return ())"

definition pal_cond_wait_timeout :: "nat \<Rightarrow> nat \<Rightarrow> duration \<Rightarrow> bool io" where
  "pal_cond_wait_timeout c m dur =
    (let secs = (ucast (min (as_secs dur) 0xFFFFFFFF) :: u32)
     in io_bind (sys (CondC (Cond_timedwait c m secs (subsec_nanos dur)))) (\<lambda>r. io_return (r_ret r = 0)))"

definition pal_cond_drop :: "nat \<Rightarrow> unit io" where
  "pal_cond_drop c = io_bind (sys (CondC (Cond_destroy c))) (\<lambda>_. io_return ())"

section \<open>Mutex\<close>

text \<open>
  \<open>get\<close>: the mutex there is, or a new one at the address \<open>fresh\<close> the allocator gives. The result is the
  pointer of the \<open>OnceBox\<close> from then on.
\<close>

definition mutex_get :: "nat \<Rightarrow> nat \<Rightarrow> nat io" where
  "mutex_get fresh ptr = (if ptr \<noteq> 0 then io_return ptr
     else io_bind (pal_mutex_init fresh) (\<lambda>_. io_return fresh))"

definition mutex_lock :: "nat \<Rightarrow> nat \<Rightarrow> nat io" where
  "mutex_lock fresh ptr = io_bind (mutex_get fresh ptr) (\<lambda>m. io_bind (pal_mutex_lock m) (\<lambda>_. io_return m))"

definition mutex_unlock :: "nat \<Rightarrow> unit io" where
  "mutex_unlock ptr = pal_mutex_unlock ptr"

definition mutex_try_lock :: "nat \<Rightarrow> nat \<Rightarrow> (bool \<times> nat) io" where
  "mutex_try_lock fresh ptr = io_bind (mutex_get fresh ptr) (\<lambda>m.
     io_bind (pal_mutex_try_lock m) (\<lambda>b. io_return (b, m)))"

text \<open>\<open>Drop\<close>: a locked mutex is leaked.\<close>

definition mutex_drop :: "nat \<Rightarrow> unit io" where
  "mutex_drop ptr = (if ptr = 0 then io_return ()
     else io_bind (pal_mutex_try_lock ptr) (\<lambda>b.
       if b then io_bind (pal_mutex_unlock ptr) (\<lambda>_. pal_mutex_drop ptr) else io_return ()))"

section \<open>Condvar\<close>

text \<open>The pointer of its \<open>OnceBox\<close>, and the address of the mutex it is bound to, 0 when to none yet.\<close>

record condvar =
  cv_ptr :: nat
  cv_mutex :: nat

definition condvar_new :: condvar where
  "condvar_new = \<lparr>cv_ptr = 0, cv_mutex = 0\<rparr>"

definition condvar_get :: "nat \<Rightarrow> condvar \<Rightarrow> condvar io" where
  "condvar_get fresh cv = (if cv_ptr cv \<noteq> 0 then io_return cv
     else io_bind (pal_cond_init fresh) (\<lambda>_. io_return (cv\<lparr>cv_ptr := fresh\<rparr>)))"

definition condvar_verify :: "nat \<Rightarrow> condvar \<Rightarrow> condvar io" where
  "condvar_verify addr cv =
    (if cv_mutex cv = 0 then io_return (cv\<lparr>cv_mutex := addr\<rparr>)
     else if cv_mutex cv = addr then io_return cv
     else io_panic ''attempted to use a condition variable with two mutexes'')"

definition condvar_notify_one :: "nat \<Rightarrow> condvar \<Rightarrow> condvar io" where
  "condvar_notify_one fresh cv = io_bind (condvar_get fresh cv) (\<lambda>cv.
     io_bind (pal_cond_notify_one (cv_ptr cv)) (\<lambda>_. io_return cv))"

definition condvar_notify_all :: "nat \<Rightarrow> condvar \<Rightarrow> condvar io" where
  "condvar_notify_all fresh cv = io_bind (condvar_get fresh cv) (\<lambda>cv.
     io_bind (pal_cond_notify_all (cv_ptr cv)) (\<lambda>_. io_return cv))"

definition condvar_wait :: "nat \<Rightarrow> nat \<Rightarrow> condvar \<Rightarrow> condvar io" where
  "condvar_wait fresh mutex cv =
    io_bind (condvar_verify mutex cv) (\<lambda>cv.
    io_bind (condvar_get fresh cv) (\<lambda>cv.
    io_bind (pal_cond_wait (cv_ptr cv) mutex) (\<lambda>_. io_return cv)))"

text \<open>\<open>Instant::elapsed\<close>: the time since \<open>earlier\<close>, zero if the clock has gone back.\<close>

definition instant_elapsed :: "instant \<Rightarrow> duration io" where
  "instant_elapsed earlier = io_bind instant_now (\<lambda>now.
     io_return (case checked_sub_instant now earlier of Some d \<Rightarrow> d | None \<Rightarrow> DURATION_ZERO))"

definition condvar_wait_timeout :: "nat \<Rightarrow> nat \<Rightarrow> duration \<Rightarrow> condvar \<Rightarrow> (bool \<times> condvar) io" where
  "condvar_wait_timeout fresh mutex dur cv =
    io_bind (condvar_verify mutex cv) (\<lambda>cv.
    if PRECISE_TIMEOUT then
      io_bind (condvar_get fresh cv) (\<lambda>cv.
      io_bind (pal_cond_wait_timeout (cv_ptr cv) mutex dur) (\<lambda>b. io_return (b, cv)))
    else
      io_bind instant_now (\<lambda>now.
      io_bind (condvar_get fresh cv) (\<lambda>cv.
      io_bind (pal_cond_wait_timeout (cv_ptr cv) mutex dur) (\<lambda>woken.
      if woken then io_return (True, cv)
      else io_bind (instant_elapsed now) (\<lambda>e. io_return (e < dur, cv))))))"

section \<open>Thread-local keys\<close>

definition tls_create :: "nat \<Rightarrow> u32 io" where
  "tls_create dtor = io_bind (sys (TlsC (Key_create dtor))) (\<lambda>r.
     if r_ret r \<noteq> 0 then io_panic ''out of TLS keys'' else io_return (of_int (out_param 0 0 r)))"

definition tls_set :: "u32 \<Rightarrow> int \<Rightarrow> unit io" where
  "tls_set key value = io_bind (sys (TlsC (Key_setspecific (uint key) value))) (\<lambda>_. io_return ())"

definition tls_get :: "u32 \<Rightarrow> int io" where
  "tls_get key = io_bind (sys (TlsC (Key_getspecific (uint key)))) (\<lambda>r. io_return (r_ret r))"

definition tls_destroy :: "u32 \<Rightarrow> unit io" where
  "tls_destroy key = io_bind (sys (TlsC (Key_delete (uint key)))) (\<lambda>_. io_return ())"

section \<open>Threads\<close>

definition DEFAULT_MIN_STACK_SIZE :: nat where "DEFAULT_MIN_STACK_SIZE = 2 * 1024 * 1024"

text \<open>
  \<open>Thread::new\<close> gives up its box \<open>init\<close> to the thread, or takes it back and drops it when the thread
  does not start. \<open>drop_init\<close> is the \<open>Drop\<close> of that box.
\<close>

definition thread_new :: "nat \<Rightarrow> nat \<Rightarrow> unit io \<Rightarrow> u32 io" where
  "thread_new stack init drop_init =
    io_bind (sys (ThrC (Thr_spawn stack init))) (\<lambda>r.
    if r_ret r = 0 then io_return (of_int (out_param 0 0 r))
    else io_bind drop_init (\<lambda>_. io_fail (from_raw_os_error (r_ret r))))"

definition thread_join :: "u32 \<Rightarrow> unit io" where
  "thread_join tid = io_bind (sys (ThrC (Thr_join (uint tid)))) (\<lambda>r.
     if r_ret r = 0 then io_return () else io_panic ''failed to join thread'')"

definition thread_drop :: "u32 \<Rightarrow> unit io" where
  "thread_drop tid = io_bind (sys (ThrC (Thr_detach (uint tid)))) (\<lambda>_. io_return ())"

definition available_parallelism :: "nat io" where
  "available_parallelism = io_return 1"

section \<open>Timed waiting\<close>

lemma elapsed_run:
  assumes "instant_now s = (Ok t, s')"
  shows "instant_elapsed t0 s = (Ok (case checked_sub_instant t t0 of Some d \<Rightarrow> d | None \<Rightarrow> DURATION_ZERO), s')"
  using assms by (simp add: instant_elapsed_def io_bind_Ok)

lemma instant_now_ok: "\<exists>d s'. instant_now s = (Ok (Instant d), s') \<and> duration_ok d"
  using clock_now_ok [of CLOCK_MONOTONIC s] by (auto simp: instant_now_def io_bind_Ok)

lemma elapsed_enough:
  assumes ok: "duration_ok t0" "duration_ok t1" "duration_ok dur" and pos: "0 < total_nanos dur"
    and "\<not> (case checked_sub_instant (Instant t1) (Instant t0) of Some d \<Rightarrow> d | None \<Rightarrow> DURATION_ZERO) < dur"
  shows "total_nanos t0 + total_nanos dur \<le> total_nanos t1"
proof (cases "duration_checked_sub t1 t0")
  case None
  have zero: "duration_ok DURATION_ZERO" "total_nanos DURATION_ZERO = 0"
    by (simp_all add: DURATION_ZERO_def from_nanos_def duration_ok_def total_nanos_def)
  from None have "dur \<le> DURATION_ZERO" using assms(5) by (simp add: checked_sub_instant_def)
  then have "total_nanos dur \<le> total_nanos DURATION_ZERO"
    using ok(3) duration_le_nat [of dur DURATION_ZERO] by (simp add: zero)
  with pos show ?thesis by (simp add: zero)
next
  case (Some d)
  have d: "duration_ok d" "total_nanos d + total_nanos t0 = total_nanos t1"
    using checked_sub_total [OF ok(2,1)] Some by auto
  have "dur \<le> d" using assms(5) Some by (simp add: checked_sub_instant_def)
  with d ok(3) duration_le_nat [of dur d] show ?thesis by simp
qed

section \<open>Properties\<close>

text \<open>
  C32: a timed wait never gives up early. When \<open>wait_timeout\<close> reports a timeout, the glue did too, and
  between the reading of the clock before the wait and the one after it at least the requested time
  has passed; so the cut of long waits to \<open>2^32 - 1\<close> seconds and an imprecise alarm of the glue show as
  a spurious wake-up, not as a timeout.
\<close>

theorem timed_wait_never_early:
  assumes "duration_ok dur" "0 < total_nanos dur"
    and "condvar_wait_timeout fresh m dur cv s = (Ok (False, cv'), s')"
  shows "\<exists>t0 s1 s2 t1 r t. instant_now s = (Ok (Instant t0), s1)
    \<and> os_trace s2 = os_trace s1 @ t @ [(CondC (Cond_timedwait (cv_ptr cv') m
          (ucast (min (as_secs dur) 0xFFFFFFFF)) (subsec_nanos dur)), r)] \<and> r_ret r \<noteq> 0
    \<and> instant_now s2 = (Ok (Instant t1), s')
    \<and> total_nanos t0 + total_nanos dur \<le> total_nanos t1"
proof -
  obtain cv1 where v: "condvar_verify m cv s = (Ok cv1, s)"
    using assms(3) unfolding condvar_wait_timeout_def
    by (auto simp: condvar_verify_def split: if_splits)
  obtain t0 s1 where t0: "instant_now s = (Ok (Instant t0), s1)" "duration_ok t0" using instant_now_ok by blast
  from assms(3) have "io_bind (condvar_get fresh cv1) (\<lambda>cv. io_bind (pal_cond_wait_timeout (cv_ptr cv) m dur) (\<lambda>woken.
      if woken then io_return (True, cv)
      else io_bind (instant_elapsed (Instant t0)) (\<lambda>e. io_return (e < dur, cv)))) s1 = (Ok (False, cv'), s')"
    by (simp add: condvar_wait_timeout_def io_bind_Ok v t0(1) PRECISE_TIMEOUT_def)
  then obtain cv2 s3 where g: "condvar_get fresh cv1 s1 = (Ok cv2, s3)"
    and k: "io_bind (pal_cond_wait_timeout (cv_ptr cv2) m dur) (\<lambda>woken. if woken then io_return (True, cv2)
      else io_bind (instant_elapsed (Instant t0)) (\<lambda>e. io_return (e < dur, cv2))) s3 = (Ok (False, cv'), s')"
    by (rule io_bind_OkE)
  let ?c = "CondC (Cond_timedwait (cv_ptr cv2) m (ucast (min (as_secs dur) 0xFFFFFFFF)) (subsec_nanos dur))"
  have w: "r_ret (reply_of s3 ?c) \<noteq> 0" "io_bind (instant_elapsed (Instant t0)) (\<lambda>e. io_return (e < dur, cv2)) (after s3 ?c)
      = (Ok (False, cv'), s')"
    using k by (auto simp: pal_cond_wait_timeout_def bind_sys_after Let_def split: if_splits)
  obtain t1 s4 where t1: "instant_now (after s3 ?c) = (Ok (Instant t1), s4)" "duration_ok t1" using instant_now_ok by blast
  have e: "s4 = s'" "cv2 = cv'" "\<not> (case checked_sub_instant (Instant t1) (Instant t0) of Some d \<Rightarrow> d | None \<Rightarrow> DURATION_ZERO) < dur"
    using w(2) by (simp_all add: io_bind_Ok elapsed_run [OF t1(1)])
  have "io_ext (condvar_get fresh cv1)"
    unfolding condvar_get_def pal_cond_init_def by (intro ext_intros)
  then obtain t where "os_trace s3 = os_trace s1 @ t" using g unfolding io_ext_def by (metis snd_conv)
  then show ?thesis
    using t0(1) w(1) t1(1) e elapsed_enough [OF t0(2) t1(2) assms(1,2) e(3)]
    by (intro exI [of _ t0] exI [of _ s1] exI [of _ "after s3 ?c"] exI [of _ t1] exI [of _ "reply_of s3 ?c"] exI [of _ t])
       simp
qed

text \<open>A clock that advances by a second with every call, and a glue that times out.\<close>

definition alarm_oracle :: "trace \<Rightarrow> call \<Rightarrow> reply" where
  "alarm_oracle t c = (case c of
      MiscC (Clock_gettime k) \<Rightarrow> ret_outs 0 [int (length t), 0]
    | CondC (Cond_timedwait a b x y) \<Rightarrow> ret 60
    | _ \<Rightarrow> ret 0)"

theorem timed_wait_never_early_witness:
  "\<exists>s'. condvar_wait_timeout 1 2 (Duration 1 0) condvar_new (boot alarm_oracle) = (Ok (False, \<lparr>cv_ptr = 1, cv_mutex = 2\<rparr>), s')
    \<and> (\<exists>t1 s2. instant_now s2 = (Ok (Instant t1), s') \<and> 1000000000 \<le> total_nanos t1)"
proof -
  have sub: "duration_checked_sub (Duration 4 0) (Duration 0 0) = Some (Duration 4 0)" by code_simp
  have less: "\<not> Duration 4 0 < Duration 1 0" by (simp add: less_duration_def)
  obtain s' where run: "condvar_wait_timeout 1 2 (Duration 1 0) condvar_new (boot alarm_oracle)
      = (Ok (False, \<lparr>cv_ptr = 1, cv_mutex = 2\<rparr>), s')"
    by (simp add: condvar_wait_timeout_def condvar_verify_def condvar_new_def PRECISE_TIMEOUT_def instant_now_def
        clock_now_def condvar_get_def pal_cond_init_def pal_cond_wait_timeout_def instant_elapsed_def bind_sys_after
        reply_of_def alarm_oracle_def out_param_def Let_def duration_or_panic_def duration_new_small
        checked_sub_instant_def sub less)
  have "duration_ok (Duration 1 0)" "total_nanos (Duration 1 0) = 1000000000"
    by (simp_all add: duration_ok_def total_nanos_def)
  with timed_wait_never_early [OF _ _ run] obtain t1 s2 where
    "instant_now s2 = (Ok (Instant t1), s')" "1000000000 \<le> total_nanos t1" by fastforce
  with run show ?thesis by blast
qed

end
