(* ===== verification/Utf8_Char.thy ===== *)
theory Utf8_Char
  imports Utf8
begin

unbundle bit_operations_syntax

text \<open>
  The bytes of a character as numbers: what the encoder computes, digit by digit in base 64, and which
  byte sequences are the encoding of a scalar value, in the terms the validator tests.
\<close>

section \<open>Bytes as numbers\<close>

lemma or_tag:
  fixes x t :: "'a::len word"
  assumes "unat x < 2 ^ k"
  shows "x OR push_bit k t = x + push_bit k t"
proof -
  have "\<not> bit x n" if "k \<le> n" for n
  proof
    assume "bit x n"
    then have "bit (unat x) n" by (simp add: bit_unsigned_iff)
    then have "odd (unat x div 2 ^ n)" unfolding bit_iff_odd .
    moreover have "unat x < 2 ^ n" using assms that power_increasing [of k n "2 :: nat"] by linarith
    ultimately show False by simp
  qed
  then have "x AND push_bit k t = 0" by (intro bit_word_eqI) (auto simp: bit_simps not_le)
  then show ?thesis by (simp add: disjunctive_add_eq_or)
qed

lemma and_3F: "unat (c AND 0x3F :: 'a::len word) = unat c mod 64" if "6 < LENGTH('a)"
proof -
  have e: "c AND 0x3F = take_bit 6 c" using that by (simp add: take_bit_eq_mask mask_eq_exp_minus_1)
  show ?thesis unfolding e unsigned_take_bit_eq by (simp add: take_bit_eq_mod)
qed

text \<open>A byte of the form \<open>x OR tag\<close>, and the byte of a masked part of a character.\<close>

lemma tagged:
  fixes x :: u8
  shows "unat x < 64 \<Longrightarrow> unat (x OR 0x80) = unat x + 128"
    and "unat x < 32 \<Longrightarrow> unat ((x OR 0x80) OR 0xC0) = unat x + 192"
    and "unat x < 16 \<Longrightarrow> unat ((x OR 0x80) OR 0xE0) = unat x + 224"
    and "unat x < 16 \<Longrightarrow> unat (x OR 0xF0) = unat x + 240"
proof -
  have o: "(0x80 :: u8) OR 0xC0 = 0xC0" "(0x80 :: u8) OR 0xE0 = 0xE0" by simp_all
  show "unat (x OR 0x80) = unat x + 128" if "unat x < 64"
    using or_tag [of x 6 2] that by (simp add: push_bit_eq_mult unat_word_ariths)
  show "unat ((x OR 0x80) OR 0xC0) = unat x + 192" if "unat x < 32"
    using or_tag [of x 5 6] that by (simp add: o or.assoc push_bit_eq_mult unat_word_ariths)
  show "unat ((x OR 0x80) OR 0xE0) = unat x + 224" if "unat x < 16"
    using or_tag [of x 4 14] that by (simp add: o or.assoc push_bit_eq_mult unat_word_ariths)
  show "unat (x OR 0xF0) = unat x + 240" if "unat x < 16"
    using or_tag [of x 4 15] that by (simp add: push_bit_eq_mult unat_word_ariths)
qed

lemma part_byte: "unat (ucast (drop_bit k c AND 0x3F) :: u8) = unat c div 2 ^ k mod 64" for c :: u32
proof -
  have "unat (drop_bit k c AND 0x3F) = unat c div 2 ^ k mod 64"
    using and_3F [of "drop_bit k c"] unfolding unat_drop_bit_eq by (simp add: drop_bit_eq_div)
  then show ?thesis by (simp add: unat_ucast)
qed

definition char_bytes :: "nat \<Rightarrow> nat list" where
  "char_bytes n = (if n < 128 then [n]
     else if n < 2048 then [192 + n div 64, 128 + n mod 64]
     else if n < 65536 then [224 + n div 4096, 128 + n div 64 mod 64, 128 + n mod 64]
     else [240 + n div 262144, 128 + n div 4096 mod 64, 128 + n div 64 mod 64, 128 + n mod 64])"

lemma encode_bytes: "unat c < 0x110000 \<Longrightarrow> map unat (encode_utf8 c) = char_bytes (unat c)"
proof -
  assume c: "unat c < 0x110000"
  have p: "unat (ucast (c AND 0x3F) :: u8) = unat c mod 64" using part_byte [of 0 c] by simp
  note parts = p part_byte [of 6 c] part_byte [of 12 c] part_byte [of 18 c]
  consider "unat c < 128" | "128 \<le> unat c" "unat c < 2048" | "2048 \<le> unat c" "unat c < 65536" | "65536 \<le> unat c"
    by linarith
  then show ?thesis
  proof cases
    case 1
    then show ?thesis by (simp add: encode_utf8_def len_utf8_def char_bytes_def word_less_nat_alt unat_ucast)
  next
    case 2
    then have "unat c div 64 < 32" by simp
    with 2 parts show ?thesis
      by (simp add: encode_utf8_def len_utf8_def char_bytes_def word_less_nat_alt Let_def tagged)
  next
    case 3
    then have "unat c div 4096 < 16" by simp
    with 3 parts show ?thesis
      by (simp add: encode_utf8_def len_utf8_def char_bytes_def word_less_nat_alt Let_def tagged)
  next
    case 4
    then have "unat c div 262144 < 16" using c by simp
    with 4 parts c show ?thesis
      by (simp add: encode_utf8_def len_utf8_def char_bytes_def word_less_nat_alt Let_def tagged)
  qed
qed

section \<open>Which bytes are a character\<close>

definition char_ok :: "bytes \<Rightarrow> bool" where
  "char_ok bs \<longleftrightarrow> (\<exists>c. scalar c \<and> bs = encode_utf8 c)"

definition scalar_nat :: "nat \<Rightarrow> bool" where
  "scalar_nat n \<longleftrightarrow> n < 0xD800 \<or> 0xE000 \<le> n \<and> n < 0x110000"

abbreviation cont :: "u8 \<Rightarrow> bool" where
  "cont b \<equiv> 128 \<le> unat b \<and> unat b < 192"

lemma scalar_iff: "scalar c \<longleftrightarrow> scalar_nat (unat c)"
  by (auto simp: scalar_def scalar_nat_def word_less_nat_alt word_le_nat_alt)

lemma inj_unat: "inj (unat :: u8 \<Rightarrow> nat)"
  by (rule injI) (simp add: word_unat_eq_iff)

lemma char_ok_nat: "char_ok bs \<longleftrightarrow> (\<exists>n. scalar_nat n \<and> map unat bs = char_bytes n)"
proof
  assume "char_ok bs"
  then obtain c where c: "scalar c" "bs = encode_utf8 c" by (auto simp: char_ok_def)
  then have "unat c < 0x110000" by (auto simp: scalar_iff scalar_nat_def)
  with c encode_bytes [of c] show "\<exists>n. scalar_nat n \<and> map unat bs = char_bytes n" by (auto simp: scalar_iff)
next
  assume "\<exists>n. scalar_nat n \<and> map unat bs = char_bytes n"
  then obtain n where n: "scalar_nat n" "map unat bs = char_bytes n" by blast
  define c :: u32 where "c = of_nat n"
  have "n < 0x110000" using n(1) by (auto simp: scalar_nat_def)
  then have c: "unat c = n" by (simp add: c_def unat_of_nat)
  with n have "map unat bs = map unat (encode_utf8 c)" using encode_bytes [of c] \<open>n < 0x110000\<close> by simp
  then have "bs = encode_utf8 c" by (simp add: inj_map_eq_map inj_unat)
  with n(1) c show "char_ok bs" by (auto simp: char_ok_def scalar_iff)
qed

lemma width: "utf8_char_width b = (let n = unat b in if n < 128 then 1 else if n < 194 then 0
    else if n < 224 then 2 else if n < 240 then 3 else if n < 245 then 4 else 0)"
  using unat_u8 [of b]
  by (auto simp: utf8_char_width_def UTF8_CHAR_WIDTH_def Let_def nth_append nth_Cons')

lemma second_ok:
  "three_byte_second_ok a b \<longleftrightarrow> cont b \<and> 224 \<le> unat a \<and> unat a < 240 \<and> (unat a = 224 \<longrightarrow> 160 \<le> unat b)
     \<and> (unat a = 237 \<longrightarrow> unat b < 160)"
  "four_byte_second_ok a b \<longleftrightarrow> cont b \<and> 240 \<le> unat a \<and> unat a < 245 \<and> (unat a = 240 \<longrightarrow> 144 \<le> unat b)
     \<and> (unat a = 244 \<longrightarrow> unat b < 144)"
  unfolding three_byte_second_ok_def four_byte_second_ok_def word_le_nat_alt word_unat_eq_iff
  by auto

lemma char_ok_1: "char_ok [a] \<longleftrightarrow> unat a < 128"
  by (auto simp: char_ok_nat char_bytes_def scalar_nat_def intro!: exI [of _ "unat a"])

lemma char_ok_2: "char_ok [a, b] \<longleftrightarrow> 194 \<le> unat a \<and> unat a < 224 \<and> cont b"
proof
  assume "char_ok [a, b]"
  then show "194 \<le> unat a \<and> unat a < 224 \<and> cont b"
    by (auto simp: char_ok_nat char_bytes_def split: if_splits)
next
  assume *: "194 \<le> unat a \<and> unat a < 224 \<and> cont b"
  define x y where "x = unat a - 192" and "y = unat b - 128"
  with * have "unat a = 192 + x" "unat b = 128 + y" "2 \<le> x" "x < 32" "y < 64" by linarith+
  then show "char_ok [a, b]"
    by (auto simp: char_ok_nat char_bytes_def scalar_nat_def intro!: exI [of _ "x * 64 + y"])
qed

lemma sextet: "y < 64 \<Longrightarrow> (k * 64 + y) div 64 = k" "y < 64 \<Longrightarrow> (k * 64 + y) mod 64 = (y :: nat)"
  by simp_all

lemma split_sextets:
  "n = n div 4096 * 4096 + n div 64 mod 64 * 64 + n mod (64 :: nat)"
  "n = n div 262144 * 262144 + n div 4096 mod 64 * 4096 + n div 64 mod 64 * 64 + n mod (64 :: nat)"
proof -
  have d: "n div 4096 = n div 64 div 64" "n div 262144 = n div 64 div 64 div 64" by (simp_all flip: div_mult2_eq)
  note s = div_mult_mod_eq [of n 64] div_mult_mod_eq [of "n div 64" 64] div_mult_mod_eq [of "n div 64 div 64" 64]
  show "n = n div 4096 * 4096 + n div 64 mod 64 * 64 + n mod 64" using s(1,2) unfolding d by linarith
  show "n = n div 262144 * 262144 + n div 4096 mod 64 * 4096 + n div 64 mod 64 * 64 + n mod 64"
    using s unfolding d by linarith
qed

lemma sextets:
  fixes x y z w :: nat
  assumes "y < 64" "z < 64" "w < 64"
  shows "(x * 4096 + y * 64 + z) div 4096 = x" "(x * 4096 + y * 64 + z) div 64 mod 64 = y"
    "(x * 4096 + y * 64 + z) mod 64 = z" "(x * 262144 + y * 4096 + z * 64 + w) div 262144 = x"
    "(x * 262144 + y * 4096 + z * 64 + w) div 4096 mod 64 = y" "(x * 262144 + y * 4096 + z * 64 + w) div 64 mod 64 = z"
    "(x * 262144 + y * 4096 + z * 64 + w) mod 64 = w"
proof -
  have e: "x * 4096 + y * 64 + z = (x * 64 + y) * 64 + z" "x * 262144 + y * 4096 + z * 64 + w = ((x * 64 + y) * 64 + z) * 64 + w"
    by simp_all
  have d: "n div 4096 = n div 64 div 64" "n div 262144 = n div 64 div 64 div 64" for n :: nat
    by (simp_all flip: div_mult2_eq)
  show "(x * 4096 + y * 64 + z) div 4096 = x" "(x * 4096 + y * 64 + z) div 64 mod 64 = y"
    "(x * 4096 + y * 64 + z) mod 64 = z" "(x * 262144 + y * 4096 + z * 64 + w) div 262144 = x"
    "(x * 262144 + y * 4096 + z * 64 + w) div 4096 mod 64 = y" "(x * 262144 + y * 4096 + z * 64 + w) div 64 mod 64 = z"
    "(x * 262144 + y * 4096 + z * 64 + w) mod 64 = w"
    unfolding e by (simp_all only: d sextet assms)
qed

lemma char_ok_3: "char_ok [a, b, c] \<longleftrightarrow> three_byte_second_ok a b \<and> cont c"
proof
  assume "char_ok [a, b, c]"
  then obtain n where n: "scalar_nat n" "2048 \<le> n" "n < 65536" "unat a = 224 + n div 4096"
    "unat b = 128 + n div 64 mod 64" "unat c = 128 + n mod 64"
    by (auto simp: char_ok_nat char_bytes_def split: if_splits)
  from split_sextets(1) [of n] n show "three_byte_second_ok a b \<and> cont c" unfolding second_ok scalar_nat_def by auto
next
  assume "three_byte_second_ok a b \<and> cont c"
  then have *: "224 \<le> unat a" "unat a < 240" "cont b" "cont c" "unat a = 224 \<longrightarrow> 160 \<le> unat b" "unat a = 237 \<longrightarrow> unat b < 160"
    by (auto simp: second_ok)
  define x y z where "x = unat a - 224" and "y = unat b - 128" and "z = unat c - 128"
  with * have "unat a = 224 + x" "unat b = 128 + y" "unat c = 128 + z" "x < 16" "y < 64" "z < 64"
    "x = 0 \<longrightarrow> 32 \<le> y" "x = 13 \<longrightarrow> y < 32" by linarith+
  moreover from this have "scalar_nat (x * 4096 + y * 64 + z)"
    by (cases "x \<le> 12"; cases "x = 13") (auto simp: scalar_nat_def)
  moreover from calculation have "2048 \<le> x * 4096 + y * 64 + z" "x * 4096 + y * 64 + z < 65536"
    by (cases "x = 0"; simp)+
  ultimately show "char_ok [a, b, c]"
    by (auto simp: char_ok_nat char_bytes_def sextets intro!: exI [of _ "x * 4096 + y * 64 + z"])
qed

lemma char_ok_4: "char_ok [a, b, c, d] \<longleftrightarrow> four_byte_second_ok a b \<and> cont c \<and> cont d"
proof
  assume "char_ok [a, b, c, d]"
  then obtain n where n: "scalar_nat n" "65536 \<le> n" "unat a = 240 + n div 262144" "unat b = 128 + n div 4096 mod 64"
    "unat c = 128 + n div 64 mod 64" "unat d = 128 + n mod 64"
    by (auto simp: char_ok_nat char_bytes_def split: if_splits)
  define x y z w where "x = n div 262144" and "y = n div 4096 mod 64" and "z = n div 64 mod 64" and "w = n mod 64"
  have "n = x * 262144 + y * 4096 + z * 64 + w" "y < 64" "z < 64" "w < 64"
    using split_sextets(2) [of n] by (simp_all add: x_def y_def z_def w_def)
  moreover have "n < 1114112" using n(1) by (auto simp: scalar_nat_def)
  ultimately have "x < 5" "x = 0 \<longrightarrow> 16 \<le> y" "x = 4 \<longrightarrow> y < 16" using n(2) by linarith+
  with n(3-6) \<open>y < 64\<close> \<open>z < 64\<close> \<open>w < 64\<close> show "four_byte_second_ok a b \<and> cont c \<and> cont d"
    by (auto simp: second_ok simp flip: x_def y_def z_def w_def)
next
  assume "four_byte_second_ok a b \<and> cont c \<and> cont d"
  then have *: "240 \<le> unat a" "unat a < 245" "cont b" "cont c" "cont d"
    "unat a = 240 \<longrightarrow> 144 \<le> unat b" "unat a = 244 \<longrightarrow> unat b < 144"
    by (auto simp: second_ok)
  define x y z w where "x = unat a - 240" and "y = unat b - 128" and "z = unat c - 128" and "w = unat d - 128"
  with * have "unat a = 240 + x" "unat b = 128 + y" "unat c = 128 + z" "unat d = 128 + w" "x < 5" "y < 64" "z < 64" "w < 64"
    "x = 0 \<longrightarrow> 16 \<le> y" "x = 4 \<longrightarrow> y < 16" by linarith+
  then show "char_ok [a, b, c, d]"
    by (auto simp: char_ok_nat char_bytes_def scalar_nat_def sextets intro!: exI [of _ "x * 262144 + y * 4096 + z * 64 + w"])
qed

lemma char_ok_length: "char_ok bs \<Longrightarrow> 1 \<le> length bs \<and> length bs \<le> 4"
proof -
  assume "char_ok bs"
  then obtain n where "map unat bs = char_bytes n" by (auto simp: char_ok_nat)
  then have "length bs = length (char_bytes n)" by (metis length_map)
  then show ?thesis by (simp add: char_bytes_def)
qed

end
