(* ===== verification/Utf8_Valid.thy ===== *)
theory Utf8_Valid
  imports Utf8_Char
begin

unbundle bit_operations_syntax

text \<open>
  The validator, the decoder and the lossy decoder of \<open>Utf8\<close> against \<open>is_utf8\<close>: what they accept, where
  they stop, and what they give back.
\<close>

section \<open>Characters at the front\<close>

lemma char_ok_cases:
  assumes "char_ok bs"
  obtains a where "bs = [a]" | a b where "bs = [a, b]" | a b c where "bs = [a, b, c]" | a b c d where "bs = [a, b, c, d]"
  using char_ok_length [OF assms] by (auto simp: le_Suc_eq length_Suc_conv numeral_eq_Suc Suc_le_eq)

lemma char_ok_width: "char_ok bs \<Longrightarrow> length bs = utf8_char_width (hd bs)"
  by (rule char_ok_cases [of bs], assumption)
     (auto simp: char_ok_1 char_ok_2 char_ok_3 char_ok_4 second_ok width Let_def)

lemma is_utf8_Nil [simp]: "is_utf8 []"
  unfolding is_utf8_def by (intro exI [of _ "[]"]) (simp add: utf8_bytes_def)

lemma is_utf8_char: "is_utf8 v \<longleftrightarrow> v = [] \<or> (\<exists>bs r. v = bs @ r \<and> char_ok bs \<and> is_utf8 r)"
proof
  assume "is_utf8 v"
  then obtain cs where cs: "list_all scalar cs" "v = utf8_bytes cs" by (auto simp: is_utf8_def)
  show "v = [] \<or> (\<exists>bs r. v = bs @ r \<and> char_ok bs \<and> is_utf8 r)"
  proof (cases cs)
    case (Cons c cs')
    with cs show ?thesis
      by (intro disjI2 exI [of _ "encode_utf8 c"] exI [of _ "utf8_bytes cs'"])
         (auto simp: utf8_bytes_def char_ok_def is_utf8_def)
  qed (use cs in \<open>simp add: utf8_bytes_def\<close>)
next
  assume "v = [] \<or> (\<exists>bs r. v = bs @ r \<and> char_ok bs \<and> is_utf8 r)"
  then show "is_utf8 v"
  proof
    assume "\<exists>bs r. v = bs @ r \<and> char_ok bs \<and> is_utf8 r"
    then obtain c cs where "scalar c" "list_all scalar cs" "v = encode_utf8 c @ utf8_bytes cs"
      by (auto simp: char_ok_def is_utf8_def)
    then show ?thesis unfolding is_utf8_def by (intro exI [of _ "c # cs"]) (simp add: utf8_bytes_def)
  qed simp
qed

text \<open>The first byte fixes the length, so a text splits into characters in one way.\<close>

definition front :: "bytes \<Rightarrow> bytes" where
  "front v = take (utf8_char_width (hd v)) v"

lemma front_append: "char_ok bs \<Longrightarrow> front (bs @ r) = bs"
proof -
  assume "char_ok bs"
  then have "bs \<noteq> []" "utf8_char_width (hd bs) = length bs" using char_ok_width [of bs] char_ok_length [of bs] by auto
  then show ?thesis by (simp add: front_def)
qed

lemma is_utf8_append: "char_ok bs \<Longrightarrow> is_utf8 (bs @ r) \<longleftrightarrow> is_utf8 r"
  using front_append char_ok_length [of bs] is_utf8_char [of "bs @ r"]
  by (metis Nil_is_append_conv append_eq_append_conv list.size(3) not_one_le_zero)

lemma is_utf8_front: "is_utf8 v \<Longrightarrow> v \<noteq> [] \<Longrightarrow> char_ok (front v)"
  using front_append is_utf8_char [of v] by metis

lemma is_utf8_two: "is_utf8 a \<Longrightarrow> is_utf8 (a @ b) \<longleftrightarrow> is_utf8 b"
proof (induction "length a" arbitrary: a rule: less_induct)
  case less
  show ?case
  proof (cases "a = []")
    case False
    then obtain bs r where a: "a = bs @ r" "char_ok bs" "is_utf8 r" using less.prems is_utf8_char [of a] by blast
    moreover have "length r < length a" using a(1) char_ok_length [OF a(2)] by (cases bs) simp_all
    ultimately show ?thesis using less.hyps [of r] is_utf8_append [OF a(2)] by simp
  qed simp
qed

lemma is_utf8_ascii: "\<forall>b\<in>set a. b < 128 \<Longrightarrow> is_utf8 a"
proof (induction a)
  case (Cons b a)
  then have "char_ok [b]" by (simp add: char_ok_1 word_less_nat_alt)
  with Cons is_utf8_append [of "[b]" a] show ?case by simp
qed simp

section \<open>The multi-byte branches\<close>

lemma sint_u8: "sint (c :: u8) = (if unat c < 128 then int (unat c) else int (unat c) - 256)"
proof -
  have "sint (word_of_int (int (unat c)) :: u8) = (int (unat c) + 128) mod 256 - 128"
    using int_word_sint [of "int (unat c)", where 'a = 8] by simp
  then have s: "sint c = (int (unat c) + 128) mod 256 - 128" by simp
  obtain n where n: "unat c = n" "n < 256" using unat_u8 [of c] by blast
  show ?thesis
  proof (cases "n < 128")
    case False
    then have "(int n + 128) mod 256 = int n - 128" using n(2) by (intro int_mod_pos_eq [of _ 256 1]) auto
    with s n False show ?thesis by (simp del: of_nat_unat)
  qed (use s n in \<open>simp del: of_nat_unat\<close>)
qed

lemma not_cont: "sint (b :: u8) \<ge> - 64 \<longleftrightarrow> \<not> cont b"
proof -
  obtain n where "unat b = n" "n < 256" using unat_u8 [of b] by blast
  then show ?thesis unfolding sint_u8 by auto
qed

lemma take_nth:
  "i < length v \<Longrightarrow> take (Suc n) (drop i v) = v ! i # take n (drop (Suc i) v)"
  by (simp add: Cons_nth_drop_Suc [symmetric])

lemma width_multi: "128 \<le> unat b \<Longrightarrow> utf8_char_width b \<in> {0, 2, 3, 4}"
  by (simp add: width Let_def)

lemma multibyte:
  assumes i: "i < length v" "128 \<le> unat (v ! i)"
  shows "validate_multibyte v i = Inr j \<longleftrightarrow>
    j = i + utf8_char_width (v ! i) \<and> j \<le> length v \<and> char_ok (take (utf8_char_width (v ! i)) (drop i v))"
proof -
  consider "utf8_char_width (v ! i) = 0" | "utf8_char_width (v ! i) = 2" | "utf8_char_width (v ! i) = 3"
    | "utf8_char_width (v ! i) = 4"
    using width_multi [OF i(2)] by auto
  then show ?thesis
  proof cases
    case 1
    then show ?thesis using char_ok_length [of "[]"] by (auto simp: validate_multibyte_def Let_def)
  next
    case 2
    then have "194 \<le> unat (v ! i) \<and> unat (v ! i) < 224" by (auto simp: width Let_def split: if_splits)
    with 2 i show ?thesis
      by (auto simp: validate_multibyte_def Let_def not_cont take_nth char_ok_2 numeral_2_eq_2)
  next
    case 3
    with i show ?thesis
      by (auto simp: validate_multibyte_def Let_def not_cont take_nth char_ok_3 numeral_3_eq_3 numeral_2_eq_2)
  next
    case 4
    with i show ?thesis
      by (auto simp: validate_multibyte_def Let_def not_cont take_nth char_ok_4 eval_nat_numeral)
  qed
qed

section \<open>The validator\<close>

lemma high_bit: "(b :: u8) AND 0x80 = 0 \<longleftrightarrow> unat b < 128"
proof -
  have "b AND 2 ^ 7 = 0 \<longleftrightarrow> \<not> bit b 7" by (rule and_exp_eq_0_iff_not_bit)
  moreover have "bit b 7 \<longleftrightarrow> bit (unat b) 7" by (simp add: bit_unsigned_iff)
  moreover have "bit (unat b) 7 \<longleftrightarrow> odd (unat b div 128)" unfolding bit_iff_odd by simp
  moreover have "odd (unat b div 128) \<longleftrightarrow> 128 \<le> unat b"
  proof (cases "unat b < 128")
    case False
    then have "unat b div 128 = 1" using unat_u8 [of b] by simp
    with False show ?thesis by simp
  qed simp
  ultimately show ?thesis by auto
qed

lemma is_utf8_skip:
  assumes "i \<le> j" "j \<le> length v" "\<forall>b\<in>set (take (j - i) (drop i v)). b < 128"
  shows "is_utf8 (drop i v) \<longleftrightarrow> is_utf8 (drop j v)"
proof -
  have "drop i v = take (j - i) (drop i v) @ drop j v"
    using assms(1,2) append_take_drop_id [of "j - i" "drop i v"] by simp
  then show ?thesis using is_utf8_two [OF is_utf8_ascii [OF assms(3)], of "drop j v"] by simp
qed

lemma skip_ascii_range:
  "i \<le> length v \<Longrightarrow> i \<le> skip_ascii v i \<and> skip_ascii v i \<le> length v
     \<and> (\<forall>b\<in>set (take (skip_ascii v i - i) (drop i v)). b < 128)"
proof (induction v i rule: skip_ascii.induct)
  case (1 v i)
  show ?case
  proof (cases "i < length v \<and> v ! i < 128")
    case True
    let ?j = "skip_ascii v (i + 1)"
    have "skip_ascii v i = ?j" using True by (subst skip_ascii.simps) simp
    moreover have "take (?j - i) (drop i v) = v ! i # take (?j - Suc i) (drop (Suc i) v)" if "Suc i \<le> ?j"
      using True that take_nth [of i v "?j - Suc i"] by (simp add: Suc_diff_Suc)
    ultimately show ?thesis using 1 True by auto
  next
    case False
    then have "skip_ascii v i = i" by (subst skip_ascii.simps) auto
    with 1 show ?thesis by simp
  qed
qed

lemma skip_blocks_range:
  "e \<le> length v - 15 \<or> e = 0 \<Longrightarrow> i \<le> length v \<Longrightarrow> i \<le> skip_blocks v e i \<and> skip_blocks v e i \<le> length v
     \<and> (\<forall>b\<in>set (take (skip_blocks v e i - i) (drop i v)). b < 128)"
proof (induction v e i rule: skip_blocks.induct)
  case (1 v e i)
  show ?case
  proof (cases "i < e \<and> \<not> (word_nonascii v i \<or> word_nonascii v (i + 8))")
    case True
    let ?j = "skip_blocks v e (i + 16)"
    have le: "i + 16 \<le> length v" using True "1.prems"(1) by auto
    have ih: "i + 16 \<le> ?j" "?j \<le> length v" "\<forall>b\<in>set (take (?j - (i + 16)) (drop (i + 16) v)). b < 128"
      using "1.IH" [OF True "1.prems"(1) le] by auto
    have "take (?j - i) (drop i v) = take 8 (drop i v) @ take 8 (drop (i + 8) v) @ take (?j - (i + 16)) (drop (i + 16) v)"
      using ih(1) take_add [of 8 8 "drop i v"] take_add [of 16 "?j - (i + 16)" "drop i v"] by (simp add: add.commute)
    moreover have "b < 128" if "b \<in> set (take 8 (drop i v)) \<union> set (take 8 (drop (i + 8) v))" for b
      using True that high_bit by (auto simp: word_nonascii_def list_ex_iff word_less_nat_alt)
    moreover have "skip_blocks v e i = ?j" using True by (subst skip_blocks.simps) simp
    ultimately show ?thesis using ih by auto
  next
    case False
    then have "skip_blocks v e i = i" by (subst skip_blocks.simps) auto
    with 1 show ?thesis by simp
  qed
qed

text \<open>The verdict from any character boundary on, with the position of the first error.\<close>

lemma front_multi:
  assumes "i < length v" "128 \<le> unat (v ! i)"
  shows "validate_multibyte v i = Inr (i + utf8_char_width (v ! i)) \<and> i + utf8_char_width (v ! i) \<le> length v
      \<and> char_ok (front (drop i v)) \<and> front (drop i v) = take (utf8_char_width (v ! i)) (drop i v)
    \<or> (\<exists>l. validate_multibyte v i = Inl \<lparr>valid_up_to = i, error_len = l\<rparr>) \<and> \<not> char_ok (front (drop i v))"
proof -
  have f: "front (drop i v) = take (utf8_char_width (v ! i)) (drop i v)" using assms(1) by (simp add: front_def hd_drop_conv_nth)
  show ?thesis
  proof (cases "validate_multibyte v i")
    case (Inr j)
    with multibyte [OF assms, of j] f show ?thesis by auto
  next
    case (Inl e)
    have "\<not> char_ok (front (drop i v))"
    proof
      assume c: "char_ok (front (drop i v))"
      moreover have "0 < utf8_char_width (v ! i)" using char_ok_length [OF c] f by (cases "utf8_char_width (v ! i)") auto
      ultimately have "length (front (drop i v)) = utf8_char_width (v ! i)"
        using char_ok_width [OF c] assms(1) f by (simp add: hd_take hd_drop_conv_nth)
      then have "i + utf8_char_width (v ! i) \<le> length v" using f char_ok_length [OF c] assms(1) by simp
      with multibyte [OF assms, of "i + utf8_char_width (v ! i)"] c f Inl show False by simp
    qed
    moreover have "\<exists>l. e = \<lparr>valid_up_to = i, error_len = l\<rparr>"
      using Inl by (auto simp: validate_multibyte_def Let_def split: if_splits)
    ultimately show ?thesis using Inl by auto
  qed
qed

lemma validate_from_spec:
  "i \<le> length v \<Longrightarrow> case validate_from al v i of
      Inr u \<Rightarrow> is_utf8 (drop i v)
    | Inl e \<Rightarrow> i \<le> valid_up_to e \<and> valid_up_to e < length v \<and> is_utf8 (take (valid_up_to e - i) (drop i v))
        \<and> \<not> char_ok (front (drop (valid_up_to e) v))"
proof (induction al v i rule: validate_from.induct)
  case (1 al v i)
  have step: "case validate_from al v i of Inr u \<Rightarrow> is_utf8 (drop i v)
      | Inl e \<Rightarrow> i \<le> valid_up_to e \<and> valid_up_to e < length v \<and> is_utf8 (take (valid_up_to e - i) (drop i v))
        \<and> \<not> char_ok (front (drop (valid_up_to e) v))"
    if j: "i \<le> j" "j \<le> length v" "is_utf8 (take (j - i) (drop i v))" "validate_from al v i = validate_from al v j"
      and ih: "case validate_from al v j of Inr u \<Rightarrow> is_utf8 (drop j v)
      | Inl e \<Rightarrow> j \<le> valid_up_to e \<and> valid_up_to e < length v \<and> is_utf8 (take (valid_up_to e - j) (drop j v))
        \<and> \<not> char_ok (front (drop (valid_up_to e) v))" for j
  proof (cases "validate_from al v j")
    case (Inr u)
    have "drop i v = take (j - i) (drop i v) @ drop j v"
      using j(1) append_take_drop_id [of "j - i" "drop i v"] by simp
    with Inr ih j(3,4) is_utf8_two [of "take (j - i) (drop i v)" "drop j v"] show ?thesis by simp
  next
    case (Inl e)
    have "take (valid_up_to e - i) (drop i v) = take (j - i) (drop i v) @ take (valid_up_to e - j) (drop j v)"
      if "j \<le> valid_up_to e"
      using j(1) that take_add [of "j - i" "valid_up_to e - j" "drop i v"] by simp
    with Inl ih j(1,3,4) is_utf8_two [of "take (j - i) (drop i v)" "take (valid_up_to e - j) (drop j v)"]
    show ?thesis by auto
  qed
  show ?case
  proof (cases "i < length v")
    case False
    then show ?thesis by (subst validate_from.simps) simp
  next
    case i: True
    show ?thesis
    proof (cases "v ! i \<ge> 128")
      case True
      then have u: "128 \<le> unat (v ! i)" by (simp add: word_le_nat_alt)
      let ?j = "i + utf8_char_width (v ! i)"
      from front_multi [OF i u] show ?thesis
      proof (elim disjE conjE exE)
        assume a: "validate_multibyte v i = Inr ?j" "?j \<le> length v" "char_ok (front (drop i v))"
          "front (drop i v) = take (utf8_char_width (v ! i)) (drop i v)"
        have "validate_from al v i = validate_from al v ?j" using i True a(1) by (subst validate_from.simps) simp
        moreover have "is_utf8 (take (?j - i) (drop i v))"
          using is_utf8_append [OF a(3), of "[]"] a(4) by simp
        ultimately show ?thesis using "1.IH"(1) [OF i True a(1,2)] a(2) by (intro step [of ?j]) simp_all
      next
        fix l assume "validate_multibyte v i = Inl \<lparr>valid_up_to = i, error_len = l\<rparr>" "\<not> char_ok (front (drop i v))"
        then show ?thesis using i True by (subst validate_from.simps) simp
      qed
    next
      case ascii: False
      show ?thesis
      proof (cases "al \<noteq> - 1 \<and> unat (al - of_nat i) mod 8 = 0")
        case True
        let ?b = "skip_blocks v (blocks_end_of v) i"
        let ?j = "skip_ascii v ?b"
        have be: "blocks_end_of v \<le> length v - 15 \<or> blocks_end_of v = 0" unfolding blocks_end_of_def by arith
        note b = skip_blocks_range [OF be "1.prems"]
        note a = skip_ascii_range [of ?b v]
        have le: "i \<le> ?b" "?b \<le> ?j" "?j \<le> length v" using a b by auto
        have "take (?j - i) (drop i v) = take (?b - i) (drop i v) @ take (?j - ?b) (drop ?b v)"
          using le take_add [of "?b - i" "?j - ?b" "drop i v"] by simp
        then have "is_utf8 (take (?j - i) (drop i v))" using a b by (intro is_utf8_ascii) auto
        moreover have "validate_from al v i = validate_from al v ?j" using i ascii True by (subst validate_from.simps) simp
        ultimately show ?thesis using "1.IH"(2) [OF i ascii True le(3)] le by (intro step [of ?j]) simp_all
      next
        case False
        have "validate_from al v i = validate_from al v (i + 1)" using i ascii False by (subst validate_from.simps) auto
        moreover have "is_utf8 (take (i + 1 - i) (drop i v))"
          using i ascii by (intro is_utf8_ascii) (simp add: take_nth)
        ultimately show ?thesis using "1.IH"(3) [OF i ascii False] i by (intro step [of "i + 1"]) simp_all
      qed
    qed
  qed
qed

lemma front_take:
  assumes "char_ok (front (take m w))"
  shows "char_ok (front w)"
proof (cases "take m w = []")
  case False
  then have hd: "hd (take m w) = hd w" by (cases m; cases w) auto
  have "length (front (take m w)) = utf8_char_width (hd (front (take m w)))" by (rule char_ok_width [OF assms])
  moreover have "hd (front (take m w)) = hd w"
    using char_ok_length [OF assms] hd False by (cases m; cases w; cases "utf8_char_width (hd w)") (auto simp: front_def)
  ultimately have "utf8_char_width (hd w) \<le> m" by (simp add: front_def hd)
  then have "front (take m w) = front w" by (simp add: front_def hd min_def)
  with assms show ?thesis by simp
qed (use assms char_ok_length [OF assms] in \<open>simp add: front_def\<close>)

text \<open>
  C35: the validator decides UTF-8 and finds the longest valid prefix. For every alignment of the slice, so
  whatever part of it is skipped word by word, \<open>run_utf8_validation\<close> accepts exactly the encodings of
  lists of Unicode scalar values, and otherwise \<open>valid_up_to\<close> is the length of the longest prefix
  that is one.
\<close>

theorem utf8_validation_exact:
  "case run_utf8_validation align v of
      Inr u \<Rightarrow> is_utf8 v
    | Inl e \<Rightarrow> \<not> is_utf8 v \<and> valid_up_to e = Max {k. k \<le> length v \<and> is_utf8 (take k v)}"
proof (cases "run_utf8_validation align v")
  case (Inl e)
  let ?n = "valid_up_to e"
  have n: "?n < length v" "is_utf8 (take ?n v)" "\<not> char_ok (front (drop ?n v))"
    using validate_from_spec [of 0 v align] Inl by (simp_all add: run_utf8_validation_def)
  have longest: "k \<le> ?n" if "k \<le> length v" "is_utf8 (take k v)" for k
  proof (rule ccontr)
    assume k: "\<not> k \<le> ?n"
    have "take k v = take ?n v @ take (k - ?n) (drop ?n v)" using k take_add [of ?n "k - ?n" v] by simp
    then have "is_utf8 (take (k - ?n) (drop ?n v))" using is_utf8_two [OF n(2)] that(2) by metis
    then have "char_ok (front (take (k - ?n) (drop ?n v)))" using k n(1) by (intro is_utf8_front) auto
    with front_take n(3) show False by blast
  qed
  then have "?n = Max {k. k \<le> length v \<and> is_utf8 (take k v)}"
    using n by (intro Max_eqI [symmetric]) auto
  moreover have "\<not> is_utf8 v" using longest [of "length v"] n(1) by auto
  ultimately show ?thesis using Inl by simp
next
  case (Inr u)
  then show ?thesis using validate_from_spec [of 0 v align] by (simp add: run_utf8_validation_def)
qed

end
