(* ===== verification/Utf8_Text.thy ===== *)
theory Utf8_Text
  imports Utf8_Valid
begin

unbundle bit_operations_syntax

text \<open>
  Lossy decoding and the character decoder: \<open>from_utf8_lossy\<close> gives valid text whatever it is given and
  changes nothing that was valid, and decoding gives back the characters that were encoded.
\<close>

section \<open>The scanning loop of lossy decoding\<close>

lemma tag_cont: "(b :: u8) AND 192 = 128 \<longleftrightarrow> cont b"
proof -
  have "(192 OR 63 :: u8) = - 1" by simp
  then have "b = (b AND 192) OR (b AND 63)" by (metis bit.conj_disj_distrib bit.conj_one_right)
  also have "\<dots> = (b AND 192) + (b AND 63)"
    by (rule disjunctive_add_eq_or [symmetric]) (simp add: and.left_commute and.assoc)
  finally have s: "b = (b AND 192) + (b AND 63)" .
  have le: "unat (b AND 192) \<le> 192" using word_and_le1 [of b 192] by (simp add: word_le_nat_alt and.commute)
  have m: "unat (b AND 63) = unat b mod 64" by (rule and_3F) simp
  have "unat b = unat (b AND 192) + unat b mod 64"
    using arg_cong [OF s, of unat] le m unat_u8 [of b] by (simp add: unat_word_ariths)
  then have "unat (b AND 192) = unat b div 64 * 64" using div_mult_mod_eq [of "unat b" 64] by linarith
  then have "b AND 192 = 128 \<longleftrightarrow> unat b div 64 = 2" by (simp add: word_unat_eq_iff)
  also have "\<dots> \<longleftrightarrow> cont b"
  proof -
    obtain n where n: "unat b = n" by blast
    have "n div 64 = 2 \<longleftrightarrow> 128 \<le> n \<and> n < 192" by linarith
    then show ?thesis unfolding n .
  qed
  finally show ?thesis .
qed

lemma chunk_step_char:
  assumes i: "i < length src"
  shows "chunk_step src (src ! i) (i + 1) = Inr j \<longleftrightarrow>
    j = i + utf8_char_width (src ! i) \<and> j \<le> length src \<and> char_ok (take (utf8_char_width (src ! i)) (drop i src))"
proof (cases "src ! i < 128")
  case True
  then have "unat (src ! i) < 128" by (simp add: word_less_nat_alt)
  then have "utf8_char_width (src ! i) = 1" "char_ok [src ! i]" by (simp_all add: width Let_def char_ok_1)
  with True i show ?thesis by (auto simp: chunk_step_def take_nth)
next
  case False
  then have u: "128 \<le> unat (src ! i)" by (simp add: word_less_nat_alt)
  have z: "\<not> cont 0" by simp
  consider "utf8_char_width (src ! i) = 0" | "utf8_char_width (src ! i) = 2" | "utf8_char_width (src ! i) = 3"
    | "utf8_char_width (src ! i) = 4"
    using width_multi [OF u] by auto
  then show ?thesis
  proof cases
    case 1
    then show ?thesis using False char_ok_length [of "[]"] by (auto simp: chunk_step_def Let_def)
  next
    case 2
    then have "194 \<le> unat (src ! i) \<and> unat (src ! i) < 224" by (auto simp: width Let_def split: if_splits)
    with 2 i False show ?thesis
      by (auto simp: chunk_step_def Let_def tag_cont safe_get_def take_nth char_ok_2 numeral_2_eq_2)
  next
    case 3
    have "\<not> three_byte_second_ok (src ! i) 0" by (simp add: second_ok)
    with 3 i False show ?thesis
      by (auto simp: chunk_step_def Let_def tag_cont safe_get_def take_nth char_ok_3 numeral_3_eq_3 numeral_2_eq_2)
  next
    case 4
    have "\<not> four_byte_second_ok (src ! i) 0" by (simp add: second_ok)
    with 4 i False show ?thesis
      by (auto simp: chunk_step_def Let_def tag_cont safe_get_def take_nth char_ok_4 eval_nat_numeral)
  qed
qed

lemma scan_chunk_valid:
  "i \<le> length src \<Longrightarrow> scan_chunk src i i = (j, n) \<Longrightarrow>
     i \<le> n \<and> n \<le> j \<and> is_utf8 (take (n - i) (drop i src)) \<and> (is_utf8 (drop i src) \<longrightarrow> j = length src \<and> n = length src)"
proof (induction "length src - i" arbitrary: i rule: less_induct)
  case less
  show ?case
  proof (cases "i < length src")
    case False
    with less.prems show ?thesis by (simp add: scan_chunk.simps)
  next
    case True
    show ?thesis
    proof (cases "chunk_step src (src ! i) (i + 1)")
      case (Inl k)
      then have jn: "j = k" "n = i" using less.prems(2) True by (simp_all add: scan_chunk.simps [of src i])
      have "\<not> is_utf8 (drop i src)"
      proof
        assume "is_utf8 (drop i src)"
        then have c: "char_ok (front (drop i src))" using True by (intro is_utf8_front) simp_all
        have f: "front (drop i src) = take (utf8_char_width (src ! i)) (drop i src)"
          using True by (simp add: front_def hd_drop_conv_nth)
        moreover have "0 < utf8_char_width (src ! i)" using char_ok_length [OF c] f by (cases "utf8_char_width (src ! i)") auto
        ultimately have "length (take (utf8_char_width (src ! i)) (drop i src)) = utf8_char_width (src ! i)"
          using char_ok_width [OF c] True by (simp add: hd_take hd_drop_conv_nth)
        then have "i + utf8_char_width (src ! i) \<le> length src" using True by simp
        with chunk_step_char [OF True] c f Inl show False by auto
      qed
      with jn chunk_step_Inl_ge [OF Inl] show ?thesis by simp
    next
      case (Inr k)
      let ?c = "take (utf8_char_width (src ! i)) (drop i src)"
      have k: "k = i + utf8_char_width (src ! i)" "k \<le> length src" "char_ok ?c"
        using iffD1 [OF chunk_step_char [OF True] Inr] by blast+
      have "i < k" using chunk_step_ge [OF Inr] by simp
      moreover have "scan_chunk src k k = (j, n)" using less.prems(2) True Inr by (simp add: scan_chunk.simps [of src i])
      ultimately have ih: "k \<le> n" "n \<le> j" "is_utf8 (take (n - k) (drop k src))"
        "is_utf8 (drop k src) \<Longrightarrow> j = length src \<and> n = length src"
        using less.hyps [of k] k(2) True by auto
      have "take (n - i) (drop i src) = ?c @ take (n - k) (drop k src)" "drop i src = ?c @ drop k src"
        using ih(1) k(1) take_add [of "utf8_char_width (src ! i)" "n - k" "drop i src"]
          append_take_drop_id [of "utf8_char_width (src ! i)" "drop i src"] by (simp_all add: add.commute)
      then have "is_utf8 (take (n - i) (drop i src))" "is_utf8 (drop i src) \<longleftrightarrow> is_utf8 (drop k src)"
        using ih(3) is_utf8_append [OF k(3)] by metis+
      then show ?thesis using ih \<open>i < k\<close> by simp
    qed
  qed
qed

lemma next_chunk_valid:
  assumes "next_chunk src = Some ((valid, invalid), rest)"
  shows "is_utf8 valid" "is_utf8 src \<Longrightarrow> valid = src \<and> invalid = [] \<and> rest = []"
    "src = valid @ invalid @ rest"
proof -
  obtain i n where s: "scan_chunk src 0 0 = (i, n)" by fastforce
  with assms have e: "valid = take n (take i src)" "invalid = drop n (take i src)" "rest = drop i src"
    by (auto simp: next_chunk_def Let_def split: if_splits)
  have v: "0 \<le> n \<and> n \<le> i \<and> is_utf8 (take (n - 0) (drop 0 src)) \<and> (is_utf8 (drop 0 src) \<longrightarrow> i = length src \<and> n = length src)"
    using s by (intro scan_chunk_valid) simp_all
  show "is_utf8 valid" using v e by (simp add: min_absorb1)
  show "is_utf8 src \<Longrightarrow> valid = src \<and> invalid = [] \<and> rest = []" using v e by simp
  show "src = valid @ invalid @ rest" unfolding e by (metis append_assoc append_take_drop_id)
qed

lemma is_utf8_replacement: "is_utf8 (REPLACEMENT @ r) \<longleftrightarrow> is_utf8 r"
proof -
  have "char_ok REPLACEMENT" unfolding char_ok_def REPLACEMENT_def by (intro exI [of _ "0xFFFD"]) (simp add: scalar_def)
  then show ?thesis by (rule is_utf8_append)
qed

lemma lossy_loop_valid: "is_utf8 (lossy_loop src)"
proof (induction src rule: lossy_loop.induct)
  case (1 src)
  show ?case
  proof (cases "next_chunk src")
    case (Some c)
    obtain valid invalid rest where c: "c = ((valid, invalid), rest)" by (cases c) auto
    have "is_utf8 valid" by (rule next_chunk_valid(1) [OF Some [unfolded c]])
    moreover have "is_utf8 (lossy_loop rest)" using 1 Some c by blast
    ultimately show ?thesis using Some c
      by (subst lossy_loop.simps) (simp add: is_utf8_two is_utf8_replacement)
  qed (simp add: lossy_loop.simps)
qed

text \<open>
  C36: lossy decoding is total and faithful. Whatever bytes it is given, \<open>String::from_utf8_lossy\<close> returns
  valid UTF-8, as the unchecked conversions in it require, and it returns its argument unchanged
  exactly if that is valid.
\<close>

theorem from_utf8_lossy_valid: "is_utf8 (from_utf8_lossy v) \<and> (from_utf8_lossy v = v \<longleftrightarrow> is_utf8 v)"
proof -
  have "is_utf8 (from_utf8_lossy v) \<and> (is_utf8 v \<longrightarrow> from_utf8_lossy v = v)"
  proof (cases "next_chunk v")
    case None
    then have "v = []" by (auto simp: next_chunk_def Let_def split: if_splits prod.splits)
    with None show ?thesis by (simp add: from_utf8_lossy_def)
  next
    case (Some c)
    obtain valid invalid rest where c: "c = ((valid, invalid), rest)" by (cases c) auto
    note n = next_chunk_valid [OF Some [unfolded c]]
    have "is_utf8 (valid @ REPLACEMENT @ lossy_loop rest)"
      using n(1) lossy_loop_valid [of rest] by (simp add: is_utf8_two is_utf8_replacement)
    moreover have "from_utf8_lossy v = (if invalid = [] then valid else valid @ REPLACEMENT @ lossy_loop rest)"
      using Some c by (simp add: from_utf8_lossy_def)
    ultimately show ?thesis using n(1,2) by auto
  qed
  then show ?thesis by metis
qed


section \<open>The decoder\<close>

lemma and_low: "unat (c AND w :: 'a::len word) = unat c mod 2 ^ k" if "w = 2 ^ k - 1" "k < LENGTH('a)"
proof -
  have e: "c AND w = take_bit k c" using that by (simp add: take_bit_eq_mask mask_eq_exp_minus_1)
  show ?thesis unfolding e unsigned_take_bit_eq by (simp add: take_bit_eq_mod)
qed

lemma first_byte: "unat (utf8_first_byte x 2) = unat x mod 32"
proof -
  have "unat (x AND drop_bit 2 0x7F) = unat x mod 2 ^ 5" by (rule and_low) simp_all
  then show ?thesis by (simp add: utf8_first_byte_def unat_ucast)
qed

lemma or_shifted: "unat x < 2 ^ k \<Longrightarrow> unat t * 2 ^ k < 2 ^ 31 \<Longrightarrow> k < 31 \<Longrightarrow> unat (push_bit k t OR x) = unat t * 2 ^ k + unat x"
  for x t :: u32
proof -
  assume a: "unat x < 2 ^ k" "unat t * 2 ^ k < 2 ^ 31" "k < 31"
  have p: "unat (push_bit k t) = unat t * 2 ^ k"
    using a(2) unfolding unsigned_push_bit_eq by (simp add: push_bit_eq_mult take_bit_eq_mod)
  have "(2 :: nat) ^ k \<le> 2 ^ 31" using a(3) by (intro power_increasing) simp_all
  then have "unat x + unat t * 2 ^ k < 2 ^ 32" using a by simp
  then show ?thesis using or_tag [OF a(1), of t] p by (simp add: or.commute unat_word_ariths)
qed

lemma acc_cont_byte: "unat ch < 2 ^ 25 \<Longrightarrow> unat (utf8_acc_cont_byte ch b) = unat ch * 64 + unat b mod 64"
  unfolding utf8_acc_cont_byte_def
  by (subst or_shifted) (simp_all add: unat_ucast and_3F)

lemma tags_off:
  fixes q :: nat
  shows "q < 32 \<Longrightarrow> (192 + q) mod 32 = q" "q < 16 \<Longrightarrow> (224 + q) mod 32 = q"
    "q < 8 \<Longrightarrow> (240 + q) mod 32 mod 8 = q" "q < 64 \<Longrightarrow> (128 + q) mod 64 = q"
proof -
  note s = mod_mult_self3 [of "6 :: nat" 32 q] mod_mult_self3 [of "7 :: nat" 32 q] mod_mult_self3 [of "7 :: nat" 32 "16 + q"]
    mod_mult_self3 [of "2 :: nat" 8 q] mod_mult_self3 [of "2 :: nat" 64 q]
  show "q < 32 \<Longrightarrow> (192 + q) mod 32 = q" "q < 16 \<Longrightarrow> (224 + q) mod 32 = q" "q < 64 \<Longrightarrow> (128 + q) mod 64 = q"
    using s(1,2,5) by simp_all
  show "(240 + q) mod 32 mod 8 = q" if "q < 8"
  proof -
    have "(240 + q) mod 32 = 16 + q" using s(3) that by simp
    with s(4) that show ?thesis by simp
  qed
qed

lemma next_code_point_char:
  assumes "scalar c"
  shows "next_code_point (encode_utf8 c @ r) = Some (c, r)"
proof -
  obtain n where n: "unat c = n" "n < 0x110000" using assms by (auto simp: scalar_iff scalar_nat_def)
  then have e: "map unat (encode_utf8 c) = char_bytes n" using encode_bytes [of c] by simp
  have u: "d = c" if "unat d = n" for d using that n by (simp add: word_unat_eq_iff)
  have small: "n mod 64 < 64" "n div 64 mod 64 < 64" "n div 4096 mod 64 < 64" by simp_all
  consider "n < 128" | "128 \<le> n" "n < 2048" | "2048 \<le> n" "n < 65536" | "65536 \<le> n" by linarith
  then show ?thesis
  proof cases
    case 1
    then obtain a where a: "encode_utf8 c = [a]" "unat a = n" using e by (auto simp: char_bytes_def)
    then have "ucast a = c" using 1 by (intro u) (simp add: unat_ucast)
    then show ?thesis using a 1 by (simp add: word_less_nat_alt)
  next
    case 2
    then obtain a b where a: "encode_utf8 c = [a, b]" "unat a = 192 + n div 64" "unat b = 128 + n mod 64"
      using e by (auto simp: char_bytes_def)
    have "n div 64 < 32" using 2 by simp
    with a have "utf8_acc_cont_byte (utf8_first_byte a 2) b = c"
      by (intro u) (simp add: acc_cont_byte first_byte tags_off)
    then show ?thesis using a 2 \<open>n div 64 < 32\<close> by (simp add: word_less_nat_alt)
  next
    case 3
    then obtain a b d where a: "encode_utf8 c = [a, b, d]" "unat a = 224 + n div 4096" "unat b = 128 + n div 64 mod 64"
        "unat d = 128 + n mod 64"
      using e by (auto simp: char_bytes_def)
    have "n div 4096 < 16" using 3 by simp
    then have i: "unat (utf8_first_byte a 2) = n div 4096" using a(2) by (simp add: first_byte tags_off)
    have yz: "unat (utf8_acc_cont_byte (ucast (b AND 0x3F)) d) = n div 64 mod 64 * 64 + n mod 64"
      using a(3,4) small by (subst acc_cont_byte) (simp_all add: unat_ucast and_3F tags_off)
    have "n div 64 mod 64 * 64 + n mod 64 < 4096" using small by linarith
    then have "unat (push_bit 12 (utf8_first_byte a 2) OR utf8_acc_cont_byte (ucast (b AND 0x3F)) d)
        = n div 4096 * 4096 + (n div 64 mod 64 * 64 + n mod 64)"
      using 3 by (subst or_shifted) (simp_all add: i yz)
    also have "\<dots> = n" using split_sextets(1) [of n] by simp
    finally have "push_bit 12 (utf8_first_byte a 2) OR utf8_acc_cont_byte (ucast (b AND 0x3F)) d = c" by (rule u)
    then show ?thesis using a 3 \<open>n div 4096 < 16\<close> by (simp add: word_less_nat_alt Let_def)
  next
    case 4
    then obtain a b d f where a: "encode_utf8 c = [a, b, d, f]" "unat a = 240 + n div 262144"
        "unat b = 128 + n div 4096 mod 64" "unat d = 128 + n div 64 mod 64" "unat f = 128 + n mod 64"
      using e by (auto simp: char_bytes_def)
    have q: "n div 262144 < 8" using n(2) by simp
    have i: "unat (utf8_first_byte a 2 AND 7) = n div 262144"
    proof -
      have "unat (utf8_first_byte a 2 AND 7) = unat (utf8_first_byte a 2) mod 2 ^ 3" by (rule and_low) simp_all
      with a(2) q show ?thesis by (simp add: first_byte tags_off)
    qed
    have yz: "unat (utf8_acc_cont_byte (ucast (b AND 0x3F)) d) = n div 4096 mod 64 * 64 + n div 64 mod 64"
      using a(3,4) small by (subst acc_cont_byte) (simp_all add: unat_ucast and_3F tags_off)
    have lt: "n div 4096 mod 64 * 64 + n div 64 mod 64 < 4096" using small by linarith
    then have w: "unat (utf8_acc_cont_byte (utf8_acc_cont_byte (ucast (b AND 0x3F)) d) f)
        = (n div 4096 mod 64 * 64 + n div 64 mod 64) * 64 + n mod 64"
      using a(5) small by (subst acc_cont_byte) (simp_all add: yz tags_off)
    have "x * 64 + y < 262144" if "x < 4096" "y < 64" for x y :: nat using that by linarith
    note this [OF lt small(1)]
    then have "unat (push_bit 18 (utf8_first_byte a 2 AND 7)
          OR utf8_acc_cont_byte (utf8_acc_cont_byte (ucast (b AND 0x3F)) d) f)
        = n div 262144 * 262144 + ((n div 4096 mod 64 * 64 + n div 64 mod 64) * 64 + n mod 64)"
      using q by (subst or_shifted) (simp_all only: i w, simp_all)
    also have "\<dots> = n" using split_sextets(2) [of n] by simp
    finally have "push_bit 18 (utf8_first_byte a 2 AND 7)
      OR utf8_acc_cont_byte (utf8_acc_cont_byte (ucast (b AND 0x3F)) d) f = c" by (rule u)
    then show ?thesis using a 4 by (simp add: word_less_nat_alt Let_def)
  qed
qed

lemma str_chars_Nil [simp]: "str_chars [] = []"
  by (simp add: str_chars.simps)

text \<open>
  Decoding inverts encoding. The iterator of a string's characters gives back the list of scalar
  values whose encodings the string is, reading only bytes that are there.
\<close>

lemma chars_of_text: "list_all scalar cs \<Longrightarrow> str_chars (utf8_bytes cs) = cs"
proof (induction cs)
  case (Cons c cs)
  then show ?case by (subst str_chars.simps) (simp add: utf8_bytes_def next_code_point_char)
qed (simp add: utf8_bytes_def)

lemma chars_of_text_witness: "str_chars (utf8_bytes [0x24, 0xA2, 0x20AC, 0x10348]) = [0x24, 0xA2, 0x20AC, 0x10348]"
  by (rule chars_of_text) (simp add: scalar_def)

end
