(* ===== verification/Buf_Writer.thy ===== *)
theory Buf_Writer
  imports Io_Stream "HOL-Library.Sublist"
begin

text \<open>
  Buffered writing: \<open>BufWriter\<close> (\<open>io/buffered/bufwriter.rs\<close>) over any writer. A writer is the record of its
  methods, as a trait object is. An operation takes the buffered writer and gives its result with the
  writer as it is then, also after an error. The loop of \<open>flush_buf\<close> retries interrupted writes without a
  bound, so it takes fuel. Writing beyond the capacity through the raw pointer is undefined behaviour in
  the source and a panic here.
\<close>

section \<open>Writers\<close>

record sink =
  sk_write :: "bytes \<Rightarrow> nat io"
  sk_write_vectored :: "bytes list \<Rightarrow> nat io"
  sk_is_write_vectored :: bool
  sk_write_all :: "nat \<Rightarrow> bytes \<Rightarrow> unit io"
  sk_flush :: "unit io"

text \<open>\<open>default_write_vectored\<close>: the first buffer that is not empty.\<close>

definition default_write_vectored :: "(bytes \<Rightarrow> nat io) \<Rightarrow> bytes list \<Rightarrow> nat io" where
  "default_write_vectored wr bufs = wr (case find (\<lambda>b. b \<noteq> []) bufs of Some b \<Rightarrow> b | None \<Rightarrow> [])"

record buf_writer =
  bw_buf :: bytes
  bw_capacity :: nat
  bw_panicked :: bool

type_synonym 'a bw = "buf_writer \<Rightarrow> ((io_error + 'a) \<times> buf_writer) io"

definition bw_ret :: "'a \<Rightarrow> 'a bw" where
  "bw_ret x bw = io_return (Inr x, bw)"

definition bw_fail :: "io_error \<Rightarrow> 'a bw" where
  "bw_fail e bw = io_return (Inl e, bw)"

definition bw_bind :: "'a bw \<Rightarrow> ('a \<Rightarrow> 'b bw) \<Rightarrow> 'b bw" where
  "bw_bind m f bw = io_bind (m bw) (\<lambda>(r, bw'). case r of Inl e \<Rightarrow> bw_fail e bw' | Inr x \<Rightarrow> f x bw')"

text \<open>A call of the inner writer, with \<open>panicked\<close> raised for its duration, and one without.\<close>

definition bw_inner :: "'a io \<Rightarrow> 'a bw" where
  "bw_inner m bw = io_bind (io_attempt m) (\<lambda>r. io_return (r, bw\<lparr>bw_panicked := False\<rparr>))"

definition bw_lift :: "'a io \<Rightarrow> 'a bw" where
  "bw_lift m bw = io_bind (io_attempt m) (\<lambda>r. io_return (r, bw))"

section \<open>BufWriter\<close>

definition buf_writer_with_capacity :: "nat \<Rightarrow> buf_writer" where
  "buf_writer_with_capacity capacity = \<lparr>bw_buf = [], bw_capacity = capacity, bw_panicked = False\<rparr>"

definition buf_writer_new :: buf_writer where
  "buf_writer_new = buf_writer_with_capacity DEFAULT_BUF_SIZE"

definition spare_capacity :: "buf_writer \<Rightarrow> nat" where
  "spare_capacity bw = bw_capacity bw - length (bw_buf bw)"

definition write_to_buffer_unchecked :: "bytes \<Rightarrow> unit bw" where
  "write_to_buffer_unchecked b bw =
    (if length (bw_buf bw) + length b \<le> bw_capacity bw then bw_ret () (bw\<lparr>bw_buf := bw_buf bw @ b\<rparr>)
     else io_panic ''undefined behaviour: write beyond the capacity'')"

definition BUF_WRITE_ZERO :: io_error where
  "BUF_WRITE_ZERO = SimpleMessage WriteZero ''failed to write the buffered data''"

text \<open>The loop of \<open>flush_buf\<close>; \<open>written\<close> is the guard's counter, and the guard's drop is \<open>guard_drop\<close>.\<close>

fun flush_loop :: "sink \<Rightarrow> nat \<Rightarrow> nat \<Rightarrow> buf_writer \<Rightarrow> (((io_error + unit) \<times> nat) \<times> buf_writer) io" where
  "flush_loop k 0 written bw = io_hang"
| "flush_loop k (Suc fuel) written bw =
    (if written \<ge> length (bw_buf bw) then io_return ((Inr (), written), bw)
     else io_bind (bw_inner (sk_write k (drop written (bw_buf bw))) bw) (\<lambda>(r, bw1). case r of
         Inr n \<Rightarrow> if n = 0 then io_return ((Inl BUF_WRITE_ZERO, written), bw1)
           else flush_loop k fuel (written + n) bw1
       | Inl e \<Rightarrow> if is_interrupted e then flush_loop k fuel written bw1
           else io_return ((Inl e, written), bw1)))"

definition guard_drop :: "nat \<Rightarrow> unit bw" where
  "guard_drop written bw =
    (if written > 0 then
       (if written > length (bw_buf bw) then io_panic ''range start index out of range''
        else bw_ret () (bw\<lparr>bw_buf := drop written (bw_buf bw)\<rparr>))
     else bw_ret () bw)"

definition flush_buf :: "sink \<Rightarrow> nat \<Rightarrow> unit bw" where
  "flush_buf k fuel bw =
    io_bind (flush_loop k fuel 0 bw) (\<lambda>((r, written), bw1).
    io_bind (guard_drop written bw1) (\<lambda>(_, bw2). io_return (r, bw2)))"

definition write_to_buf :: "bytes \<Rightarrow> nat bw" where
  "write_to_buf b bw =
    (let amt_to_buffer = min (spare_capacity bw) (length b)
     in bw_bind (write_to_buffer_unchecked (take amt_to_buffer b)) (\<lambda>_. bw_ret amt_to_buffer) bw)"

definition write_cold :: "sink \<Rightarrow> nat \<Rightarrow> bytes \<Rightarrow> nat bw" where
  "write_cold k fuel b bw =
    bw_bind (if length b > spare_capacity bw then flush_buf k fuel else bw_ret ()) (\<lambda>_ bw1.
      if length b \<ge> bw_capacity bw1 then bw_inner (sk_write k b) bw1
      else bw_bind (write_to_buffer_unchecked b) (\<lambda>_. bw_ret (length b)) bw1) bw"

definition write_all_cold :: "sink \<Rightarrow> nat \<Rightarrow> bytes \<Rightarrow> unit bw" where
  "write_all_cold k fuel b bw =
    bw_bind (if length b > spare_capacity bw then flush_buf k fuel else bw_ret ()) (\<lambda>_ bw1.
      if length b \<ge> bw_capacity bw1 then bw_inner (sk_write_all k fuel b) bw1
      else write_to_buffer_unchecked b bw1) bw"

definition bw_write :: "sink \<Rightarrow> nat \<Rightarrow> bytes \<Rightarrow> nat bw" where
  "bw_write k fuel b bw =
    (if length b < spare_capacity bw
     then bw_bind (write_to_buffer_unchecked b) (\<lambda>_. bw_ret (length b)) bw
     else write_cold k fuel b bw)"

definition bw_write_all :: "sink \<Rightarrow> nat \<Rightarrow> bytes \<Rightarrow> unit bw" where
  "bw_write_all k fuel b bw =
    (if length b < spare_capacity bw then write_to_buffer_unchecked b bw
     else write_all_cold k fuel b bw)"

text \<open>\<open>saturating_add\<close> on \<open>usize\<close>.\<close>

definition sat_add :: "nat \<Rightarrow> nat \<Rightarrow> nat" where
  "sat_add a b = min (a + b) (2 ^ 64 - 1)"

fun buffer_all :: "bytes list \<Rightarrow> unit bw" where
  "buffer_all [] = bw_ret ()"
| "buffer_all (b # bs) = bw_bind (write_to_buffer_unchecked b) (\<lambda>_. buffer_all bs)"

text \<open>\<open>write_vectored\<close> over an inner writer that has a vectored write, and over one that has none.\<close>

fun vectored_loop :: "sink \<Rightarrow> nat \<Rightarrow> bytes list \<Rightarrow> bytes list \<Rightarrow> nat \<Rightarrow> nat bw" where
  "vectored_loop k fuel bufs [] len = bw_bind (buffer_all bufs) (\<lambda>_. bw_ret len)"
| "vectored_loop k fuel bufs (b # rest) len = (\<lambda>bw.
    let len' = sat_add len (length b)
    in bw_bind (if len' > spare_capacity bw \<and> bw_buf bw \<noteq> [] then flush_buf k fuel else bw_ret ()) (\<lambda>_ bw1.
         if len' \<ge> bw_capacity bw1 then bw_inner (sk_write_vectored k bufs) bw1
         else vectored_loop k fuel bufs rest len' bw1) bw)"

fun buffer_fitting :: "bytes list \<Rightarrow> nat \<Rightarrow> nat bw" where
  "buffer_fitting [] len = bw_ret len"
| "buffer_fitting (b # bs) len = (\<lambda>bw.
    if length b \<le> spare_capacity bw
    then bw_bind (write_to_buffer_unchecked b) (\<lambda>_. buffer_fitting bs (len + length b)) bw
    else bw_ret len bw)"

definition bw_write_vectored :: "sink \<Rightarrow> nat \<Rightarrow> bytes list \<Rightarrow> nat bw" where
  "bw_write_vectored k fuel bufs bw =
    (if sk_is_write_vectored k then vectored_loop k fuel bufs bufs 0 bw
     else case dropWhile (\<lambda>b. b = []) bufs of
       [] \<Rightarrow> bw_ret 0 bw
     | b # iter \<Rightarrow>
         bw_bind (if length b > spare_capacity bw then flush_buf k fuel else bw_ret ()) (\<lambda>_ bw1.
           if length b \<ge> bw_capacity bw1 then bw_inner (sk_write k b) bw1
           else bw_bind (write_to_buffer_unchecked b) (\<lambda>_. buffer_fitting iter (length b)) bw1) bw)"

definition bw_flush :: "sink \<Rightarrow> nat \<Rightarrow> unit bw" where
  "bw_flush k fuel = bw_bind (flush_buf k fuel) (\<lambda>_. bw_lift (sk_flush k))"

text \<open>\<open>drop\<close>, and \<open>into_inner\<close>: the buffered writer is gone after the one, and after the other on success.\<close>

definition bw_drop :: "sink \<Rightarrow> nat \<Rightarrow> buf_writer \<Rightarrow> unit io" where
  "bw_drop k fuel bw =
    (if \<not> bw_panicked bw then io_bind (flush_buf k fuel bw) (\<lambda>_. io_return ()) else io_return ())"

definition bw_into_inner :: "sink \<Rightarrow> nat \<Rightarrow> buf_writer \<Rightarrow> (buf_writer \<times> io_error + unit) io" where
  "bw_into_inner k fuel bw =
    io_bind (flush_buf k fuel bw) (\<lambda>(r, bw'). case r of
      Inl e \<Rightarrow> io_return (Inl (bw', e)) | Inr _ \<Rightarrow> io_return (Inr ()))"

text \<open>\<open>into_parts\<close>: the bytes not written, as an error if the inner writer panicked.\<close>

definition bw_into_parts :: "buf_writer \<Rightarrow> bytes + bytes" where
  "bw_into_parts bw = (if \<not> bw_panicked bw then Inr (bw_buf bw) else Inl (bw_buf bw))"

section \<open>What a call sends\<close>

text \<open>
  \<open>sends\<close> with \<open>P\<close>: on the oracles \<open>good\<close> the call does not panic, if \<open>live\<close> it ends, and it has sent
  some \<open>d\<close> that \<open>P\<close> describes together with the result.
\<close>

definition sends :: "bool \<Rightarrow> (trace \<Rightarrow> bytes) \<Rightarrow> ((trace \<Rightarrow> call \<Rightarrow> reply) \<Rightarrow> bool) \<Rightarrow> 'a io
    \<Rightarrow> (io_error + 'a \<Rightarrow> bytes \<Rightarrow> bool) \<Rightarrow> bool" where
  "sends live sent good m P \<longleftrightarrow> (\<forall>s. good (os_oracle s) \<longrightarrow> (case io_attempt m s of
       (Ok r, s') \<Rightarrow> os_oracle s' = os_oracle s \<and> (\<exists>d. sent (os_trace s') = sent (os_trace s) @ d \<and> P r d)
     | (Hang, s') \<Rightarrow> \<not> live | _ \<Rightarrow> False))"

lemma sendsD:
  assumes "sends live sent good m P" "good (os_oracle s)"
  shows "case io_attempt m s of
       (Ok r, s') \<Rightarrow> os_oracle s' = os_oracle s \<and> (\<exists>d. sent (os_trace s') = sent (os_trace s) @ d \<and> P r d)
     | (Hang, s') \<Rightarrow> \<not> live | _ \<Rightarrow> False"
  using assms by (simp add: sends_def)

lemma sends_return: "P (Inr x) [] \<Longrightarrow> sends live sent good (io_return x) P"
    "P (Inr x) [] \<Longrightarrow> sends live sent good (Pair (Ok x)) P"
  and sends_hang: "\<not> live \<Longrightarrow> sends live sent good (Pair Hang) P"
  by (simp_all add: sends_def io_attempt_def)

lemma sends_conseq:
  assumes "sends live sent good m P" "\<And>r d. P r d \<Longrightarrow> Q r d"
  shows "sends live sent good m Q"
  unfolding sends_def
proof (intro allI impI)
  fix s :: os assume "good (os_oracle s)"
  from sendsD [OF assms(1) this] assms(2)
  show "case io_attempt m s of
       (Ok r, s') \<Rightarrow> os_oracle s' = os_oracle s \<and> (\<exists>d. sent (os_trace s') = sent (os_trace s) @ d \<and> Q r d)
     | (Hang, s') \<Rightarrow> \<not> live | _ \<Rightarrow> False"
    by (auto split: prod.splits outcome.splits)
qed

lemma io_attempt_cong: "m s = m' s' \<Longrightarrow> io_attempt m s = io_attempt m' s'"
  by (simp add: io_attempt_def)

lemma sends_attempt_bind:
  assumes "sends live sent good m (\<lambda>r d. sends live sent good (f r) (\<lambda>r' d'. P r' (d @ d')))"
  shows "sends live sent good (io_bind (io_attempt m) f) P"
  unfolding sends_def
proof (intro allI impI)
  fix s :: os assume g: "good (os_oracle s)"
  obtain w s1 where w: "io_attempt m s = (w, s1)" by fastforce
  note a = sendsD [OF assms g, unfolded w]
  show "case io_attempt (io_bind (io_attempt m) f) s of
       (Ok r, s') \<Rightarrow> os_oracle s' = os_oracle s \<and> (\<exists>d. sent (os_trace s') = sent (os_trace s) @ d \<and> P r d)
     | (Hang, s') \<Rightarrow> \<not> live | _ \<Rightarrow> False"
  proof (cases w)
    case (Ok r)
    with a obtain d where d: "os_oracle s1 = os_oracle s" "sent (os_trace s1) = sent (os_trace s) @ d"
      "sends live sent good (f r) (\<lambda>r' d'. P r' (d @ d'))" by auto
    have run: "io_attempt (io_bind (io_attempt m) f) s = io_attempt (f r) s1"
      by (rule io_attempt_cong) (use w Ok in \<open>simp add: io_bind_def\<close>)
    have "good (os_oracle s1)" using d(1) g by simp
    from sendsD [OF d(3) this] d(1,2) show ?thesis
      unfolding run by (auto split: prod.splits outcome.splits)
  qed (use a w in \<open>unfold io_attempt_def [of "io_bind (io_attempt m) f"], simp_all add: io_bind_def\<close>)
qed

section \<open>What an operation accepts\<close>

text \<open>
  A buffered writer is well formed if its bytes fit into its capacity, that fits into an allocation, and no
  call of the inner writer is under way. An
  operation \<open>accepts\<close> with \<open>Q\<close>: it does not panic, ends if \<open>live\<close>, keeps this, and what has been sent and what is
  buffered afterwards is what it was before with \<open>d\<close> appended, for some \<open>d\<close> that \<open>Q\<close> describes.
\<close>

definition bw_ok :: "buf_writer \<Rightarrow> bool" where
  "bw_ok bw \<longleftrightarrow> length (bw_buf bw) \<le> bw_capacity bw \<and> bw_capacity bw < 2 ^ 63 \<and> \<not> bw_panicked bw"

definition accepts :: "bool \<Rightarrow> (trace \<Rightarrow> bytes) \<Rightarrow> ((trace \<Rightarrow> call \<Rightarrow> reply) \<Rightarrow> bool) \<Rightarrow> 'a bw \<Rightarrow> buf_writer
    \<Rightarrow> (io_error + 'a \<Rightarrow> bytes \<Rightarrow> buf_writer \<Rightarrow> bool) \<Rightarrow> bool" where
  "accepts live sent good m bw Q \<longleftrightarrow> (bw_ok bw \<longrightarrow> (\<forall>s. good (os_oracle s) \<longrightarrow> (case m bw s of
       (Ok (r, bw'), s') \<Rightarrow> os_oracle s' = os_oracle s \<and> bw_ok bw' \<and> bw_capacity bw' = bw_capacity bw
         \<and> (\<exists>d. sent (os_trace s') @ bw_buf bw' = sent (os_trace s) @ bw_buf bw @ d \<and> Q r d bw')
     | (Hang, s') \<Rightarrow> \<not> live | _ \<Rightarrow> False)))"

lemma acceptsD:
  assumes "accepts live sent good m bw Q" "bw_ok bw" "good (os_oracle s)"
  shows "case m bw s of
       (Ok (r, bw'), s') \<Rightarrow> os_oracle s' = os_oracle s \<and> bw_ok bw' \<and> bw_capacity bw' = bw_capacity bw
         \<and> (\<exists>d. sent (os_trace s') @ bw_buf bw' = sent (os_trace s) @ bw_buf bw @ d \<and> Q r d bw')
     | (Hang, s') \<Rightarrow> \<not> live | _ \<Rightarrow> False"
  using assms by (simp add: accepts_def)

lemma accepts_ret: "Q (Inr x) [] bw \<Longrightarrow> accepts live sent good (bw_ret x) bw Q"
  by (auto simp: accepts_def bw_ret_def)

lemma accepts_cong: "m bw = m' bw \<Longrightarrow> accepts live sent good m' bw Q \<Longrightarrow> accepts live sent good m bw Q"
  by (simp add: accepts_def)

lemma accepts_conseq:
  assumes "accepts live sent good m bw Q"
    "\<And>r d bw'. bw_ok bw \<Longrightarrow> bw_ok bw' \<Longrightarrow> bw_capacity bw' = bw_capacity bw \<Longrightarrow> Q r d bw' \<Longrightarrow> Q' r d bw'"
  shows "accepts live sent good m bw Q'"
  unfolding accepts_def
proof (intro impI allI)
  fix s :: os assume ok: "bw_ok bw" and g: "good (os_oracle s)"
  obtain w s1 where w: "m bw s = (w, s1)" by fastforce
  note a = acceptsD [OF assms(1) ok g, unfolded w]
  show "case m bw s of (Ok (r, bw'), s') \<Rightarrow> os_oracle s' = os_oracle s \<and> bw_ok bw' \<and> bw_capacity bw' = bw_capacity bw
         \<and> (\<exists>d. sent (os_trace s') @ bw_buf bw' = sent (os_trace s) @ bw_buf bw @ d \<and> Q' r d bw')
     | (Hang, s') \<Rightarrow> \<not> live | _ \<Rightarrow> False"
  proof (cases w)
    case (Ok p)
    obtain r bw1 where p: "p = (r, bw1)" by fastforce
    with a Ok assms(2) [OF ok, of bw1 r] w show ?thesis by auto
  qed (use a w in simp_all)
qed

lemma accepts_bind:
  assumes "accepts live sent good m bw (\<lambda>r d bw1. case r of Inl e \<Rightarrow> Q (Inl e) d bw1
    | Inr x \<Rightarrow> accepts live sent good (f x) bw1 (\<lambda>r' d' bw2. Q r' (d @ d') bw2))"
  shows "accepts live sent good (bw_bind m f) bw Q"
  unfolding accepts_def
proof (intro impI allI)
  fix s :: os assume ok: "bw_ok bw" and g: "good (os_oracle s)"
  obtain w s1 where w: "m bw s = (w, s1)" by fastforce
  note a = acceptsD [OF assms ok g, unfolded w]
  show "case bw_bind m f bw s of (Ok (r, bw'), s') \<Rightarrow> os_oracle s' = os_oracle s \<and> bw_ok bw'
         \<and> bw_capacity bw' = bw_capacity bw
         \<and> (\<exists>d. sent (os_trace s') @ bw_buf bw' = sent (os_trace s) @ bw_buf bw @ d \<and> Q r d bw')
     | (Hang, s') \<Rightarrow> \<not> live | _ \<Rightarrow> False"
  proof (cases w)
    case (Ok p)
    obtain r bw1 where p: "p = (r, bw1)" by fastforce
    show ?thesis
    proof (cases r)
      case (Inl e)
      with a w Ok p show ?thesis by (simp add: bw_bind_def io_bind_def bw_fail_def)
    next
      case (Inr x)
      with a Ok p obtain d where d: "os_oracle s1 = os_oracle s" "bw_ok bw1" "bw_capacity bw1 = bw_capacity bw"
        "sent (os_trace s1) @ bw_buf bw1 = sent (os_trace s) @ bw_buf bw @ d"
        "accepts live sent good (f x) bw1 (\<lambda>r' d' bw2. Q r' (d @ d') bw2)" by auto
      have run: "bw_bind m f bw s = f x bw1 s1" using w Ok p Inr by (simp add: bw_bind_def io_bind_def)
      have "good (os_oracle s1)" using d(1) g by simp
      note a2 = acceptsD [OF d(5,2) this]
      obtain w2 s2 where w2: "f x bw1 s1 = (w2, s2)" by fastforce
      show ?thesis
      proof (cases w2)
        case (Ok p2)
        obtain r2 bw2 where p2: "p2 = (r2, bw2)" by fastforce
        with a2 Ok w2 obtain d2 where "os_oracle s2 = os_oracle s1" "bw_ok bw2" "bw_capacity bw2 = bw_capacity bw1"
          "sent (os_trace s2) @ bw_buf bw2 = sent (os_trace s1) @ bw_buf bw1 @ d2" "Q r2 (d @ d2) bw2" by auto
        moreover have "sent (os_trace s1) @ bw_buf bw1 @ d2 = sent (os_trace s) @ bw_buf bw @ d @ d2"
          using d(4) by (metis append.assoc)
        ultimately show ?thesis using d(1,3) run w2 Ok p2 by auto
      qed (use a2 w2 run in simp_all)
    qed
  qed (use a w in \<open>simp_all add: bw_bind_def io_bind_def\<close>)
qed

lemma accepts_unchecked:
  assumes "length (bw_buf bw) + length b \<le> bw_capacity bw" "Q (Inr ()) b (bw\<lparr>bw_buf := bw_buf bw @ b\<rparr>)"
  shows "accepts live sent good (write_to_buffer_unchecked b) bw Q"
  using assms by (auto simp: accepts_def write_to_buffer_unchecked_def bw_ret_def bw_ok_def)


lemma accepts_lift:
  assumes "sends live sent good m P" "bw_buf bw = []" "\<And>r d. P r d \<Longrightarrow> Q r d bw"
  shows "accepts live sent good (bw_lift m) bw Q"
  unfolding accepts_def
proof (intro impI allI)
  fix s :: os assume ok: "bw_ok bw" and "good (os_oracle s)"
  from sendsD [OF assms(1) this(2)] ok assms(2,3) show "case bw_lift m bw s of
       (Ok (r, bw'), s') \<Rightarrow> os_oracle s' = os_oracle s \<and> bw_ok bw' \<and> bw_capacity bw' = bw_capacity bw
         \<and> (\<exists>d. sent (os_trace s') @ bw_buf bw' = sent (os_trace s) @ bw_buf bw @ d \<and> Q r d bw')
     | (Hang, s') \<Rightarrow> \<not> live | _ \<Rightarrow> False"
    by (auto simp: bw_lift_def io_bind_def split: prod.splits outcome.splits)
qed

lemma accepts_inner:
  assumes "sends live sent good m P" "bw_buf bw = []" "\<And>r d. P r d \<Longrightarrow> Q r d (bw\<lparr>bw_panicked := False\<rparr>)"
  shows "accepts live sent good (bw_inner m) bw Q"
  unfolding accepts_def
proof (intro impI allI)
  fix s :: os assume ok: "bw_ok bw" and "good (os_oracle s)"
  from sendsD [OF assms(1) this(2)] ok assms(2,3) show "case bw_inner m bw s of
       (Ok (r, bw'), s') \<Rightarrow> os_oracle s' = os_oracle s \<and> bw_ok bw' \<and> bw_capacity bw' = bw_capacity bw
         \<and> (\<exists>d. sent (os_trace s') @ bw_buf bw' = sent (os_trace s) @ bw_buf bw @ d \<and> Q r d bw')
     | (Hang, s') \<Rightarrow> \<not> live | _ \<Rightarrow> False"
    by (auto simp: bw_inner_def bw_ok_def io_bind_def split: prod.splits outcome.splits)
qed

section \<open>Writers that keep their contract\<close>

text \<open>
  The contract of a writer: a write that reports \<open>n\<close> has sent the first \<open>n\<close> bytes of its argument, one
  that fails none, and \<open>write_all\<close> a prefix, all of it on success. A \<open>live\<close> writer never fails, and takes
  at least one byte of an argument that has any.
\<close>

definition writes :: "bool \<Rightarrow> bytes \<Rightarrow> io_error + nat \<Rightarrow> bytes \<Rightarrow> bool" where
  "writes live b r d \<longleftrightarrow> (case r of Inl e \<Rightarrow> \<not> live \<and> d = []
    | Inr n \<Rightarrow> n \<le> length b \<and> d = take n b \<and> (live \<longrightarrow> b \<noteq> [] \<longrightarrow> 0 < n))"

definition writes_all :: "bool \<Rightarrow> bytes \<Rightarrow> io_error + unit \<Rightarrow> bytes \<Rightarrow> bool" where
  "writes_all live b r d \<longleftrightarrow> prefix d b \<and> (r = Inr () \<longrightarrow> d = b) \<and> (live \<longrightarrow> r = Inr ())"

lemma writes_simps [simp]:
  "writes live b (Inl e) d \<longleftrightarrow> \<not> live \<and> d = []"
  "writes live b (Inr n) d \<longleftrightarrow> n \<le> length b \<and> d = take n b \<and> (live \<longrightarrow> b \<noteq> [] \<longrightarrow> 0 < n)"
  "writes_all live b (Inr ()) d \<longleftrightarrow> d = b" "writes_all live b (Inl e) d \<longleftrightarrow> \<not> live \<and> prefix d b"
  by (auto simp: writes_def writes_all_def)

text \<open>
  The same for an operation on a buffered writer that held \<open>old\<close>; what is buffered in the end is a rest of
  that, and of the argument what has been accepted but not sent.
\<close>

definition wrote :: "bool \<Rightarrow> bytes \<Rightarrow> bytes \<Rightarrow> io_error + nat \<Rightarrow> bytes \<Rightarrow> buf_writer \<Rightarrow> bool" where
  "wrote live b old r d bw' \<longleftrightarrow> writes live b r d \<and> (\<exists>q p. suffix q old \<and> prefix p b \<and> bw_buf bw' = q @ p)"

definition wrote_all :: "bool \<Rightarrow> bytes \<Rightarrow> bytes \<Rightarrow> io_error + unit \<Rightarrow> bytes \<Rightarrow> buf_writer \<Rightarrow> bool" where
  "wrote_all live b old r d bw' \<longleftrightarrow> writes_all live b r d \<and> (\<exists>q. suffix q old \<and> (bw_buf bw' = q \<or> bw_buf bw' = q @ b))"

text \<open>What the loop of \<open>flush_buf\<close> has sent when the guard's counter has gone from \<open>written\<close> to \<open>w\<close>.\<close>

definition loop_flushed :: "bool \<Rightarrow> buf_writer \<Rightarrow> nat \<Rightarrow> io_error + ((io_error + unit) \<times> nat) \<times> buf_writer \<Rightarrow> bytes \<Rightarrow> bool" where
  "loop_flushed live bw written r d \<longleftrightarrow> (case r of Inl e \<Rightarrow> False
    | Inr ((r', w), bw1) \<Rightarrow> bw_buf bw1 = bw_buf bw \<and> bw_capacity bw1 = bw_capacity bw \<and> w \<le> length (bw_buf bw)
        \<and> (bw_panicked bw1 \<longrightarrow> bw_panicked bw) \<and> take written (bw_buf bw) @ d = take w (bw_buf bw) \<and> (r' = Inr () \<longrightarrow> w = length (bw_buf bw)) \<and> (live \<longrightarrow> r' = Inr ()))"

lemma loop_flushed_panicked:
  "loop_flushed live (bw\<lparr>bw_panicked := False\<rparr>) written r d \<Longrightarrow> loop_flushed live bw written r d"
  by (auto simp: loop_flushed_def split: sum.splits prod.splits)

locale writer_sink =
  fixes live :: bool and k :: sink and sent :: "trace \<Rightarrow> bytes" and good :: "(trace \<Rightarrow> call \<Rightarrow> reply) \<Rightarrow> bool"
  assumes sink_write: "sends live sent good (sk_write k b) (writes live b)"
    and sink_write_vectored: "sk_is_write_vectored k \<Longrightarrow> sends live sent good (sk_write_vectored k bufs) (writes live (concat bufs))"
    and sink_write_all: "(live \<Longrightarrow> length b < fuel) \<Longrightarrow> sends live sent good (sk_write_all k fuel b) (writes_all live b)"
    and sink_flush: "sends live sent good (sk_flush k) (\<lambda>r d. d = [] \<and> (live \<longrightarrow> r = Inr ()))"
begin

lemma flush_loop_sends:
  "written \<le> length (bw_buf bw) \<Longrightarrow> (live \<Longrightarrow> length (bw_buf bw) - written < fuel) \<Longrightarrow> sends live sent good (flush_loop k fuel written bw) (loop_flushed live bw written)"
proof (induction fuel arbitrary: written bw)
  case 0
  then have "\<not> live" by auto
  then show ?case by (simp add: sends_hang)
next
  case (Suc fuel)
  let ?b = "drop written (bw_buf bw)"
  let ?bw = "bw\<lparr>bw_panicked := False\<rparr>"
  let ?next = "\<lambda>r. case r of
      Inr n \<Rightarrow> if n = 0 then io_return ((Inl BUF_WRITE_ZERO, written), ?bw) else flush_loop k fuel (written + n) ?bw
    | Inl e \<Rightarrow> if is_interrupted e then flush_loop k fuel written ?bw else io_return ((Inl e, written), ?bw)"
  show ?case
  proof (cases "written < length (bw_buf bw)")
    case False
    then show ?thesis using Suc.prems by (auto simp: loop_flushed_def intro: sends_return)
  next
    case True
    have "sends live sent good (?next r) (\<lambda>r' d'. loop_flushed live bw written r' (d @ d'))" if w: "writes live ?b r d" for r d
    proof (cases r)
      case (Inl e)
      then have l: "\<not> live" using w by simp
      then have "sends live sent good (flush_loop k fuel written ?bw) (loop_flushed live bw written)"
        using Suc.IH [of written ?bw] Suc.prems by (auto elim!: sends_conseq intro: loop_flushed_panicked)
      moreover have "loop_flushed live bw written (Inr ((Inl e, written), ?bw)) []"
        using Suc.prems l by (simp add: loop_flushed_def)
      ultimately show ?thesis using w Inl by (simp add: sends_return)
    next
      case (Inr n)
      with w True have n: "written + n \<le> length (bw_buf bw)" "d = take n ?b" "live \<Longrightarrow> 0 < n" by auto
      have less: "length (bw_buf bw) - (written + n) < fuel" if live
        using Suc.prems(2) [OF that] n(3) [OF that] True by linarith
      have "sends live sent good (flush_loop k fuel (written + n) ?bw) (loop_flushed live bw (written + n))"
        using Suc.IH [of "written + n" ?bw] n(1) less by (auto elim!: sends_conseq intro: loop_flushed_panicked)
      then have "sends live sent good (flush_loop k fuel (written + n) ?bw) (\<lambda>r' d'. loop_flushed live bw written r' (d @ d'))"
        by (rule sends_conseq) (auto simp: loop_flushed_def n(2) take_add split: sum.splits)
      moreover have "n = 0 \<Longrightarrow> loop_flushed live bw written (Inr ((Inl BUF_WRITE_ZERO, written), ?bw)) []"
        using Suc.prems n(3) by (auto simp: loop_flushed_def)
      ultimately show ?thesis using Inr n(2) by (simp add: sends_return)
    qed
    then have "sends live sent good (io_bind (io_attempt (sk_write k ?b)) ?next) (loop_flushed live bw written)"
      by (intro sends_attempt_bind sends_conseq [OF sink_write [of ?b]])
    then show ?thesis using True by (simp add: bw_inner_def)
  qed
qed

lemma accepts_flush_buf:
  assumes "\<And>r b p. suffix b (bw_buf bw) \<Longrightarrow> (r = Inr () \<Longrightarrow> b = []) \<Longrightarrow> (live \<Longrightarrow> r = Inr ()) \<Longrightarrow> Q r [] (bw\<lparr>bw_buf := b, bw_panicked := p\<rparr>)"
    "live \<Longrightarrow> bw_capacity bw < fuel"
  shows "accepts live sent good (flush_buf k fuel) bw Q"
  unfolding accepts_def
proof (intro impI allI)
  fix s :: os assume ok: "bw_ok bw" and g: "good (os_oracle s)"
  obtain w s1 where w: "flush_loop k fuel 0 bw s = (w, s1)" by fastforce
  have "live \<Longrightarrow> length (bw_buf bw) - 0 < fuel" using ok assms(2) by (simp add: bw_ok_def)
  note a = sendsD [OF flush_loop_sends [of 0 bw fuel, OF _ this] g, OF le0]
  show "case flush_buf k fuel bw s of
       (Ok (r, bw'), s') \<Rightarrow> os_oracle s' = os_oracle s \<and> bw_ok bw' \<and> bw_capacity bw' = bw_capacity bw
         \<and> (\<exists>d. sent (os_trace s') @ bw_buf bw' = sent (os_trace s) @ bw_buf bw @ d \<and> Q r d bw')
     | (Hang, s') \<Rightarrow> \<not> live | _ \<Rightarrow> False"
  proof (cases w)
    case (Ok x)
    obtain r n bw1 where x: "x = ((r, n), bw1)" by (cases x) auto
    with a w Ok have *: "os_oracle s1 = os_oracle s" "sent (os_trace s1) = sent (os_trace s) @ take n (bw_buf bw)"
      "bw_buf bw1 = bw_buf bw" "bw_capacity bw1 = bw_capacity bw" "n \<le> length (bw_buf bw)"
      "r = Inr () \<longrightarrow> n = length (bw_buf bw)" "live \<longrightarrow> r = Inr ()" "\<not> bw_panicked bw1" using ok by (auto simp: io_attempt_def loop_flushed_def bw_ok_def)
    let ?bw = "bw\<lparr>bw_buf := drop n (bw_buf bw), bw_panicked := bw_panicked bw1\<rparr>"
    have "flush_buf k fuel bw s = (Ok (r, ?bw), s1)"
      using w Ok x * by (cases n) (auto simp: flush_buf_def io_bind_def guard_drop_def bw_ret_def)
    moreover have "Q r [] ?bw" using * by (intro assms) (simp_all add: suffix_drop)
    ultimately show ?thesis using * ok by (auto simp: bw_ok_def)
  qed (use a w in \<open>auto simp: io_attempt_def flush_buf_def io_bind_def loop_flushed_def\<close>)
qed

text \<open>The flush that makes room for \<open>n\<close> bytes, where there is not enough.\<close>

lemma accepts_make_room:
  assumes "\<And>r b p. suffix b (bw_buf bw) \<Longrightarrow> (r = Inr () \<Longrightarrow> b = [] \<or> b = bw_buf bw \<and> length b + n \<le> bw_capacity bw)
    \<Longrightarrow> (live \<Longrightarrow> r = Inr ()) \<Longrightarrow> Q r [] (bw\<lparr>bw_buf := b, bw_panicked := p\<rparr>)"
    "live \<Longrightarrow> bw_capacity bw < fuel"
  shows "accepts live sent good (if n > spare_capacity bw then flush_buf k fuel else bw_ret ()) bw Q"
proof (cases "n > spare_capacity bw")
  case True
  then show ?thesis by (simp add: accepts_flush_buf assms)
next
  case False
  then have "accepts live sent good (bw_ret ()) bw (\<lambda>r d bw'. d = [] \<and> r = Inr () \<and> bw' = bw)" by (intro accepts_ret) simp
  then have "accepts live sent good (bw_ret ()) bw Q"
  proof (rule accepts_conseq)
    fix r :: "io_error + unit" and d :: bytes and bw' assume "bw_ok bw" "d = [] \<and> r = Inr () \<and> bw' = bw"
    moreover from this False have "length (bw_buf bw) + n \<le> bw_capacity bw"
      unfolding spare_capacity_def bw_ok_def by linarith
    ultimately show "Q r d bw'" using assms(1) [of "bw_buf bw" "Inr ()" "bw_panicked bw"] by simp
  qed
  with False show ?thesis by simp
qed

text \<open>With room made, the argument goes to the writer if it is large, and into the buffer otherwise.\<close>

lemma accepts_put:
  assumes "bw_buf bw1 = [] \<or> length (bw_buf bw1) + length b \<le> bw_capacity bw1"
    "\<And>r d. P r d \<Longrightarrow> bw_buf bw1 = [] \<Longrightarrow> Q r d (bw1\<lparr>bw_panicked := False\<rparr>)" "sends live sent good m P"
    "accepts live sent good f (bw1\<lparr>bw_buf := bw_buf bw1 @ b\<rparr>) (\<lambda>r d. Q r (b @ d))"
  shows "accepts live sent good (\<lambda>bw1. if length b \<ge> bw_capacity bw1 then bw_inner m bw1
    else bw_bind (write_to_buffer_unchecked b) (\<lambda>_. f) bw1) bw1 Q"
proof (cases "length b \<ge> bw_capacity bw1")
  case True
  then have e: "bw_buf bw1 = []" using assms(1) by (cases "bw_buf bw1") auto
  have "accepts live sent good (bw_inner m) bw1 Q" using e assms(2) by (intro accepts_inner [OF assms(3)])
  then show ?thesis by (rule accepts_cong [rotated]) (use True in simp)
next
  case False
  then have "accepts live sent good (bw_bind (write_to_buffer_unchecked b) (\<lambda>_. f)) bw1 Q"
    using assms(1,4) by (intro accepts_bind accepts_unchecked) auto
  then show ?thesis by (rule accepts_cong [rotated]) (use False in simp)
qed

lemma wrote_direct: "writes live b r d \<Longrightarrow> bw_buf bw' = [] \<Longrightarrow> wrote live b old r d bw'"
  and wrote_all_direct: "writes_all live b r' d \<Longrightarrow> bw_buf bw' = [] \<Longrightarrow> wrote_all live b old r' d bw'"
  and wrote_buffered: "suffix q old \<Longrightarrow> bw_buf bw' = q @ b \<Longrightarrow> wrote live b old (Inr (length b)) b bw'"
  and wrote_all_buffered: "suffix q old \<Longrightarrow> bw_buf bw' = q @ b \<Longrightarrow> wrote_all live b old (Inr ()) b bw'"
  and wrote_not: "\<not> live \<Longrightarrow> suffix q old \<Longrightarrow> bw_buf bw' = q \<Longrightarrow> wrote live b old (Inl e) [] bw'"
  and wrote_all_not: "\<not> live \<Longrightarrow> suffix q old \<Longrightarrow> bw_buf bw' = q \<Longrightarrow> wrote_all live b old (Inl e) [] bw'"
  by (auto simp: wrote_def wrote_all_def intro: exI [of _ "[]"])

lemma accepts_bw_write:
  assumes fuel: "live \<Longrightarrow> bw_capacity bw < fuel"
  shows "accepts live sent good (bw_write k fuel b) bw (wrote live b (bw_buf bw))"
proof (cases "length b < spare_capacity bw")
  case True
  have "accepts live sent good (bw_bind (write_to_buffer_unchecked b) (\<lambda>_. bw_ret (length b))) bw (wrote live b (bw_buf bw))"
    by (intro accepts_bind accepts_unchecked)
      (use True in \<open>auto intro!: accepts_ret wrote_buffered simp: spare_capacity_def\<close>)
  then show ?thesis by (rule accepts_cong [rotated]) (use True in \<open>simp add: bw_write_def\<close>)
next
  case False
  have "accepts live sent good (write_cold k fuel b) bw (wrote live b (bw_buf bw))"
  proof (rule accepts_cong [OF write_cold_def], intro accepts_bind accepts_make_room, goal_cases)
    case (1 r q p)
    show ?case
    proof (cases r)
      case (Inl e)
      with 1(1,3) show ?thesis by (auto intro: wrote_not)
    next
      case (Inr x)
      let ?bw = "bw\<lparr>bw_buf := q, bw_panicked := p\<rparr>"
      have "accepts live sent good (bw_ret (length b)) (?bw\<lparr>bw_buf := bw_buf ?bw @ b\<rparr>) (\<lambda>r d. wrote live b (bw_buf bw) r (b @ d))"
        using 1(1) by (intro accepts_ret) (simp add: wrote_buffered)
      then show ?thesis unfolding Inr using 1(2) Inr
        by (auto intro!: accepts_put [where P = "writes live b" and f = "bw_ret (length b)"] sink_write wrote_direct)
    qed
  qed (rule fuel)
  then show ?thesis by (rule accepts_cong [rotated]) (use False in \<open>simp add: bw_write_def\<close>)
qed

lemma accepts_bw_write_all:
  assumes fuel: "live \<Longrightarrow> bw_capacity bw < fuel" "live \<Longrightarrow> length b < fuel"
  shows "accepts live sent good (bw_write_all k fuel b) bw (wrote_all live b (bw_buf bw))"
proof (cases "length b < spare_capacity bw")
  case True
  have "accepts live sent good (write_to_buffer_unchecked b) bw (wrote_all live b (bw_buf bw))"
    by (intro accepts_unchecked) (use True in \<open>auto intro!: wrote_all_buffered simp: spare_capacity_def\<close>)
  then show ?thesis by (rule accepts_cong [rotated]) (use True in \<open>simp add: bw_write_all_def\<close>)
next
  case False
  have "accepts live sent good (write_all_cold k fuel b) bw (wrote_all live b (bw_buf bw))"
  proof (rule accepts_cong [OF write_all_cold_def], intro accepts_bind accepts_make_room, goal_cases)
    case (1 r q p)
    show ?case
    proof (cases r)
      case (Inl e)
      with 1(1,3) show ?thesis by (auto intro: wrote_all_not)
    next
      case (Inr x)
      let ?bw = "bw\<lparr>bw_buf := q, bw_panicked := p\<rparr>"
      have "accepts live sent good (bw_ret ()) (?bw\<lparr>bw_buf := bw_buf ?bw @ b\<rparr>) (\<lambda>r d. wrote_all live b (bw_buf bw) r (b @ d))"
        using 1(1) by (intro accepts_ret) (simp add: wrote_all_buffered)
      then have "accepts live sent good (\<lambda>bw1. if length b \<ge> bw_capacity bw1 then bw_inner (sk_write_all k fuel b) bw1
          else bw_bind (write_to_buffer_unchecked b) (\<lambda>_. bw_ret ()) bw1) ?bw (wrote_all live b (bw_buf bw))"
        using 1(2) Inr fuel(2) by (intro accepts_put [where P = "writes_all live b"] sink_write_all) (auto intro: wrote_all_direct)
      then have "accepts live sent good (\<lambda>bw1. if length b \<ge> bw_capacity bw1 then bw_inner (sk_write_all k fuel b) bw1
          else write_to_buffer_unchecked b bw1) ?bw (wrote_all live b (bw_buf bw))"
        by (rule accepts_cong [rotated])
          (simp add: write_to_buffer_unchecked_def bw_bind_def bw_ret_def io_bind_def fun_eq_iff)
      then show ?thesis unfolding Inr by simp
    qed
  qed (rule fuel)
  then show ?thesis by (rule accepts_cong [rotated]) (use False in \<open>simp add: bw_write_all_def\<close>)
qed

lemma accepts_buffer_all:
  "length (bw_buf bw) + length (concat bs) \<le> bw_capacity bw \<Longrightarrow>
   accepts live sent good (buffer_all bs) bw (\<lambda>r d bw'. r = Inr () \<and> d = concat bs \<and> bw_buf bw' = bw_buf bw @ d)"
proof (induction bs arbitrary: bw)
  case (Cons b bs)
  let ?bw = "bw\<lparr>bw_buf := bw_buf bw @ b\<rparr>"
  have "accepts live sent good (buffer_all bs) ?bw (\<lambda>r d bw'. r = Inr () \<and> b @ d = concat (b # bs) \<and> bw_buf bw' = bw_buf bw @ b @ d)"
    using Cons.IH [of ?bw] Cons.prems by (auto elim!: accepts_conseq)
  then show ?case using Cons.prems by (auto intro!: accepts_bind accepts_unchecked)
qed (simp add: accepts_ret)

lemma accepts_buffer_fitting:
  "accepts live sent good (buffer_fitting bs len) bw (\<lambda>r d bw'. r = Inr (len + length d) \<and> prefix d (concat bs)
     \<and> bw_buf bw' = bw_buf bw @ d)"
proof (induction bs arbitrary: bw len)
  case (Cons b bs)
  show ?case
  proof (cases "length b \<le> spare_capacity bw \<and> bw_ok bw")
    case True
    let ?bw = "bw\<lparr>bw_buf := bw_buf bw @ b\<rparr>"
    have "accepts live sent good (buffer_fitting bs (len + length b)) ?bw (\<lambda>r d bw'. r = Inr (len + length (b @ d))
        \<and> prefix (b @ d) (concat (b # bs)) \<and> bw_buf bw' = bw_buf bw @ b @ d)"
      using Cons.IH [of "len + length b" ?bw] by (auto elim!: accepts_conseq)
    then have "accepts live sent good (bw_bind (write_to_buffer_unchecked b) (\<lambda>_. buffer_fitting bs (len + length b))) bw
        (\<lambda>r d bw'. r = Inr (len + length d) \<and> prefix d (concat (b # bs)) \<and> bw_buf bw' = bw_buf bw @ d)"
      using True by (auto intro!: accepts_bind accepts_unchecked simp: spare_capacity_def bw_ok_def)
    then show ?thesis by (rule accepts_cong [rotated]) (use True in simp)
  next
    case False
    have "accepts live sent good (bw_ret len) bw (\<lambda>r d bw'. r = Inr (len + length d) \<and> prefix d (concat (b # bs))
        \<and> bw_buf bw' = bw_buf bw @ d)" by (simp add: accepts_ret)
    with False show ?thesis by (auto simp: accepts_def)
  qed
qed (simp add: accepts_ret)

text \<open>Over a writer with vectored writes: everything goes into the buffer, or one vectored write gets it all.\<close>

lemma accepts_vectored_loop:
  assumes v: "sk_is_write_vectored k"
  shows "bufs = ps @ rest \<Longrightarrow> len = length (concat ps) \<Longrightarrow> length (bw_buf bw) + len \<le> bw_capacity bw \<Longrightarrow> suffix (bw_buf bw) old
    \<Longrightarrow> (live \<Longrightarrow> bw_capacity bw < fuel) \<Longrightarrow> accepts live sent good (vectored_loop k fuel bufs rest len) bw (wrote live (concat bufs) old)"
proof (induction rest arbitrary: ps len bw)
  case Nil
  have "wrote live (concat bufs) old (Inr len) d bw'" if "d = concat bufs" "bw_buf bw' = bw_buf bw @ d" for d bw'
    using Nil that by (auto simp: wrote_def)
  then have "accepts live sent good (bw_bind (buffer_all bufs) (\<lambda>_. bw_ret len)) bw (wrote live (concat bufs) old)"
    using Nil by (auto intro!: accepts_bind accepts_ret accepts_conseq [OF accepts_buffer_all])
  then show ?case by simp
next
  case (Cons b rest)
  let ?n = "sat_add len (length b)"
  have "accepts live sent good (if ?n > spare_capacity bw \<and> bw_buf bw \<noteq> [] then flush_buf k fuel else bw_ret ()) bw
      (\<lambda>r d bw'. d = [] \<and> bw_capacity bw' = bw_capacity bw \<and> suffix (bw_buf bw') old
        \<and> (r = Inr () \<longrightarrow> bw_buf bw' = [] \<or> ?n \<le> spare_capacity bw \<and> bw_buf bw' = bw_buf bw) \<and> (live \<longrightarrow> r = Inr ()))"
    using Cons.prems(4,5) by (auto intro!: accepts_flush_buf accepts_ret intro: suffix_order.trans)
  then have "accepts live sent good (bw_bind (if ?n > spare_capacity bw \<and> bw_buf bw \<noteq> [] then flush_buf k fuel else bw_ret ())
     (\<lambda>_ bw1. if ?n \<ge> bw_capacity bw1 then bw_inner (sk_write_vectored k bufs) bw1
        else vectored_loop k fuel bufs rest ?n bw1)) bw (wrote live (concat bufs) old)"
  proof (intro accepts_bind, elim accepts_conseq, goal_cases)
    case (1 r d bw1)
    show ?case
    proof (cases r)
      case (Inl e)
      then have "\<not> live" using 1 by auto
      with 1 Inl show ?thesis by (auto simp: wrote_def)
    next
      case (Inr x)
      have room: "bw_buf bw1 = [] \<or> length (bw_buf bw1) + ?n \<le> bw_capacity bw1"
        using 1 Inr by (auto simp: spare_capacity_def bw_ok_def)
      have "accepts live sent good (\<lambda>bw1. if ?n \<ge> bw_capacity bw1 then bw_inner (sk_write_vectored k bufs) bw1
        else vectored_loop k fuel bufs rest ?n bw1) bw1 (wrote live (concat bufs) old)"
      proof (cases "?n \<ge> bw_capacity bw1")
        case True
        then have "bw_buf bw1 = []" using room by (cases "bw_buf bw1") auto
        then have "accepts live sent good (bw_inner (sk_write_vectored k bufs)) bw1 (wrote live (concat bufs) old)"
          by (intro accepts_inner [OF sink_write_vectored [OF v]]) (simp_all add: wrote_direct)
        then show ?thesis by (rule accepts_cong [rotated]) (use True in simp)
      next
        case False
        then have n: "?n = length (concat (ps @ [b]))"
          using 1 Cons.prems(2) by (simp add: sat_add_def bw_ok_def)
        have "accepts live sent good (vectored_loop k fuel bufs rest ?n) bw1 (wrote live (concat bufs) old)"
          using Cons.prems(1,5) n room False 1 by (intro Cons.IH [of "ps @ [b]"]) auto
        then show ?thesis by (rule accepts_cong [rotated]) (use False in simp)
      qed
      with 1 Inr show ?thesis by simp
    qed
  qed
  then show ?case by (rule accepts_cong [rotated]) (simp add: Let_def)
qed

lemma concat_dropWhile_Nil: "concat (dropWhile (\<lambda>b. b = []) bufs) = concat bufs"
  by (induction bufs) auto

lemma accepts_bw_write_vectored:
  assumes fuel: "live \<Longrightarrow> bw_capacity bw < fuel"
  shows "accepts live sent good (bw_write_vectored k fuel bufs) bw (wrote live (concat bufs) (bw_buf bw))"
proof (cases "sk_is_write_vectored k")
  case True
  have "accepts live sent good (vectored_loop k fuel bufs bufs 0) bw (wrote live (concat bufs) (bw_buf bw))" if "bw_ok bw"
    using that fuel by (intro accepts_vectored_loop [OF True, of _ "[]"]) (simp_all add: bw_ok_def)
  with True show ?thesis by (simp add: accepts_def bw_write_vectored_def)
next
  case False
  show ?thesis
  proof (cases "dropWhile (\<lambda>b. b = []) bufs")
    case Nil
    have c: "concat bufs = concat []" unfolding Nil [symmetric] by (rule concat_dropWhile_Nil [symmetric])
    have "accepts live sent good (bw_ret 0) bw (wrote live (concat bufs) (bw_buf bw))"
      unfolding c using wrote_buffered [of "bw_buf bw" "bw_buf bw" bw "[]"] by (intro accepts_ret) simp
    then show ?thesis by (rule accepts_cong [rotated]) (use False in \<open>simp add: bw_write_vectored_def Nil del: dropWhile_eq_Nil_conv\<close>)
  next
    case (Cons b iter)
    have ne: "b \<noteq> []" using Cons by (auto simp: dropWhile_eq_Cons_conv)
    have c: "concat bufs = b @ concat iter" using concat_dropWhile_Nil [of bufs] Cons by simp
    have "accepts live sent good (bw_bind (if length b > spare_capacity bw then flush_buf k fuel else bw_ret ()) (\<lambda>_ bw1.
           if length b \<ge> bw_capacity bw1 then bw_inner (sk_write k b) bw1
           else bw_bind (write_to_buffer_unchecked b) (\<lambda>_. buffer_fitting iter (length b)) bw1)) bw
        (wrote live (concat bufs) (bw_buf bw))"
    proof (intro accepts_bind accepts_make_room, goal_cases)
      case (1 r q p)
      show ?case
      proof (cases r)
        case (Inl e)
        with 1(1,3) show ?thesis by (auto intro: wrote_not)
      next
        case (Inr x)
        let ?bw = "bw\<lparr>bw_buf := q, bw_panicked := p\<rparr>"
        have "wrote live (concat bufs) (bw_buf bw) (Inr (length b + length d)) (b @ d) bw'"
          if "prefix d (concat iter)" "bw_buf bw' = (q @ b) @ d" for d bw'
          using that 1(1) ne unfolding wrote_def c by (auto simp: prefix_def)
        then have "accepts live sent good (buffer_fitting iter (length b)) (?bw\<lparr>bw_buf := bw_buf ?bw @ b\<rparr>)
            (\<lambda>r d. wrote live (concat bufs) (bw_buf bw) r (b @ d))"
          by (intro accepts_conseq [OF accepts_buffer_fitting]) auto
        moreover have "wrote live (concat bufs) (bw_buf bw) r d bw'" if "writes live b r d" "bw_buf bw' = []" for r d bw'
          using that ne unfolding c by (cases r) (auto simp: wrote_def)
        ultimately show ?thesis unfolding Inr using 1(2) Inr
          by (auto intro!: accepts_put [where P = "writes live b"] sink_write)
      qed
    qed (rule fuel)
    then show ?thesis by (rule accepts_cong [rotated]) (use False Cons in \<open>simp add: bw_write_vectored_def\<close>)
  qed
qed

lemma accepts_bw_flush:
  assumes fuel: "live \<Longrightarrow> bw_capacity bw < fuel"
  shows "accepts live sent good (bw_flush k fuel) bw (\<lambda>r d bw'. d = [] \<and> suffix (bw_buf bw') (bw_buf bw) \<and> (r = Inr () \<longrightarrow> bw_buf bw' = []) \<and> (live \<longrightarrow> r = Inr ()))"
  unfolding bw_flush_def
proof (intro accepts_bind accepts_flush_buf, goal_cases)
  case (1 r b p)
  then show ?case by (cases r) (auto intro!: accepts_lift [OF sink_flush])
qed (rule fuel)

lemma accepts_write_to_buf:
  "accepts live sent good (write_to_buf b) bw (\<lambda>r d bw'. d = take (spare_capacity bw) b \<and> r = Inr (length d) \<and> bw_buf bw' = bw_buf bw @ d)"
proof -
  have "accepts live sent good (bw_bind (write_to_buffer_unchecked (take (spare_capacity bw) b)) (\<lambda>_. bw_ret (min (spare_capacity bw) (length b)))) bw
      (\<lambda>r d bw'. d = take (spare_capacity bw) b \<and> r = Inr (length d) \<and> bw_buf bw' = bw_buf bw @ d)"
    if "bw_ok bw"
    using that by (intro accepts_bind accepts_unchecked) (auto simp: spare_capacity_def bw_ok_def min_def intro!: accepts_ret)
  moreover have "take (min (spare_capacity bw) (length b)) b = take (spare_capacity bw) b" by (simp add: min_def)
  ultimately show ?thesis by (simp add: accepts_def write_to_buf_def Let_def)
qed

end

end
