(* ===== verification/Memchr.thy ===== *)
theory Memchr
  imports Prelude
begin

unbundle bit_operations_syntax

text \<open>
  Byte search (\<open>core/src/slice/memchr.rs\<close>): \<open>memchr\<close> and \<open>memrchr\<close> read two words at a time and test both
  for a zero byte. A slice is its bytes and the address of the first; a word is read through a raw
  pointer, which is defined only inside the slice and on an aligned address.
\<close>

section \<open>Words of bytes\<close>

text \<open>\<open>usize::from_ne_bytes\<close> on a little-endian machine.\<close>

fun usize_from_ne_bytes :: "bytes \<Rightarrow> u64" where
  "usize_from_ne_bytes [] = 0"
| "usize_from_ne_bytes (b # bs) = ucast b OR push_bit 8 (usize_from_ne_bytes bs)"

definition repeat_u8 :: "u8 \<Rightarrow> u64" where
  "repeat_u8 x = usize_from_ne_bytes (replicate 8 x)"

definition LO_USIZE :: u64 where "LO_USIZE = repeat_u8 0x01"
definition HI_USIZE :: u64 where "HI_USIZE = repeat_u8 0x80"

definition contains_zero_byte :: "u64 \<Rightarrow> bool" where
  "contains_zero_byte x \<longleftrightarrow> (x - LO_USIZE) AND NOT x AND HI_USIZE \<noteq> 0"

text \<open>\<open>*(ptr.add(offset) as *const usize)\<close>.\<close>

definition read_word :: "nat \<Rightarrow> bytes \<Rightarrow> nat \<Rightarrow> u64 option" where
  "read_word addr xs offset =
    (if offset + 8 \<le> length xs \<and> (addr + offset) mod 8 = 0
     then Some (usize_from_ne_bytes (take 8 (drop offset xs))) else None)"

definition align_offset :: "nat \<Rightarrow> nat \<Rightarrow> nat" where
  "align_offset addr n = (n - addr mod n) mod n"

section \<open>The searches\<close>

fun memchr_naive :: "u8 \<Rightarrow> bytes \<Rightarrow> nat option" where
  "memchr_naive x [] = None"
| "memchr_naive x (b # bs) = (if b = x then Some 0 else map_option Suc (memchr_naive x bs))"

text \<open>\<open>iter().rposition(|elt| *elt == x)\<close>.\<close>

fun rposition_byte :: "u8 \<Rightarrow> bytes \<Rightarrow> nat option" where
  "rposition_byte x [] = None"
| "rposition_byte x (b # bs) = (case rposition_byte x bs of
      Some i \<Rightarrow> Some (Suc i) | None \<Rightarrow> if b = x then Some 0 else None)"

text \<open>The body loops; the outer \<open>option\<close> is \<open>None\<close> for a read that is not defined.\<close>

function memchr_body :: "nat \<Rightarrow> bytes \<Rightarrow> u64 \<Rightarrow> nat \<Rightarrow> nat option" where
  "memchr_body addr xs repeated_x offset =
    (if offset \<le> length xs - 2 * 8 then
       (case read_word addr xs offset of None \<Rightarrow> None | Some u \<Rightarrow>
        case read_word addr xs (offset + 8) of None \<Rightarrow> None | Some v \<Rightarrow>
          if contains_zero_byte (u XOR repeated_x) \<or> contains_zero_byte (v XOR repeated_x) then Some offset
          else memchr_body addr xs repeated_x (offset + 8 * 2))
     else Some offset)"
  by auto
termination
  by (relation "measure (\<lambda>(addr, xs, r, offset). length xs - offset)")
     (auto simp: read_word_def split: if_splits)

definition memchr_aligned :: "nat \<Rightarrow> u8 \<Rightarrow> bytes \<Rightarrow> nat option option" where
  "memchr_aligned addr x xs =
    (let offset0 = align_offset addr 8; offset = min offset0 (length xs)
     in case (if offset0 > 0 then memchr_naive x (take offset xs) else None) of
          Some index \<Rightarrow> Some (Some index)
        | None \<Rightarrow> (case memchr_body addr xs (repeat_u8 x) (if offset0 > 0 then offset else offset0) of
            None \<Rightarrow> None
          | Some stop \<Rightarrow> Some (case memchr_naive x (drop stop xs) of Some i \<Rightarrow> Some (stop + i) | None \<Rightarrow> None)))"

definition memchr :: "nat \<Rightarrow> u8 \<Rightarrow> bytes \<Rightarrow> nat option option" where
  "memchr addr x xs = (if length xs < 2 * 8 then Some (memchr_naive x xs) else memchr_aligned addr x xs)"

text \<open>\<open>align_to::<(usize, usize)>\<close>: the lengths of the prefix and of the suffix around whole pairs of words.\<close>

definition align_to_pairs :: "nat \<Rightarrow> bytes \<Rightarrow> nat \<times> nat" where
  "align_to_pairs addr xs =
    (let offset = align_offset addr 8
     in if offset > length xs then (length xs, 0) else (offset, (length xs - offset) mod 16))"

function memrchr_body :: "nat \<Rightarrow> bytes \<Rightarrow> u64 \<Rightarrow> nat \<Rightarrow> nat \<Rightarrow> nat option" where
  "memrchr_body addr xs repeated_x lo offset =
    (if offset > lo then
       (if offset < 2 * 8 then None else
        case read_word addr xs (offset - 2 * 8) of None \<Rightarrow> None | Some u \<Rightarrow>
        case read_word addr xs (offset - 8) of None \<Rightarrow> None | Some v \<Rightarrow>
          if contains_zero_byte (u XOR repeated_x) \<or> contains_zero_byte (v XOR repeated_x) then Some offset
          else memrchr_body addr xs repeated_x lo (offset - 2 * 8))
     else Some offset)"
  by auto
termination
  by (relation "measure (\<lambda>(addr, xs, r, lo, offset). offset)") auto

definition memrchr :: "nat \<Rightarrow> u8 \<Rightarrow> bytes \<Rightarrow> nat option option" where
  "memrchr addr x xs =
    (case align_to_pairs addr xs of (prefix, suffix) \<Rightarrow>
     let max_aligned_offset = length xs - suffix
     in case rposition_byte x (drop max_aligned_offset xs) of
          Some index \<Rightarrow> Some (Some (max_aligned_offset + index))
        | None \<Rightarrow> (case memrchr_body addr xs (repeat_u8 x) prefix max_aligned_offset of
            None \<Rightarrow> None
          | Some offset \<Rightarrow> Some (rposition_byte x (take offset xs))))"

declare memchr_body.simps [simp del] memrchr_body.simps [simp del]

section \<open>A word without a zero byte\<close>

fun le_val :: "bytes \<Rightarrow> nat" where
  "le_val [] = 0"
| "le_val (b # bs) = unat b + 256 * le_val bs"

lemma le_val_append: "le_val (xs @ ys) = le_val xs + 256 ^ length xs * le_val ys"
  by (induction xs) (simp_all add: algebra_simps)

lemma le_val_less: "le_val xs < 256 ^ length xs"
proof (induction xs)
  case (Cons b bs)
  then show ?case using unat_u8 [of b] by simp
qed simp

lemma le_val_ones: "0 \<notin> set xs \<Longrightarrow> le_val (replicate (length xs) 1) \<le> le_val xs"
proof (induction xs)
  case (Cons b bs)
  then have "1 \<le> unat b" by (simp add: Suc_leI unat_gt_0)
  with Cons show ?case by simp
qed simp

lemma usize_bit:
  "length bs \<le> 8 \<Longrightarrow> n < 64 \<Longrightarrow> bit (usize_from_ne_bytes bs) n \<longleftrightarrow> n < 8 * length bs \<and> bit (bs ! (n div 8)) (n mod 8)"
proof (induction bs arbitrary: n)
  case (Cons b bs)
  have b: "bit (ucast b :: u64) n \<longleftrightarrow> n < 8 \<and> bit b n"
    using Cons.prems by (auto simp: bit_simps dest: bit_imp_le_length)
  show ?case
  proof (cases "n < 8")
    case True
    then show ?thesis using b by (simp add: bit_simps)
  next
    case False
    then obtain m where m: "n = m + 8" using le_Suc_ex [of 8 n] by (auto simp: add.commute)
    moreover have "(m + 8) div 8 = Suc (m div 8)" by simp
    ultimately show ?thesis using Cons.IH [of m] Cons.prems b by (auto simp: bit_simps)
  qed
qed simp

lemma usize_val: "length bs \<le> 8 \<Longrightarrow> unat (usize_from_ne_bytes bs) = le_val bs"
proof (induction bs)
  case (Cons b bs)
  let ?w = "usize_from_ne_bytes bs"
  have small: "le_val (b # bs) < 2 ^ 64"
  proof -
    have "(256 :: nat) ^ length (b # bs) \<le> 256 ^ 8" using Cons.prems by (intro power_increasing) auto
    with le_val_less [of "b # bs"] show ?thesis by simp
  qed
  have "(ucast b :: u64) AND push_bit 8 ?w = 0"
    by (rule bit_eqI) (auto simp: bit_simps dest: bit_imp_le_length)
  then have "usize_from_ne_bytes (b # bs) = ucast b + push_bit 8 ?w"
    by (simp add: disjunctive_add_eq_or)
  also have "ucast b = (of_nat (unat b) :: u64)" by (simp add: unsigned_ucast_eq)
  also have "push_bit 8 ?w = of_nat (256 * le_val bs)"
    using Cons by (simp add: push_bit_eq_mult mult.commute flip: Cons.IH)
  also have "of_nat (unat b) + of_nat (256 * le_val bs) = (of_nat (le_val (b # bs)) :: u64)" by simp
  finally have "unat (usize_from_ne_bytes (b # bs)) = unat (of_nat (le_val (b # bs)) :: u64)" by (rule arg_cong)
  also have "\<dots> = le_val (b # bs)" using small unfolding unat_of_nat by (simp only: mod_less len_num1 len_bit0) simp
  finally show ?case .
qed simp

lemma usize_of_nat: "length bs \<le> 8 \<Longrightarrow> usize_from_ne_bytes bs = of_nat (le_val bs)"
  by (simp flip: usize_val)


text \<open>Below the first zero byte no borrow arises, so its own borrow sets its high bit.\<close>

lemma pow_256: "(256 :: nat) ^ k = 2 ^ (8 * k)"
  by (simp add: power_mult)

lemma take_bit_add_push: "take_bit n (a + push_bit n b) = take_bit n (a :: u64)"
proof -
  have "take_bit (min 64 n) (a + push_bit n b) = take_bit (min 64 n) a" for a b :: int
    using take_bit_add [of "min 64 n" a "push_bit n b"] by (simp add: take_bit_push_bit)
  then show ?thesis by transfer simp
qed

lemma zero_byte_borrow:
  assumes "length bs = 8" "bs = p @ 0 # q" "0 \<notin> set p"
  shows "bit (usize_from_ne_bytes bs - LO_USIZE) (8 * length p + 7)"
proof -
  let ?k = "length p"
  define c :: nat where "c = 256 ^ ?k"
  define d where "d = le_val p - le_val (replicate ?k 1)"
  have k: "?k < 8" using assms(1,2) by simp
  have d: "le_val p = d + le_val (replicate ?k 1)" "d < c"
    using le_val_ones [OF assms(3)] le_val_less [of p] by (simp_all add: d_def c_def)
  have w: "usize_from_ne_bytes bs = of_nat d + of_nat (le_val (replicate ?k 1)) + of_nat (256 * c) * of_nat (le_val q)"
    using usize_of_nat [of bs] assms(1) by (simp add: assms(2) le_val_append d(1) c_def algebra_simps)
  have "replicate 8 (1 :: u8) = replicate ?k 1 @ 1 # replicate (7 - ?k) 1"
    using k replicate_add [of ?k "8 - ?k" "1 :: u8"] by (simp add: Suc_diff_Suc flip: replicate_Suc)
  then have o: "LO_USIZE = of_nat (le_val (replicate ?k 1)) + of_nat c
      + of_nat (256 * c) * of_nat (le_val (replicate (7 - ?k) 1))"
    using usize_of_nat [of "replicate 8 1"] k
    by (simp add: LO_USIZE_def repeat_u8_def le_val_append c_def algebra_simps del: replicate_Suc replicate.simps)
  let ?z = "of_nat (le_val q) - of_nat (le_val (replicate (7 - ?k) 1)) - 1 :: u64"
  have c: "c = 2 ^ (8 * ?k)" by (simp add: c_def pow_256)
  have m: "of_nat (256 * c) * ?z = push_bit (8 * ?k + 8) ?z"
    by (simp add: push_bit_eq_mult c power_add mult.commute)
  have "usize_from_ne_bytes bs - LO_USIZE = of_nat (d + 255 * c) + push_bit (8 * ?k + 8) ?z"
    unfolding w o m [symmetric] by (simp add: algebra_simps)
  then have "take_bit (8 * ?k + 8) (usize_from_ne_bytes bs - LO_USIZE) = take_bit (8 * ?k + 8) (of_nat (d + 255 * c) :: u64)"
    by (simp add: take_bit_add_push)
  moreover have "bit (of_nat (d + 255 * c) :: u64) (8 * ?k + 7)"
  proof -
    have "(d + 255 * c) div 2 ^ (8 * ?k + 7) = 1"
      using d(2) by (intro div_nat_eqI) (simp_all add: c power_add)
    then have "bit (d + 255 * c) (8 * ?k + 7)" by (simp add: bit_iff_odd)
    then show ?thesis using k by (simp only: bit_of_nat_iff) simp
  qed
  ultimately have "bit (take_bit (8 * ?k + 8) (usize_from_ne_bytes bs - LO_USIZE)) (8 * ?k + 7)"
    by (simp add: bit_take_bit_iff)
  then show ?thesis by (simp add: bit_take_bit_iff)
qed

lemma zero_byte_found:
  assumes "length bs = 8" "0 \<in> set bs"
  shows "contains_zero_byte (usize_from_ne_bytes bs)"
proof -
  obtain p q where s: "bs = p @ 0 # q" "0 \<notin> set p" using split_list_first [OF assms(2)] by blast
  let ?n = "8 * length p + 7"
  have k: "length p < 8" using s assms(1) by simp
  have "\<not> bit (usize_from_ne_bytes bs) ?n" using usize_bit [of bs ?n] assms(1) s(1) k by simp
  moreover have "bit HI_USIZE ?n"
    using usize_bit [of "replicate 8 0x80" ?n] k by (simp add: HI_USIZE_def repeat_u8_def del: replicate.simps)
  ultimately have "bit ((usize_from_ne_bytes bs - LO_USIZE) AND NOT (usize_from_ne_bytes bs) AND HI_USIZE) ?n"
    using zero_byte_borrow [OF assms(1) s] k by (simp add: bit_simps)
  then show ?thesis unfolding contains_zero_byte_def by (metis bit_0_eq bot_apply bot_bool_def)
qed

lemma usize_xor:
  "length bs = 8 \<Longrightarrow> usize_from_ne_bytes bs XOR repeat_u8 x = usize_from_ne_bytes (map (\<lambda>b. b XOR x) bs)"
  unfolding repeat_u8_def
  by (rule bit_word_eqI) (auto simp: bit_xor_iff usize_bit simp del: replicate.simps)

lemma no_match:
  assumes "read_word addr xs off = Some u" "\<not> contains_zero_byte (u XOR repeat_u8 x)"
  shows "x \<notin> set (take 8 (drop off xs))"
proof
  let ?bs = "take 8 (drop off xs)"
  assume "x \<in> set ?bs"
  then have "0 \<in> set (map (\<lambda>b. b XOR x) ?bs)" by force
  moreover have "length ?bs = 8" "u = usize_from_ne_bytes ?bs"
    using assms(1) by (auto simp: read_word_def split: if_splits)
  ultimately show False using zero_byte_found [of "map (\<lambda>b. b XOR x) ?bs"] usize_xor [of ?bs x] assms(2) by simp
qed

section \<open>The body loops\<close>

lemma take_two_words:
  "x \<notin> set (take 8 (drop off xs)) \<Longrightarrow> x \<notin> set (take 8 (drop (off + 8) xs)) \<Longrightarrow> x \<notin> set (take 16 (drop off xs))"
  using take_add [of 8 8 "drop off xs"] by (auto simp: add.commute)

lemma memchr_body_stop:
  assumes "(addr + off) mod 8 = 0" "16 \<le> length xs" "off \<le> length xs"
  shows "\<exists>stop. memchr_body addr xs (repeat_u8 x) off = Some stop \<and> off \<le> stop \<and> stop \<le> length xs
    \<and> x \<notin> set (take (stop - off) (drop off xs))"
  using assms
proof (induction addr xs "repeat_u8 x" off rule: memchr_body.induct)
  case (1 addr xs off)
  show ?case
  proof (cases "off \<le> length xs - 16")
    case False
    then show ?thesis by (subst memchr_body.simps) (use "1.prems" in simp)
  next
    case True
    then have le: "off + 16 \<le> length xs" "off + 8 \<le> length xs" using "1.prems"(2) by simp_all
    then obtain u v where uv: "read_word addr xs off = Some u" "read_word addr xs (off + 8) = Some v"
      using le "1.prems"(1) mod_add_self2 [of "addr + off" 8] by (simp add: read_word_def add.assoc)
    show ?thesis
    proof (cases "contains_zero_byte (u XOR repeat_u8 x) \<or> contains_zero_byte (v XOR repeat_u8 x)")
      case True
      then show ?thesis by (subst memchr_body.simps) (use "1.prems" uv in simp)
    next
      case False
      have "(addr + (off + 8 * 2)) mod 8 = 0"
        using "1.prems"(1) mod_mult_self2 [of "addr + off" 8 2] by (simp add: add.assoc)
      moreover have o: "off \<le> length xs - 2 * 8" "off + 8 * 2 \<le> length xs" using True le by simp_all
      ultimately have "\<exists>stop. memchr_body addr xs (repeat_u8 x) (off + 8 * 2) = Some stop \<and> off + 8 * 2 \<le> stop
          \<and> stop \<le> length xs \<and> x \<notin> set (take (stop - (off + 8 * 2)) (drop (off + 8 * 2) xs))"
        using "1.prems"(2) by (intro "1.hyps" [OF o(1) uv False])
      then obtain stop where
        i: "memchr_body addr xs (repeat_u8 x) (off + 8 * 2) = Some stop" "off + 16 \<le> stop" "stop \<le> length xs"
          "x \<notin> set (take (stop - (off + 16)) (drop (off + 16) xs))"
        by auto
      have "x \<notin> set (take 16 (drop off xs))"
        using False by (intro take_two_words no_match [OF uv(1)] no_match [OF uv(2)]) simp_all
      moreover have "take (stop - off) (drop off xs) = take 16 (drop off xs) @ take (stop - (off + 16)) (drop (off + 16) xs)"
        using i(2) take_add [of 16 "stop - (off + 16)" "drop off xs"] by (simp add: add.commute)
      moreover have "memchr_body addr xs (repeat_u8 x) off = Some stop"
        by (subst memchr_body.simps) (use True False uv i(1) in simp)
      ultimately show ?thesis using i by auto
    qed
  qed
qed

lemma memrchr_body_stop:
  assumes "(addr + lo) mod 8 = 0" "off \<le> length xs" "lo \<le> off" "(off - lo) mod 16 = 0"
  shows "\<exists>stop. memrchr_body addr xs (repeat_u8 x) lo off = Some stop \<and> stop \<le> off
    \<and> x \<notin> set (take (off - stop) (drop stop xs))"
  using assms
proof (induction addr xs "repeat_u8 x" lo off rule: memrchr_body.induct)
  case (1 addr xs lo off)
  show ?case
  proof (cases "off > lo")
    case False
    then show ?thesis by (subst memrchr_body.simps) simp
  next
    case True
    have ge: "lo + 16 \<le> off"
    proof (rule ccontr)
      assume "\<not> lo + 16 \<le> off"
      then have "(off - lo) mod 16 = off - lo" by simp
      with True "1.prems"(4) show False by simp
    qed
    obtain u v where uv: "read_word addr xs (off - 2 * 8) = Some u" "read_word addr xs (off - 8) = Some v"
    proof -
      obtain k where k: "off - lo = 16 * k" using "1.prems"(4) by (auto simp: mod_eq_0_iff_dvd dvd_def)
      then have "off = lo + 16 * k" using ge by linarith
      then obtain j where "off = lo + 16 * Suc j" using ge by (cases k) auto
      then have "addr + (off - 16) = addr + lo + 8 * (2 * j)" "addr + (off - 8) = addr + lo + 8 * (2 * j + 1)" by simp_all
      then have "(addr + (off - 16)) mod 8 = 0" "(addr + (off - 8)) mod 8 = 0"
        using "1.prems"(1) by (metis mod_mult_self2)+
      moreover have "off - 8 \<le> length xs" "off - 16 + 8 = off - 8" using ge "1.prems"(2) by linarith+
      ultimately show thesis using ge "1.prems"(2) that by (simp add: read_word_def)
    qed
    show ?thesis
    proof (cases "contains_zero_byte (u XOR repeat_u8 x) \<or> contains_zero_byte (v XOR repeat_u8 x)")
      case c: True
      then show ?thesis by (subst memrchr_body.simps) (use True ge uv in simp)
    next
      case False
      have "(off - 2 * 8 - lo) mod 16 = 0"
        using "1.prems"(4) ge le_mod_geq [of 16 "off - lo"] by (simp add: add.commute)
      moreover have "\<not> off < 2 * 8" "off - 2 * 8 \<le> length xs" "lo \<le> off - 2 * 8" using ge "1.prems"(2) by linarith+
      ultimately have "\<exists>stop. memrchr_body addr xs (repeat_u8 x) lo (off - 2 * 8) = Some stop \<and> stop \<le> off - 2 * 8
          \<and> x \<notin> set (take (off - 2 * 8 - stop) (drop stop xs))"
        using "1.prems"(1) by (intro "1.hyps" [OF True _ uv False])
      then obtain stop where
        i: "memrchr_body addr xs (repeat_u8 x) lo (off - 2 * 8) = Some stop" "stop \<le> off - 16"
          "x \<notin> set (take (off - 16 - stop) (drop stop xs))" by auto
      have "x \<notin> set (take 16 (drop (off - 16) xs))"
        using no_match [OF uv(1)] no_match [OF uv(2)] False take_two_words [of x "off - 16" xs] ge by simp
      moreover have "take (off - stop) (drop stop xs) = take (off - 16 - stop) (drop stop xs) @ take 16 (drop (off - 16) xs)"
        using i(2) ge take_add [of "off - 16 - stop" 16 "drop stop xs"] by simp
      moreover have "memrchr_body addr xs (repeat_u8 x) lo off = Some stop"
        by (subst memrchr_body.simps) (use True ge False uv i(1) in simp)
      ultimately show ?thesis using i by auto
    qed
  qed
qed

section \<open>The searches against their specification\<close>

lemma memchr_naive_position: "memchr_naive x xs = position (\<lambda>b. b = x) xs"
  by (induction xs) auto

lemma map_option_add_0: "map_option ((+) (0 :: nat)) r = r"
  by (cases r) simp_all

lemma position_append:
  "position p (xs @ ys) = (case position p xs of Some i \<Rightarrow> Some i | None \<Rightarrow> map_option ((+) (length xs)) (position p ys))"
proof (induction xs)
  case (Cons x xs)
  then show ?case
    by (cases "position p xs"; cases "position p ys") (auto simp del: position_None position_None2)
qed (cases "position p ys"; simp del: position_None)

lemma position_skip:
  "\<forall>b\<in>set (take k xs). \<not> p b \<Longrightarrow> k \<le> length xs \<Longrightarrow> position p xs = map_option ((+) k) (position p (drop k xs))"
proof (induction k arbitrary: xs)
  case (Suc k)
  then show ?case by (cases xs) (auto simp: option.map_comp comp_def)
qed (simp add: map_option_add_0)

lemma align_offset_aligned: "(addr + align_offset addr 8) mod 8 = 0" "align_offset addr 8 < 8"
proof -
  have "(addr + (8 - addr mod 8)) mod 8 = (addr div 8 * 8 + 8) mod 8"
    by (metis add.assoc div_mult_mod_eq le_add_diff_inverse less_imp_le_nat mod_less_divisor zero_less_numeral)
  then show "(addr + align_offset addr 8) mod 8 = 0" by (simp add: align_offset_def mod_add_right_eq)
qed (simp add: align_offset_def)

lemma option_offset: "(case r of Some i \<Rightarrow> Some (k + i) | None \<Rightarrow> None) = map_option ((+) k) r"
  by (cases r) simp_all

lemma memchr_first: "memchr addr x xs = Some (position (\<lambda>b. b = x) xs)"
proof (cases "length xs < 16")
  case False
  let ?al = "align_offset addr 8"
  have al: "min ?al (length xs) = ?al" using False align_offset_aligned(2) [of addr] by simp
  show ?thesis
  proof (cases "x \<in> set (take ?al xs)")
    case True
    then obtain i where i: "position (\<lambda>b. b = x) (take ?al xs) = Some i"
      by (cases "position (\<lambda>b. b = x) (take ?al xs)") auto
    then have "position (\<lambda>b. b = x) (take ?al xs @ drop ?al xs) = Some i"
      by (auto simp only: position_append option.simps)
    moreover have "0 < ?al" using True by (cases ?al) auto
    ultimately show ?thesis
      using False i al by (simp add: memchr_def memchr_aligned_def Let_def memchr_naive_position)
  next
    case none: False
    obtain stop where s: "memchr_body addr xs (repeat_u8 x) ?al = Some stop" "?al \<le> stop" "stop \<le> length xs"
      "x \<notin> set (take (stop - ?al) (drop ?al xs))"
      using memchr_body_stop [of addr ?al xs x] align_offset_aligned [of addr] False by auto
    have "take stop xs = take ?al xs @ take (stop - ?al) (drop ?al xs)"
      using s(2) take_add [of ?al "stop - ?al" xs] by simp
    then have "position (\<lambda>b. b = x) xs = map_option ((+) stop) (position (\<lambda>b. b = x) (drop stop xs))"
      using none s(3,4) by (intro position_skip) auto
    moreover have "(if 0 < ?al then memchr_naive x (take ?al xs) else None) = None"
      using none by (auto simp: memchr_naive_position)
    moreover have "(if 0 < ?al then ?al else ?al) = ?al" by simp
    ultimately have "memchr_aligned addr x xs = Some (position (\<lambda>b. b = x) xs)"
      unfolding memchr_aligned_def Let_def al using s(1)
      by (simp only: option.case memchr_naive_position option_offset)
    with False show ?thesis by (simp add: memchr_def)
  qed
qed (simp add: memchr_def memchr_naive_position)

lemma rposition_append: "rposition_byte x (xs @ ys) = (case rposition_byte x ys of
    Some i \<Rightarrow> Some (length xs + i) | None \<Rightarrow> rposition_byte x xs)"
  by (induction xs) (auto split: option.splits)

lemma rposition_byte_None [simp]: "rposition_byte x xs = None \<longleftrightarrow> x \<notin> set xs"
  by (induction xs) (auto split: option.splits)

lemma rposition_rev: "rposition_byte x xs = map_option (\<lambda>i. length xs - 1 - i) (position (\<lambda>b. b = x) (rev xs))"
proof (induction xs)
  case (Cons b xs)
  show ?case
  proof (cases "position (\<lambda>b. b = x) (rev xs)")
    case None
    then have "x \<notin> set xs" by auto
    then have "rposition_byte x xs = None" by simp
    with None show ?thesis by (simp add: position_append del: position_None rposition_byte_None)
  next
    case (Some i)
    then have "i < length xs" by (auto dest: position_SomeD)
    with Some Cons show ?thesis by (simp add: position_append Suc_diff_Suc del: position_None)
  qed
qed simp

lemma align_to_pairs_split:
  assumes "align_to_pairs addr xs = (pre, suf)"
  shows "pre \<le> length xs - suf" "length xs - suf \<noteq> pre \<Longrightarrow> (addr + pre) mod 8 = 0 \<and> (length xs - suf - pre) mod 16 = 0"
proof -
  let ?al = "align_offset addr 8"
  have "pre \<le> length xs - suf
      \<and> (length xs - suf \<noteq> pre \<longrightarrow> (addr + pre) mod 8 = 0 \<and> (length xs - suf - pre) mod 16 = 0)"
  proof (cases "?al > length xs")
    case False
    then have p: "pre = ?al" "suf = (length xs - ?al) mod 16"
      using assms by (auto simp: align_to_pairs_def Let_def)
    then have "length xs - suf - pre = (length xs - ?al) div 16 * 16"
      using minus_mod_eq_div_mult [of "length xs - ?al" 16] by (simp add: diff_right_commute add.commute)
    moreover have "suf \<le> length xs - ?al" using p(2) by simp
    ultimately show ?thesis using p(1) False align_offset_aligned(1) [of addr] by simp
  qed (use assms in \<open>simp add: align_to_pairs_def Let_def\<close>)
  then show "pre \<le> length xs - suf" "length xs - suf \<noteq> pre \<Longrightarrow> (addr + pre) mod 8 = 0 \<and> (length xs - suf - pre) mod 16 = 0"
    by blast+
qed

lemma memrchr_last: "memrchr addr x xs = Some (rposition_byte x xs)"
proof -
  obtain pre suf where ps: "align_to_pairs addr xs = (pre, suf)" by fastforce
  let ?hi = "length xs - suf"
  note split = align_to_pairs_split [OF ps]
  have xs: "xs = take ?hi xs @ drop ?hi xs" by simp
  show ?thesis
  proof (cases "rposition_byte x (drop ?hi xs)")
    case (Some i)
    then have "rposition_byte x (take ?hi xs @ drop ?hi xs) = Some (?hi + i)"
      by (simp only: rposition_append) simp
    with Some ps show ?thesis by (simp add: memrchr_def Let_def)
  next
    case None
    obtain stop where s: "memrchr_body addr xs (repeat_u8 x) pre ?hi = Some stop" "stop \<le> ?hi"
      "x \<notin> set (take (?hi - stop) (drop stop xs))"
    proof (cases "?hi = pre")
      case True
      then have "memrchr_body addr xs (repeat_u8 x) pre ?hi = Some ?hi" by (subst memrchr_body.simps) simp
      then show thesis by (rule that) simp_all
    next
      case False
      then show thesis using memrchr_body_stop [of addr pre ?hi xs x] split that by auto
    qed
    have "drop stop xs = take (?hi - stop) (drop stop xs) @ drop ?hi xs"
      using s(2) append_take_drop_id [of "?hi - stop" "drop stop xs"] by (simp only: drop_drop le_add_diff_inverse2)
    then have "x \<notin> set (drop stop xs)" using s(3) None by (metis Un_iff rposition_byte_None set_append)
    then have "rposition_byte x (drop stop xs) = None" by simp
    then have "rposition_byte x (take stop xs @ drop stop xs) = rposition_byte x (take stop xs)"
      by (simp only: rposition_append option.case)
    then have "rposition_byte x xs = rposition_byte x (take stop xs)" by simp
    moreover have "memrchr addr x xs = Some (rposition_byte x (take stop xs))"
      unfolding memrchr_def ps Let_def prod.case None option.case s(1) ..
    ultimately show ?thesis by simp
  qed
qed

text \<open>
  C37: the word-at-a-time searches are the naive ones. For every address the slice can have, \<open>memchr\<close> gives
  the first position of the byte and \<open>memrchr\<close> the last one, and every word they read lies inside the
  slice and on an aligned address.
\<close>

theorem memchr_finds_first_and_last:
  "memchr addr x xs = Some (position (\<lambda>b. b = x) xs)
    \<and> memrchr addr x xs = Some (map_option (\<lambda>i. length xs - 1 - i) (position (\<lambda>b. b = x) (rev xs)))"
  using memchr_first [of addr x xs] memrchr_last [of addr x xs] rposition_rev [of x xs] by simp

end
