(* ===== verification/Line_Writer.thy ===== *)
theory Line_Writer
  imports Buf_Writer Memchr
begin

text \<open>
  Line buffering: \<open>LineWriterShim\<close> and \<open>LineWriter\<close> (\<open>io/buffered/linewritershim.rs\<close>,
  \<open>io/buffered/linewriter.rs\<close>) on top of \<open>BufWriter\<close>.
\<close>

section \<open>The shim\<close>

definition NEWLINE :: u8 where "NEWLINE = 10"

text \<open>\<open>memrchr(b'\n', buf)\<close>, which does not depend on where the slice lies (\<open>newline_memrchr\<close> below).\<close>

definition last_newline :: "bytes \<Rightarrow> nat option" where
  "last_newline b = rposition_byte NEWLINE b"

definition flush_if_completed_line :: "sink \<Rightarrow> nat \<Rightarrow> unit bw" where
  "flush_if_completed_line k fuel bw =
    (if bw_buf bw \<noteq> [] \<and> last (bw_buf bw) = NEWLINE then flush_buf k fuel bw else bw_ret () bw)"

definition buffer_tail :: "nat \<Rightarrow> bytes \<Rightarrow> nat bw" where
  "buffer_tail flushed tail = bw_bind (write_to_buf tail) (\<lambda>buffered. bw_ret (flushed + buffered))"

text \<open>What \<open>write\<close> does with the rest, once \<open>flushed\<close> of the lines up to \<open>newline_idx\<close> are out.\<close>

definition line_rest :: "bytes \<Rightarrow> nat \<Rightarrow> nat \<Rightarrow> nat bw" where
  "line_rest b newline_idx flushed bw =
    (if flushed \<ge> newline_idx then
       (if flushed > length b then io_panic ''range start index out of range''
        else let tail = drop flushed b
          in if length tail \<ge> bw_capacity bw then bw_ret flushed bw else buffer_tail flushed tail bw)
     else if newline_idx - flushed \<le> bw_capacity bw then buffer_tail flushed (take (newline_idx - flushed) (drop flushed b)) bw
     else let scan_area = take (bw_capacity bw) (drop flushed b)
       in case last_newline scan_area of
            Some i \<Rightarrow> buffer_tail flushed (take (i + 1) scan_area) bw
          | None \<Rightarrow> buffer_tail flushed scan_area bw)"

definition shim_write :: "sink \<Rightarrow> nat \<Rightarrow> bytes \<Rightarrow> nat bw" where
  "shim_write k fuel b = (case last_newline b of
      None \<Rightarrow> bw_bind (flush_if_completed_line k fuel) (\<lambda>_. bw_write k fuel b)
    | Some i \<Rightarrow> let newline_idx = i + 1
        in bw_bind (flush_buf k fuel) (\<lambda>_.
           bw_bind (bw_lift (sk_write k (take newline_idx b))) (\<lambda>flushed.
             if flushed = 0 then bw_ret 0 else line_rest b newline_idx flushed)))"

definition shim_write_all :: "sink \<Rightarrow> nat \<Rightarrow> bytes \<Rightarrow> unit bw" where
  "shim_write_all k fuel b = (case last_newline b of
      None \<Rightarrow> bw_bind (flush_if_completed_line k fuel) (\<lambda>_. bw_write_all k fuel b)
    | Some newline_idx \<Rightarrow> let lines = take (newline_idx + 1) b; tail = drop (newline_idx + 1) b
        in bw_bind (\<lambda>bw. if bw_buf bw = [] then bw_lift (sk_write_all k fuel lines) bw
             else bw_bind (bw_write_all k fuel lines) (\<lambda>_. flush_buf k fuel) bw)
           (\<lambda>_. bw_write_all k fuel tail))"

text \<open>The vectored write, on the slices it is willing to scan.\<close>

fun last_newline_buf :: "bytes list \<Rightarrow> nat option" where
  "last_newline_buf [] = None"
| "last_newline_buf (b # bs) = (case last_newline_buf bs of Some i \<Rightarrow> Some (Suc i)
     | None \<Rightarrow> if memchr_naive NEWLINE b \<noteq> None then Some 0 else None)"

fun covers :: "nat \<Rightarrow> bytes list \<Rightarrow> nat \<Rightarrow> bool" where
  "covers flushed [] lines_len \<longleftrightarrow> True"
| "covers flushed (b # bs) lines_len \<longleftrightarrow>
     (let lines_len' = sat_add lines_len (length b)
      in if flushed < lines_len' then False else covers flushed bs lines_len')"

fun buffer_bufs :: "bytes list \<Rightarrow> nat \<Rightarrow> nat bw" where
  "buffer_bufs [] buffered = bw_ret buffered"
| "buffer_bufs (b # bs) buffered = (if b = [] then buffer_bufs bs buffered
     else bw_bind (write_to_buf b) (\<lambda>n. if n > 0 then buffer_bufs bs (buffered + n) else bw_ret buffered))"

definition write_vectored_scanned :: "sink \<Rightarrow> nat \<Rightarrow> bytes list \<Rightarrow> nat bw" where
  "write_vectored_scanned k fuel bufs = (case last_newline_buf bufs of
      None \<Rightarrow> bw_bind (flush_if_completed_line k fuel) (\<lambda>_. bw_write_vectored k fuel bufs)
    | Some i \<Rightarrow> let lines = take (i + 1) bufs; tail = drop (i + 1) bufs
        in bw_bind (flush_buf k fuel) (\<lambda>_.
           bw_bind (bw_lift (sk_write_vectored k lines)) (\<lambda>flushed.
             if flushed = 0 then bw_ret 0
             else if \<not> covers flushed lines 0 then bw_ret flushed
             else bw_bind (buffer_bufs tail 0) (\<lambda>buffered. bw_ret (flushed + buffered)))))"

definition MAX_BUFS_TO_SCAN :: nat where "MAX_BUFS_TO_SCAN = 1024"

definition shim_write_vectored :: "sink \<Rightarrow> nat \<Rightarrow> bytes list \<Rightarrow> nat bw" where
  "shim_write_vectored k fuel bufs =
    (if \<not> sk_is_write_vectored k then
       (case find (\<lambda>b. b \<noteq> []) bufs of Some b \<Rightarrow> shim_write k fuel b | None \<Rightarrow> bw_ret 0)
     else write_vectored_scanned k fuel (take MAX_BUFS_TO_SCAN bufs))"

section \<open>LineWriter\<close>

definition line_writer_with_capacity :: "nat \<Rightarrow> buf_writer" where
  "line_writer_with_capacity capacity = buf_writer_with_capacity capacity"

definition line_writer_new :: buf_writer where
  "line_writer_new = line_writer_with_capacity 1024"

text \<open>A program's use of a writer: a sequence of calls, with the result of each.\<close>

datatype wr_op = Write bytes | Write_all bytes | Write_vectored "bytes list" | Flush

fun line_op :: "sink \<Rightarrow> nat \<Rightarrow> wr_op \<Rightarrow> nat bw" where
  "line_op k fuel (Write b) = shim_write k fuel b"
| "line_op k fuel (Write_all b) = bw_bind (shim_write_all k fuel b) (\<lambda>_. bw_ret (length b))"
| "line_op k fuel (Write_vectored bs) = shim_write_vectored k fuel bs"
| "line_op k fuel Flush = bw_bind (bw_flush k fuel) (\<lambda>_. bw_ret 0)"

fun buf_op :: "sink \<Rightarrow> nat \<Rightarrow> wr_op \<Rightarrow> nat bw" where
  "buf_op k fuel (Write b) = bw_write k fuel b"
| "buf_op k fuel (Write_all b) = bw_bind (bw_write_all k fuel b) (\<lambda>_. bw_ret (length b))"
| "buf_op k fuel (Write_vectored bs) = bw_write_vectored k fuel bs"
| "buf_op k fuel Flush = bw_bind (bw_flush k fuel) (\<lambda>_. bw_ret 0)"

fun run_ops :: "(wr_op \<Rightarrow> nat bw) \<Rightarrow> wr_op list \<Rightarrow> buf_writer \<Rightarrow> ((io_error + nat) list \<times> buf_writer) io" where
  "run_ops step [] bw = io_return ([], bw)"
| "run_ops step (op # ops) bw = io_bind (step op bw) (\<lambda>(r, bw1).
     io_bind (run_ops step ops bw1) (\<lambda>(rs, bw2). io_return (r # rs, bw2)))"

section \<open>Newlines\<close>

lemma newline_memrchr: "memrchr addr NEWLINE b = Some (last_newline b)"
  by (simp add: last_newline_def memrchr_last)

lemma last_newline_None: "last_newline b = None \<longleftrightarrow> NEWLINE \<notin> set b"
  by (simp add: last_newline_def)

lemma last_newline_Some:
  "last_newline b = Some i \<Longrightarrow> i < length b \<and> b ! i = NEWLINE \<and> NEWLINE \<notin> set (drop (Suc i) b)"
  unfolding last_newline_def
  by (induction b arbitrary: i) (auto split: option.splits if_splits)

lemma last_newline_buf_None: "last_newline_buf bs = None \<longleftrightarrow> NEWLINE \<notin> set (concat bs)"
proof (induction bs)
  case (Cons b bs)
  have "memchr_naive NEWLINE b = None \<longleftrightarrow> NEWLINE \<notin> set b" by (induction b) auto
  with Cons show ?case by (auto split: option.splits)
qed simp

lemma last_newline_buf_Some: "last_newline_buf bs = Some i \<Longrightarrow> NEWLINE \<in> set (concat (take (Suc i) bs)) \<and> NEWLINE \<notin> set (concat (drop (Suc i) bs))"
proof (induction bs arbitrary: i)
  case (Cons b bs)
  moreover have "memchr_naive NEWLINE b = None \<longleftrightarrow> NEWLINE \<notin> set b" by (induction b) auto
  ultimately show ?case using last_newline_buf_None [of bs] by (auto split: option.splits if_splits)
qed simp

text \<open>A buffer holds complete lines only if it ends with one: then they are still to be flushed.\<close>

definition line_ok :: "bytes \<Rightarrow> bool" where
  "line_ok b \<longleftrightarrow> (NEWLINE \<in> set b \<longrightarrow> last b = NEWLINE)"

lemma line_ok_none: "NEWLINE \<notin> set b \<Longrightarrow> line_ok b"
  by (simp add: line_ok_def)

lemma line_ok_suffix: "suffix q b \<Longrightarrow> line_ok b \<Longrightarrow> line_ok q"
  by (cases "q = []") (auto simp: line_ok_def suffix_def)

lemma line_ok_last: "b \<noteq> [] \<Longrightarrow> last b = NEWLINE \<Longrightarrow> line_ok (q @ b)"
  by (simp add: line_ok_def)

text \<open>The lines of a buffer and the rest of it.\<close>

lemma newline_split:
  assumes "last_newline b = Some i"
  shows "take (i + 1) b \<noteq> []" "last (take (i + 1) b) = NEWLINE" "NEWLINE \<notin> set (drop (i + 1) b)"
    "length (take (i + 1) b) = i + 1"
  using last_newline_Some [OF assms] by (auto simp: take_Suc_conv_app_nth)

lemma wrote_writes: "wrote live b old r d bw' \<Longrightarrow> writes live b r d"
  "wrote_all live b old r' d bw' \<Longrightarrow> writes_all live b r' d"
  by (simp_all add: wrote_def wrote_all_def)

lemma wrote_no_newline:
  "wrote live b old r d bw' \<Longrightarrow> NEWLINE \<notin> set old \<Longrightarrow> NEWLINE \<notin> set b \<Longrightarrow> NEWLINE \<notin> set (bw_buf bw')"
  "wrote_all live b old r' d bw' \<Longrightarrow> NEWLINE \<notin> set old \<Longrightarrow> NEWLINE \<notin> set b \<Longrightarrow> NEWLINE \<notin> set (bw_buf bw')"
  using set_mono_suffix [of _ old] set_mono_prefix [of _ b] by (fastforce simp: wrote_def wrote_all_def)+

lemma covers_all: "covers f ls n \<Longrightarrow> n \<le> f \<Longrightarrow> n < 2 ^ 64 \<Longrightarrow> sat_add n (length (concat ls)) \<le> f"
proof (induction ls arbitrary: n)
  case (Cons b ls)
  then have c: "sat_add n (length b) \<le> f" "covers f ls (sat_add n (length b))" by (auto simp: Let_def split: if_splits)
  moreover have "sat_add (sat_add n (length b)) m = sat_add n (length b + m)" for m by (simp add: sat_add_def)
  ultimately show ?case using Cons.IH [of "sat_add n (length b)"] by (simp add: sat_add_def)
qed (simp add: sat_add_def)

lemma find_not_empty: "find (\<lambda>b. b \<noteq> []) bufs = Some b \<Longrightarrow> b \<noteq> [] \<and> prefix b (concat bufs)"
  by (induction bufs) (auto split: if_splits)

context writer_sink
begin

lemma accepts_flush_if_completed_line:
  assumes "line_ok (bw_buf bw)" "live \<Longrightarrow> bw_capacity bw < fuel"
  shows "accepts live sent good (flush_if_completed_line k fuel) bw (\<lambda>r d bw'. d = [] \<and> suffix (bw_buf bw') (bw_buf bw)
    \<and> bw_capacity bw' = bw_capacity bw \<and> (r = Inr () \<longrightarrow> NEWLINE \<notin> set (bw_buf bw')) \<and> (live \<longrightarrow> r = Inr ()))"
proof (cases "bw_buf bw \<noteq> [] \<and> last (bw_buf bw) = NEWLINE")
  case True
  have "accepts live sent good (flush_buf k fuel) bw (\<lambda>r d bw'. d = [] \<and> suffix (bw_buf bw') (bw_buf bw)
    \<and> bw_capacity bw' = bw_capacity bw \<and> (r = Inr () \<longrightarrow> NEWLINE \<notin> set (bw_buf bw')) \<and> (live \<longrightarrow> r = Inr ()))"
    by (intro accepts_flush_buf) (use assms(2) in auto)
  then show ?thesis by (rule accepts_cong [rotated]) (use True in \<open>simp add: flush_if_completed_line_def\<close>)
next
  case False
  have "accepts live sent good (bw_ret ()) bw (\<lambda>r d bw'. d = [] \<and> suffix (bw_buf bw') (bw_buf bw)
    \<and> bw_capacity bw' = bw_capacity bw \<and> (r = Inr () \<longrightarrow> NEWLINE \<notin> set (bw_buf bw')) \<and> (live \<longrightarrow> r = Inr ()))"
    using False assms(1) by (intro accepts_ret) (auto simp: line_ok_def)
  then show ?thesis by (rule accepts_cong [rotated]) (use False in \<open>auto simp: flush_if_completed_line_def\<close>)
qed

lemma accepts_buffer_tail:
  assumes "bw_buf bw = []" "prefix tail (drop flushed b)" "flushed \<le> length b" "flushed \<noteq> 0" "length tail \<le> bw_capacity bw" "line_ok tail"
  shows "accepts live sent good (buffer_tail flushed tail) bw (\<lambda>r d bw'. writes live b r (take flushed b @ d) \<and> line_ok (bw_buf bw'))"
proof -
  have "accepts live sent good (write_to_buf tail) bw (\<lambda>r d bw'. d = tail \<and> r = Inr (length tail) \<and> bw_buf bw' = tail)"
    by (rule accepts_conseq [OF accepts_write_to_buf]) (use assms(1,5) in \<open>auto simp: spare_capacity_def\<close>)
  moreover obtain u where "drop flushed b = tail @ u" using assms(2) by (auto simp: prefix_def)
  then have "b = take flushed b @ tail @ u" by (metis append_take_drop_id)
  then have "take (flushed + length tail) b = take flushed b @ tail" "flushed + length tail \<le> length b"
    using assms(3) by (metis append.assoc append_eq_conv_conj length_append length_take min_absorb2)
      (metis append_take_drop_id assms(2) assms(3) add.commute length_drop prefix_length_le le_diff_conv2)
  ultimately show ?thesis unfolding buffer_tail_def
    using assms(4,6) by (auto intro!: accepts_bind accepts_ret elim!: accepts_conseq)
qed

lemma accepts_line_rest:
  assumes "bw_buf bw = []" "last_newline b = Some i" "flushed \<le> i + 1" "flushed \<noteq> 0"
  shows "accepts live sent good (line_rest b (i + 1) flushed) bw (\<lambda>r d bw'. writes live b r (take flushed b @ d) \<and> line_ok (bw_buf bw'))"
proof -
  note nl = newline_split [OF assms(2)]
  have le: "i + 1 \<le> length b" using last_newline_Some [OF assms(2)] by simp
  consider "flushed = i + 1" | "flushed < i + 1" "i + 1 - flushed \<le> bw_capacity bw"
    | "flushed < i + 1" "\<not> i + 1 - flushed \<le> bw_capacity bw" using assms(3) by linarith
  then show ?thesis
  proof cases
    case 1
    have no: "NEWLINE \<notin> set (drop flushed b)" using nl(3) 1 by simp
    show ?thesis
    proof (cases "length (drop flushed b) \<ge> bw_capacity bw")
      case True
      have "accepts live sent good (bw_ret flushed) bw (\<lambda>r d bw'. writes live b r (take flushed b @ d) \<and> line_ok (bw_buf bw'))"
        using assms 1 le by (intro accepts_ret) (simp add: line_ok_def)
      then show ?thesis by (rule accepts_cong [rotated]) (use True 1 le in \<open>simp add: line_rest_def\<close>)
    next
      case False
      have "accepts live sent good (buffer_tail flushed (drop flushed b)) bw
          (\<lambda>r d bw'. writes live b r (take flushed b @ d) \<and> line_ok (bw_buf bw'))"
        using assms 1 le False line_ok_none [OF no] by (intro accepts_buffer_tail) simp_all
      then show ?thesis by (rule accepts_cong [rotated]) (use False 1 le in \<open>simp add: line_rest_def\<close>)
    qed
  next
    case 2
    let ?t = "take (i + 1 - flushed) (drop flushed b)"
    have t: "?t = drop flushed (take (i + 1) b)" by (simp add: drop_take)
    then have "last ?t = NEWLINE" "?t \<noteq> []" using nl(1,2,4) 2(1) by simp_all
    then have "line_ok ?t" using line_ok_last [of ?t "[]"] by simp
    then have "accepts live sent good (buffer_tail flushed ?t) bw
        (\<lambda>r d bw'. writes live b r (take flushed b @ d) \<and> line_ok (bw_buf bw'))"
      using assms 2 le by (intro accepts_buffer_tail) (simp_all add: take_is_prefix)
    then show ?thesis by (rule accepts_cong [rotated]) (use 2 in \<open>simp add: line_rest_def\<close>)
  next
    case 3
    let ?a = "take (bw_capacity bw) (drop flushed b)"
    have put: "accepts live sent good (buffer_tail flushed t) bw
        (\<lambda>r d bw'. writes live b r (take flushed b @ d) \<and> line_ok (bw_buf bw'))"
      if "prefix t ?a" "line_ok t" for t
      using that assms 3 le by (intro accepts_buffer_tail) (auto dest: prefix_length_le intro: prefix_order.trans take_is_prefix)
    show ?thesis
    proof (cases "last_newline ?a")
      case None
      then have "line_ok ?a" by (simp add: last_newline_None line_ok_none)
      then show ?thesis
        by (intro accepts_cong [OF _ put [of ?a]]) (use 3 None in \<open>simp_all add: line_rest_def Let_def\<close>)
    next
      case (Some j)
      have "line_ok (take (j + 1) ?a)" using newline_split [OF Some] line_ok_last [of "take (j + 1) ?a" "[]"] by simp
      then show ?thesis
        by (intro accepts_cong [OF _ put [OF take_is_prefix [of "j + 1" ?a]]])
          (use 3 Some in \<open>simp_all add: line_rest_def Let_def\<close>)
    qed
  qed
qed

lemma accepts_shim_write:
  assumes "line_ok (bw_buf bw)" "live \<Longrightarrow> bw_capacity bw < fuel"
  shows "accepts live sent good (shim_write k fuel b) bw (\<lambda>r d bw'. writes live b r d \<and> line_ok (bw_buf bw'))"
proof (cases "last_newline b")
  case None
  have "accepts live sent good (bw_bind (flush_if_completed_line k fuel) (\<lambda>_. bw_write k fuel b)) bw
      (\<lambda>r d bw'. writes live b r d \<and> line_ok (bw_buf bw'))"
  proof (rule accepts_bind, rule accepts_conseq [OF accepts_flush_if_completed_line], goal_cases)
    case (3 r d bw1)
    show ?case
    proof (cases r)
      case (Inl e)
      with 3 assms(1) show ?thesis by (auto intro: line_ok_suffix)
    next
      case (Inr x)
      have "accepts live sent good (bw_write k fuel b) bw1 (\<lambda>r d bw'. writes live b r d \<and> line_ok (bw_buf bw'))"
        by (rule accepts_conseq [OF accepts_bw_write])
          (use 3 Inr assms(2) None in \<open>auto simp: last_newline_None
             intro!: line_ok_none dest: wrote_no_newline(1) wrote_writes\<close>)
      with 3 Inr show ?thesis by simp
    qed
  qed (use assms in auto)
  then show ?thesis by (simp add: shim_write_def None)
next
  case (Some i)
  note le = last_newline_Some [OF Some]
  have "accepts live sent good (bw_bind (flush_buf k fuel) (\<lambda>_. bw_bind (bw_lift (sk_write k (take (i + 1) b)))
      (\<lambda>flushed. if flushed = 0 then bw_ret 0 else line_rest b (i + 1) flushed))) bw
      (\<lambda>r d bw'. writes live b r d \<and> line_ok (bw_buf bw'))"
  proof (intro accepts_bind accepts_flush_buf, goal_cases)
    case (1 r q p)
    show ?case
    proof (cases r)
      case (Inl e)
      with 1 assms(1) show ?thesis by (auto intro: line_ok_suffix)
    next
      case (Inr x)
      let ?bw = "bw\<lparr>bw_buf := [], bw_panicked := p\<rparr>"
      have "accepts live sent good (bw_bind (bw_lift (sk_write k (take (i + 1) b)))
          (\<lambda>flushed. if flushed = 0 then bw_ret 0 else line_rest b (i + 1) flushed)) ?bw
          (\<lambda>r d bw'. writes live b r d \<and> line_ok (bw_buf bw'))"
      proof (intro accepts_bind accepts_lift [OF sink_write], goal_cases)
        case (2 r d)
        show ?case
        proof (cases r)
          case (Inl e)
          with 2 show ?thesis by (simp add: line_ok_def)
        next
          case (Inr n)
          have n: "n \<le> i + 1" "d = take n b" "live \<longrightarrow> 0 < n" using 2 Inr le by (auto simp: min_absorb1)
          have "accepts live sent good (bw_ret 0) ?bw (\<lambda>r d bw'. writes live b r d \<and> line_ok (bw_buf bw'))" if "n = 0"
            using that n(3) by (intro accepts_ret) (simp add: line_ok_def)
          with n accepts_line_rest [OF _ Some n(1), of ?bw] show ?thesis unfolding Inr by simp
        qed
      qed simp
      with 1 Inr show ?thesis by simp
    qed
  qed (rule assms(2))
  then show ?thesis by (simp only: shim_write_def Some Let_def option.case)
qed

lemma accepts_shim_write_all:
  assumes "line_ok (bw_buf bw)" "live \<Longrightarrow> bw_capacity bw < fuel" "live \<Longrightarrow> length b < fuel"
  shows "accepts live sent good (shim_write_all k fuel b) bw (\<lambda>r d bw'. writes_all live b r d \<and> line_ok (bw_buf bw')
    \<and> (r = Inr () \<longrightarrow> NEWLINE \<notin> set (bw_buf bw')))"
proof (cases "last_newline b")
  case None
  have "accepts live sent good (bw_bind (flush_if_completed_line k fuel) (\<lambda>_. bw_write_all k fuel b)) bw
      (\<lambda>r d bw'. writes_all live b r d \<and> line_ok (bw_buf bw') \<and> (r = Inr () \<longrightarrow> NEWLINE \<notin> set (bw_buf bw')))"
  proof (rule accepts_bind, rule accepts_conseq [OF accepts_flush_if_completed_line], goal_cases)
    case (3 r d bw1)
    show ?case
    proof (cases r)
      case (Inl e)
      with 3 assms(1) show ?thesis by (auto intro: line_ok_suffix)
    next
      case (Inr x)
      have "accepts live sent good (bw_write_all k fuel b) bw1 (\<lambda>r d bw'. writes_all live b r d \<and> line_ok (bw_buf bw')
          \<and> (r = Inr () \<longrightarrow> NEWLINE \<notin> set (bw_buf bw')))"
        by (rule accepts_conseq [OF accepts_bw_write_all])
          (use 3 Inr assms None in \<open>auto simp: last_newline_None
             intro!: line_ok_none dest: wrote_no_newline(2) wrote_writes(2)\<close>)
      with 3 Inr show ?thesis by simp
    qed
  qed (use assms in auto)
  then show ?thesis by (simp add: shim_write_all_def None)
next
  case (Some i)
  let ?lines = "take (i + 1) b" and ?tail = "drop (i + 1) b"
  let ?out = "\<lambda>bw. if bw_buf bw = [] then bw_lift (sk_write_all k fuel ?lines) bw
      else bw_bind (bw_write_all k fuel ?lines) (\<lambda>_. flush_buf k fuel) bw"
  note nl = newline_split [OF Some]
  have lines_ok: "line_ok (q @ ?lines)" for q using nl(1,2) by (rule line_ok_last)
  have out: "accepts live sent good ?out bw (\<lambda>r d bw'. writes_all live ?lines r d \<and> line_ok (bw_buf bw')
      \<and> bw_capacity bw' = bw_capacity bw \<and> (r = Inr () \<longrightarrow> bw_buf bw' = []))"
  proof (cases "bw_buf bw = []")
    case True
    have "accepts live sent good (bw_lift (sk_write_all k fuel ?lines)) bw (\<lambda>r d bw'. writes_all live ?lines r d
        \<and> line_ok (bw_buf bw') \<and> bw_capacity bw' = bw_capacity bw \<and> (r = Inr () \<longrightarrow> bw_buf bw' = []))"
      using True assms(3) by (intro accepts_lift [OF sink_write_all]) (auto simp: line_ok_def)
    then show ?thesis by (rule accepts_cong [rotated]) (use True in simp)
  next
    case False
    have "accepts live sent good (bw_bind (bw_write_all k fuel ?lines) (\<lambda>_. flush_buf k fuel)) bw
        (\<lambda>r d bw'. writes_all live ?lines r d \<and> line_ok (bw_buf bw') \<and> bw_capacity bw' = bw_capacity bw
          \<and> (r = Inr () \<longrightarrow> bw_buf bw' = []))"
    proof (rule accepts_bind, rule accepts_conseq [OF accepts_bw_write_all], goal_cases)
      case (3 r d bw1)
      have "line_ok (bw_buf bw1)"
        using 3 assms(1) lines_ok unfolding wrote_all_def by (auto intro: line_ok_suffix simp del: take_eq_Nil)
      then show ?case using 3 assms(2)
        by (cases r) (auto dest: wrote_writes simp: writes_all_def wrote_all_def intro!: accepts_flush_buf intro: line_ok_suffix)
    qed (use assms(2,3) in auto)
    then show ?thesis by (rule accepts_cong [rotated]) (use False in simp)
  qed
  have "accepts live sent good (bw_bind ?out (\<lambda>_. bw_write_all k fuel ?tail)) bw
      (\<lambda>r d bw'. writes_all live b r d \<and> line_ok (bw_buf bw') \<and> (r = Inr () \<longrightarrow> NEWLINE \<notin> set (bw_buf bw')))"
  proof (rule accepts_bind, rule accepts_conseq [OF out], goal_cases)
    case (1 r d bw1)
    show ?case
    proof (cases r)
      case (Inl e)
      with 1 show ?thesis by (auto intro: prefix_order.trans take_is_prefix)
    next
      case (Inr x)
      have "writes_all live b r' (?lines @ d')" if "writes_all live ?tail r' d'" for r' d'
        using that by (cases r') (auto simp: prefix_def, metis append.assoc append_take_drop_id)
      then have "accepts live sent good (bw_write_all k fuel ?tail) bw1 (\<lambda>r' d' bw'. writes_all live b r' (?lines @ d')
          \<and> line_ok (bw_buf bw') \<and> (r' = Inr () \<longrightarrow> NEWLINE \<notin> set (bw_buf bw')))"
        by (intro accepts_conseq [OF accepts_bw_write_all])
          (use 1 Inr assms nl(3) in \<open>auto intro!: line_ok_none dest: wrote_no_newline(2) wrote_writes(2)\<close>)
      with 1 Inr show ?thesis by simp
    qed
  qed
  then show ?thesis by (simp only: shim_write_all_def Some Let_def option.case)
qed

text \<open>A full buffer takes nothing more; so the slices buffered are a prefix of them all.\<close>

lemma accepts_buffer_bufs_full:
  "length (bw_buf bw) = bw_capacity bw \<Longrightarrow> accepts live sent good (buffer_bufs bs n) bw
     (\<lambda>r d bw'. r = Inr n \<and> d = [] \<and> bw_buf bw' = bw_buf bw)"
proof (induction bs)
  case (Cons b bs)
  show ?case
  proof (cases "b = []")
    case False
    have "accepts live sent good (write_to_buf b) bw (\<lambda>r d bw'. d = [] \<and> r = Inr 0 \<and> bw_buf bw' = bw_buf bw)"
      by (rule accepts_conseq [OF accepts_write_to_buf]) (use Cons.prems in \<open>simp add: spare_capacity_def\<close>)
    with False show ?thesis by (auto intro!: accepts_bind accepts_ret elim!: accepts_conseq)
  qed (use Cons in simp)
qed (simp add: accepts_ret)

lemma accepts_buffer_bufs:
  "accepts live sent good (buffer_bufs bs n) bw
     (\<lambda>r d bw'. r = Inr (n + length d) \<and> prefix d (concat bs) \<and> bw_buf bw' = bw_buf bw @ d)"
proof (induction bs arbitrary: bw n)
  case (Cons b bs)
  show ?case
  proof (cases "b = []")
    case False
    have "accepts live sent good (bw_bind (write_to_buf b) (\<lambda>m. if m > 0 then buffer_bufs bs (n + m) else bw_ret n)) bw
      (\<lambda>r d bw'. r = Inr (n + length d) \<and> prefix d (concat (b # bs)) \<and> bw_buf bw' = bw_buf bw @ d)"
    proof (rule accepts_bind, rule accepts_conseq [OF accepts_write_to_buf], goal_cases)
      case (1 r d bw1)
      show ?case
      proof (cases "spare_capacity bw < length b")
        case True
        then have full: "length (bw_buf bw1) = bw_capacity bw1" "prefix d b"
          using 1 by (auto simp: spare_capacity_def bw_ok_def take_is_prefix min_def)
        have "accepts live sent good (buffer_bufs bs (n + length d)) bw1
            (\<lambda>r d' bw'. r = Inr (n + length (d @ d')) \<and> prefix (d @ d') (concat (b # bs)) \<and> bw_buf bw' = bw_buf bw @ d @ d')"
          using 1 prefix_prefix [OF full(2)] by (intro accepts_conseq [OF accepts_buffer_bufs_full [OF full(1)]]) auto
        with 1 prefix_prefix [OF full(2)] show ?thesis by (auto intro!: accepts_ret)
      next
        case l: False
        then have "d = b" using 1 by simp
        with 1 False Cons.IH [of "n + length b" bw1] show ?thesis by (auto elim!: accepts_conseq)
      qed
    qed
    with False show ?thesis by simp
  qed (use Cons.IH in simp)
qed (simp add: accepts_ret)

lemma accepts_write_vectored_scanned:
  assumes "line_ok (bw_buf bw)" "live \<Longrightarrow> bw_capacity bw < fuel" "sk_is_write_vectored k" "length (concat bufs) < 2 ^ 64"
  shows "accepts live sent good (write_vectored_scanned k fuel bufs) bw
    (\<lambda>r d bw'. writes live (concat bufs) r d \<and> line_ok (bw_buf bw'))"
proof (cases "last_newline_buf bufs")
  case None
  then have no: "NEWLINE \<notin> set (concat bufs)" by (rule iffD1 [OF last_newline_buf_None])
  have "accepts live sent good (bw_bind (flush_if_completed_line k fuel) (\<lambda>_. bw_write_vectored k fuel bufs)) bw
      (\<lambda>r d bw'. writes live (concat bufs) r d \<and> line_ok (bw_buf bw'))"
  proof (rule accepts_bind, rule accepts_conseq [OF accepts_flush_if_completed_line], goal_cases)
    case (3 r d bw1)
    show ?case
    proof (cases r)
      case (Inl e)
      with 3 assms(1) show ?thesis by (auto intro: line_ok_suffix)
    next
      case (Inr x)
      have "accepts live sent good (bw_write_vectored k fuel bufs) bw1 (\<lambda>r d bw'. writes live (concat bufs) r d \<and> line_ok (bw_buf bw'))"
        by (rule accepts_conseq [OF accepts_bw_write_vectored])
          (use 3 Inr assms(2) no in \<open>auto intro!: line_ok_none dest: wrote_no_newline(1) wrote_writes\<close>)
      with 3 Inr show ?thesis by simp
    qed
  qed (use assms in auto)
  then show ?thesis by (simp only: write_vectored_scanned_def None option.case)
next
  case (Some i)
  let ?lines = "take (i + 1) bufs" and ?tail = "drop (i + 1) bufs"
  have split: "concat bufs = concat ?lines @ concat ?tail" by (metis append_take_drop_id concat_append)
  have no: "NEWLINE \<notin> set (concat ?tail)" using last_newline_buf_Some [OF Some] by simp
  have ne: "concat ?lines \<noteq> []" using last_newline_buf_Some [OF Some] by (metis Suc_eq_plus1 empty_iff empty_set)
  let ?post = "\<lambda>r d bw'. writes live (concat bufs) r d \<and> line_ok (bw_buf bw')"
  let ?put = "\<lambda>n. if n = 0 then bw_ret 0 else if \<not> covers n ?lines 0 then bw_ret n
      else bw_bind (buffer_bufs ?tail 0) (\<lambda>buffered. bw_ret (n + buffered))"
  have rest: "accepts live sent good (?put n) bw1 (\<lambda>r d. ?post r (take n (concat ?lines) @ d))"
    if n: "bw_buf bw1 = []" "n \<le> length (concat ?lines)" "live \<longrightarrow> concat ?lines \<noteq> [] \<longrightarrow> 0 < n"
      "live \<longrightarrow> concat bufs \<noteq> [] \<longrightarrow> 0 < n" for n bw1
  proof -
    have stop: "accepts live sent good (bw_ret n) bw1 (\<lambda>r d. ?post r (take n (concat ?lines) @ d))"
      using n by (intro accepts_ret) (auto simp: split line_ok_def)
    have "accepts live sent good (bw_bind (buffer_bufs ?tail 0) (\<lambda>buffered. bw_ret (n + buffered))) bw1
        (\<lambda>r d. ?post r (take n (concat ?lines) @ d))" if c: "n \<noteq> 0" "covers n ?lines 0"
    proof -
      have "n = length (concat ?lines)"
        using covers_all [OF c(2)] n(2) assms(4) split by (simp add: sat_add_def)
      then have all: "take n (concat ?lines) = concat ?lines" by simp
      show ?thesis unfolding all
      proof (rule accepts_bind, rule accepts_conseq [OF accepts_buffer_bufs], goal_cases)
        case (1 r d bw2)
        have "NEWLINE \<notin> set d" using 1 no set_mono_prefix by blast
        then have "line_ok (bw_buf bw2)" using 1 n(1) by (intro line_ok_none) simp
        moreover have "take (length (concat ?lines) + length d) (concat bufs) = concat ?lines @ d"
          unfolding split using 1 by (auto simp: prefix_def)
        moreover have "length d \<le> length (concat ?tail)" using 1 prefix_length_le by blast
        ultimately show ?case using 1 c(1) \<open>n = length (concat ?lines)\<close> by (auto intro!: accepts_ret simp: split)
      qed
    qed
    with stop show ?thesis by (cases "n = 0") simp_all
  qed
  have "accepts live sent good (bw_bind (flush_buf k fuel) (\<lambda>_. bw_bind (bw_lift (sk_write_vectored k ?lines)) ?put)) bw ?post"
  proof (intro accepts_bind accepts_flush_buf, goal_cases)
    case (1 r q p)
    show ?case
    proof (cases r)
      case (Inl e)
      with 1 assms(1) show ?thesis by (auto intro: line_ok_suffix)
    next
      case (Inr x)
      let ?bw = "bw\<lparr>bw_buf := [], bw_panicked := p\<rparr>"
      have "accepts live sent good (bw_bind (bw_lift (sk_write_vectored k ?lines)) ?put) ?bw ?post"
      proof (intro accepts_bind accepts_lift [OF sink_write_vectored [OF assms(3)]], goal_cases)
        case (2 r d)
        show ?case
        proof (cases r)
          case (Inl e)
          with 2 show ?thesis by (simp add: line_ok_def)
        next
          case (Inr n)
          with 2 rest [of ?bw n] ne show ?thesis by simp
        qed
      qed simp
      with 1 Inr show ?thesis by simp
    qed
  qed (rule assms(2))
  then show ?thesis by (simp only: write_vectored_scanned_def Some Let_def option.case)
qed

text \<open>
  A writer with vectored writes may report 0 for slices of which the first 1024 are empty, even if it is
  live.
\<close>

lemma accepts_shim_write_vectored:
  assumes "line_ok (bw_buf bw)" "live \<Longrightarrow> bw_capacity bw < fuel" "sk_is_write_vectored k \<longrightarrow> length (concat bufs) < 2 ^ 64"
  shows "accepts live sent good (shim_write_vectored k fuel bufs) bw
    (\<lambda>r d bw'. writes (live \<and> \<not> sk_is_write_vectored k) (concat bufs) r d \<and> line_ok (bw_buf bw'))"
proof (cases "sk_is_write_vectored k")
  case True
  let ?scan = "take MAX_BUFS_TO_SCAN bufs"
  have split: "concat bufs = concat ?scan @ concat (drop MAX_BUFS_TO_SCAN bufs)"
    by (metis append_take_drop_id concat_append)
  then have short: "length (concat ?scan) < 2 ^ 64" using assms(3) True by simp
  have "writes False (concat bufs) r d" if "writes live (concat ?scan) r d" for r d
    using that by (cases r) (auto simp: split)
  then have "accepts live sent good (write_vectored_scanned k fuel ?scan) bw
      (\<lambda>r d bw'. writes False (concat bufs) r d \<and> line_ok (bw_buf bw'))"
    by (intro accepts_conseq [OF accepts_write_vectored_scanned [OF assms(1,2) True short]]) auto
  with True show ?thesis by (simp add: shim_write_vectored_def)
next
  case False
  show ?thesis
  proof (cases "find (\<lambda>b. b \<noteq> []) bufs")
    case None
    then have "concat bufs = []" by (simp add: find_None_iff)
    then have "accepts live sent good (bw_ret 0) bw (\<lambda>r d bw'. writes live (concat bufs) r d \<and> line_ok (bw_buf bw'))"
      using assms(1) by (intro accepts_ret) simp
    with None False show ?thesis by (simp add: shim_write_vectored_def)
  next
    case (Some b)
    then obtain u where u: "concat bufs = b @ u" "b \<noteq> []" using find_not_empty by (auto simp: prefix_def)
    have "writes live (concat bufs) r d" if "writes live b r d" for r d
      using that u by (cases r) auto
    then have "accepts live sent good (shim_write k fuel b) bw (\<lambda>r d bw'. writes live (concat bufs) r d \<and> line_ok (bw_buf bw'))"
      by (intro accepts_conseq [OF accepts_shim_write [OF assms(1,2)]]) auto
    with Some False show ?thesis by (simp add: shim_write_vectored_def)
  qed
qed

end

section \<open>Sequences of calls\<close>

text \<open>
  What a call has accepted, by its result: \<open>write\<close> what it reports, \<open>write_all\<close> a prefix, and everything if
  it succeeds. After a successful \<open>write_all\<close> no line waits in the buffer, after a \<open>flush\<close> nothing does.
\<close>

fun accepted :: "bool \<Rightarrow> wr_op \<Rightarrow> io_error + nat \<Rightarrow> bytes \<Rightarrow> bool" where
  "accepted live (Write b) r d \<longleftrightarrow> writes live b r d"
| "accepted live (Write_all b) r d \<longleftrightarrow> prefix d b \<and> (\<forall>n. r = Inr n \<longrightarrow> d = b) \<and> (live \<longrightarrow> r = Inr (length b))"
| "accepted live (Write_vectored bs) r d \<longleftrightarrow> writes live (concat bs) r d"
| "accepted live Flush r d \<longleftrightarrow> d = [] \<and> (live \<longrightarrow> r = Inr 0)"

fun settled :: "wr_op \<Rightarrow> io_error + nat \<Rightarrow> bytes \<Rightarrow> bool" where
  "settled (Write_all b) r buf \<longleftrightarrow> (\<forall>n. r = Inr n \<longrightarrow> NEWLINE \<notin> set buf)"
| "settled Flush r buf \<longleftrightarrow> (\<forall>n. r = Inr n \<longrightarrow> buf = [])"
| "settled _ r buf \<longleftrightarrow> True"

fun op_size :: "wr_op \<Rightarrow> nat" where
  "op_size (Write b) = length b"
| "op_size (Write_all b) = length b"
| "op_size (Write_vectored bs) = length (concat bs)"
| "op_size Flush = 0"

fun accepted_run :: "bool \<Rightarrow> wr_op list \<Rightarrow> (io_error + nat) list \<Rightarrow> bytes list \<Rightarrow> bool" where
  "accepted_run live [] [] [] \<longleftrightarrow> True"
| "accepted_run live (op # ops) (r # rs) (d # ds) \<longleftrightarrow> accepted live op r d \<and> accepted_run live ops rs ds"
| "accepted_run live _ _ _ \<longleftrightarrow> False"

lemma run_ops_accepted:
  assumes "\<And>op bw. op \<in> set ops \<Longrightarrow> keeps (bw_buf bw) \<Longrightarrow> bw_capacity bw = c \<Longrightarrow>
      accepts live sent good (step op) bw (\<lambda>r d bw'. accepted live op r d \<and> keeps (bw_buf bw') \<and> finish op r (bw_buf bw'))"
    "bw_ok bw" "bw_capacity bw = c" "keeps (bw_buf bw)" "good (os_oracle s)"
  shows "case run_ops step ops bw s of
       (Ok (rs, bw'), s') \<Rightarrow> os_oracle s' = os_oracle s \<and> bw_ok bw' \<and> bw_capacity bw' = c \<and> keeps (bw_buf bw')
         \<and> (ops \<noteq> [] \<longrightarrow> finish (last ops) (last rs) (bw_buf bw'))
         \<and> (\<exists>ds. accepted_run live ops rs ds \<and> sent (os_trace s') @ bw_buf bw' = sent (os_trace s) @ bw_buf bw @ concat ds)
     | (Hang, s') \<Rightarrow> \<not> live | _ \<Rightarrow> False"
  using assms
proof (induction ops arbitrary: bw s)
  case Nil
  then show ?case by (auto intro!: exI [of _ "[]"])
next
  case (Cons op ops)
  obtain w s1 where w: "step op bw s = (w, s1)" by fastforce
  have "accepts live sent good (step op) bw (\<lambda>r d bw'. accepted live op r d \<and> keeps (bw_buf bw') \<and> finish op r (bw_buf bw'))"
    using Cons.prems(1) [of op bw] Cons.prems(3,4) by simp
  note a = acceptsD [OF this Cons.prems(2,5), unfolded w]
  show ?case
  proof (cases w)
    case (Ok x)
    obtain r bw1 where x: "x = (r, bw1)" by fastforce
    with a Ok obtain d where d: "os_oracle s1 = os_oracle s" "bw_ok bw1" "bw_capacity bw1 = c" "keeps (bw_buf bw1)"
      "accepted live op r d" "finish op r (bw_buf bw1)" "sent (os_trace s1) @ bw_buf bw1 = sent (os_trace s) @ bw_buf bw @ d"
      using Cons.prems(3) by auto
    obtain w2 s2 where w2: "run_ops step ops bw1 s1 = (w2, s2)" by fastforce
    have "good (os_oracle s1)" using Cons.prems(5) d(1) by simp
    moreover have "accepts live sent good (step op') bw' (\<lambda>r d bw'. accepted live op' r d \<and> keeps (bw_buf bw') \<and> finish op' r (bw_buf bw'))"
      if "op' \<in> set ops" "keeps (bw_buf bw')" "bw_capacity bw' = c" for op' bw'
      using Cons.prems(1) [OF _ that(2,3)] that(1) by simp
    ultimately have b: "case (w2, s2) of
       (Ok (rs, bw'), s') \<Rightarrow> os_oracle s' = os_oracle s1 \<and> bw_ok bw' \<and> bw_capacity bw' = c \<and> keeps (bw_buf bw')
         \<and> (ops \<noteq> [] \<longrightarrow> finish (last ops) (last rs) (bw_buf bw'))
         \<and> (\<exists>ds. accepted_run live ops rs ds \<and> sent (os_trace s') @ bw_buf bw' = sent (os_trace s1) @ bw_buf bw1 @ concat ds)
     | (Hang, s') \<Rightarrow> \<not> live | _ \<Rightarrow> False"
      using Cons.IH [of bw1 s1] d(2,3,4) unfolding w2 by blast
    show ?thesis
    proof (cases w2)
      case Ok2: (Ok y)
      obtain rs bw2 where y: "y = (rs, bw2)" by fastforce
      with b Ok2 obtain ds where ds: "os_oracle s2 = os_oracle s1" "bw_ok bw2" "bw_capacity bw2 = c" "keeps (bw_buf bw2)"
        "ops \<noteq> [] \<longrightarrow> finish (last ops) (last rs) (bw_buf bw2)"
        "accepted_run live ops rs ds" "sent (os_trace s2) @ bw_buf bw2 = sent (os_trace s1) @ bw_buf bw1 @ concat ds"
        by auto
      have "sent (os_trace s2) @ bw_buf bw2 = sent (os_trace s) @ bw_buf bw @ concat (d # ds)"
        using ds(7) d(7) by (metis append.assoc concat.simps(2))
      then have "\<exists>ds. accepted_run live (op # ops) (r # rs) ds
          \<and> sent (os_trace s2) @ bw_buf bw2 = sent (os_trace s) @ bw_buf bw @ concat ds"
        by (intro exI [of _ "d # ds"]) (use d(5) ds(6) in simp)
      moreover have "run_ops step (op # ops) bw s = (Ok (r # rs, bw2), s2)"
        using w Ok x w2 Ok2 y by (simp add: io_bind_def)
      moreover have "finish (last (op # ops)) (last (r # rs)) (bw_buf bw2)"
      proof (cases ops)
        case Nil
        then show ?thesis using d(6) ds(6) w2 Ok2 y by (cases rs) auto
      next
        case (Cons op' ops')
        then have "rs \<noteq> []" using ds(6) by (cases rs) auto
        with Cons ds(5) show ?thesis by simp
      qed
      ultimately show ?thesis using d(1) ds(1-4) by (simp del: run_ops.simps)
    qed (use b w Ok x w2 in \<open>simp_all add: io_bind_def\<close>)
  qed (use a w in \<open>simp_all add: io_bind_def\<close>)
qed

context writer_sink
begin

lemma accepts_line_op:
  assumes "line_ok (bw_buf bw)" "live \<Longrightarrow> bw_capacity bw < fuel" "live \<Longrightarrow> op_size op < fuel" "\<not> sk_is_write_vectored k"
  shows "accepts live sent good (line_op k fuel op) bw
    (\<lambda>r d bw'. accepted live op r d \<and> line_ok (bw_buf bw') \<and> settled op r (bw_buf bw'))"
proof (cases op)
  case (Write b)
  then show ?thesis using assms by (auto intro!: accepts_conseq [OF accepts_shim_write])
next
  case (Write_all b)
  have "accepts live sent good (bw_bind (shim_write_all k fuel b) (\<lambda>_. bw_ret (length b))) bw
    (\<lambda>r d bw'. accepted live op r d \<and> line_ok (bw_buf bw') \<and> settled op r (bw_buf bw'))"
  proof (rule accepts_bind, rule accepts_conseq [OF accepts_shim_write_all], goal_cases)
    case (4 r d bw1)
    then show ?case unfolding Write_all by (cases r) (auto intro!: accepts_ret)
  qed (use assms Write_all in auto)
  then show ?thesis by (simp add: Write_all)
next
  case (Write_vectored bs)
  then show ?thesis using assms
    by (auto intro!: accepts_conseq [OF accepts_shim_write_vectored])
next
  case Flush
  have "accepts live sent good (bw_bind (bw_flush k fuel) (\<lambda>_. bw_ret 0)) bw
    (\<lambda>r d bw'. accepted live op r d \<and> line_ok (bw_buf bw') \<and> settled op r (bw_buf bw'))"
  proof (rule accepts_bind, rule accepts_conseq [OF accepts_bw_flush], goal_cases)
    case (2 r d bw1)
    then show ?case unfolding Flush using assms(1) by (cases r) (auto intro!: accepts_ret intro: line_ok_suffix)
  qed (use assms in auto)
  then show ?thesis by (simp add: Flush)
qed

lemma accepts_buf_op:
  assumes "live \<Longrightarrow> bw_capacity bw < fuel" "live \<Longrightarrow> op_size op < fuel"
  shows "accepts live sent good (buf_op k fuel op) bw (\<lambda>r d bw'. accepted live op r d)"
proof (cases op)
  case (Write b)
  then show ?thesis using assms by (auto intro!: accepts_conseq [OF accepts_bw_write] dest: wrote_writes)
next
  case (Write_all b)
  have "accepts live sent good (bw_bind (bw_write_all k fuel b) (\<lambda>_. bw_ret (length b))) bw (\<lambda>r d bw'. accepted live op r d)"
  proof (rule accepts_bind, rule accepts_conseq [OF accepts_bw_write_all], goal_cases)
    case (3 r d bw1)
    then show ?case unfolding Write_all by (cases r) (auto intro!: accepts_ret dest: wrote_writes)
  qed (use assms Write_all in auto)
  then show ?thesis by (simp add: Write_all)
next
  case (Write_vectored bs)
  then show ?thesis using assms by (auto intro!: accepts_conseq [OF accepts_bw_write_vectored] dest: wrote_writes)
next
  case Flush
  have "accepts live sent good (bw_bind (bw_flush k fuel) (\<lambda>_. bw_ret 0)) bw (\<lambda>r d bw'. accepted live op r d)"
  proof (rule accepts_bind, rule accepts_conseq [OF accepts_bw_flush], goal_cases)
    case (2 r d bw1)
    then show ?case unfolding Flush by (cases r) (auto intro!: accepts_ret)
  qed (use assms in auto)
  then show ?thesis by (simp add: Flush)
qed

text \<open>A run of a new line writer.\<close>

lemma line_run:
  assumes "good orc" "live \<Longrightarrow> 1024 < fuel" "live \<Longrightarrow> \<forall>op\<in>set ops. op_size op < fuel" "\<not> sk_is_write_vectored k" "sent [] = []"
  shows "case run_ops (line_op k fuel) ops line_writer_new (boot orc) of
       (Ok (rs, bw), s) \<Rightarrow> os_oracle s = orc \<and> bw_ok bw \<and> bw_capacity bw = 1024 \<and> line_ok (bw_buf bw)
         \<and> (ops \<noteq> [] \<longrightarrow> settled (last ops) (last rs) (bw_buf bw))
         \<and> (\<exists>ds. accepted_run live ops rs ds \<and> sent (os_trace s) @ bw_buf bw = concat ds)
     | (Hang, s) \<Rightarrow> \<not> live | _ \<Rightarrow> False"
proof -
  have new: "bw_ok line_writer_new" "bw_buf line_writer_new = []" "bw_capacity line_writer_new = 1024"
    by (simp_all add: line_writer_new_def line_writer_with_capacity_def buf_writer_with_capacity_def bw_ok_def)
  have "case run_ops (line_op k fuel) ops line_writer_new (boot orc) of
       (Ok (rs, bw'), s') \<Rightarrow> os_oracle s' = os_oracle (boot orc) \<and> bw_ok bw' \<and> bw_capacity bw' = 1024 \<and> line_ok (bw_buf bw')
         \<and> (ops \<noteq> [] \<longrightarrow> settled (last ops) (last rs) (bw_buf bw'))
         \<and> (\<exists>ds. accepted_run live ops rs ds
           \<and> sent (os_trace s') @ bw_buf bw' = sent (os_trace (boot orc)) @ bw_buf line_writer_new @ concat ds)
     | (Hang, s') \<Rightarrow> \<not> live | _ \<Rightarrow> False"
    using assms
    by (intro run_ops_accepted [where good = good and keeps = line_ok] accepts_line_op) (auto simp: new line_ok_def)
  then show ?thesis using assms(5) by (auto simp: new split: prod.splits outcome.splits)
qed

text \<open>Dropping a writer sends what it holds, if the writer below is live.\<close>

lemma drop_sends:
  assumes "bw_ok bw" "\<not> bw_panicked bw" "good (os_oracle s)" "live \<Longrightarrow> bw_capacity bw < fuel"
  shows "case bw_drop k fuel bw s of
       (Ok u, s') \<Rightarrow> \<exists>q. sent (os_trace s') @ q = sent (os_trace s) @ bw_buf bw \<and> (live \<longrightarrow> q = [])
     | (Hang, s') \<Rightarrow> \<not> live | _ \<Rightarrow> False"
proof -
  have "accepts live sent good (flush_buf k fuel) bw (\<lambda>r d bw'. d = [] \<and> (live \<longrightarrow> bw_buf bw' = []))"
    by (intro accepts_flush_buf) (use assms(4) in auto)
  from acceptsD [OF this assms(1,3)] show ?thesis
    using assms(2) by (auto simp: bw_drop_def io_bind_def split: prod.splits outcome.splits)
qed

end

end
