(* ===== verification/Stdio_Aros.thy ===== *)
theory Stdio_Aros
  imports Line_Writer
begin

text \<open>
  Standard streams: \<open>sys/stdio/aros.rs\<close>, the raw handles of \<open>std/src/io/stdio.rs\<close> that treat a closed
  descriptor as a sink, the line writer over standard output and its flush at exit, and buffered files.
\<close>

section \<open>The descriptors\<close>

definition STDIN_FILENO :: int where "STDIN_FILENO = 0"
definition STDOUT_FILENO :: int where "STDOUT_FILENO = 1"
definition STDERR_FILENO :: int where "STDERR_FILENO = 2"
definition EBADF :: int where "EBADF = 9"

definition write_fd :: "int \<Rightarrow> bytes \<Rightarrow> nat io" where
  "write_fd fd buf =
    io_bind (sys (FsC (C_write fd buf))) (\<lambda>r.
    if r_ret r < 0 then os_fail else io_return (nat (r_ret r)))"

definition stdin_read :: "bytes \<Rightarrow> (nat \<times> bytes) io" where
  "stdin_read buf =
    io_bind (sys (FsC (C_read STDIN_FILENO (length buf)))) (\<lambda>r.
    if r_ret r < 0 then os_fail else io_return (nat (r_ret r), overwrite buf (r_data r)))"

definition is_ebadf :: "io_error \<Rightarrow> bool" where
  "is_ebadf err \<longleftrightarrow> raw_os_error err = Some EBADF"

text \<open>\<open>Stdout\<close> and \<open>Stderr\<close> define \<open>write\<close> and \<open>flush\<close> and have the other methods from the trait.\<close>

definition stdout_write :: "bytes \<Rightarrow> nat io" where "stdout_write = write_fd STDOUT_FILENO"
definition stdout_flush :: "unit io" where "stdout_flush = io_return ()"
definition stderr_write :: "bytes \<Rightarrow> nat io" where "stderr_write = write_fd STDERR_FILENO"

section \<open>The raw handles\<close>

definition handle_ebadf :: "'a io \<Rightarrow> 'a io \<Rightarrow> 'a io" where
  "handle_ebadf r dflt = io_bind (io_attempt r) (\<lambda>x. case x of
      Inl e \<Rightarrow> if is_ebadf e then dflt else io_fail e
    | Inr v \<Rightarrow> io_return v)"

definition stdin_raw_read :: "bytes \<Rightarrow> (nat \<times> bytes) io" where
  "stdin_raw_read buf = handle_ebadf (stdin_read buf) (io_return (0, buf))"

definition raw_write :: "(bytes \<Rightarrow> nat io) \<Rightarrow> bytes \<Rightarrow> nat io" where
  "raw_write wr buf = handle_ebadf (wr buf) (io_return (length buf))"

definition raw_write_vectored :: "(bytes \<Rightarrow> nat io) \<Rightarrow> bytes list \<Rightarrow> nat io" where
  "raw_write_vectored wr bufs =
    handle_ebadf (default_write_vectored wr bufs) (io_return (sum_list (map length bufs)))"

definition raw_write_all :: "(bytes \<Rightarrow> nat io) \<Rightarrow> nat \<Rightarrow> bytes \<Rightarrow> unit io" where
  "raw_write_all wr fuel buf = handle_ebadf (write_all wr fuel buf) (io_return ())"

definition raw_flush :: "unit io \<Rightarrow> unit io" where
  "raw_flush fl = handle_ebadf fl (io_return ())"

definition stdout_raw :: sink where
  "stdout_raw = \<lparr>sk_write = raw_write stdout_write, sk_write_vectored = raw_write_vectored stdout_write,
     sk_is_write_vectored = False, sk_write_all = raw_write_all stdout_write, sk_flush = raw_flush stdout_flush\<rparr>"

definition stderr_raw :: sink where
  "stderr_raw = \<lparr>sk_write = raw_write stderr_write, sk_write_vectored = raw_write_vectored stderr_write,
     sk_is_write_vectored = False, sk_write_all = raw_write_all stderr_write, sk_flush = raw_flush stdout_flush\<rparr>"

text \<open>
  \<open>cleanup\<close>: the state is the buffered writer in \<open>STDOUT\<close>, if it was ever used, and whether its lock can
  be taken. Assigning the new writer drops the old one, which flushes it.
\<close>

definition stdio_cleanup :: "nat \<Rightarrow> buf_writer option \<Rightarrow> bool \<Rightarrow> buf_writer io" where
  "stdio_cleanup fuel stdout unlocked = (case stdout of
      None \<Rightarrow> io_return (line_writer_with_capacity 0)
    | Some bw \<Rightarrow>
        if unlocked then io_bind (bw_drop stdout_raw fuel bw) (\<lambda>_. io_return (line_writer_with_capacity 0))
        else io_return bw)"

text \<open>A file as a writer (\<open>impl Write for File\<close>).\<close>

definition file_writer :: "int \<Rightarrow> sink" where
  "file_writer fd = \<lparr>sk_write = file_write fd, sk_write_vectored = file_write_vectored fd,
     sk_is_write_vectored = False, sk_write_all = write_all (file_write fd), sk_flush = io_return ()\<rparr>"

section \<open>What the descriptors do\<close>

text \<open>
  The counts the C function may report, and the error numbers it may leave: \<open>fd_counts\<close> holds for any
  \<open>write\<close> that keeps its contract; \<open>fd_takes\<close> moreover never fails and always makes progress;
  \<open>fd_closed\<close> always fails with EBADF.
\<close>

definition fd_counts :: "int \<Rightarrow> (trace \<Rightarrow> call \<Rightarrow> reply) \<Rightarrow> bool" where
  "fd_counts fd orc \<longleftrightarrow> (\<forall>t b. r_ret (orc t (FsC (C_write fd b))) \<le> int (length b))"

definition not_ebadf :: "(trace \<Rightarrow> call \<Rightarrow> reply) \<Rightarrow> bool" where
  "not_ebadf orc \<longleftrightarrow> (\<forall>t c. r_ret (orc t (ErrnoC c)) \<noteq> EBADF)"

definition fd_takes :: "int \<Rightarrow> (trace \<Rightarrow> call \<Rightarrow> reply) \<Rightarrow> bool" where
  "fd_takes fd orc \<longleftrightarrow> (\<forall>t b. let n = r_ret (orc t (FsC (C_write fd b)))
     in 0 \<le> n \<and> n \<le> int (length b) \<and> (b \<noteq> [] \<longrightarrow> 0 < n))"

definition fd_closed :: "int \<Rightarrow> (trace \<Rightarrow> call \<Rightarrow> reply) \<Rightarrow> bool" where
  "fd_closed fd orc \<longleftrightarrow> (\<forall>t b. r_ret (orc t (FsC (C_write fd b))) < 0) \<and> (\<forall>t. r_ret (orc t (ErrnoC Stdc_errno_get)) = EBADF)"

text \<open>Everything a program has tried to write to a descriptor.\<close>

fun fd_tried :: "int \<Rightarrow> trace \<Rightarrow> bytes" where
  "fd_tried fd [] = []"
| "fd_tried fd ((FsC (C_write fd' b), r) # t) = (if fd' = fd then b else []) @ fd_tried fd t"
| "fd_tried fd (_ # t) = fd_tried fd t"

lemma write_fd_file: "write_fd fd = file_write fd"
  by (simp add: write_fd_def file_write_def fun_eq_iff)

lemma sends_fail: "P (Inl e) [] \<Longrightarrow> sends live sent good (io_fail e) P"
  by (simp add: sends_def io_attempt_def)

lemma os_fail_errno:
  assumes "not_ebadf (os_oracle s)" "(os_fail :: 'a io) s = (r, s')"
  shows "\<exists>e. r = Err e \<and> \<not> is_ebadf e"
  using assms
  by (auto simp: os_fail_def last_os_error_def errno_def sys_def io_bind_def Let_def is_ebadf_def raw_os_error_def
      from_raw_os_error_def not_ebadf_def split: if_splits)

lemma file_write_sends:
  assumes "\<And>orc t. good orc \<Longrightarrow> r_ret (orc t (FsC (C_write fd b))) \<le> int (length b)"
    "\<And>orc t. good orc \<Longrightarrow> live \<Longrightarrow> 0 \<le> r_ret (orc t (FsC (C_write fd b))) \<and> (b \<noteq> [] \<longrightarrow> 0 < r_ret (orc t (FsC (C_write fd b))))"
    "\<And>s s' e. good (os_oracle s) \<Longrightarrow> (os_fail :: nat io) s = (Err e, s') \<Longrightarrow> E e"
  shows "sends live (fd_sent fd) good (file_write fd b) (\<lambda>r d. writes live b r d \<and> (\<forall>e. r = Inl e \<longrightarrow> E e))"
  unfolding sends_def
proof (intro allI impI)
  fix s :: os assume g: "good (os_oracle s)"
  let ?c = "FsC (C_write fd b)"
  let ?n = "r_ret (reply_of s ?c)"
  have n: "?n \<le> int (length b)" "live \<Longrightarrow> 0 \<le> ?n" "live \<Longrightarrow> b \<noteq> [] \<Longrightarrow> 0 < ?n"
    using assms(1,2) [OF g, of "os_trace s"] by (simp_all add: reply_of_def)
  show "case io_attempt (file_write fd b) s of
       (Ok r, s') \<Rightarrow> os_oracle s' = os_oracle s \<and> (\<exists>d. fd_sent fd (os_trace s') = fd_sent fd (os_trace s) @ d
         \<and> writes live b r d \<and> (\<forall>e. r = Inl e \<longrightarrow> E e))
     | (Hang, s') \<Rightarrow> \<not> live | _ \<Rightarrow> False"
  proof (cases "?n < 0")
    case True
    obtain r s' where f: "(os_fail :: nat io) (after s ?c) = (r, s')" by fastforce
    obtain e where e: "r = Err (OsError e)" using os_fail_stream(1) [OF f] by blast
    have "E (OsError e)" using assms(3) [of "after s ?c"] g f e by simp
    moreover have "\<not> live" using n(2) True by auto
    ultimately show ?thesis using True f e os_fail_stream(2) [OF f] os_fail_stream(3) [OF f, of fd]
      by (simp add: io_attempt_def file_write_run Let_def stream_simps)
  next
    case False
    then show ?thesis using n by (simp add: io_attempt_def file_write_run Let_def stream_simps)
  qed
qed

lemmas fd_defs = fd_counts_def fd_takes_def not_ebadf_def Let_def

text \<open>The loop \<open>write_all\<close> over a writer that keeps its contract; its errors are the writer's or \<open>WRITE_ALL_EOF\<close>.\<close>

lemma sends_write_all:
  assumes "\<And>b. sends live sent good (wr b) (\<lambda>r d. writes live b r d \<and> (\<forall>e. r = Inl e \<longrightarrow> E e))" "E WRITE_ALL_EOF"
  shows "(live \<Longrightarrow> length b < fuel) \<Longrightarrow>
    sends live sent good (write_all wr fuel b) (\<lambda>r d. writes_all live b r d \<and> (\<forall>e. r = Inl e \<longrightarrow> E e))"
proof (induction fuel arbitrary: b)
  case 0
  then have "\<not> live" by auto
  then show ?case by (simp add: sends_hang)
next
  case (Suc fuel)
  show ?case
  proof (cases "b = []")
    case True
    then show ?thesis by (simp add: sends_return)
  next
    case False
    let ?next = "\<lambda>r. case r of
         Inr n \<Rightarrow> if n = 0 then io_fail WRITE_ALL_EOF
           else if n > length b then io_panic ''range start index out of range'' else write_all wr fuel (drop n b)
       | Inl e \<Rightarrow> if is_interrupted e then write_all wr fuel b else io_fail e"
    have "sends live sent good (?next r) (\<lambda>r' d'. writes_all live b r' (d @ d') \<and> (\<forall>e. r' = Inl e \<longrightarrow> E e))"
      if w: "writes live b r d \<and> (\<forall>e. r = Inl e \<longrightarrow> E e)" for r d
    proof (cases r)
      case (Inl e)
      with w Suc.IH [of b] show ?thesis by (auto intro: sends_fail)
    next
      case (Inr n)
      with w False have n: "n \<le> length b" "d = take n b" "live \<Longrightarrow> 0 < n" by auto
      have "writes_all live b r' (d @ d')" if "writes_all live (drop n b) r' d'" for r' d'
        using that n(2) by (cases r') (auto simp: prefix_def, metis append.assoc append_take_drop_id)
      moreover have "length (drop n b) < fuel" if live using Suc.prems [OF that] n(1) n(3) [OF that] by simp
      ultimately have "sends live sent good (write_all wr fuel (drop n b))
          (\<lambda>r' d'. writes_all live b r' (d @ d') \<and> (\<forall>e. r' = Inl e \<longrightarrow> E e))"
        by (intro sends_conseq [OF Suc.IH]) auto
      with Inr n assms(2) show ?thesis by (auto intro!: sends_fail)
    qed
    then have "sends live sent good (io_bind (io_attempt (wr b)) ?next) (\<lambda>r d. writes_all live b r d \<and> (\<forall>e. r = Inl e \<longrightarrow> E e))"
      by (intro sends_attempt_bind sends_conseq [OF assms(1)])
    with False show ?thesis by simp
  qed
qed

lemma sends_handle_ebadf:
  assumes "sends live sent good m (\<lambda>r d. P r d \<and> (\<forall>e. r = Inl e \<longrightarrow> \<not> is_ebadf e))"
  shows "sends live sent good (handle_ebadf m dflt) P"
  unfolding handle_ebadf_def
proof (intro sends_attempt_bind, rule sends_conseq [OF assms])
  fix r :: "io_error + 'a" and d :: bytes
  assume "P r d \<and> (\<forall>e. r = Inl e \<longrightarrow> \<not> is_ebadf e)"
  then show "sends live sent good (case r of Inl e \<Rightarrow> if is_ebadf e then dflt else io_fail e | Inr v \<Rightarrow> io_return v)
      (\<lambda>r' d'. P r' (d @ d'))"
    by (cases r) (auto intro: sends_fail sends_return)
qed

text \<open>A descriptor under its raw handle: on the oracles where it is not closed, and where it takes everything.\<close>

lemma raw_sends:
  assumes "wr = write_fd fd"
  shows "sends False (fd_sent fd) (\<lambda>orc. fd_counts fd orc \<and> not_ebadf orc) (raw_write wr b) (writes False b)"
    "sends False (fd_sent fd) (\<lambda>orc. fd_counts fd orc \<and> not_ebadf orc) (raw_write_all wr fuel b) (writes_all False b)"
    "sends True (fd_sent fd) (fd_takes fd) (raw_write wr b) (writes True b)"
    "length b < fuel \<Longrightarrow> sends True (fd_sent fd) (fd_takes fd) (raw_write_all wr fuel b) (writes_all True b)"
proof -
  have E: "\<not> is_ebadf WRITE_ALL_EOF" by (simp add: is_ebadf_def WRITE_ALL_EOF_def raw_os_error_def)
  have s: "sends False (fd_sent fd) (\<lambda>orc. fd_counts fd orc \<and> not_ebadf orc) (file_write fd b)
      (\<lambda>r d. writes False b r d \<and> (\<forall>e. r = Inl e \<longrightarrow> \<not> is_ebadf e))" for b
    by (rule file_write_sends) (auto simp: fd_defs dest: os_fail_errno [rotated])
  have l: "sends True (fd_sent fd) (fd_takes fd) (file_write fd b)
      (\<lambda>r d. writes True b r d \<and> (\<forall>e. r = Inl e \<longrightarrow> False))" for b
  proof (rule sends_conseq [OF file_write_sends [where live = True and E = "\<lambda>_. True"]])
    show "writes True b r d \<and> (\<forall>e. r = Inl e \<longrightarrow> False)" if "writes True b r d \<and> (\<forall>e. r = Inl e \<longrightarrow> True)" for r d
      using that by (cases r) auto
  qed (auto simp: fd_defs)
  show "sends False (fd_sent fd) (\<lambda>orc. fd_counts fd orc \<and> not_ebadf orc) (raw_write wr b) (writes False b)"
    unfolding raw_write_def assms write_fd_file by (rule sends_handle_ebadf [OF s])
  show "sends False (fd_sent fd) (\<lambda>orc. fd_counts fd orc \<and> not_ebadf orc) (raw_write_all wr fuel b) (writes_all False b)"
    unfolding raw_write_all_def assms write_fd_file by (intro sends_handle_ebadf sends_write_all s E) simp
  show "sends True (fd_sent fd) (fd_takes fd) (raw_write wr b) (writes True b)"
    unfolding raw_write_def assms write_fd_file
    by (rule sends_handle_ebadf) (rule sends_conseq [OF l], auto)
  show "sends True (fd_sent fd) (fd_takes fd) (raw_write_all wr fuel b) (writes_all True b)" if "length b < fuel"
  proof -
    have "sends True (fd_sent fd) (fd_takes fd) (write_all (file_write fd) fuel b)
        (\<lambda>r d. writes_all True b r d \<and> (\<forall>e. r = Inl e \<longrightarrow> \<not> is_ebadf e))"
      by (intro sends_write_all E that sends_conseq [OF l]) auto
    then show ?thesis unfolding raw_write_all_def assms write_fd_file by (rule sends_handle_ebadf)
  qed
qed

text \<open>A closed descriptor under its raw handle: everything is taken and lost.\<close>

lemma fd_tried_append: "fd_tried fd (t @ u) = fd_tried fd t @ fd_tried fd u"
  by (induction fd t rule: fd_tried.induct) simp_all

lemma closed_write:
  assumes "fd_closed fd (os_oracle s)"
  obtains s' where "file_write fd b s = (Err (OsError EBADF), s')" "os_oracle s' = os_oracle s"
    "fd_tried fd (os_trace s') = fd_tried fd (os_trace s) @ b"
proof
  let ?s = "after (after s (FsC (C_write fd b))) (ErrnoC Stdc_errno_get)"
  show "file_write fd b s = (Err (OsError EBADF), ?s)"
    using assms by (simp add: file_write_run os_fail_def last_os_error_def errno_def bind_sys_after Let_def
        fd_closed_def reply_of_def EBADF_def from_raw_os_error_def)
  show "os_oracle ?s = os_oracle s" by simp
  show "fd_tried fd (os_trace ?s) = fd_tried fd (os_trace s) @ b" by (simp add: fd_tried_append)
qed

lemma closed_sends:
  assumes "wr = write_fd fd"
  shows "sends True (fd_tried fd) (fd_closed fd) (raw_write wr b) (writes True b)"
    "0 < fuel \<Longrightarrow> sends True (fd_tried fd) (fd_closed fd) (raw_write_all wr fuel b) (writes_all True b)"
proof -
  have e: "is_ebadf (OsError EBADF)" "\<not> is_interrupted (OsError EBADF)"
    by (simp_all add: is_ebadf_def raw_os_error_def is_interrupted_def code_is_interrupted_def EBADF_def)
  show "sends True (fd_tried fd) (fd_closed fd) (raw_write wr b) (writes True b)"
    unfolding sends_def
  proof (intro allI impI)
    fix s :: os assume "fd_closed fd (os_oracle s)"
    then obtain s' where "file_write fd b s = (Err (OsError EBADF), s')" "os_oracle s' = os_oracle s"
      "fd_tried fd (os_trace s') = fd_tried fd (os_trace s) @ b" by (rule closed_write)
    with e show "case io_attempt (raw_write wr b) s of
         (Ok r, s') \<Rightarrow> os_oracle s' = os_oracle s \<and> (\<exists>d. fd_tried fd (os_trace s') = fd_tried fd (os_trace s) @ d \<and> writes True b r d)
       | (Hang, s') \<Rightarrow> \<not> True | _ \<Rightarrow> False"
      unfolding assms write_fd_file by (simp add: raw_write_def handle_ebadf_def io_bind_def io_attempt_def)
  qed
  assume "0 < fuel"
  then obtain n where n: "fuel = Suc n" by (cases fuel) auto
  show "sends True (fd_tried fd) (fd_closed fd) (raw_write_all wr fuel b) (writes_all True b)"
    unfolding sends_def
  proof (intro allI impI)
    fix s :: os assume "fd_closed fd (os_oracle s)"
    then obtain s' where "file_write fd b s = (Err (OsError EBADF), s')" "os_oracle s' = os_oracle s"
      "fd_tried fd (os_trace s') = fd_tried fd (os_trace s) @ b" by (rule closed_write)
    with e show "case io_attempt (raw_write_all wr fuel b) s of
         (Ok r, s') \<Rightarrow> os_oracle s' = os_oracle s \<and> (\<exists>d. fd_tried fd (os_trace s') = fd_tried fd (os_trace s) @ d \<and> writes_all True b r d)
       | (Hang, s') \<Rightarrow> \<not> True | _ \<Rightarrow> False"
      unfolding assms write_fd_file n by (simp add: raw_write_all_def handle_ebadf_def io_bind_def io_attempt_def)
  qed
qed

section \<open>The writers of the platform\<close>

interpretation stdout_out: writer_sink False stdout_raw "fd_sent STDOUT_FILENO" "\<lambda>orc. fd_counts STDOUT_FILENO orc \<and> not_ebadf orc"
  by unfold_locales
    (simp_all add: stdout_raw_def stdout_write_def raw_sends raw_flush_def stdout_flush_def sends_handle_ebadf sends_return)

interpretation stdout_live: writer_sink True stdout_raw "fd_sent STDOUT_FILENO" "fd_takes STDOUT_FILENO"
  by unfold_locales
    (simp_all add: stdout_raw_def stdout_write_def raw_sends raw_flush_def stdout_flush_def sends_handle_ebadf sends_return)

interpretation stdout_closed: writer_sink True stdout_raw "fd_tried STDOUT_FILENO" "fd_closed STDOUT_FILENO"
  by unfold_locales
    (auto simp: stdout_raw_def stdout_write_def closed_sends raw_flush_def stdout_flush_def intro!: sends_handle_ebadf sends_return)

lemma file_write_contract:
  "sends False (fd_sent fd) (fd_counts fd) (file_write fd b) (\<lambda>r d. writes False b r d \<and> (\<forall>e. r = Inl e \<longrightarrow> True))"
  by (rule file_write_sends) (auto simp: fd_defs)

interpretation file_out: writer_sink False "file_writer fd" "fd_sent fd" "fd_counts fd" for fd
proof
  fix b :: bytes and bufs :: "bytes list" and fuel :: nat
  show "sends False (fd_sent fd) (fd_counts fd) (sk_write (file_writer fd) b) (writes False b)"
    using file_write_contract [of fd b] by (simp add: file_writer_def)
  show "sends False (fd_sent fd) (fd_counts fd) (sk_write_all (file_writer fd) fuel b) (writes_all False b)"
    using sends_write_all [where live = False, OF file_write_contract, of b fuel fd] by (simp add: file_writer_def)
  show "sends False (fd_sent fd) (fd_counts fd) (sk_flush (file_writer fd)) (\<lambda>r d. d = [] \<and> (False \<longrightarrow> r = Inr ()))"
    by (simp add: file_writer_def sends_return)
qed (simp add: file_writer_def)

section \<open>Properties\<close>

lemma stdout_not_vectored: "\<not> sk_is_write_vectored stdout_raw"
  by (simp add: stdout_raw_def)

text \<open>
  C8: standard output keeps every byte in order and no line waiting. Whatever the operating system answers,
  as long as standard output is open, in any sequence of \<open>write\<close>, \<open>write_all\<close>, \<open>write_vectored\<close> and
  \<open>flush\<close> calls on the line writer there is no panic and no write beyond the buffer, and what has reached
  the descriptor followed by what is buffered is what the calls have accepted, in order. The buffer never
  holds a complete line in front of other bytes, none at all after a successful \<open>write_all\<close>, and
  nothing after a successful \<open>flush\<close>.
\<close>

theorem stdout_keeps_order:
  assumes "fd_counts STDOUT_FILENO orc" "not_ebadf orc"
  shows "case run_ops (line_op stdout_raw fuel) ops line_writer_new (boot orc) of
       (Ok (rs, bw), s) \<Rightarrow> length (bw_buf bw) \<le> 1024 \<and> line_ok (bw_buf bw)
         \<and> (ops \<noteq> [] \<longrightarrow> settled (last ops) (last rs) (bw_buf bw))
         \<and> (\<exists>ds. accepted_run False ops rs ds \<and> fd_sent STDOUT_FILENO (os_trace s) @ bw_buf bw = concat ds)
     | (Hang, s) \<Rightarrow> True | _ \<Rightarrow> False"
  using stdout_out.line_run [of orc fuel ops] assms stdout_not_vectored
  by (auto simp: bw_ok_def split: prod.splits outcome.splits)

lemma serve_oracle_fd: "fd_counts fd (serve_oracle src data)" "not_ebadf (serve_oracle src data)" "fd_takes fd (serve_oracle src data)"
  by (auto simp: fd_defs serve_oracle_def EBADF_def)

theorem stdout_keeps_order_witness:
  "case run_ops (line_op stdout_raw 9) [Write [72, 10, 73], Flush] line_writer_new (boot (serve_oracle 0 [])) of
       (Ok (rs, bw), s) \<Rightarrow> length (bw_buf bw) \<le> 1024 \<and> line_ok (bw_buf bw)
         \<and> ([Write [72, 10, 73], Flush] \<noteq> [] \<longrightarrow> settled (last [Write [72, 10, 73], Flush]) (last rs) (bw_buf bw))
         \<and> (\<exists>ds. accepted_run False [Write [72, 10, 73], Flush] rs ds \<and> fd_sent STDOUT_FILENO (os_trace s) @ bw_buf bw = concat ds)
     | (Hang, s) \<Rightarrow> True | _ \<Rightarrow> False"
  by (rule stdout_keeps_order [OF serve_oracle_fd(1,2)])

text \<open>
  C10: a buffered file keeps every byte in order. For any buffer capacity and any sequence of calls on a
  \<open>BufWriter<File>\<close>, whatever the operating system answers, nothing panics or writes beyond the buffer, and
  what the file has received followed by what is buffered is what the calls have accepted; after the
  drop the file has received a prefix of that.
\<close>

theorem buffered_file_keeps_order:
  assumes "fd_counts fd orc" "capacity < 2 ^ 63"
  shows "case run_ops (buf_op (file_writer fd) fuel) ops (buf_writer_with_capacity capacity) (boot orc) of
       (Ok (rs, bw), s) \<Rightarrow> length (bw_buf bw) \<le> capacity
         \<and> (\<exists>ds. accepted_run False ops rs ds \<and> fd_sent fd (os_trace s) @ bw_buf bw = concat ds
           \<and> (case bw_drop (file_writer fd) fuel bw s of
                (Ok u, s') \<Rightarrow> prefix (fd_sent fd (os_trace s')) (concat ds) | (Hang, s') \<Rightarrow> True | _ \<Rightarrow> False))
     | (Hang, s) \<Rightarrow> True | _ \<Rightarrow> False"
proof -
  let ?bw = "buf_writer_with_capacity capacity"
  have ok: "bw_ok ?bw" "bw_buf ?bw = []" "bw_capacity ?bw = capacity"
    using assms(2) by (simp_all add: buf_writer_with_capacity_def bw_ok_def)
  have run: "case run_ops (buf_op (file_writer fd) fuel) ops ?bw (boot orc) of
       (Ok (rs, bw'), s') \<Rightarrow> os_oracle s' = os_oracle (boot orc) \<and> bw_ok bw' \<and> bw_capacity bw' = capacity \<and> True
         \<and> (ops \<noteq> [] \<longrightarrow> True)
         \<and> (\<exists>ds. accepted_run False ops rs ds \<and> fd_sent fd (os_trace s') @ bw_buf bw'
              = fd_sent fd (os_trace (boot orc)) @ bw_buf ?bw @ concat ds)
     | (Hang, s') \<Rightarrow> \<not> False | _ \<Rightarrow> False"
    using assms ok
    by (intro run_ops_accepted [where good = "fd_counts fd" and keeps = "\<lambda>_. True" and finish = "\<lambda>_ _ _. True"])
      (simp_all add: file_out.accepts_buf_op)
  have drop: "case bw_drop (file_writer fd) fuel bw s of
      (Ok u, s') \<Rightarrow> \<exists>q. fd_sent fd (os_trace s') @ q = fd_sent fd (os_trace s) @ bw_buf bw
    | (Hang, s') \<Rightarrow> True | _ \<Rightarrow> False" if "bw_ok bw" "os_oracle s = orc" for bw s
    using file_out.drop_sends [of bw fd s fuel] that assms(1)
    by (auto simp: bw_ok_def split: prod.splits outcome.splits)
  show ?thesis
  proof (cases "run_ops (buf_op (file_writer fd) fuel) ops ?bw (boot orc)")
    case (Pair w s)
    show ?thesis
    proof (cases w)
      case (Ok x)
      obtain rs bw where x: "x = (rs, bw)" by fastforce
      with run Pair Ok ok obtain ds where ds: "os_oracle s = orc" "bw_ok bw" "bw_capacity bw = capacity"
        "accepted_run False ops rs ds" "fd_sent fd (os_trace s) @ bw_buf bw = concat ds" by auto
      have "case bw_drop (file_writer fd) fuel bw s of
          (Ok u, s') \<Rightarrow> prefix (fd_sent fd (os_trace s')) (concat ds) | (Hang, s') \<Rightarrow> True | _ \<Rightarrow> False"
        using drop [OF ds(2,1)] unfolding ds(5) by (auto split: prod.splits outcome.splits intro: prefixI [OF sym])
      with ds Pair Ok x show ?thesis by (auto simp: bw_ok_def)
    qed (use run Pair in simp_all)
  qed
qed

theorem buffered_file_keeps_order_witness:
  "case run_ops (buf_op (file_writer 5) 9) [Write [1, 2], Write_all [3, 4, 5, 6]] (buf_writer_with_capacity 3) (boot (serve_oracle 0 [])) of
       (Ok (rs, bw), s) \<Rightarrow> length (bw_buf bw) \<le> 3
         \<and> (\<exists>ds. accepted_run False [Write [1, 2], Write_all [3, 4, 5, 6]] rs ds \<and> fd_sent 5 (os_trace s) @ bw_buf bw = concat ds
           \<and> (case bw_drop (file_writer 5) 9 bw s of
                (Ok u, s') \<Rightarrow> prefix (fd_sent 5 (os_trace s')) (concat ds) | (Hang, s') \<Rightarrow> True | _ \<Rightarrow> False))
     | (Hang, s) \<Rightarrow> True | _ \<Rightarrow> False"
  by (rule buffered_file_keeps_order [OF serve_oracle_fd(1)]) simp

lemma accepted_write_alls:
  "accepted_run True (map Write_all bs) rs ds \<Longrightarrow> rs = map (\<lambda>b. Inr (length b)) bs \<and> ds = bs"
proof (induction bs arbitrary: rs ds)
  case Nil
  then show ?case by (cases rs; cases ds) simp_all
next
  case (Cons b bs)
  then show ?case by (cases rs; cases ds) auto
qed

text \<open>
  C9: what is printed is out when the program exits. If standard output takes at least one byte of each
  write, every \<open>write_all\<close> on the line writer succeeds, and after \<open>cleanup\<close> everything printed has reached
  the descriptor, in order and once; as much fuel as the buffer and the longest text have bytes, and one, is
  enough for every loop.
\<close>

theorem print_then_exit:
  assumes "fd_takes STDOUT_FILENO orc" "1024 < fuel" "\<forall>b\<in>set bs. length b < fuel"
  shows "\<exists>bw s s'. run_ops (line_op stdout_raw fuel) (map Write_all bs) line_writer_new (boot orc)
       = (Ok (map (\<lambda>b. Inr (length b)) bs, bw), s)
     \<and> stdio_cleanup fuel (Some bw) True s = (Ok (line_writer_with_capacity 0), s')
     \<and> fd_sent STDOUT_FILENO (os_trace s') = concat bs"
proof -
  have "\<forall>op\<in>set (map Write_all bs). op_size op < fuel" using assms(3) by auto
  with stdout_live.line_run [of orc fuel "map Write_all bs"] assms(1,2) stdout_not_vectored obtain rs bw s ds where
    run: "run_ops (line_op stdout_raw fuel) (map Write_all bs) line_writer_new (boot orc) = (Ok (rs, bw), s)"
      "os_oracle s = orc" "bw_ok bw" "bw_capacity bw = 1024" "accepted_run True (map Write_all bs) rs ds"
      "fd_sent STDOUT_FILENO (os_trace s) @ bw_buf bw = concat ds"
    by (auto split: prod.splits outcome.splits)
  have rd: "rs = map (\<lambda>b. Inr (length b)) bs" "ds = bs" using accepted_write_alls [OF run(5)] by auto
  have "case bw_drop stdout_raw fuel bw s of
      (Ok u, s') \<Rightarrow> fd_sent STDOUT_FILENO (os_trace s') = concat bs | _ \<Rightarrow> False"
    using stdout_live.drop_sends [of bw s fuel] run rd assms(1,2)
    by (auto simp: bw_ok_def split: prod.splits outcome.splits)
  then obtain s' where "bw_drop stdout_raw fuel bw s = (Ok (), s')" "fd_sent STDOUT_FILENO (os_trace s') = concat bs"
    by (auto split: prod.splits outcome.splits)
  with run(1) rd show ?thesis by (auto simp: stdio_cleanup_def io_bind_def)
qed

theorem print_then_exit_witness:
  "\<exists>bw s s'. run_ops (line_op stdout_raw 2000) (map Write_all [[72, 10], [73]]) line_writer_new (boot (serve_oracle 0 []))
       = (Ok ([Inr 2, Inr 1], bw), s)
     \<and> stdio_cleanup 2000 (Some bw) True s = (Ok (line_writer_with_capacity 0), s')
     \<and> fd_sent STDOUT_FILENO (os_trace s') = [72, 10, 73]"
  using print_then_exit [OF serve_oracle_fd(3), of 2000 "[[72, 10], [73]]" 0 "[]"] by (simp add: numeral_2_eq_2)

lemma accepted_run_live: "accepted_run True ops rs ds \<Longrightarrow> length rs = length ops \<and> list_all (\<lambda>r. \<exists>n. r = Inr n) rs"
proof (induction "True" ops rs ds rule: accepted_run.induct)
  case (2 op ops r rs d ds)
  have "\<exists>n. r = Inr n" using 2 by (cases op; cases r) auto
  with 2 show ?case by simp
qed simp_all

text \<open>
  C11: a closed standard output is silent. If every write on it fails with EBADF, every call on the line
  writer ends with success, whatever it is and whatever came before, so a program without an output
  stream runs on; the bytes accepted are each offered to the descriptor once and in order, and lost.
\<close>

theorem closed_stdout_is_silent:
  assumes "fd_closed STDOUT_FILENO orc" "1024 < fuel" "\<forall>op\<in>set ops. op_size op < fuel"
  shows "case run_ops (line_op stdout_raw fuel) ops line_writer_new (boot orc) of
       (Ok (rs, bw), s) \<Rightarrow> length rs = length ops \<and> list_all (\<lambda>r. \<exists>n. r = Inr n) rs
         \<and> (\<exists>ds. accepted_run True ops rs ds \<and> fd_tried STDOUT_FILENO (os_trace s) @ bw_buf bw = concat ds)
     | _ \<Rightarrow> False"
  using stdout_closed.line_run [of orc fuel ops] assms stdout_not_vectored
  by (auto dest: accepted_run_live split: prod.splits outcome.splits)

definition closed_oracle :: "trace \<Rightarrow> call \<Rightarrow> reply" where
  "closed_oracle t c = (case c of FsC (C_write fd b) \<Rightarrow> ret (-1) | ErrnoC e \<Rightarrow> ret 9 | _ \<Rightarrow> ret 0)"

theorem closed_stdout_is_silent_witness:
  "case run_ops (line_op stdout_raw 2000) [Write_all [72, 10], Flush] line_writer_new (boot closed_oracle) of
       (Ok (rs, bw), s) \<Rightarrow> length rs = length [Write_all [72, 10], Flush] \<and> list_all (\<lambda>r. \<exists>n. r = Inr n) rs
         \<and> (\<exists>ds. accepted_run True [Write_all [72, 10], Flush] rs ds \<and> fd_tried STDOUT_FILENO (os_trace s) @ bw_buf bw = concat ds)
     | _ \<Rightarrow> False"
  by (rule closed_stdout_is_silent) (simp_all add: fd_closed_def closed_oracle_def EBADF_def)

end
