(* ===== verification/Read_All.thy ===== *)
theory Read_All
  imports Stdio_Aros Fs_Common
begin

text \<open>
  Reading everything: the vector that grows underneath (\<open>alloc/src/raw_vec\<close>), \<open>default_read_to_end\<close> and
  \<open>default_read_buf\<close> of \<open>std/src/io/mod.rs\<close>, the readers of standard input and of a file, and
  \<open>fs::read\<close>. The contract of a reader is the locale \<open>reader_contract\<close>: it relates every call to the bytes that
  are still to come.
\<close>

section \<open>Growing vectors\<close>

text \<open>A \<open>Vec<u8>\<close> is its contents and its capacity; \<open>mem n\<close> says whether the allocator has a block of \<open>n\<close> bytes.\<close>

record vec =
  vec_data :: bytes
  vec_cap :: nat

definition vec_new :: vec where "vec_new = \<lparr>vec_data = [], vec_cap = 0\<rparr>"

definition OOM :: io_error where "OOM = Simple OutOfMemory"

definition MIN_NON_ZERO_CAP :: nat where "MIN_NON_ZERO_CAP = 8"

definition grow_amortized :: "(nat \<Rightarrow> bool) \<Rightarrow> nat \<Rightarrow> vec \<Rightarrow> io_error + vec" where
  "grow_amortized mem additional v =
    (let required_cap = length (vec_data v) + additional;
         cap = max MIN_NON_ZERO_CAP (max (vec_cap v * 2) required_cap)
     in if cap < 2 ^ 63 \<and> mem cap then Inr (v\<lparr>vec_cap := cap\<rparr>) else Inl OOM)"

definition vec_try_reserve :: "(nat \<Rightarrow> bool) \<Rightarrow> nat \<Rightarrow> vec \<Rightarrow> io_error + vec" where
  "vec_try_reserve mem additional v =
    (if additional > vec_cap v - length (vec_data v) then grow_amortized mem additional v else Inr v)"

text \<open>\<open>extend_from_slice\<close> aborts the program where \<open>try_reserve\<close> reports an error.\<close>

definition vec_extend :: "(nat \<Rightarrow> bool) \<Rightarrow> bytes \<Rightarrow> vec \<Rightarrow> vec io" where
  "vec_extend mem d v = (case vec_try_reserve mem (length d) v of
      Inl e \<Rightarrow> io_panic ''memory allocation failed''
    | Inr v' \<Rightarrow> io_return (v'\<lparr>vec_data := vec_data v' @ d\<rparr>))"

definition vec_try_with_capacity :: "(nat \<Rightarrow> bool) \<Rightarrow> nat \<Rightarrow> io_error + vec" where
  "vec_try_with_capacity mem n =
    (if n = 0 \<or> n < 2 ^ 63 \<and> mem n then Inr \<lparr>vec_data = [], vec_cap = n\<rparr> else Inl OOM)"

section \<open>Reading to the end\<close>

text \<open>
  A reader: \<open>read\<close> gives the count and the buffer afterwards, \<open>read_buf\<close> the bytes it has put into a cursor of
  the given capacity, and its result, and \<open>rd_inits\<close> says whether \<open>read_buf\<close> initialises the whole cursor.
\<close>

type_synonym read_fn = "bytes \<Rightarrow> (nat \<times> bytes) io"
type_synonym read_buf_fn = "nat \<Rightarrow> (bytes \<times> (io_error + unit)) io"

definition default_read_buf :: "read_fn \<Rightarrow> read_buf_fn" where
  "default_read_buf rd cap = io_bind (io_attempt (rd (replicate cap 0))) (\<lambda>r. case r of
      Inl e \<Rightarrow> io_return ([], Inl e)
    | Inr (n, b) \<Rightarrow> if n > cap then io_panic ''assertion failed: n <= init_unfilled''
        else io_return (take n b, Inr ()))"

definition PROBE_SIZE :: nat where "PROBE_SIZE = 32"

fun small_probe_read :: "read_fn \<Rightarrow> (nat \<Rightarrow> bool) \<Rightarrow> nat \<Rightarrow> bytes \<Rightarrow> vec \<Rightarrow> ((io_error + nat) \<times> vec) io" where
  "small_probe_read rd mem 0 probe v = io_hang"
| "small_probe_read rd mem (Suc fuel) probe v = io_bind (io_attempt (rd probe)) (\<lambda>r. case r of
      Inr (n, probe') \<Rightarrow>
        if n > length probe' then io_panic ''range end index out of range''
        else io_bind (vec_extend mem (take n probe') v) (\<lambda>v'. io_return (Inr n, v'))
    | Inl e \<Rightarrow> if is_interrupted e then small_probe_read rd mem fuel probe v else io_return (Inl e, v))"

text \<open>The inner loop: \<open>read_buf\<close> until it is not interrupted; the cursor keeps what it has.\<close>

fun read_buf_retry :: "read_buf_fn \<Rightarrow> nat \<Rightarrow> nat \<Rightarrow> bytes \<Rightarrow> (bytes \<times> (io_error + unit)) io" where
  "read_buf_retry rdb 0 cap written = io_hang"
| "read_buf_retry rdb (Suc fuel) cap written = io_bind (rdb (cap - length written)) (\<lambda>(d, r). case r of
      Inl e \<Rightarrow> if is_interrupted e then read_buf_retry rdb fuel cap (written @ d)
        else io_return (written @ d, Inl e)
    | Inr _ \<Rightarrow> io_return (written @ d, Inr ()))"

definition USIZE_MAX :: nat where "USIZE_MAX = 2 ^ 64 - 1"

definition initial_max_read :: "nat option \<Rightarrow> nat" where
  "initial_max_read hint = (case hint of None \<Rightarrow> DEFAULT_BUF_SIZE
    | Some s \<Rightarrow>
       let n = (s + 1024 + DEFAULT_BUF_SIZE - 1) div DEFAULT_BUF_SIZE * DEFAULT_BUF_SIZE
       in if n \<le> USIZE_MAX then n else DEFAULT_BUF_SIZE)"

definition next_max_read :: "bool \<Rightarrow> nat option \<Rightarrow> nat \<Rightarrow> nat \<Rightarrow> nat \<Rightarrow> nat" where
  "next_max_read is_init hint max_read_size buf_len bytes_read =
    (if hint = None then
       if \<not> is_init then USIZE_MAX
       else if buf_len \<ge> max_read_size \<and> bytes_read = buf_len then min (max_read_size * 2) USIZE_MAX
       else max_read_size
     else max_read_size)"

text \<open>One turn of the main loop: \<open>Some r\<close> returns \<open>r\<close>, \<open>None\<close> goes round again.\<close>

definition probe_full :: "read_fn \<Rightarrow> (nat \<Rightarrow> bool) \<Rightarrow> nat \<Rightarrow> nat \<Rightarrow> nat \<Rightarrow> vec
    \<Rightarrow> ((io_error + nat) option \<times> vec) io" where
  "probe_full rd mem fuel start_len start_cap v =
    (if length (vec_data v) = vec_cap v \<and> vec_cap v = start_cap then
       io_bind (small_probe_read rd mem fuel (replicate PROBE_SIZE 0) v) (\<lambda>(r, v').
         io_return (case r of Inl e \<Rightarrow> (Some (Inl e), v')
           | Inr n \<Rightarrow> (if n = 0 then Some (Inr (length (vec_data v') - start_len)) else None, v')))
     else io_return (None, v))"

definition read_more_to_end :: "read_buf_fn \<Rightarrow> bool \<Rightarrow> (nat \<Rightarrow> bool) \<Rightarrow> nat \<Rightarrow> nat \<Rightarrow> nat option \<Rightarrow> nat \<Rightarrow> vec
    \<Rightarrow> ((io_error + nat) option \<times> nat \<times> vec) io" where
  "read_more_to_end rdb inits mem fuel start_len hint max_read_size v =
    (case (if length (vec_data v) = vec_cap v then vec_try_reserve mem PROBE_SIZE v else Inr v) of
       Inl e \<Rightarrow> io_return (Some (Inl e), max_read_size, v)
     | Inr v1 \<Rightarrow>
         let buf_len = min (vec_cap v1 - length (vec_data v1)) max_read_size
         in io_bind (read_buf_retry rdb fuel buf_len []) (\<lambda>(d, r).
            let v2 = v1\<lparr>vec_data := vec_data v1 @ d\<rparr>
            in io_return (case r of Inl e \<Rightarrow> (Some (Inl e), max_read_size, v2)
               | Inr _ \<Rightarrow> if d = [] then (Some (Inr (length (vec_data v2) - start_len)), max_read_size, v2)
                   else (None, next_max_read inits hint max_read_size buf_len (length d), v2))))"

fun read_to_end_turns :: "read_fn \<Rightarrow> read_buf_fn \<Rightarrow> bool \<Rightarrow> (nat \<Rightarrow> bool) \<Rightarrow> nat \<Rightarrow> nat \<Rightarrow> nat \<Rightarrow> nat option \<Rightarrow> nat \<Rightarrow> vec
    \<Rightarrow> ((io_error + nat) \<times> vec) io" where
  "read_to_end_turns rd rdb inits mem 0 start_len start_cap hint max_read_size v = io_hang"
| "read_to_end_turns rd rdb inits mem (Suc fuel) start_len start_cap hint max_read_size v =
    io_bind (probe_full rd mem fuel start_len start_cap v) (\<lambda>(stop, v1). case stop of
      Some r \<Rightarrow> io_return (r, v1)
    | None \<Rightarrow> io_bind (read_more_to_end rdb inits mem fuel start_len hint max_read_size v1) (\<lambda>(stop, m, v2).
        case stop of Some r \<Rightarrow> io_return (r, v2)
        | None \<Rightarrow> read_to_end_turns rd rdb inits mem fuel start_len start_cap hint m v2))"

definition default_read_to_end :: "read_fn \<Rightarrow> read_buf_fn \<Rightarrow> bool \<Rightarrow> (nat \<Rightarrow> bool) \<Rightarrow> nat \<Rightarrow> nat option \<Rightarrow> vec
    \<Rightarrow> ((io_error + nat) \<times> vec) io" where
  "default_read_to_end rd rdb inits mem fuel hint v =
    (let turns = read_to_end_turns rd rdb inits mem fuel (length (vec_data v)) (vec_cap v) hint (initial_max_read hint)
     in if (hint = None \<or> hint = Some 0) \<and> vec_cap v - length (vec_data v) < PROBE_SIZE
        then io_bind (small_probe_read rd mem fuel (replicate PROBE_SIZE 0) v) (\<lambda>(r, v').
          case r of Inl e \<Rightarrow> io_return (Inl e, v')
          | Inr n \<Rightarrow> if n = 0 then io_return (Inr 0, v') else turns v')
        else turns v)"

section \<open>Strings\<close>

definition INVALID_UTF8 :: io_error where
  "INVALID_UTF8 = SimpleMessage InvalidData ''stream did not contain valid UTF-8''"

definition from_utf8_ok :: "bytes \<Rightarrow> bool" where
  "from_utf8_ok v \<longleftrightarrow> (case run_utf8_validation 0 v of Inl e \<Rightarrow> False | Inr _ \<Rightarrow> True)"

text \<open>
  \<open>append_to_string\<close>: \<open>len\<close> is the length of the string before, \<open>v\<close> its vector afterwards; the guard cuts it back
  unless what was appended is text.
\<close>

definition append_to_string :: "nat \<Rightarrow> (io_error + nat) \<times> vec \<Rightarrow> (io_error + nat) \<times> vec" where
  "append_to_string len x = (case x of (r, v) \<Rightarrow>
    if \<not> from_utf8_ok (drop len (vec_data v)) then
      ((case r of Inl e \<Rightarrow> Inl e | Inr _ \<Rightarrow> Inl INVALID_UTF8), v\<lparr>vec_data := take len (vec_data v)\<rparr>)
    else (r, v))"

definition default_read_to_string :: "read_fn \<Rightarrow> read_buf_fn \<Rightarrow> bool \<Rightarrow> (nat \<Rightarrow> bool) \<Rightarrow> nat \<Rightarrow> nat option \<Rightarrow> vec
    \<Rightarrow> ((io_error + nat) \<times> vec) io" where
  "default_read_to_string rd rdb inits mem fuel hint v =
    io_bind (default_read_to_end rd rdb inits mem fuel hint v) (\<lambda>x. io_return (append_to_string (length (vec_data v)) x))"

section \<open>Room in a vector\<close>

definition vec_ok :: "vec \<Rightarrow> bool" where "vec_ok v \<longleftrightarrow> length (vec_data v) \<le> vec_cap v"

text \<open>The allocator has every block it may be asked for, and \<open>n\<close> more bytes stay far from the limit.\<close>

definition roomy :: "(nat \<Rightarrow> bool) \<Rightarrow> vec \<Rightarrow> nat \<Rightarrow> bool" where
  "roomy mem v n \<longleftrightarrow> (\<forall>k < 2 ^ 63. mem k) \<and> length (vec_data v) + n < 2 ^ 61"

lemma vec_try_reserve_ok:
  assumes "vec_ok v" "vec_try_reserve mem k v = Inr v'"
  shows "vec_ok v'" "vec_data v' = vec_data v" "length (vec_data v) + k \<le> vec_cap v'"
  using assms by (auto simp: vec_try_reserve_def grow_amortized_def vec_ok_def Let_def split: if_splits)

lemma vec_try_reserve_err: "vec_try_reserve mem k v = Inl e \<Longrightarrow> e = OOM"
  by (auto simp: vec_try_reserve_def grow_amortized_def Let_def split: if_splits)

lemma vec_try_reserve_all:
  assumes "\<forall>k < 2 ^ 63. mem k" "length (vec_data v) + k < 2 ^ 62"
  shows "\<exists>v'. vec_try_reserve mem k v = Inr v'"
proof (cases "k > vec_cap v - length (vec_data v)")
  case True
  then have "max MIN_NON_ZERO_CAP (max (vec_cap v * 2) (length (vec_data v) + k)) < 2 ^ 63"
    using assms(2) by (auto simp: MIN_NON_ZERO_CAP_def)
  then show ?thesis using True assms(1) by (simp add: vec_try_reserve_def grow_amortized_def Let_def)
qed (simp add: vec_try_reserve_def)

lemma vec_try_reserve_room: "roomy mem v n \<Longrightarrow> k \<le> n + 2 ^ 60 \<Longrightarrow> \<exists>v'. vec_try_reserve mem k v = Inr v'"
  by (rule vec_try_reserve_all) (auto simp: roomy_def)

text \<open>A turn of the reading loop has room for at least one byte.\<close>

lemma reserved_room:
  assumes "vec_ok v" "(if length (vec_data v) = vec_cap v then vec_try_reserve mem PROBE_SIZE v else Inr v) = Inr v1"
  shows "vec_data v1 = vec_data v" "length (vec_data v) < vec_cap v1"
proof (atomize (full), cases "length (vec_data v) = vec_cap v")
  case True
  with assms(2) have "vec_try_reserve mem PROBE_SIZE v = Inr v1" by simp
  from vec_try_reserve_ok [OF assms(1) this] show "vec_data v1 = vec_data v \<and> length (vec_data v) < vec_cap v1"
    by (simp add: PROBE_SIZE_def)
qed (use assms in \<open>simp add: vec_ok_def\<close>)

section \<open>What a reader gives\<close>

text \<open>
  A stream, as far as a proof follows it: the oracles it is about, the bytes still to come in a state, how many
  calls may still fail, the errors they may report, and whether the program may run out of memory.
\<close>

record stream =
  st_good :: "(trace \<Rightarrow> call \<Rightarrow> reply) \<Rightarrow> bool"
  st_rest :: "os \<Rightarrow> bytes"
  st_patience :: "os \<Rightarrow> nat"
  st_error :: "io_error \<Rightarrow> bool"
  st_roomy :: bool

definition load :: "stream \<Rightarrow> os \<Rightarrow> nat" where
  "load st s = length (st_rest st s) + st_patience st s"

text \<open>
  \<open>gives st m s Q\<close>: from \<open>s\<close> the action ends with a value, unless memory may run out; it has taken some
  \<open>d\<close> off the stream, which \<open>Q\<close> describes together with the value and the state reached.
\<close>

definition gives :: "stream \<Rightarrow> 'a io \<Rightarrow> os \<Rightarrow> ('a \<Rightarrow> bytes \<Rightarrow> os \<Rightarrow> bool) \<Rightarrow> bool" where
  "gives st m s Q \<longleftrightarrow> (st_good st (os_oracle s) \<longrightarrow> (case m s of
      (Ok x, s') \<Rightarrow> os_oracle s' = os_oracle s \<and> st_patience st s' \<le> st_patience st s
        \<and> (\<exists>d. st_rest st s = d @ st_rest st s' \<and> Q x d s')
    | (Panic _, _) \<Rightarrow> \<not> st_roomy st | _ \<Rightarrow> False))"

lemma givesD:
  assumes "gives st m s Q" "st_good st (os_oracle s)"
  shows "case m s of
      (Ok x, s') \<Rightarrow> os_oracle s' = os_oracle s \<and> st_patience st s' \<le> st_patience st s
        \<and> (\<exists>d. st_rest st s = d @ st_rest st s' \<and> Q x d s')
    | (Panic _, _) \<Rightarrow> \<not> st_roomy st | _ \<Rightarrow> False"
  using assms by (simp add: gives_def)

lemma gives_return: "Q x [] s \<Longrightarrow> gives st (io_return x) s Q" "Q x [] s \<Longrightarrow> gives st (Pair (Ok x)) s Q"
  by (simp_all add: gives_def)

lemma gives_panic: "\<not> st_roomy st \<Longrightarrow> gives st (io_panic p) s Q"
  by (simp add: gives_def)

lemma gives_conseq:
  assumes "gives st m s P" "\<And>x d s'. P x d s' \<Longrightarrow> st_rest st s = d @ st_rest st s' \<Longrightarrow>
    st_patience st s' \<le> st_patience st s \<Longrightarrow> Q x d s'"
  shows "gives st m s Q"
  using assms unfolding gives_def by (auto split: prod.splits outcome.splits)

lemma gives_bind:
  assumes "gives st m s (\<lambda>x d s1. gives st (k x) s1 (\<lambda>y d' s2. Q y (d @ d') s2))"
  shows "gives st (io_bind m k) s Q"
  unfolding gives_def
proof (intro impI)
  assume g: "st_good st (os_oracle s)"
  obtain w s1 where w: "m s = (w, s1)" by fastforce
  note a = givesD [OF assms g, unfolded w]
  show "case io_bind m k s of
      (Ok x, s') \<Rightarrow> os_oracle s' = os_oracle s \<and> st_patience st s' \<le> st_patience st s
        \<and> (\<exists>d. st_rest st s = d @ st_rest st s' \<and> Q x d s')
    | (Panic _, _) \<Rightarrow> \<not> st_roomy st | _ \<Rightarrow> False"
  proof (cases w)
    case (Ok x)
    with a obtain d where d: "os_oracle s1 = os_oracle s" "st_patience st s1 \<le> st_patience st s"
      "st_rest st s = d @ st_rest st s1" "gives st (k x) s1 (\<lambda>y d' s2. Q y (d @ d') s2)" by auto
    from givesD [OF d(4)] d(1-3) g w Ok show ?thesis
      by (fastforce simp: io_bind_def split: prod.splits outcome.splits)
  qed (use a w in \<open>auto simp: io_bind_def\<close>)
qed

text \<open>The rule for a call followed by a continuation: weaken what the call gives to what the rest needs.\<close>

lemma gives_then:
  assumes "gives st m s P" "\<And>x d s1. P x d s1 \<Longrightarrow> st_rest st s = d @ st_rest st s1 \<Longrightarrow>
    st_patience st s1 \<le> st_patience st s \<Longrightarrow> gives st (k x) s1 (\<lambda>y d' s2. Q y (d @ d') s2)"
  shows "gives st (io_bind m k) s Q"
  by (rule gives_bind [OF gives_conseq [OF assms(1)]]) (rule assms(2))

definition ends :: "stream \<Rightarrow> io_error \<Rightarrow> bool" where
  "ends st e \<longleftrightarrow> st_error st e \<and> \<not> is_interrupted e"

text \<open>What an outer loop reports when it stops with an error: the reader's, or that memory is short.\<close>

definition stops :: "stream \<Rightarrow> io_error \<Rightarrow> bool" where
  "stops st e \<longleftrightarrow> ends st e \<or> \<not> st_roomy st \<and> e = OOM"

definition fits :: "stream \<Rightarrow> (nat \<Rightarrow> bool) \<Rightarrow> vec \<Rightarrow> os \<Rightarrow> bool" where
  "fits st mem v s \<longleftrightarrow> vec_ok v \<and> (st_roomy st \<longrightarrow> roomy mem v (length (st_rest st s)))"

text \<open>
  What reading to the end has done when it stops: everything taken off the stream is in the vector, whatever the
  outcome; on success the stream is at its end and the count is right.
\<close>

definition collected :: "stream \<Rightarrow> nat \<Rightarrow> vec \<Rightarrow> (io_error + nat) \<times> vec \<Rightarrow> bytes \<Rightarrow> os \<Rightarrow> bool" where
  "collected st start_len v = (\<lambda>(r, v') d s'. vec_ok v' \<and> vec_data v' = vec_data v @ d \<and> (case r of
     Inr n \<Rightarrow> n = length (vec_data v') - start_len \<and> st_rest st s' = [] | Inl e \<Rightarrow> stops st e))"

lemma fits_read:
  assumes "fits st mem v s" "vec_ok v'" "vec_data v' = vec_data v @ d" "st_rest st s = d @ st_rest st s'"
  shows "fits st mem v' s'"
  using assms by (auto simp: fits_def roomy_def add.assoc)

lemma collected_after:
  assumes "collected st start_len v1 x d2 s'" "vec_data v1 = vec_data v @ d"
  shows "collected st start_len v x (d @ d2) s'"
  using assms by (cases x) (auto simp: collected_def split: sum.splits)

lemma ends_stops: "ends st e \<Longrightarrow> stops st e"
  by (simp add: stops_def)

locale reader_contract =
  fixes rd :: read_fn and rdb :: read_buf_fn and st :: stream
  assumes read: "gives st (io_attempt (rd b)) s (\<lambda>r d s'. case r of
      Inr (n, b') \<Rightarrow> n \<le> length b \<and> length b' = length b \<and> d = take n b' \<and> (n = 0 \<longrightarrow> b = [] \<or> st_rest st s = [])
    | Inl e \<Rightarrow> d = [] \<and> st_error st e \<and> (is_interrupted e \<longrightarrow> st_patience st s' < st_patience st s))"
    and read_buf: "gives st (rdb cap) s (\<lambda>(d', r) d s'. d' = d \<and> length d \<le> cap \<and> (case r of
      Inr _ \<Rightarrow> d = [] \<longrightarrow> cap = 0 \<or> st_rest st s = []
    | Inl e \<Rightarrow> st_error st e \<and> (is_interrupted e \<longrightarrow> st_patience st s' < st_patience st s)))"
begin

lemma extend_gives:
  assumes "fits st mem v s0" "length d \<le> length (st_rest st s0)" "\<And>v'. vec_ok v' \<Longrightarrow> vec_data v' = vec_data v @ d \<Longrightarrow> Q v' [] s"
  shows "gives st (vec_extend mem d v) s Q"
proof (cases "vec_try_reserve mem (length d) v")
  case (Inl e)
  then have "\<not> st_roomy st" using assms(1,2) vec_try_reserve_room [of mem v "length (st_rest st s0)" "length d"]
    by (auto simp: fits_def)
  with Inl show ?thesis by (simp add: vec_extend_def gives_panic)
next
  case (Inr v')
  with vec_try_reserve_ok [OF _ Inr] assms(1,3) show ?thesis
    by (simp add: vec_extend_def gives_return fits_def vec_ok_def)
qed

lemma probe_gives:
  assumes "fits st mem v s" "st_patience st s < fuel" "probe \<noteq> []"
  shows "gives st (small_probe_read rd mem fuel probe v) s (\<lambda>(r, v') d s'. vec_ok v' \<and> vec_data v' = vec_data v @ d
     \<and> (case r of Inr n \<Rightarrow> n = length d \<and> (n = 0 \<longrightarrow> st_rest st s' = []) | Inl e \<Rightarrow> d = [] \<and> ends st e))"
  using assms
proof (induction fuel arbitrary: s)
  case (Suc fuel)
  show ?case
    unfolding small_probe_read.simps
  proof (rule gives_then [OF read], goal_cases)
    case (1 r d s1)
    show ?case
    proof (cases r)
      case (Inl e)
      with 1 have e: "d = []" "st_error st e" "is_interrupted e \<longrightarrow> st_patience st s1 < st_patience st s" by simp_all
      show ?thesis
      proof (cases "is_interrupted e")
        case True
        have "fits st mem v s1" using Suc.prems(1) 1(2) e(1) by (simp add: fits_def)
        with Suc.IH [of s1] Suc.prems(2,3) e True Inl show ?thesis by simp
      next
        case False
        with Inl e Suc.prems(1) show ?thesis by (auto intro!: gives_return simp: ends_def fits_def)
      qed
    next
      case (Inr x)
      obtain n b' where x: "x = (n, b')" by (cases x)
      with 1(1) Inr have n: "n \<le> length probe" "length b' = length probe" "d = take n b'"
        "n = 0 \<longrightarrow> st_rest st s = []" using Suc.prems(3) by auto
      have "length (take n b') \<le> length (st_rest st s)" using n(3) 1(2) by simp
      then have ext: "gives st (vec_extend mem (take n b') v) s1
          (\<lambda>v' d' s'. s' = s1 \<and> d' = [] \<and> vec_ok v' \<and> vec_data v' = vec_data v @ d)"
        using n(3) by (intro extend_gives [OF Suc.prems(1)]) auto
      show ?thesis unfolding Inr x using n 1(2)
        by (auto intro!: gives_then [OF ext] gives_return)
    qed
  qed
qed simp

lemma retry_gives:
  assumes "st_patience st s < fuel" "length written \<le> cap"
  shows "gives st (read_buf_retry rdb fuel cap written) s (\<lambda>(d', r) d s'. d' = written @ d \<and> length d' \<le> cap
     \<and> (case r of Inr _ \<Rightarrow> d = [] \<longrightarrow> cap = length written \<or> st_rest st s' = [] | Inl e \<Rightarrow> ends st e))"
  using assms
proof (induction fuel arbitrary: s written)
  case (Suc fuel)
  show ?case
    unfolding read_buf_retry.simps
  proof (rule gives_then [OF read_buf], goal_cases)
    case (1 x d s1)
    obtain d' r where x: "x = (d', r)" by (cases x)
    with 1 have d: "d' = d" "length d \<le> cap - length written" by auto
    show ?case
    proof (cases r)
      case (Inl e)
      with 1 x have e: "st_error st e" "is_interrupted e \<longrightarrow> st_patience st s1 < st_patience st s" by auto
      show ?thesis
      proof (cases "is_interrupted e")
        case True
        have "gives st (read_buf_retry rdb fuel cap (written @ d)) s1 (\<lambda>(d', r) d2 s'. d' = (written @ d) @ d2 \<and> length d' \<le> cap
          \<and> (case r of Inr _ \<Rightarrow> d2 = [] \<longrightarrow> cap = length (written @ d) \<or> st_rest st s' = [] | Inl e \<Rightarrow> ends st e))"
          using Suc.IH [of s1 "written @ d"] Suc.prems e True d by simp
        then show ?thesis using x d Inl True
          by (simp, elim gives_conseq) (auto split: sum.splits)
      qed (use x d Inl e Suc.prems in \<open>auto intro!: gives_return simp: ends_def\<close>)
    next
      case (Inr u)
      with 1 x d Suc.prems show ?thesis by (auto intro!: gives_return)
    qed
  qed
qed simp

lemma probe_full_gives:
  assumes "fits st mem v s" "st_patience st s < fuel"
  shows "gives st (probe_full rd mem fuel start_len start_cap v) s (\<lambda>(stop, v') d s'. case stop of
      Some r \<Rightarrow> collected st start_len v (r, v') d s' | None \<Rightarrow> vec_ok v' \<and> vec_data v' = vec_data v @ d)"
proof (cases "length (vec_data v) = vec_cap v \<and> vec_cap v = start_cap")
  case True
  show ?thesis
    unfolding probe_full_def if_P [OF True]
    by (rule gives_then [OF probe_gives [OF assms]])
      (auto simp: PROBE_SIZE_def collected_def intro!: gives_return ends_stops split: sum.splits)
qed (use assms(1) in \<open>auto simp: probe_full_def fits_def intro!: gives_return\<close>)

lemma read_more_gives:
  assumes "fits st mem v s" "st_patience st s < fuel" "0 < m"
  shows "gives st (read_more_to_end rdb inits mem fuel start_len hint m v) s (\<lambda>(stop, m', v') d s'. case stop of
      Some r \<Rightarrow> collected st start_len v (r, v') d s'
    | None \<Rightarrow> vec_ok v' \<and> vec_data v' = vec_data v @ d \<and> d \<noteq> [] \<and> 0 < m')"
proof (cases "if length (vec_data v) = vec_cap v then vec_try_reserve mem PROBE_SIZE v else Inr v")
  case (Inl e)
  then have v: "vec_try_reserve mem PROBE_SIZE v = Inl e" by (auto split: if_splits)
  then have "\<not> st_roomy st" using assms(1) vec_try_reserve_room [of mem v "length (st_rest st s)" PROBE_SIZE]
    by (auto simp: fits_def PROBE_SIZE_def)
  then have "stops st e" using vec_try_reserve_err [OF v] by (simp add: stops_def)
  with Inl assms(1) show ?thesis
    by (auto simp: read_more_to_end_def collected_def fits_def intro!: gives_return)
next
  case (Inr v1)
  have v1: "vec_data v1 = vec_data v" "length (vec_data v) < vec_cap v1"
    by (rule reserved_room [OF _ Inr], use assms(1) in \<open>simp add: fits_def\<close>)+
  let ?b = "min (vec_cap v1 - length (vec_data v1)) m"
  have b: "0 < ?b" "?b \<le> vec_cap v1 - length (vec_data v1)" using v1 assms(3) by auto
  have max: "0 < next_max_read inits hint m ?b n" for n
    using assms(3) by (simp add: next_max_read_def USIZE_MAX_def)
  have retry: "gives st (read_buf_retry rdb fuel ?b []) s (\<lambda>(d', r) d s'. d' = [] @ d \<and> length d' \<le> ?b
     \<and> (case r of Inr _ \<Rightarrow> d = [] \<longrightarrow> ?b = length ([] :: bytes) \<or> st_rest st s' = [] | Inl e \<Rightarrow> ends st e))"
    by (rule retry_gives) (use assms(2) in simp_all)
  show ?thesis
    unfolding read_more_to_end_def Inr sum.case Let_def
  proof (rule gives_then [OF retry], goal_cases)
    case (1 x d s')
    obtain d' r where x: "x = (d', r)" by (cases x)
    with 1 have d: "d' = d" "length d \<le> vec_cap v1 - length (vec_data v1)" using b(2) by auto
    have ok: "length (vec_data v) + length d \<le> vec_cap v1" using d(2) v1(2) unfolding v1(1) by linarith
    show ?case
    proof (cases r)
      case (Inl e)
      with 1 x have "ends st e" by simp
      with Inl x d ok v1(1) show ?thesis
        by (simp add: collected_def vec_ok_def ends_stops gives_return)
    next
      case (Inr u)
      with 1 x b(1) have "d = [] \<longrightarrow> st_rest st s' = []" by auto
      with Inr x d ok v1(1) max show ?thesis
        by (cases "d = []") (simp_all add: collected_def vec_ok_def gives_return)
    qed
  qed
qed

lemma turns_gives:
  assumes "fits st mem v s" "Suc (load st s) < fuel" "0 < m"
  shows "gives st (read_to_end_turns rd rdb inits mem fuel start_len start_cap hint m v) s (collected st start_len v)"
  using assms
proof (induction fuel arbitrary: s m v)
  case (Suc fuel)
  have f: "st_patience st s < fuel" using Suc.prems(2) by (simp add: load_def)
  show ?case
    unfolding read_to_end_turns.simps
  proof (rule gives_then [OF probe_full_gives [OF Suc.prems(1) f]], goal_cases)
    case (1 x d s1)
    obtain stop v1 where x: "x = (stop, v1)" by (cases x)
    show ?case
    proof (cases stop)
      case (Some r)
      with 1 x show ?thesis by (auto intro!: gives_return)
    next
      case None
      with 1 x have v1: "vec_ok v1" "vec_data v1 = vec_data v @ d" by auto
      have fits: "fits st mem v1 s1" by (rule fits_read [OF Suc.prems(1) v1 1(2)])
      have f1: "st_patience st s1 < fuel" using f 1(3) by simp
      show ?thesis
        unfolding x None prod.case option.case
      proof (rule gives_then [OF read_more_gives [OF fits f1 Suc.prems(3)]], goal_cases)
        case more: (1 y d2 s2)
        obtain stop2 m2 v2 where y: "y = (stop2, m2, v2)" by (cases y)
        show ?case
        proof (cases stop2)
          case (Some r)
          with more y have "collected st start_len v1 (r, v2) d2 s2" by simp
          from collected_after [OF this v1(2)] show ?thesis unfolding y Some by (simp add: gives_return)
        next
          case None
          with more y have v2: "vec_ok v2" "vec_data v2 = vec_data v1 @ d2" "d2 \<noteq> []" "0 < m2" by auto
          have "Suc (load st s2) < fuel"
            using Suc.prems(2) v2(3) more(2,3) 1(2,3) by (cases d2) (auto simp: load_def)
          then have "gives st (read_to_end_turns rd rdb inits mem fuel start_len start_cap hint m2 v2) s2 (collected st start_len v2)"
            using Suc.IH fits_read [OF fits v2(1,2) more(2)] v2(4) by blast
          then show ?thesis unfolding y None
            by (simp, elim gives_conseq) (use v1 v2 in \<open>auto intro!: collected_after\<close>)
        qed
      qed
    qed
  qed
qed simp

lemma initial_max_read_pos: "0 < initial_max_read hint"
  by (auto simp: initial_max_read_def DEFAULT_BUF_SIZE_def Let_def split: option.splits)

lemma read_to_end_gives:
  assumes "fits st mem v s" "Suc (load st s) < fuel"
  shows "gives st (default_read_to_end rd rdb inits mem fuel hint v) s (collected st (length (vec_data v)) v)"
proof (cases "(hint = None \<or> hint = Some 0) \<and> vec_cap v - length (vec_data v) < PROBE_SIZE")
  case True
  have f: "st_patience st s < fuel" using assms(2) by (simp add: load_def)
  show ?thesis
    unfolding default_read_to_end_def Let_def if_P [OF True]
  proof (rule gives_then [OF probe_gives [OF assms(1) f]], goal_cases)
    case 1
    show ?case by (simp add: PROBE_SIZE_def)
  next
    case (2 x d s1)
    obtain r v1 where x: "x = (r, v1)" by (cases x)
    with 2 have v1: "vec_ok v1" "vec_data v1 = vec_data v @ d" by auto
    have "Suc (load st s1) < fuel" using assms(2) 2(2,3) by (simp add: load_def)
    then have "gives st (read_to_end_turns rd rdb inits mem fuel (length (vec_data v)) (vec_cap v) hint (initial_max_read hint) v1) s1
        (collected st (length (vec_data v)) v1)"
      by (rule turns_gives [OF fits_read [OF assms(1) v1 2(2)] _ initial_max_read_pos])
    then have turns: "gives st (read_to_end_turns rd rdb inits mem fuel (length (vec_data v)) (vec_cap v) hint (initial_max_read hint) v1) s1
        (\<lambda>y d' s2. collected st (length (vec_data v)) v y (d @ d') s2)"
      by (rule gives_conseq) (rule collected_after [OF _ v1(2)])
    show ?case using 2 x turns
      by (auto simp: collected_def intro!: gives_return ends_stops split: sum.splits)
  qed
next
  case False
  show ?thesis
    unfolding default_read_to_end_def Let_def if_not_P [OF False]
    by (rule turns_gives [OF assms initial_max_read_pos])
qed

end

section \<open>Standard input and files as readers\<close>

definition file_reader_buf :: "int \<Rightarrow> read_buf_fn" where
  "file_reader_buf fd cap = io_bind (io_attempt (file_read_buf fd cap)) (\<lambda>r. io_return (case r of
      Inl e \<Rightarrow> ([], Inl e) | Inr d \<Rightarrow> (d, Inr ())))"

definition stdin_raw_read_buf :: read_buf_fn where
  "stdin_raw_read_buf cap = io_bind (default_read_buf stdin_read cap) (\<lambda>(d, r). io_return (d, case r of
      Inl e \<Rightarrow> if is_ebadf e then Inr () else Inl e | Inr _ \<Rightarrow> Inr ()))"

definition buffer_capacity_required :: "int \<Rightarrow> nat option io" where
  "buffer_capacity_required fd = io_bind (io_attempt (file_attr_of fd)) (\<lambda>a. case a of
      Inl e \<Rightarrow> io_return None
    | Inr attr \<Rightarrow> io_bind (io_attempt (file_tell fd)) (\<lambda>p. case p of
        Inl e \<Rightarrow> io_return None
      | Inr pos \<Rightarrow> io_return (Some (unat (fa_size attr) - unat pos))))"

definition file_read_to_end :: "int \<Rightarrow> (nat \<Rightarrow> bool) \<Rightarrow> nat \<Rightarrow> vec \<Rightarrow> ((io_error + nat) \<times> vec) io" where
  "file_read_to_end fd mem fuel v = io_bind (buffer_capacity_required fd) (\<lambda>size.
    case vec_try_reserve mem (case size of Some n \<Rightarrow> n | None \<Rightarrow> 0) v of
      Inl e \<Rightarrow> io_return (Inl e, v)
    | Inr v' \<Rightarrow> default_read_to_end (file_read fd) (file_reader_buf fd) False mem fuel size v')"

definition stdin_raw_read_to_end :: "(nat \<Rightarrow> bool) \<Rightarrow> nat \<Rightarrow> vec \<Rightarrow> ((io_error + nat) \<times> vec) io" where
  "stdin_raw_read_to_end mem fuel v =
    io_bind (default_read_to_end stdin_read (default_read_buf stdin_read) True mem fuel None v) (\<lambda>(r, v').
      io_return (case r of Inl e \<Rightarrow> if is_ebadf e then Inr 0 else Inl e | Inr n \<Rightarrow> Inr n, v'))"

text \<open>\<open>fs::read\<close> and \<open>fs::read_to_string\<close>: the file is closed on every way out.\<close>

definition file_size_hint :: "int \<Rightarrow> nat option io" where
  "file_size_hint fd = io_bind (io_attempt (file_attr_of fd)) (\<lambda>a. io_return (case a of
      Inl e \<Rightarrow> None | Inr attr \<Rightarrow> Some (unat (fa_size attr))))"

definition fs_read :: "(nat \<Rightarrow> bool) \<Rightarrow> nat \<Rightarrow> path \<Rightarrow> bytes io" where
  "fs_read mem fuel p = io_bind (File_open p) (\<lambda>fd. io_finally
    (io_bind (file_size_hint fd) (\<lambda>size.
     io_bind (io_of (vec_try_with_capacity mem (case size of Some n \<Rightarrow> n | None \<Rightarrow> 0))) (\<lambda>v.
     io_bind (default_read_to_end (file_read fd) (file_reader_buf fd) False mem fuel size v) (\<lambda>(r, v').
     io_bind (io_of r) (\<lambda>_. io_return (vec_data v'))))))
    (file_drop fd))"

definition vec_try_reserve_exact :: "(nat \<Rightarrow> bool) \<Rightarrow> nat \<Rightarrow> vec \<Rightarrow> io_error + vec" where
  "vec_try_reserve_exact mem additional v =
    (if additional > vec_cap v - length (vec_data v) then
       let cap = length (vec_data v) + additional
       in if cap < 2 ^ 63 \<and> mem cap then Inr (v\<lparr>vec_cap := cap\<rparr>) else Inl OOM
     else Inr v)"

definition fs_read_to_string :: "(nat \<Rightarrow> bool) \<Rightarrow> nat \<Rightarrow> path \<Rightarrow> bytes io" where
  "fs_read_to_string mem fuel p = io_bind (File_open p) (\<lambda>fd. io_finally
    (io_bind (file_size_hint fd) (\<lambda>size.
     io_bind (io_of (vec_try_reserve_exact mem (case size of Some n \<Rightarrow> n | None \<Rightarrow> 0) vec_new)) (\<lambda>v.
     io_bind (default_read_to_string (file_read fd) (file_reader_buf fd) False mem fuel size v) (\<lambda>(r, v').
     io_bind (io_of r) (\<lambda>_. io_return (vec_data v'))))))
    (file_drop fd))"

text \<open>
  A descriptor that feeds \<open>data\<close>: each read fails, \<open>k\<close> times at most, or hands out the next piece. The error
  numbers the C library leaves satisfy \<open>E\<close>.
\<close>

fun fd_failed :: "int \<Rightarrow> trace \<Rightarrow> nat" where
  "fd_failed fd [] = 0"
| "fd_failed fd ((FsC (C_read fd' n), r) # t) = (if fd' = fd \<and> r_ret r < 0 then 1 else 0) + fd_failed fd t"
| "fd_failed fd (_ # t) = fd_failed fd t"

definition fd_feeds :: "int \<Rightarrow> bytes \<Rightarrow> nat \<Rightarrow> (trace \<Rightarrow> call \<Rightarrow> reply) \<Rightarrow> bool" where
  "fd_feeds fd data k orc \<longleftrightarrow> (\<forall>t n. let r = orc t (FsC (C_read fd n))
     in r_ret r < 0 \<and> fd_failed fd t < k \<or> next_piece data (fd_got fd t) n r)"

definition errnos :: "(int \<Rightarrow> bool) \<Rightarrow> (trace \<Rightarrow> call \<Rightarrow> reply) \<Rightarrow> bool" where
  "errnos E orc \<longleftrightarrow> (\<forall>t c. E (r_ret (orc t (ErrnoC c))))"

definition fd_stream :: "int \<Rightarrow> bytes \<Rightarrow> nat \<Rightarrow> (int \<Rightarrow> bool) \<Rightarrow> bool \<Rightarrow> stream" where
  "fd_stream fd data k E room = \<lparr>st_good = \<lambda>orc. fd_feeds fd data k orc \<and> errnos E orc,
     st_rest = \<lambda>s. drop (length (fd_got fd (os_trace s))) data,
     st_patience = \<lambda>s. k - fd_failed fd (os_trace s),
     st_error = \<lambda>e. \<exists>c. e = OsError c \<and> E c, st_roomy = room\<rparr>"

lemma fd_stream_sel [simp]:
  "st_good (fd_stream fd data k E room) orc \<longleftrightarrow> fd_feeds fd data k orc \<and> errnos E orc"
  "st_rest (fd_stream fd data k E room) s = drop (length (fd_got fd (os_trace s))) data"
  "st_patience (fd_stream fd data k E room) s = k - fd_failed fd (os_trace s)"
  "st_error (fd_stream fd data k E room) e \<longleftrightarrow> (\<exists>c. e = OsError c \<and> E c)"
  "st_roomy (fd_stream fd data k E room) \<longleftrightarrow> room"
  by (simp_all add: fd_stream_def)

lemma fd_failed_append: "fd_failed fd (t @ u) = fd_failed fd t + fd_failed fd u"
  by (induction fd t rule: fd_failed.induct) simp_all

lemma fd_failed_errno: "\<forall>x\<in>set t. \<exists>c. fst x = ErrnoC c \<Longrightarrow> fd_failed fd t = 0"
proof (induction t)
  case (Cons x t)
  obtain c r where "x = (ErrnoC c, r)" using Cons.prems by (cases x) auto
  with Cons show ?case by simp
qed simp

text \<open>Reporting a failure: the error number is one of \<open>E\<close>, and the stream is where it was.\<close>

lemma os_fail_run:
  assumes "errnos E (os_oracle s)"
  shows "\<exists>c s'. (os_fail :: 'a io) s = (Err (OsError c), s') \<and> E c \<and> os_oracle s' = os_oracle s
    \<and> fd_got fd (os_trace s') = fd_got fd (os_trace s) \<and> fd_failed fd (os_trace s') = fd_failed fd (os_trace s)"
proof -
  obtain e t where f: "(os_fail :: 'a io) s = (Err (OsError e), s\<lparr>os_trace := os_trace s @ t\<rparr>)"
    "\<forall>x\<in>set t. \<exists>c. fst x = ErrnoC c" using os_fail_cases [of s, where 'a = 'a] by blast
  have "E e" using f(1) assms
    by (auto simp: os_fail_def last_os_error_def errno_def sys_def io_bind_def Let_def from_raw_os_error_def
        errnos_def split: if_splits)
  with f stream_errno [OF f(2)] fd_failed_errno [OF f(2)] show ?thesis
    by (simp add: stream_append fd_failed_append)
qed

lemma file_read_gives:
  "gives (fd_stream fd data k E room) (io_attempt (file_read fd b)) s (\<lambda>r d s'. case r of
      Inr (n, b') \<Rightarrow> n \<le> length b \<and> length b' = length b \<and> d = take n b'
        \<and> (n = 0 \<longrightarrow> b = [] \<or> st_rest (fd_stream fd data k E room) s = [])
    | Inl e \<Rightarrow> d = [] \<and> st_error (fd_stream fd data k E room) e
        \<and> (is_interrupted e \<longrightarrow> st_patience (fd_stream fd data k E room) s' < st_patience (fd_stream fd data k E room) s))"
  unfolding gives_def
proof (intro impI)
  let ?st = "fd_stream fd data k E room"
  assume good: "st_good ?st (os_oracle s)"
  let ?c = "FsC (C_read fd (length b))"
  let ?r = "reply_of s ?c"
  let ?rest = "drop (length (fd_got fd (os_trace s))) data"
  have feeds: "r_ret ?r < 0 \<and> fd_failed fd (os_trace s) < k \<or> next_piece data (fd_got fd (os_trace s)) (length b) ?r"
    using good by (auto simp: fd_feeds_def reply_of_def Let_def)
  show "case io_attempt (file_read fd b) s of
      (Ok x, s') \<Rightarrow> os_oracle s' = os_oracle s \<and> st_patience ?st s' \<le> st_patience ?st s
        \<and> (\<exists>d. st_rest ?st s = d @ st_rest ?st s' \<and> (case x of
          Inr (n, b') \<Rightarrow> n \<le> length b \<and> length b' = length b \<and> d = take n b' \<and> (n = 0 \<longrightarrow> b = [] \<or> st_rest ?st s = [])
        | Inl e \<Rightarrow> d = [] \<and> st_error ?st e \<and> (is_interrupted e \<longrightarrow> st_patience ?st s' < st_patience ?st s)))
    | (Panic _, _) \<Rightarrow> \<not> st_roomy ?st | _ \<Rightarrow> False"
  proof (cases "r_ret ?r < 0")
    case True
    obtain c s' where f: "(os_fail :: (nat \<times> bytes) io) (after s ?c) = (Err (OsError c), s')" "E c"
      "os_oracle s' = os_oracle s" "fd_got fd (os_trace s') = fd_got fd (os_trace (after s ?c))"
      "fd_failed fd (os_trace s') = fd_failed fd (os_trace (after s ?c))"
      using os_fail_run [of E "after s ?c" fd, where 'a = "nat \<times> bytes"] good by auto
    have "fd_failed fd (os_trace s) < k" using feeds True by (auto simp: next_piece_def Let_def)
    then have "k - Suc (fd_failed fd (os_trace s)) < k - fd_failed fd (os_trace s)" by linarith
    with f True show ?thesis
      by (simp add: file_read_run io_attempt_def Let_def stream_append fd_failed_append)
  next
    case False
    with feeds have n: "nat (r_ret ?r) \<le> length b" "nat (r_ret ?r) \<le> length ?rest"
      "r_data ?r = take (nat (r_ret ?r)) ?rest" "nat (r_ret ?r) = 0 \<longrightarrow> b = [] \<or> ?rest = []"
      by (auto simp: next_piece_def Let_def)
    have "take (nat (r_ret ?r)) (overwrite b (r_data ?r)) = take (nat (r_ret ?r)) ?rest"
      using n by (simp add: take_overwrite_le)
    moreover have "?rest = take (nat (r_ret ?r)) ?rest @ drop (nat (r_ret ?r) + length (fd_got fd (os_trace s))) data"
      by (metis append_take_drop_id drop_drop)
    ultimately show ?thesis using False n
      by (auto simp: file_read_run io_attempt_def Let_def stream_append fd_failed_append add.commute)
  qed
qed

lemma io_attempt_bind: "io_attempt (io_bind m k) = io_bind (io_attempt m) (\<lambda>r. case r of
    Inl e \<Rightarrow> io_return (Inl e) | Inr x \<Rightarrow> io_attempt (k x))"
  by (auto simp: fun_eq_iff io_attempt_def io_bind_def split: prod.splits outcome.splits)

lemma io_attempt_bind_attempt: "io_attempt (io_bind (io_attempt m) k) = io_bind (io_attempt m) (\<lambda>r. io_attempt (k r))"
  by (auto simp: fun_eq_iff io_attempt_def io_bind_def split: prod.splits outcome.splits)

interpretation file_reads: reader_contract "file_read fd" "file_reader_buf fd" "fd_stream fd data k E room"
  for fd data k E room
proof
  fix b :: bytes and s :: os and cap :: nat
  let ?st = "fd_stream fd data k E room"
  show "gives ?st (io_attempt (file_read fd b)) s (\<lambda>r d s'. case r of
      Inr (n, b') \<Rightarrow> n \<le> length b \<and> length b' = length b \<and> d = take n b' \<and> (n = 0 \<longrightarrow> b = [] \<or> st_rest ?st s = [])
    | Inl e \<Rightarrow> d = [] \<and> st_error ?st e \<and> (is_interrupted e \<longrightarrow> st_patience ?st s' < st_patience ?st s))"
    by (rule file_read_gives)
  show "gives ?st (file_reader_buf fd cap) s (\<lambda>(d', r) d s'. d' = d \<and> length d \<le> cap \<and> (case r of
      Inr _ \<Rightarrow> d = [] \<longrightarrow> cap = 0 \<or> st_rest ?st s = []
    | Inl e \<Rightarrow> st_error ?st e \<and> (is_interrupted e \<longrightarrow> st_patience ?st s' < st_patience ?st s)))"
    unfolding file_reader_buf_def file_read_buf_def Let_def io_attempt_bind io_bind_assoc
  proof (rule gives_then [OF file_read_gives], goal_cases)
    case (1 r d s1)
    show ?case
    proof (cases r)
      case (Inl e)
      with 1 show ?thesis by (simp add: gives_return)
    next
      case (Inr x)
      obtain n b' where "x = (n, b')" by (cases x)
      with 1(1) Inr have x: "x = (n, b')" and n: "n \<le> min cap 512" "length b' = min cap 512" "d = take n b'"
        "n = 0 \<longrightarrow> cap = 0 \<or> st_rest ?st s = []" by (auto simp: min_def split: if_splits)
      have "\<not> n > 512" "\<not> n > cap" using n(1) by simp_all
      with n show ?thesis unfolding Inr x by (auto intro!: gives_return)
    qed
  qed
qed

text \<open>A reader through \<open>default_read_buf\<close> inherits the contract from its \<open>read\<close>.\<close>

lemma default_read_buf_gives:
  assumes "\<And>b s. gives st (io_attempt (rd b)) s (\<lambda>r d s'. case r of
      Inr (n, b') \<Rightarrow> n \<le> length b \<and> length b' = length b \<and> d = take n b' \<and> (n = 0 \<longrightarrow> b = [] \<or> st_rest st s = [])
    | Inl e \<Rightarrow> d = [] \<and> st_error st e \<and> (is_interrupted e \<longrightarrow> st_patience st s' < st_patience st s))"
  shows "gives st (default_read_buf rd cap) s (\<lambda>(d', r) d s'. d' = d \<and> length d \<le> cap \<and> (case r of
      Inr _ \<Rightarrow> d = [] \<longrightarrow> cap = 0 \<or> st_rest st s = []
    | Inl e \<Rightarrow> st_error st e \<and> (is_interrupted e \<longrightarrow> st_patience st s' < st_patience st s)))"
  unfolding default_read_buf_def
  by (rule gives_then [OF assms]) (auto simp: gives_return split: sum.splits)

lemma stdin_read_file: "stdin_read = file_read STDIN_FILENO"
  by (simp add: stdin_read_def file_read_def fun_eq_iff)

text \<open>Standard input that is not closed: no error number is EBADF, and the raw handle adds nothing.\<close>

lemma no_ebadf: "st_error (fd_stream fd data k (\<lambda>c. E c \<and> c \<noteq> EBADF) room) e \<Longrightarrow> \<not> is_ebadf e"
  by (auto simp: is_ebadf_def raw_os_error_def)

interpretation stdin_reads: reader_contract stdin_raw_read stdin_raw_read_buf
  "fd_stream STDIN_FILENO data k (\<lambda>c. E c \<and> c \<noteq> EBADF) room" for data k E room
proof
  fix b :: bytes and s :: os and cap :: nat
  let ?st = "fd_stream STDIN_FILENO data k (\<lambda>c. E c \<and> c \<noteq> EBADF) room"
  show "gives ?st (io_attempt (stdin_raw_read b)) s (\<lambda>r d s'. case r of
      Inr (n, b') \<Rightarrow> n \<le> length b \<and> length b' = length b \<and> d = take n b' \<and> (n = 0 \<longrightarrow> b = [] \<or> st_rest ?st s = [])
    | Inl e \<Rightarrow> d = [] \<and> st_error ?st e \<and> (is_interrupted e \<longrightarrow> st_patience ?st s' < st_patience ?st s))"
    unfolding stdin_raw_read_def handle_ebadf_def stdin_read_file io_attempt_bind_attempt
  proof (rule gives_then [OF file_read_gives], goal_cases)
    case (1 r d s1)
    then show ?case using no_ebadf [of STDIN_FILENO data k E room]
      by (cases r) (auto simp: gives_return split: prod.splits)
  qed
  show "gives ?st (stdin_raw_read_buf cap) s (\<lambda>(d', r) d s'. d' = d \<and> length d \<le> cap \<and> (case r of
      Inr _ \<Rightarrow> d = [] \<longrightarrow> cap = 0 \<or> st_rest ?st s = []
    | Inl e \<Rightarrow> st_error ?st e \<and> (is_interrupted e \<longrightarrow> st_patience ?st s' < st_patience ?st s)))"
    unfolding stdin_raw_read_buf_def stdin_read_file
  proof (rule gives_then [OF default_read_buf_gives [OF file_read_gives]], goal_cases)
    case (1 x d s1)
    then show ?case using no_ebadf [of STDIN_FILENO data k E room]
      by (cases x) (auto simp: gives_return split: sum.splits)
  qed
qed

text \<open>The stream underneath the raw handle, whose \<open>read_to_end\<close> the handle calls.\<close>

interpretation stdin_sys: reader_contract stdin_read "default_read_buf stdin_read"
  "fd_stream STDIN_FILENO data k E room" for data k E room
  unfolding stdin_read_file
  by unfold_locales (rule file_read_gives, rule default_read_buf_gives [OF file_read_gives])

section \<open>Whole files\<close>

text \<open>
  The same stream with a size reported by \<open>fstat\<close> that is far from the limit: it is the hint the vector is
  reserved by.
\<close>

definition fstat_sizes :: "int \<Rightarrow> (trace \<Rightarrow> call \<Rightarrow> reply) \<Rightarrow> bool" where
  "fstat_sizes fd orc \<longleftrightarrow> (\<forall>t. unat (fa_size (attr_from_raw (orc t (AttrC (C_fstat fd))))) < 2 ^ 60)"

definition sized :: "int \<Rightarrow> stream \<Rightarrow> stream" where
  "sized fd st = st\<lparr>st_good := \<lambda>orc. st_good st orc \<and> fstat_sizes fd orc\<rparr>"

lemma sized_sel [simp]:
  "st_good (sized fd st) orc \<longleftrightarrow> st_good st orc \<and> fstat_sizes fd orc"
  "st_rest (sized fd st) = st_rest st" "st_patience (sized fd st) = st_patience st"
  "st_error (sized fd st) = st_error st" "st_roomy (sized fd st) = st_roomy st"
  by (simp_all add: sized_def)

lemma sized_same [simp]: "load (sized fd st) = load st" "ends (sized fd st) = ends st" "stops (sized fd st) = stops st"
    "fits (sized fd st) = fits st" "collected (sized fd st) = collected st"
  by (simp_all add: fun_eq_iff load_def ends_def stops_def fits_def collected_def split: sum.splits)

lemma gives_sized: "gives (sized fd st) m s Q \<longleftrightarrow> (fstat_sizes fd (os_oracle s) \<longrightarrow> gives st m s Q)"
  by (auto simp: gives_def split: prod.splits outcome.splits)

lemma gives_attempt:
  assumes "gives st m s Q"
  shows "gives st (io_attempt m) s (\<lambda>r d s'. case r of Inl e \<Rightarrow> False | Inr x \<Rightarrow> Q x d s')"
  using assms by (auto simp: gives_def io_attempt_def split: prod.splits outcome.splits)

lemma sys_run: "sys c s = (Ok (reply_of s c), after s c)"
  by (simp add: sys_def reply_of_def after_def Let_def)

text \<open>Sequencing under \<open>?\<close>, for a first action that reports no error.\<close>

lemma gives_attempt_then:
  assumes "gives st m s P" "\<And>x d s1. P x d s1 \<Longrightarrow> st_rest st s = d @ st_rest st s1 \<Longrightarrow>
    st_patience st s1 \<le> st_patience st s \<Longrightarrow> gives st (io_attempt (k x)) s1 (\<lambda>r d' s2. Q r (d @ d') s2)"
  shows "gives st (io_attempt (io_bind m k)) s Q"
  unfolding io_attempt_bind
  by (rule gives_then [OF gives_attempt [OF assms(1)]]) (auto intro: assms(2) split: sum.splits)

lemma io_attempt_of: "io_attempt (io_of r) = io_return r"
  by (cases r) simp_all

lemma attr_gives:
  assumes "fstat_sizes fd (os_oracle s)"
  shows "gives (fd_stream fd data k E room) (io_attempt (file_attr_of fd)) s
    (\<lambda>r d s'. d = [] \<and> (\<forall>a. r = Inr a \<longrightarrow> unat (fa_size a) < 2 ^ 60))"
  unfolding gives_def
proof (intro impI)
  let ?st = "fd_stream fd data k E room" and ?c = "AttrC (C_fstat fd)"
  assume good: "st_good ?st (os_oracle s)"
  obtain c s' where f: "(os_fail :: file_attr io) (after s ?c) = (Err (OsError c), s')" "os_oracle s' = os_oracle s"
    "fd_got fd (os_trace s') = fd_got fd (os_trace (after s ?c))"
    "fd_failed fd (os_trace s') = fd_failed fd (os_trace (after s ?c))"
    using os_fail_run [of E "after s ?c" fd, where 'a = file_attr] good by auto
  have "unat (fa_size (attr_from_raw (reply_of s ?c))) < 2 ^ 60"
    using assms unfolding fstat_sizes_def reply_of_def by blast
  with f show "case io_attempt (file_attr_of fd) s of
      (Ok x, s') \<Rightarrow> os_oracle s' = os_oracle s \<and> st_patience ?st s' \<le> st_patience ?st s
        \<and> (\<exists>d. st_rest ?st s = d @ st_rest ?st s' \<and> d = [] \<and> (\<forall>a. x = Inr a \<longrightarrow> unat (fa_size a) < 2 ^ 60))
    | (Panic _, _) \<Rightarrow> \<not> st_roomy ?st | _ \<Rightarrow> False"
    by (cases "r_ret (reply_of s ?c) = 0")
      (simp_all add: file_attr_of_def sys_run io_bind_def io_attempt_def stream_append fd_failed_append)
qed

lemma size_hint_gives:
  assumes "fstat_sizes fd (os_oracle s)"
  shows "gives (fd_stream fd data k E room) (file_size_hint fd) s (\<lambda>h d s'. d = [] \<and> (\<forall>n. h = Some n \<longrightarrow> n < 2 ^ 60))"
  unfolding file_size_hint_def
  by (rule gives_then [OF attr_gives [OF assms]]) (auto intro!: gives_return split: sum.splits)

lemma tell_gives: "gives (fd_stream fd data k E room) (io_attempt (file_tell fd)) s (\<lambda>r d s'. d = [])"
  unfolding gives_def
proof (intro impI)
  let ?st = "fd_stream fd data k E room" and ?c = "FsC (C_lseek fd 0 SEEK_CUR)"
  assume good: "st_good ?st (os_oracle s)"
  obtain c s' where f: "(os_fail :: u64 io) (after s ?c) = (Err (OsError c), s')" "os_oracle s' = os_oracle s"
    "fd_got fd (os_trace s') = fd_got fd (os_trace (after s ?c))"
    "fd_failed fd (os_trace s') = fd_failed fd (os_trace (after s ?c))"
    using os_fail_run [of E "after s ?c" fd, where 'a = u64] good by auto
  then show "case io_attempt (file_tell fd) s of
      (Ok x, s') \<Rightarrow> os_oracle s' = os_oracle s \<and> st_patience ?st s' \<le> st_patience ?st s
        \<and> (\<exists>d. st_rest ?st s = d @ st_rest ?st s' \<and> d = [])
    | (Panic _, _) \<Rightarrow> \<not> st_roomy ?st | _ \<Rightarrow> False"
    by (cases "r_ret (reply_of s ?c) < 0")
      (simp_all add: file_tell_def sys_run io_bind_def io_attempt_def stream_append fd_failed_append)
qed

lemma capacity_required_gives:
  assumes "fstat_sizes fd (os_oracle s)"
  shows "gives (fd_stream fd data k E room) (buffer_capacity_required fd) s
    (\<lambda>h d s'. d = [] \<and> (\<forall>n. h = Some n \<longrightarrow> n < 2 ^ 60))"
  unfolding buffer_capacity_required_def
proof (rule gives_then [OF attr_gives [OF assms]], goal_cases)
  case (1 a d s1)
  show ?case
  proof (cases a)
    case (Inr attr)
    with 1(1) have "d = []" "unat (fa_size attr) - n < 2 ^ 60" for n by (auto intro: le_less_trans [OF diff_le_self])
    with Inr show ?thesis
      by (auto intro!: gives_then [OF tell_gives] gives_return split: sum.splits)
  qed (use 1 in \<open>auto intro!: gives_return\<close>)
qed

text \<open>The two \<open>read_to_end\<close> of the platform keep the contract of the loop they are built on.\<close>

lemma file_read_to_end_gives:
  assumes "fits (fd_stream fd data k E room) mem v s" "Suc (load (fd_stream fd data k E room) s) < fuel"
  shows "gives (sized fd (fd_stream fd data k E room)) (file_read_to_end fd mem fuel v) s
    (collected (fd_stream fd data k E room) (length (vec_data v)) v)"
  unfolding gives_sized file_read_to_end_def
proof (intro impI)
  let ?st = "fd_stream fd data k E room"
  assume sz: "fstat_sizes fd (os_oracle s)"
  show "gives ?st (io_bind (buffer_capacity_required fd) (\<lambda>size.
    case vec_try_reserve mem (case size of Some n \<Rightarrow> n | None \<Rightarrow> 0) v of
      Inl e \<Rightarrow> io_return (Inl e, v)
    | Inr v' \<Rightarrow> default_read_to_end (file_read fd) (file_reader_buf fd) False mem fuel size v')) s
    (collected ?st (length (vec_data v)) v)"
  proof (rule gives_then [OF capacity_required_gives [OF sz]], goal_cases)
    case (1 h d s1)
    let ?n = "case h of Some n \<Rightarrow> n | None \<Rightarrow> 0"
    have n: "d = []" "?n < 2 ^ 60" using 1(1) by (auto split: option.splits)
    show ?case
    proof (cases "vec_try_reserve mem ?n v")
      case (Inl e)
      then have "\<not> st_roomy ?st" using vec_try_reserve_room [of mem v "length (st_rest ?st s)" ?n] assms(1) n(2)
        by (auto simp: fits_def)
      then have "stops ?st e" using vec_try_reserve_err [OF Inl] by (simp add: stops_def)
      moreover have "vec_ok v" using assms(1) by (simp add: fits_def)
      ultimately show ?thesis using n unfolding Inl by (auto simp: collected_def intro!: gives_return)
    next
      case (Inr v')
      have v': "vec_ok v'" "vec_data v' = vec_data v"
        using vec_try_reserve_ok [OF _ Inr] assms(1) by (simp_all add: fits_def)
      have fits: "fits ?st mem v' s1" by (rule fits_read [OF assms(1) v'(1), of d]) (use v' n 1(2) in simp_all)
      have fuel: "Suc (load ?st s1) < fuel" using assms(2) 1(2,3) n unfolding load_def by (simp only: append_Nil)
      show ?thesis
        unfolding Inr sum.case
        by (rule gives_conseq [OF file_reads.read_to_end_gives [OF fits fuel]])
          (use v' n in \<open>auto simp: collected_def split: sum.splits\<close>)
    qed
  qed
qed

lemma stdin_raw_read_to_end_gives:
  assumes "fits (fd_stream STDIN_FILENO data k (\<lambda>c. E c \<and> c \<noteq> EBADF) room) mem v s"
    "Suc (load (fd_stream STDIN_FILENO data k (\<lambda>c. E c \<and> c \<noteq> EBADF) room) s) < fuel"
  shows "gives (fd_stream STDIN_FILENO data k (\<lambda>c. E c \<and> c \<noteq> EBADF) room) (stdin_raw_read_to_end mem fuel v) s
    (collected (fd_stream STDIN_FILENO data k (\<lambda>c. E c \<and> c \<noteq> EBADF) room) (length (vec_data v)) v)"
  unfolding stdin_raw_read_to_end_def
proof (rule gives_then [OF stdin_sys.read_to_end_gives [OF assms]], goal_cases)
  case (1 x d s1)
  let ?st = "fd_stream STDIN_FILENO data k (\<lambda>c. E c \<and> c \<noteq> EBADF) room"
  obtain r v' where x: "x = (r, v')" by (cases x)
  show ?case
  proof (cases r)
    case (Inl e)
    with 1 x have "stops ?st e" by (simp add: collected_def)
    then have "\<not> is_ebadf e"
      by (auto simp: stops_def ends_def is_ebadf_def raw_os_error_def OOM_def)
    with 1 x Inl show ?thesis by (auto simp: collected_def intro!: gives_return)
  qed (use 1 x in \<open>auto simp: collected_def intro!: gives_return\<close>)
qed

text \<open>The body of \<open>fs::read\<close>, between \<open>open\<close> and \<open>close\<close>.\<close>

lemma read_whole_gives:
  assumes "fstat_sizes fd (os_oracle s)" "\<forall>n < 2 ^ 63. mem n" "length data < 2 ^ 60"
    "Suc (load (fd_stream fd data k E True) s) < fuel" "st_rest (fd_stream fd data k E True) s = data"
  shows "gives (fd_stream fd data k E True)
    (io_attempt (io_bind (file_size_hint fd) (\<lambda>size.
      io_bind (io_of (vec_try_with_capacity mem (case size of Some n \<Rightarrow> n | None \<Rightarrow> 0))) (\<lambda>v.
      io_bind (default_read_to_end (file_read fd) (file_reader_buf fd) False mem fuel size v) (\<lambda>(r, v').
      io_bind (io_of r) (\<lambda>_. io_return (vec_data v'))))))) s
    (\<lambda>r d s'. case r of Inl e \<Rightarrow> ends (fd_stream fd data k E True) e | Inr x \<Rightarrow> x = data)"
proof (rule gives_attempt_then [OF size_hint_gives [OF assms(1)]], goal_cases)
  case (1 h d s1)
  let ?st = "fd_stream fd data k E True"
  let ?n = "case h of Some n \<Rightarrow> n | None \<Rightarrow> 0"
  let ?v = "\<lparr>vec_data = [], vec_cap = ?n\<rparr>"
  have "?n < 2 ^ 60" using 1(1) by (cases h) auto
  then have cap: "vec_try_with_capacity mem ?n = Inr ?v" using assms(2) by (simp add: vec_try_with_capacity_def)
  have rest: "st_rest ?st s1 = data" using 1 assms(5) by simp
  have fits: "fits ?st mem ?v s1" using assms(2,3) rest by (simp add: fits_def vec_ok_def roomy_def)
  have fuel: "Suc (load ?st s1) < fuel" using assms(4) 1(3) rest unfolding load_def assms(5) rest by linarith
  show ?case unfolding cap io_of_simps io_bind_return
  proof (rule gives_attempt_then [OF file_reads.read_to_end_gives [OF fits fuel]], goal_cases)
    case (1 x d' s2)
    obtain r v' where x: "x = (r, v')" by (cases x)
    show ?case
    proof (cases r)
      case (Inl e)
      with 1 x show ?thesis by (auto simp: collected_def stops_def intro!: gives_return)
    next
      case (Inr n)
      with 1 x rest have "vec_data v' = data" by (simp add: collected_def)
      with x Inr show ?thesis by (auto intro!: gives_return)
    qed
  qed
qed

lemma File_open_run:
  assumes "File_open p s = (Ok fd, s1)"
  shows "\<exists>c. s1 = after s (FsC (C_open c O_RDONLY 0x1B6)) \<and> fd = r_ret (reply_of s (FsC (C_open c O_RDONLY 0x1B6)))"
proof (cases "cstr p")
  case (Inr c)
  have "\<not> r_ret (reply_of s (FsC (C_open c O_RDONLY 0x1B6))) < 0"
  proof
    assume "r_ret (reply_of s (FsC (C_open c O_RDONLY 0x1B6))) < 0"
    then have "os_fail (after s (FsC (C_open c O_RDONLY 0x1B6))) = (Ok fd, s1)"
      using assms Inr by (simp add: File_open_def file_open_def with_cstr_def copy_flags bind_sys_after)
    then show False using os_fail_stream(1) by blast
  qed
  with assms Inr show ?thesis
    by (auto simp: File_open_def file_open_def with_cstr_def copy_flags bind_sys_after)
qed (use assms in \<open>simp add: File_open_def file_open_def with_cstr_def\<close>)

text \<open>
  C14: \<open>fs::read\<close> returns exactly the contents of the file, or an error other than an interruption that the C
  library reported while reading; it neither returns a part of the file nor fails to return. The size the
  file system reports is only a hint: it may be wrong, or missing. The file is closed last, on either way out.
\<close>

theorem fs_read_exact:
  assumes "File_open p (boot orc) = (Ok fd, s1)" "fd_feeds fd data k orc" "errnos E orc" "fstat_sizes fd orc"
    "\<forall>n < 2 ^ 63. mem n" "length data < 2 ^ 60" "Suc (length data + k) < fuel"
  shows "case fs_read mem fuel p (boot orc) of
      (r, s') \<Rightarrow> (r = Ok data \<or> (\<exists>c. r = Err (OsError c) \<and> E c \<and> c \<noteq> 4))
        \<and> fst (last (os_trace s')) = FsC (C_close fd)"
proof -
  let ?st = "fd_stream fd data k E True"
  have "os_oracle s1 = orc \<and> fd_got fd (os_trace s1) = [] \<and> fd_failed fd (os_trace s1) = 0"
    using File_open_run [OF assms(1)] by (auto simp: stream_append)
  then have s1: "os_oracle s1 = orc" "st_rest ?st s1 = data" "load ?st s1 = length data + k"
    by (simp_all add: load_def)
  define body where "body = io_bind (file_size_hint fd) (\<lambda>size.
      io_bind (io_of (vec_try_with_capacity mem (case size of Some n \<Rightarrow> n | None \<Rightarrow> 0))) (\<lambda>v.
      io_bind (default_read_to_end (file_read fd) (file_reader_buf fd) False mem fuel size v) (\<lambda>(r, v').
      io_bind (io_of r) (\<lambda>_. io_return (vec_data v')))))"
  have "gives ?st (io_attempt body) s1 (\<lambda>r d s'. case r of Inl e \<Rightarrow> ends ?st e | Inr x \<Rightarrow> x = data)"
    unfolding body_def by (rule read_whole_gives) (use assms s1 in simp_all)
  then obtain r s2 where b: "io_attempt body s1 = (Ok r, s2)" "case r of Inl e \<Rightarrow> ends ?st e | Inr x \<Rightarrow> x = data"
    using assms(2,3) s1(1) by (auto simp: gives_def split: prod.splits outcome.splits)
  have "fs_read mem fuel p (boot orc) = io_finally body (file_drop fd) s1"
    using assms(1) by (simp add: fs_read_def body_def io_bind_def)
  also have "\<dots> = io_of r (after s2 (FsC (C_close fd)))"
    unfolding io_finally_def io_bind_Ok [of "io_attempt body", OF b(1)] file_drop_def by (simp add: bind_sys_after)
  finally have run: "fs_read mem fuel p (boot orc) = io_of r (after s2 (FsC (C_close fd)))" .
  show ?thesis
  proof (cases r)
    case (Inl e)
    with b(2) obtain c where "e = OsError c" "E c" "\<not> is_interrupted (OsError c)" by (auto simp: ends_def)
    then show ?thesis unfolding run Inl by (simp add: is_interrupted_def code_is_interrupted_def)
  next
    case (Inr x)
    with b(2) show ?thesis unfolding run Inr by simp
  qed
qed

text \<open>An input of two lines that is interrupted once, reported with a wrong size.\<close>

definition read_oracle :: "bytes \<Rightarrow> trace \<Rightarrow> call \<Rightarrow> reply" where
  "read_oracle data t c = (case c of
       FsC (C_read fd n) \<Rightarrow> if fd_failed fd t = 0 \<and> fd_got fd t \<noteq> [] then ret (-1) else serve data (fd_got fd t) (min n 3)
     | FsC (C_open p f m) \<Rightarrow> ret 3 | ErrnoC e \<Rightarrow> ret 4 | AttrC (C_fstat fd) \<Rightarrow> ret_outs 0 [2] | _ \<Rightarrow> ret 0)"

lemma read_oracle_feeds: "fd_feeds fd data 1 (read_oracle data)" "errnos (\<lambda>c. c = 4) (read_oracle data)"
  "fstat_sizes fd (read_oracle data)"
  by (auto simp: fd_feeds_def errnos_def fstat_sizes_def read_oracle_def serve_def next_piece_def Let_def min_def
      attr_from_raw_def out_param_def)

theorem fs_read_exact_witness:
  "case fs_read (\<lambda>n. True) 10 [97] (boot (read_oracle [104, 105, 10, 33])) of
      (r, s') \<Rightarrow> r = Ok [104, 105, 10, 33] \<and> fst (last (os_trace s')) = FsC (C_close 3)"
proof -
  let ?o = "read_oracle [104, 105, 10, 33]"
  have "cstr [97] = Inr [97]" by code_simp
  then have "File_open [97] (boot ?o) = (Ok 3, after (boot ?o) (FsC (C_open [97] O_RDONLY 0x1B6)))"
    by (simp add: File_open_def file_open_def with_cstr_def copy_flags bind_sys_after reply_of_def read_oracle_def)
  from fs_read_exact [OF this read_oracle_feeds, of "\<lambda>n. True" 10] show ?thesis
    by (auto split: prod.splits)
qed

end
