(* ===== verification/Buf_Reader.thy ===== *)
theory Buf_Reader
  imports Read_All Utf8_Valid
begin

text \<open>
  Buffered reading: \<open>Buffer\<close> and \<open>BufReader\<close> (\<open>io/buffered/bufreader.rs\<close>, \<open>bufreader/buffer.rs\<close>), the methods
  \<open>BufRead\<close> and \<open>Read\<close> build on them in \<open>std/src/io/mod.rs\<close>, and standard input. What a reader has buffered together
  with what is still to come is its \<open>unread\<close> input; every operation takes a prefix off it.
\<close>

section \<open>The buffer\<close>

text \<open>\<open>rb_filled\<close> are the first \<open>filled\<close> bytes of the allocation of \<open>rb_capacity\<close> bytes.\<close>

record read_buffer =
  rb_capacity :: nat
  rb_filled :: bytes
  rb_pos :: nat
  rb_initialized :: bool

definition buffer_with_capacity :: "nat \<Rightarrow> read_buffer" where
  "buffer_with_capacity cap = \<lparr>rb_capacity = cap, rb_filled = [], rb_pos = 0, rb_initialized = False\<rparr>"

definition buffer_try_with_capacity :: "(nat \<Rightarrow> bool) \<Rightarrow> nat \<Rightarrow> io_error + read_buffer" where
  "buffer_try_with_capacity mem cap = (if cap = 0 \<or> cap < 2 ^ 63 \<and> mem cap then Inr (buffer_with_capacity cap)
    else Inl (SimpleMessage OutOfMemory ''failed to allocate read buffer''))"

definition buffer_bytes :: "read_buffer \<Rightarrow> bytes" where
  "buffer_bytes rb = drop (rb_pos rb) (rb_filled rb)"

definition discard_buffer :: "read_buffer \<Rightarrow> read_buffer" where
  "discard_buffer rb = rb\<lparr>rb_pos := 0, rb_filled := []\<rparr>"

definition consume :: "nat \<Rightarrow> read_buffer \<Rightarrow> read_buffer" where
  "consume amt rb = rb\<lparr>rb_pos := min (rb_pos rb + amt) (length (rb_filled rb))\<rparr>"

text \<open>\<open>consume_with\<close>: the bytes the visitor sees, if there are enough.\<close>

definition consume_with :: "nat \<Rightarrow> read_buffer \<Rightarrow> (bytes \<times> read_buffer) option" where
  "consume_with amt rb = (if amt \<le> length (buffer_bytes rb)
    then Some (take amt (buffer_bytes rb), rb\<lparr>rb_pos := rb_pos rb + amt\<rparr>) else None)"

definition unconsume :: "nat \<Rightarrow> read_buffer \<Rightarrow> read_buffer" where
  "unconsume amt rb = rb\<lparr>rb_pos := rb_pos rb - amt\<rparr>"

definition backshift :: "read_buffer \<Rightarrow> read_buffer" where
  "backshift rb = rb\<lparr>rb_filled := buffer_bytes rb, rb_pos := 0\<rparr>"

text \<open>A reader as \<open>BufReader\<close> sees it.\<close>

record reader =
  rd_read :: read_fn
  rd_read_buf :: read_buf_fn
  rd_inits :: bool
  rd_read_to_end :: "(nat \<Rightarrow> bool) \<Rightarrow> nat \<Rightarrow> vec \<Rightarrow> ((io_error + nat) \<times> vec) io"

type_synonym 'a br = "read_buffer \<Rightarrow> ('a \<times> read_buffer) io"

definition read_more :: "reader \<Rightarrow> (io_error + nat) br" where
  "read_more rd rb = io_bind (rd_read_buf rd (rb_capacity rb - length (rb_filled rb))) (\<lambda>(d, r). case r of
      Inl e \<Rightarrow> io_return (Inl e, rb)
    | Inr _ \<Rightarrow> io_return (Inr (length d), rb\<lparr>rb_filled := rb_filled rb @ d,
        rb_initialized := rb_initialized rb \<or> rd_inits rd\<rparr>))"

definition fill_buf :: "reader \<Rightarrow> (io_error + bytes) br" where
  "fill_buf rd rb =
    (if rb_pos rb \<ge> length (rb_filled rb) then
       io_bind (rd_read_buf rd (rb_capacity rb)) (\<lambda>(d, r).
         let rb' = rb\<lparr>rb_pos := 0, rb_filled := d, rb_initialized := rb_initialized rb \<or> rd_inits rd\<rparr>
         in io_return (case r of Inl e \<Rightarrow> Inl e | Inr _ \<Rightarrow> Inr (buffer_bytes rb'), rb'))
     else io_return (Inr (buffer_bytes rb), rb))"

section \<open>The reader\<close>

definition buf_reader_new :: read_buffer where
  "buf_reader_new = buffer_with_capacity DEFAULT_BUF_SIZE"

fun peek :: "reader \<Rightarrow> nat \<Rightarrow> nat \<Rightarrow> (io_error + bytes) br" where
  "peek rd 0 n rb = io_hang"
| "peek rd (Suc fuel) n rb =
    (if n > rb_capacity rb then io_panic ''assertion failed: n <= self.capacity()''
     else if n \<le> length (buffer_bytes rb) then io_return (Inr (take n (buffer_bytes rb)), rb)
     else io_bind (read_more rd (if rb_pos rb > 0 then backshift rb else rb)) (\<lambda>(r, rb'). case r of
        Inl e \<Rightarrow> io_return (Inl e, rb')
      | Inr new \<Rightarrow> if new = 0 then io_return (Inr (buffer_bytes rb'), rb') else peek rd fuel n rb'))"

text \<open>\<open>read\<close> of a slice of bytes (\<open>io/impls.rs\<close>): the count and the buffer afterwards.\<close>

definition slice_read :: "bytes \<Rightarrow> bytes \<Rightarrow> nat \<times> bytes" where
  "slice_read src buf = (let amt = min (length buf) (length src) in (amt, overwrite buf (take amt src)))"

definition br_read :: "reader \<Rightarrow> bytes \<Rightarrow> (io_error + nat \<times> bytes) br" where
  "br_read rd buf rb =
    (if rb_pos rb = length (rb_filled rb) \<and> length buf \<ge> rb_capacity rb then
       io_bind (io_attempt (rd_read rd buf)) (\<lambda>r. io_return (r, discard_buffer rb))
     else io_bind (fill_buf rd rb) (\<lambda>(r, rb'). case r of
        Inl e \<Rightarrow> io_return (Inl e, rb')
      | Inr rem \<Rightarrow> (case slice_read rem buf of (nread, buf') \<Rightarrow> io_return (Inr (nread, buf'), consume nread rb'))))"

definition br_read_buf :: "reader \<Rightarrow> nat \<Rightarrow> (bytes \<times> (io_error + unit)) br" where
  "br_read_buf rd cap rb =
    (if rb_pos rb = length (rb_filled rb) \<and> cap \<ge> rb_capacity rb then
       io_bind (rd_read_buf rd cap) (\<lambda>x. io_return (x, discard_buffer rb))
     else io_bind (fill_buf rd rb) (\<lambda>(r, rb'). case r of
        Inl e \<Rightarrow> io_return (([], Inl e), rb')
      | Inr rem \<Rightarrow> let amt = min cap (length rem) in io_return ((take amt rem, Inr ()), consume amt rb')))"

definition READ_EXACT_EOF :: io_error where
  "READ_EXACT_EOF = SimpleMessage UnexpectedEof ''failed to fill whole buffer''"

text \<open>
  \<open>default_read_exact\<close> over the \<open>read\<close> of a \<open>BufReader\<close>: the result, and the part of the buffer that has been filled.
\<close>

fun default_read_exact :: "reader \<Rightarrow> nat \<Rightarrow> bytes \<Rightarrow> bytes \<Rightarrow> ((io_error + unit) \<times> bytes) br" where
  "default_read_exact rd 0 buf part rb = io_hang"
| "default_read_exact rd (Suc fuel) buf part rb =
    (if buf = [] then io_return ((Inr (), part), rb)
     else io_bind (br_read rd buf rb) (\<lambda>(r, rb'). case r of
        Inr (n, buf') \<Rightarrow>
          if n = 0 then io_return ((Inl READ_EXACT_EOF, part), rb')
          else if n > length buf' then io_panic ''range start index out of range''
          else default_read_exact rd fuel (drop n buf') (part @ take n buf') rb'
      | Inl e \<Rightarrow> if is_interrupted e then default_read_exact rd fuel buf part rb'
          else io_return ((Inl e, part), rb')))"

definition br_read_exact :: "reader \<Rightarrow> nat \<Rightarrow> bytes \<Rightarrow> ((io_error + unit) \<times> bytes) br" where
  "br_read_exact rd fuel buf rb = (case consume_with (length buf) rb of
      Some (claimed, rb') \<Rightarrow> io_return ((Inr (), claimed), rb')
    | None \<Rightarrow> default_read_exact rd fuel buf [] rb)"

text \<open>\<open>spec_read_byte\<close>: \<open>None\<close> is the end of the input.\<close>

fun slow_read_byte :: "reader \<Rightarrow> nat \<Rightarrow> (io_error + u8) option br" where
  "slow_read_byte rd 0 rb = io_hang"
| "slow_read_byte rd (Suc fuel) rb = io_bind (br_read rd [0] rb) (\<lambda>(r, rb'). case r of
      Inr (n, buf) \<Rightarrow> io_return (if n = 0 then None else Some (Inr (hd buf)), rb')
    | Inl e \<Rightarrow> if is_interrupted e then slow_read_byte rd fuel rb' else io_return (Some (Inl e), rb'))"

definition br_read_byte :: "reader \<Rightarrow> nat \<Rightarrow> (io_error + u8) option br" where
  "br_read_byte rd fuel rb = (case consume_with 1 rb of
      Some (claimed, rb') \<Rightarrow> io_return (Some (Inr (hd claimed)), rb')
    | None \<Rightarrow> slow_read_byte rd fuel rb)"

definition br_read_to_end :: "reader \<Rightarrow> (nat \<Rightarrow> bool) \<Rightarrow> nat \<Rightarrow> vec \<Rightarrow> ((io_error + nat) \<times> vec) br" where
  "br_read_to_end rd mem fuel v rb =
    (let inner_buf = buffer_bytes rb
     in case vec_try_reserve mem (length inner_buf) v of
          Inl e \<Rightarrow> io_return ((Inl e, v), rb)
        | Inr v1 \<Rightarrow> io_bind (vec_extend mem inner_buf v1) (\<lambda>v2.
            io_bind (rd_read_to_end rd mem fuel v2) (\<lambda>(r, v3).
              io_return ((case r of Inl e \<Rightarrow> Inl e | Inr n \<Rightarrow> Inr (length inner_buf + n), v3), discard_buffer rb))))"

definition br_read_to_string :: "reader \<Rightarrow> (nat \<Rightarrow> bool) \<Rightarrow> nat \<Rightarrow> vec \<Rightarrow> ((io_error + nat) \<times> vec) br" where
  "br_read_to_string rd mem fuel v rb =
    (if vec_data v = [] then
       io_bind (br_read_to_end rd mem fuel v rb) (\<lambda>(x, rb'). io_return (append_to_string 0 x, rb'))
     else io_bind (br_read_to_end rd mem fuel vec_new rb) (\<lambda>((r, bytes), rb'). case r of
        Inl e \<Rightarrow> io_return ((Inl e, v), rb')
      | Inr _ \<Rightarrow> if \<not> from_utf8_ok (vec_data bytes) then io_return ((Inl INVALID_UTF8, v), rb')
          else io_bind (vec_extend mem (vec_data bytes) v) (\<lambda>v'.
            io_return ((Inr (length (vec_data bytes)), v'), rb'))))"

section \<open>Lines\<close>

text \<open>
  \<open>memchr\<close> finds the first occurrence, wherever the slice lies (\<open>first_byte_memchr\<close> below). The vector that is
  extended is written as its contents; \<open>used\<close> counts the bytes taken.
\<close>

definition first_byte :: "u8 \<Rightarrow> bytes \<Rightarrow> nat option" where
  "first_byte delim b = memchr_naive delim b"

fun read_until :: "reader \<Rightarrow> nat \<Rightarrow> u8 \<Rightarrow> nat \<Rightarrow> bytes \<Rightarrow> ((io_error + nat) \<times> bytes) br" where
  "read_until rd 0 delim total_read buf rb = io_hang"
| "read_until rd (Suc fuel) delim total_read buf rb = io_bind (fill_buf rd rb) (\<lambda>(r, rb'). case r of
      Inl e \<Rightarrow> if is_interrupted e then read_until rd fuel delim total_read buf rb'
        else io_return ((Inl e, buf), rb')
    | Inr available \<Rightarrow>
        (case (case first_byte delim available of
             Some i \<Rightarrow> (True, i + 1) | None \<Rightarrow> (False, length available)) of
          (found, used) \<Rightarrow>
            let buf' = buf @ take used available; rb'' = consume used rb'
            in if found \<or> used = 0 then io_return ((Inr (total_read + used), buf'), rb'')
               else read_until rd fuel delim (total_read + used) buf' rb''))"

fun skip_until :: "reader \<Rightarrow> nat \<Rightarrow> u8 \<Rightarrow> nat \<Rightarrow> (io_error + nat) br" where
  "skip_until rd 0 delim total_read rb = io_hang"
| "skip_until rd (Suc fuel) delim total_read rb = io_bind (fill_buf rd rb) (\<lambda>(r, rb'). case r of
      Inl e \<Rightarrow> if error_kind_of e = Interrupted then skip_until rd fuel delim total_read rb'
        else io_return (Inl e, rb')
    | Inr available \<Rightarrow>
        (case (case first_byte delim available of
             Some i \<Rightarrow> (True, i + 1) | None \<Rightarrow> (False, length available)) of
          (found, used) \<Rightarrow>
            let rb'' = consume used rb'
            in if found \<or> used = 0 then io_return (Inr (total_read + used), rb'')
               else skip_until rd fuel delim (total_read + used) rb''))"

definition has_data_left :: "reader \<Rightarrow> (io_error + bool) br" where
  "has_data_left rd rb = io_bind (fill_buf rd rb) (\<lambda>(r, rb').
    io_return (case r of Inl e \<Rightarrow> Inl e | Inr b \<Rightarrow> Inr (b \<noteq> []), rb'))"

text \<open>\<open>read_line\<close>: the string is its bytes.\<close>

definition read_line :: "reader \<Rightarrow> nat \<Rightarrow> bytes \<Rightarrow> ((io_error + nat) \<times> bytes) br" where
  "read_line rd fuel str rb = io_bind (read_until rd fuel NEWLINE 0 str rb) (\<lambda>((r, bytes), rb').
    case append_to_string (length str) (r, \<lparr>vec_data = bytes, vec_cap = length bytes\<rparr>) of
      (r', v) \<Rightarrow> io_return ((r', vec_data v), rb'))"

definition CARRIAGE_RETURN :: u8 where "CARRIAGE_RETURN = 13"

definition strip_line :: "bytes \<Rightarrow> bytes" where
  "strip_line buf = (if buf \<noteq> [] \<and> last buf = NEWLINE then
     let buf1 = butlast buf
     in if buf1 \<noteq> [] \<and> last buf1 = CARRIAGE_RETURN then butlast buf1 else buf1
   else buf)"

definition lines_next :: "reader \<Rightarrow> nat \<Rightarrow> (io_error + bytes) option br" where
  "lines_next rd fuel rb = io_bind (read_line rd fuel [] rb) (\<lambda>((r, buf), rb'). io_return (case r of
      Inl e \<Rightarrow> Some (Inl e)
    | Inr n \<Rightarrow> if n = 0 then None else Some (Inr (strip_line buf)), rb'))"

definition split_next :: "reader \<Rightarrow> nat \<Rightarrow> u8 \<Rightarrow> (io_error + bytes) option br" where
  "split_next rd fuel delim rb = io_bind (read_until rd fuel delim 0 [] rb) (\<lambda>((r, buf), rb'). case r of
      Inl e \<Rightarrow> io_return (Some (Inl e), rb')
    | Inr n \<Rightarrow> if n = 0 then io_return (None, rb')
        else if buf = [] then io_panic ''attempt to subtract with overflow''
        else io_return (Some (Inr (if last buf = delim then butlast buf else buf)), rb'))"

text \<open>\<open>for line in reader.lines()\<close>: what the iterator yields until it ends.\<close>

fun collect_lines :: "reader \<Rightarrow> nat \<Rightarrow> nat \<Rightarrow> (io_error + bytes) list br" where
  "collect_lines rd fuel 0 rb = io_hang"
| "collect_lines rd fuel (Suc n) rb = io_bind (lines_next rd fuel rb) (\<lambda>(x, rb'). case x of
      None \<Rightarrow> io_return ([], rb')
    | Some item \<Rightarrow> io_bind (collect_lines rd fuel n rb') (\<lambda>(items, rb''). io_return (item # items, rb'')))"

section \<open>Seeking in a buffered file\<close>

definition checked_sub_i64 :: "i64 \<Rightarrow> i64 \<Rightarrow> i64 option" where
  "checked_sub_i64 a b = (if - (2 ^ 63) \<le> sint a - sint b \<and> sint a - sint b < 2 ^ 63 then Some (a - b) else None)"

definition br_seek :: "int \<Rightarrow> seek_from \<Rightarrow> (io_error + u64) br" where
  "br_seek fd pos rb =
    (let fin = (\<lambda>m rb. io_bind (io_attempt m) (\<lambda>r. io_return (r, case r of Inl e \<Rightarrow> rb | Inr _ \<Rightarrow> discard_buffer rb)))
     in case pos of
          SeekCurrent n \<Rightarrow>
            let remainder = of_nat (length (rb_filled rb) - rb_pos rb)
            in (case checked_sub_i64 n remainder of
                 Some off \<Rightarrow> fin (file_seek fd (SeekCurrent off)) rb
               | None \<Rightarrow> io_bind (io_attempt (file_seek fd (SeekCurrent (- remainder)))) (\<lambda>r. case r of
                   Inl e \<Rightarrow> io_return (Inl e, rb)
                 | Inr _ \<Rightarrow> fin (file_seek fd (SeekCurrent n)) (discard_buffer rb)))
        | _ \<Rightarrow> fin (file_seek fd pos) rb)"

definition br_stream_position :: "int \<Rightarrow> (io_error + u64) br" where
  "br_stream_position fd rb =
    (let remainder = of_nat (length (rb_filled rb) - rb_pos rb)
     in io_bind (io_attempt (file_tell fd)) (\<lambda>r. case r of
        Inl e \<Rightarrow> io_return (Inl e, rb)
      | Inr pos \<Rightarrow> if pos < remainder
          then io_panic ''overflow when subtracting remaining buffer size from inner stream position''
          else io_return (Inr (pos - remainder), rb)))"

definition br_seek_relative :: "int \<Rightarrow> i64 \<Rightarrow> (io_error + unit) br" where
  "br_seek_relative fd off rb =
    (let pos = rb_pos rb;
         seek = (\<lambda>rb. io_bind (br_seek fd (SeekCurrent off) rb) (\<lambda>(r, rb').
           io_return (case r of Inl e \<Rightarrow> Inl e | Inr _ \<Rightarrow> Inr (), rb')))
     in if sint off < 0 then
          (if unat (- off) \<le> pos then io_return (Inr (), unconsume (unat (- off)) rb) else seek rb)
        else if pos + unat off \<le> length (rb_filled rb) then io_return (Inr (), consume (unat off) rb)
        else seek rb)"

section \<open>The readers\<close>

definition stdin_raw :: reader where
  "stdin_raw = \<lparr>rd_read = stdin_raw_read, rd_read_buf = stdin_raw_read_buf, rd_inits = True,
     rd_read_to_end = stdin_raw_read_to_end\<rparr>"

definition file_as_reader :: "int \<Rightarrow> reader" where
  "file_as_reader fd = \<lparr>rd_read = file_read fd, rd_read_buf = file_reader_buf fd, rd_inits = False,
     rd_read_to_end = file_read_to_end fd\<rparr>"

definition STDIN_BUF_SIZE :: nat where "STDIN_BUF_SIZE = DEFAULT_BUF_SIZE"

text \<open>\<open>stdin()\<close>: the buffer behind the lock, before its first use.\<close>

definition stdin_buffer :: read_buffer where
  "stdin_buffer = buffer_with_capacity STDIN_BUF_SIZE"

section \<open>What an operation takes\<close>

definition rb_ok :: "read_buffer \<Rightarrow> bool" where
  "rb_ok rb \<longleftrightarrow> rb_pos rb \<le> length (rb_filled rb) \<and> length (rb_filled rb) \<le> rb_capacity rb \<and> 0 < rb_capacity rb"

definition unread :: "stream \<Rightarrow> read_buffer \<Rightarrow> os \<Rightarrow> bytes" where
  "unread st rb s = buffer_bytes rb @ st_rest st s"

text \<open>
  \<open>takes st m rb s Q\<close>: the operation keeps the buffer well formed and takes some \<open>d\<close> off the unread input, which \<open>Q\<close>
  describes together with the result, the buffer and the state.
\<close>

definition takes :: "stream \<Rightarrow> 'a br \<Rightarrow> read_buffer \<Rightarrow> os \<Rightarrow> ('a \<Rightarrow> bytes \<Rightarrow> read_buffer \<Rightarrow> os \<Rightarrow> bool) \<Rightarrow> bool" where
  "takes st m rb s Q \<longleftrightarrow> (rb_ok rb \<longrightarrow> gives st (m rb) s (\<lambda>(x, rb') e s'. rb_ok rb' \<and> rb_capacity rb' = rb_capacity rb
     \<and> (\<exists>d. buffer_bytes rb @ e = d @ buffer_bytes rb' \<and> Q x d rb' s')))"

lemma takes_return:
  "Q x [] rb s \<Longrightarrow> takes st (\<lambda>rb. io_return (x, rb)) rb s Q"
  by (simp add: takes_def gives_return)

lemma takes_run: "m rb = m' rb \<Longrightarrow> takes st m' rb s Q \<Longrightarrow> takes st m rb s Q"
  by (simp add: takes_def)

text \<open>A pure step of the buffer.\<close>

lemma takes_buffer:
  assumes "rb_ok rb \<Longrightarrow> rb_ok (f rb) \<and> rb_capacity (f rb) = rb_capacity rb \<and> buffer_bytes rb = d @ buffer_bytes (f rb) \<and> Q x d (f rb) s"
  shows "takes st (\<lambda>rb. io_return (x, f rb)) rb s Q"
  using assms by (auto simp: takes_def intro!: gives_return)

lemma takes_conseq:
  assumes "takes st m rb s P" "\<And>x d rb' s'. P x d rb' s' \<Longrightarrow> unread st rb s = d @ unread st rb' s' \<Longrightarrow>
    st_patience st s' \<le> st_patience st s \<Longrightarrow> Q x d rb' s'"
  shows "takes st m rb s Q"
  unfolding takes_def
proof
  assume "rb_ok rb"
  with assms(1) have "gives st (m rb) s (\<lambda>(x, rb') e s'. rb_ok rb' \<and> rb_capacity rb' = rb_capacity rb
     \<and> (\<exists>d. buffer_bytes rb @ e = d @ buffer_bytes rb' \<and> P x d rb' s'))" by (simp add: takes_def)
  then show "gives st (m rb) s (\<lambda>(x, rb') e s'. rb_ok rb' \<and> rb_capacity rb' = rb_capacity rb
     \<and> (\<exists>d. buffer_bytes rb @ e = d @ buffer_bytes rb' \<and> Q x d rb' s'))"
  proof (rule gives_conseq, goal_cases)
    case (1 y e s')
    obtain x rb' where y: "y = (x, rb')" by (cases y)
    with 1 obtain d where d: "rb_ok rb'" "rb_capacity rb' = rb_capacity rb" "buffer_bytes rb @ e = d @ buffer_bytes rb'"
      "P x d rb' s'" by auto
    have "unread st rb s = d @ unread st rb' s'" using 1(2) d(3) by (simp add: unread_def)
    with y d 1 assms(2) show ?case by auto
  qed
qed

lemma takes_then:
  assumes "takes st m rb s P" "\<And>x d rb1 s1. P x d rb1 s1 \<Longrightarrow> unread st rb s = d @ unread st rb1 s1 \<Longrightarrow>
    st_patience st s1 \<le> st_patience st s \<Longrightarrow> rb_capacity rb1 = rb_capacity rb \<Longrightarrow> takes st (k x) rb1 s1 (\<lambda>y d' rb2 s2. Q y (d @ d') rb2 s2)"
  shows "takes st (\<lambda>rb. io_bind (m rb) (\<lambda>(x, rb'). k x rb')) rb s Q"
  unfolding takes_def
proof
  assume "rb_ok rb"
  with assms(1) have m: "gives st (m rb) s (\<lambda>(x, rb') e s'. rb_ok rb' \<and> rb_capacity rb' = rb_capacity rb
     \<and> (\<exists>d. buffer_bytes rb @ e = d @ buffer_bytes rb' \<and> P x d rb' s'))" by (simp add: takes_def)
  show "gives st (io_bind (m rb) (\<lambda>(x, rb'). k x rb')) s (\<lambda>(x, rb') e s'. rb_ok rb' \<and> rb_capacity rb' = rb_capacity rb
     \<and> (\<exists>d. buffer_bytes rb @ e = d @ buffer_bytes rb' \<and> Q x d rb' s'))"
  proof (rule gives_then [OF m], goal_cases)
    case (1 y e s1)
    obtain x rb1 where y: "y = (x, rb1)" by (cases y)
    with 1 obtain d where d: "rb_ok rb1" "rb_capacity rb1 = rb_capacity rb" "buffer_bytes rb @ e = d @ buffer_bytes rb1"
      "P x d rb1 s1" by auto
    have "unread st rb s = d @ unread st rb1 s1" using 1(2) d(3) by (simp add: unread_def)
    from assms(2) [OF d(4) this 1(3) d(2)] d(1) have
      "gives st (k x rb1) s1 (\<lambda>(y, rb') e s'. rb_ok rb' \<and> rb_capacity rb' = rb_capacity rb1
        \<and> (\<exists>d'. buffer_bytes rb1 @ e = d' @ buffer_bytes rb' \<and> Q y (d @ d') rb' s'))" by (simp add: takes_def)
    then show ?case unfolding y prod.case
    proof (rule gives_conseq, goal_cases)
      case (1 z e2 s2)
      obtain y2 rb2 where z: "z = (y2, rb2)" by (cases z)
      with 1 obtain d' where d': "rb_ok rb2" "rb_capacity rb2 = rb_capacity rb1" "buffer_bytes rb1 @ e2 = d' @ buffer_bytes rb2"
        "Q y2 (d @ d') rb2 s2" by auto
      have "buffer_bytes rb @ e @ e2 = (d @ d') @ buffer_bytes rb2"
        using d(3) d'(3) by (metis append_assoc)
      with z d' d(2) show ?case by auto
    qed
  qed
qed

text \<open>What is left bounds the loops.\<close>

definition pload :: "stream \<Rightarrow> read_buffer \<Rightarrow> os \<Rightarrow> nat" where
  "pload st rb s = length (unread st rb s) + st_patience st s"

lemma pload_le: "unread st rb s = d @ unread st rb' s' \<Longrightarrow> st_patience st s' \<le> st_patience st s \<Longrightarrow>
    length d + pload st rb' s' \<le> pload st rb s"
  by (simp add: pload_def)

lemma consume_bytes:
  assumes "n \<le> length (buffer_bytes rb)"
  shows "buffer_bytes (consume n rb) = drop n (buffer_bytes rb)" "rb_capacity (consume n rb) = rb_capacity rb"
    "rb_ok rb \<Longrightarrow> rb_ok (consume n rb)"
  using assms by (auto simp: consume_def buffer_bytes_def rb_ok_def min_def add.commute)

lemma consume_takes:
  "n \<le> length (buffer_bytes rb) \<Longrightarrow> Q x (take n (buffer_bytes rb)) (consume n rb) s \<Longrightarrow> takes st (\<lambda>rb. io_return (x, consume n rb)) rb s Q"
  by (rule takes_buffer [of _ _ "take n (buffer_bytes rb)"]) (simp add: consume_bytes)

text \<open>Going on after some bytes of the buffer have been consumed.\<close>

lemma takes_after_consume:
  assumes "takes st m (consume n rb) s P" "n \<le> length (buffer_bytes rb)"
    "\<And>x d rb' s'. P x d rb' s' \<Longrightarrow> Q x (take n (buffer_bytes rb) @ d) rb' s'"
  shows "takes st (\<lambda>rb. m (consume n rb)) rb s Q"
  unfolding takes_def
proof
  assume "rb_ok rb"
  with assms(1) consume_bytes [OF assms(2)] have "gives st (m (consume n rb)) s (\<lambda>(x, rb') e s'. rb_ok rb'
     \<and> rb_capacity rb' = rb_capacity rb \<and> (\<exists>d. drop n (buffer_bytes rb) @ e = d @ buffer_bytes rb' \<and> P x d rb' s'))"
    by (simp add: takes_def)
  then show "gives st (m (consume n rb)) s (\<lambda>(x, rb') e s'. rb_ok rb' \<and> rb_capacity rb' = rb_capacity rb
     \<and> (\<exists>d. buffer_bytes rb @ e = d @ buffer_bytes rb' \<and> Q x d rb' s'))"
  proof (rule gives_conseq, goal_cases)
    case (1 y e s')
    obtain x rb' where y: "y = (x, rb')" by (cases y)
    with 1(1) obtain d where d: "rb_ok rb'" "rb_capacity rb' = rb_capacity rb"
      "drop n (buffer_bytes rb) @ e = d @ buffer_bytes rb'" "P x d rb' s'" by auto
    have "buffer_bytes rb @ e = (take n (buffer_bytes rb) @ d) @ buffer_bytes rb'"
      using d(3) by (metis append_assoc append_take_drop_id)
    with y d assms(3) show ?case by auto
  qed
qed

section \<open>Lines of a text\<close>

text \<open>The bytes up to and including the first \<open>delim\<close>, and the text cut after every newline.\<close>

fun up_to :: "u8 \<Rightarrow> bytes \<Rightarrow> bytes" where
  "up_to delim [] = []"
| "up_to delim (b # bs) = b # (if b = delim then [] else up_to delim bs)"

lemma up_to_length: "length (up_to delim xs) \<le> length xs"
  by (induction xs) auto

lemma up_to_Nil [simp]: "up_to delim xs = [] \<longleftrightarrow> xs = []"
  by (cases xs) auto

lemma up_to_append: "delim \<notin> set a \<Longrightarrow> up_to delim (a @ b) = a @ up_to delim b"
  by (induction a) auto

lemma up_to_take: "up_to delim xs = take (length (up_to delim xs)) xs"
  by (induction xs) auto

lemma first_byte_None: "first_byte delim xs = None \<longleftrightarrow> delim \<notin> set xs"
  by (induction xs) (auto simp: first_byte_def)

lemma first_byte_Some:
  "first_byte delim xs = Some i \<Longrightarrow> i < length xs \<and> up_to delim (xs @ ys) = take (i + 1) xs"
  unfolding first_byte_def by (induction xs arbitrary: i) (auto split: if_splits)

lemma first_byte_memchr: "memchr addr delim xs = Some (first_byte delim xs)"
  by (simp add: memchr_first memchr_naive_position first_byte_def)

function raw_lines :: "bytes \<Rightarrow> bytes list" where
  "raw_lines xs = (if xs = [] then [] else up_to NEWLINE xs # raw_lines (drop (length (up_to NEWLINE xs)) xs))"
  by pat_completeness auto
termination
proof (relation "measure length")
  fix xs :: bytes
  assume "xs \<noteq> []"
  then have "0 < length (up_to NEWLINE xs)" "0 < length xs" by simp_all
  then show "(drop (length (up_to NEWLINE xs)) xs, xs) \<in> measure length" by simp
qed simp

declare raw_lines.simps [simp del]

text \<open>The validator decides the text; a newline only ever ends a character of its own.\<close>

lemma from_utf8_ok_iff: "from_utf8_ok v \<longleftrightarrow> is_utf8 v"
proof (cases "run_utf8_validation 0 v")
  case (Inl e)
  let ?n = "valid_up_to e"
  have n: "?n < length v" "is_utf8 (take ?n v)" "\<not> char_ok (front (drop ?n v))"
    using validate_from_spec [of 0 v 0] Inl by (simp_all add: run_utf8_validation_def)
  have "\<not> is_utf8 v"
  proof
    assume "is_utf8 v"
    then have "is_utf8 (drop ?n v)" using is_utf8_two [OF n(2)] by (metis append_take_drop_id)
    then show False using is_utf8_front n by fastforce
  qed
  with Inl show ?thesis by (simp add: from_utf8_ok_def)
next
  case (Inr u)
  with validate_from_spec [of 0 v 0] show ?thesis by (simp add: from_utf8_ok_def run_utf8_validation_def)
qed

lemma char_ok_ascii: "char_ok bs \<Longrightarrow> b \<in> set bs \<Longrightarrow> unat b < 128 \<Longrightarrow> bs = [b]"
  by (rule char_ok_cases [of bs], assumption)
     (auto simp: char_ok_1 char_ok_2 char_ok_3 char_ok_4 second_ok)

lemma is_utf8_up_to:
  assumes "is_utf8 v" "unat delim < 128"
  shows "is_utf8 (up_to delim v)"
  using assms(1)
proof (induction "length v" arbitrary: v rule: less_induct)
  case less
  show ?case
  proof (cases "v = []")
    case False
    then obtain bs r where v: "v = bs @ r" "char_ok bs" "is_utf8 r" using less.prems is_utf8_char [of v] by blast
    show ?thesis
    proof (cases "delim \<in> set bs")
      case True
      then have "bs = [delim]" using char_ok_ascii v(2) assms(2) by blast
      with v is_utf8_append [of "[delim]" "[]"] show ?thesis by simp
    next
      case nd: False
      have "length r < length v" using v(1) char_ok_length [OF v(2)] by (cases bs) simp_all
      with less.hyps v(3) have "is_utf8 (up_to delim r)" by blast
      then show ?thesis using v is_utf8_append up_to_append [OF nd] by simp
    qed
  qed simp
qed

lemma raw_lines_concat: "concat (raw_lines xs) = xs"
proof (induction xs rule: raw_lines.induct)
  case (1 xs)
  then show ?case
    by (cases "xs = []") (simp_all add: raw_lines.simps [of xs] raw_lines.simps [of "[]"],
      metis append_take_drop_id up_to_take)
qed

lemma raw_lines_utf8: "is_utf8 xs \<Longrightarrow> \<forall>l\<in>set (raw_lines xs). is_utf8 l"
proof (induction xs rule: raw_lines.induct)
  case (1 xs)
  let ?l = "up_to NEWLINE xs"
  have l: "is_utf8 ?l" using is_utf8_up_to [OF 1(2)] by (simp add: NEWLINE_def)
  have "is_utf8 (drop (length ?l) xs)" using is_utf8_two [OF l] 1(2) by (metis append_take_drop_id up_to_take)
  with 1 l show ?case by (subst raw_lines.simps) auto
qed

text \<open>What \<open>lines()\<close> yields for a raw line.\<close>

definition line_item :: "bytes \<Rightarrow> io_error + bytes" where
  "line_item l = (if is_utf8 l then Inr (strip_line l) else Inl INVALID_UTF8)"

lemma reserved_extend:
  assumes "vec_ok v" "vec_try_reserve mem k v = Inr v1" "length d \<le> k"
  shows "vec_extend mem d v1 = io_return (v1\<lparr>vec_data := vec_data v1 @ d\<rparr>)"
proof -
  have "length d \<le> vec_cap v1 - length (vec_data v1)"
    using vec_try_reserve_ok [OF assms(1,2)] assms(3) by simp
  then show ?thesis by (simp add: vec_extend_def vec_try_reserve_def)
qed

lemma slice_read_take: "slice_read src buf = (n, buf') \<Longrightarrow>
    n = min (length buf) (length src) \<and> length buf' = length buf \<and> take n buf' = take n src"
  by (auto simp: slice_read_def Let_def overwrite_def min_def)

section \<open>Sequences of calls\<close>

text \<open>A call on a buffered reader, and what it hands to the program: a result and some bytes.\<close>

datatype rd_op = Read nat | Read_exact nat | Read_byte | Read_until u8 | Fill_consume nat | Read_to_end

fun run_op :: "reader \<Rightarrow> (nat \<Rightarrow> bool) \<Rightarrow> nat \<Rightarrow> rd_op \<Rightarrow> ((io_error + nat) \<times> bytes) br" where
  "run_op rd mem fuel (Read n) = (\<lambda>rb. io_bind (br_read rd (replicate n 0) rb) (\<lambda>(r, rb').
     io_return (case r of Inl e \<Rightarrow> (Inl e, []) | Inr (k, buf) \<Rightarrow> (Inr k, take k buf), rb')))"
| "run_op rd mem fuel (Read_exact n) = (\<lambda>rb. io_bind (br_read_exact rd fuel (replicate n 0) rb) (\<lambda>((r, part), rb').
     io_return ((case r of Inl e \<Rightarrow> Inl e | Inr _ \<Rightarrow> Inr n, part), rb')))"
| "run_op rd mem fuel Read_byte = (\<lambda>rb. io_bind (br_read_byte rd fuel rb) (\<lambda>(x, rb').
     io_return (case x of None \<Rightarrow> (Inr 0, []) | Some (Inr b) \<Rightarrow> (Inr 1, [b]) | Some (Inl e) \<Rightarrow> (Inl e, []), rb')))"
| "run_op rd mem fuel (Read_until delim) = read_until rd fuel delim 0 []"
| "run_op rd mem fuel (Fill_consume n) = (\<lambda>rb. io_bind (fill_buf rd rb) (\<lambda>(r, rb'). case r of
      Inl e \<Rightarrow> io_return ((Inl e, []), rb')
    | Inr a \<Rightarrow> let k = min n (length a) in io_return ((Inr k, take k a), consume k rb')))"
| "run_op rd mem fuel Read_to_end = (\<lambda>rb. io_bind (br_read_to_end rd mem fuel vec_new rb) (\<lambda>((r, v), rb').
     io_return ((r, vec_data v), rb')))"

fun run_reads :: "reader \<Rightarrow> (nat \<Rightarrow> bool) \<Rightarrow> nat \<Rightarrow> rd_op list \<Rightarrow> ((io_error + nat) \<times> bytes) list br" where
  "run_reads rd mem fuel [] rb = io_return ([], rb)"
| "run_reads rd mem fuel (c # cs) rb = io_bind (run_op rd mem fuel c rb) (\<lambda>(x, rb').
     io_bind (run_reads rd mem fuel cs rb') (\<lambda>(xs, rb''). io_return (x # xs, rb'')))"

text \<open>The count a call reports is the number of bytes it hands over.\<close>

definition counted :: "(io_error + nat) \<times> bytes \<Rightarrow> bool" where
  "counted x \<longleftrightarrow> (case fst x of Inr n \<Rightarrow> n = length (snd x) | Inl e \<Rightarrow> True)"

locale buffered =
  fixes rd :: reader and st :: stream
  assumes contract: "reader_contract (rd_read rd) (rd_read_buf rd) st"
    and read_to_end: "fits st mem v s \<Longrightarrow> Suc (load st s) < fuel \<Longrightarrow>
      gives st (rd_read_to_end rd mem fuel v) s (collected st (length (vec_data v)) v)"
begin

lemmas reading = reader_contract.read [OF contract]
lemmas reading_buf = reader_contract.read_buf [OF contract]

definition failed :: "io_error \<Rightarrow> os \<Rightarrow> os \<Rightarrow> bool" where
  "failed e s s' \<longleftrightarrow> st_error st e \<and> (is_interrupted e \<longrightarrow> st_patience st s' < st_patience st s)"

text \<open>Filling takes nothing, and shows something unless the input is at its end.\<close>

lemma fill_takes: "takes st (fill_buf rd) rb s (\<lambda>r d rb' s'. d = [] \<and> (case r of
    Inr a \<Rightarrow> a = buffer_bytes rb' \<and> (a = [] \<longrightarrow> unread st rb' s' = []) | Inl e \<Rightarrow> failed e s s'))"
  unfolding takes_def
proof
  assume ok: "rb_ok rb"
  show "gives st (fill_buf rd rb) s (\<lambda>(r, rb') e s'. rb_ok rb' \<and> rb_capacity rb' = rb_capacity rb
     \<and> (\<exists>d. buffer_bytes rb @ e = d @ buffer_bytes rb' \<and> d = [] \<and> (case r of
    Inr a \<Rightarrow> a = buffer_bytes rb' \<and> (a = [] \<longrightarrow> unread st rb' s' = []) | Inl e \<Rightarrow> failed e s s')))"
  proof (cases "rb_pos rb \<ge> length (rb_filled rb)")
    case True
    then have nil: "buffer_bytes rb = []" by (simp add: buffer_bytes_def)
    show ?thesis
      unfolding fill_buf_def if_P [OF True] Let_def
    proof (rule gives_then [OF reading_buf], goal_cases)
      case (1 x d s1)
      obtain d' r where x: "x = (d', r)" by (cases x)
      show ?case unfolding x prod.case
        by (rule gives_return)
          (use 1 x nil ok in \<open>auto simp: buffer_bytes_def rb_ok_def unread_def failed_def split: sum.splits\<close>)
    qed
  next
    case False
    then have "buffer_bytes rb \<noteq> []" by (simp add: buffer_bytes_def)
    with ok False show ?thesis by (auto simp: fill_buf_def intro!: gives_return)
  qed
qed

lemma read_until_takes:
  assumes "pload st rb s < fuel"
  shows "takes st (read_until rd fuel delim tot out) rb s (\<lambda>(r, out') d rb' s'. out' = out @ d \<and> (case r of
      Inr n \<Rightarrow> n = tot + length d \<and> d = up_to delim (unread st rb s)
    | Inl e \<Rightarrow> ends st e \<and> delim \<notin> set d))"
  using assms
proof (induction fuel arbitrary: rb s tot out)
  case (Suc fuel)
  show ?case
    unfolding read_until.simps
  proof (rule takes_then [OF fill_takes], goal_cases)
    case (1 r d rb1 s1)
    then have d: "d = []" by simp
    then have p: "unread st rb1 s1 = unread st rb s" using 1(2) by simp
    show ?case
    proof (cases r)
      case (Inl e)
      with 1 have e: "failed e s s1" by simp
      show ?thesis
      proof (cases "is_interrupted e")
        case True
        then have f: "pload st rb1 s1 < fuel" using e Suc.prems p by (simp add: failed_def pload_def)
        show ?thesis unfolding Inl sum.case if_P [OF True]
        proof (rule takes_conseq [OF Suc.IH [OF f]], goal_cases)
          case (1 x d2 rb2 s2)
          from 1(1) d p show ?case by (cases x) (simp split: sum.splits)
        qed
      next
        case False
        then have "ends st e" using e by (simp add: failed_def ends_def)
        with Inl False d show ?thesis by (auto intro!: takes_return)
      qed
    next
      case (Inr a)
      with 1 have a: "a = buffer_bytes rb1" "a = [] \<longrightarrow> unread st rb1 s1 = []" by simp_all
      have pend: "unread st rb s = a @ st_rest st s1" using p a(1) by (simp add: unread_def)
      show ?thesis
      proof (cases "first_byte delim a")
        case None
        then have nd: "delim \<notin> set a" by (simp add: first_byte_None)
        show ?thesis
        proof (cases "a = []")
          case True
          with a pend have "unread st rb s = []" using p by simp
          with Inr None True a(1) d show ?thesis
            by (simp add: Let_def) (rule consume_takes; simp)
        next
          case False
          let ?rb2 = "consume (length a) rb1"
          have c: "buffer_bytes ?rb2 = []" "rb_capacity ?rb2 = rb_capacity rb1" "rb_ok rb1 \<Longrightarrow> rb_ok ?rb2"
            using consume_bytes [of "length a" rb1] a(1) by simp_all
          have p2: "unread st ?rb2 s1 = st_rest st s1" using c(1) by (simp add: unread_def)
          have f: "pload st ?rb2 s1 < fuel" using Suc.prems pend False 1(3) p2 by (cases a) (simp_all add: pload_def)
          have more: "(let buf' = out @ take (length a) a; rb'' = consume (length a) rb in
              if False \<or> length a = 0 then io_return ((Inr (tot + length a), buf'), rb'')
              else read_until rd fuel delim (tot + length a) buf' rb'')
            = read_until rd fuel delim (tot + length a) (out @ a) (consume (length a) rb)" for rb
            using False by simp
          show ?thesis unfolding Inr sum.case None option.case prod.case more
          proof (rule takes_after_consume [OF Suc.IH [OF f]], goal_cases)
            case 1
            show ?case by (simp add: a(1))
          next
            case (2 x d2 rb3 s3)
            then show ?case using nd a(1) d
              by (cases x) (simp add: p2 [unfolded a(1)] pend up_to_append split: sum.splits)
          qed
        qed
      next
        case (Some i)
        from first_byte_Some [OF Some, of "st_rest st s1"] pend
        have i: "i < length a" "up_to delim (unread st rb s) = take (i + 1) a" by simp_all
        show ?thesis using Inr Some d
          by (simp add: Let_def del: take_Suc) (rule consume_takes; use i a(1) in simp)
      qed
    qed
  qed
qed simp

text \<open>A string stays a text: it grows by a whole line, or not at all.\<close>

lemma read_line_takes:
  assumes "pload st rb s < fuel"
  shows "takes st (read_line rd fuel str) rb s (\<lambda>(r, str') d rb' s'. (str' = str \<or> str' = str @ d \<and> is_utf8 d) \<and> (case r of
      Inr n \<Rightarrow> n = length d \<and> d = up_to NEWLINE (unread st rb s) \<and> is_utf8 d \<and> str' = str @ d
    | Inl e \<Rightarrow> e = INVALID_UTF8 \<and> d = up_to NEWLINE (unread st rb s) \<and> \<not> is_utf8 d \<or> ends st e))"
  unfolding read_line_def
proof (rule takes_then [OF read_until_takes [OF assms]], goal_cases)
  case (1 x d rb1 s1)
  obtain r out where x: "x = (r, out)" by (cases x)
  from 1(1) x have d: "out = str @ d" by simp
  show ?case
  proof (cases r)
    case (Inl e)
    with 1(1) x d show ?thesis
      by (auto simp: append_to_string_def from_utf8_ok_iff intro!: takes_return)
  next
    case (Inr n)
    with 1(1) x have "n = length d \<and> d = up_to NEWLINE (unread st rb s)" by simp
    with Inr x d show ?thesis
      by (auto simp: append_to_string_def from_utf8_ok_iff intro!: takes_return)
  qed
qed

lemma lines_next_takes:
  assumes "pload st rb s < fuel"
  shows "takes st (lines_next rd fuel) rb s (\<lambda>x d rb' s'. case x of
      None \<Rightarrow> unread st rb s = []
    | Some item \<Rightarrow> d = up_to NEWLINE (unread st rb s) \<and> d \<noteq> [] \<and> item = line_item d \<or> (\<exists>e. item = Inl e \<and> ends st e))"
  unfolding lines_next_def
proof (rule takes_then [OF read_line_takes [OF assms]], goal_cases)
  case (1 x d rb1 s1)
  obtain r str where x: "x = (r, str)" by (cases x)
  show ?case
  proof (cases r)
    case (Inl e)
    with 1(1) x show ?thesis by (auto simp: line_item_def intro!: takes_return)
  next
    case (Inr n)
    have n: "n = length d" "d = up_to NEWLINE (unread st rb s)" "is_utf8 d" "str = d"
      using 1(1) unfolding x Inr prod.case sum.case append_Nil by blast+
    show ?thesis unfolding x Inr prod.case sum.case
      by (rule takes_return) (use n in \<open>auto simp: line_item_def\<close>)
  qed
qed

lemma collect_lines_takes:
  assumes "\<And>e. \<not> ends st e" "pload st rb s < fuel" "length (unread st rb s) < n"
  shows "takes st (collect_lines rd fuel n) rb s (\<lambda>items d rb' s'. items = map line_item (raw_lines (unread st rb s)))"
  using assms(2,3)
proof (induction n arbitrary: rb s)
  case (Suc n)
  show ?case
    unfolding collect_lines.simps
  proof (rule takes_then [OF lines_next_takes [OF Suc.prems(1)]], goal_cases)
    case (1 x d rb1 s1)
    show ?case
    proof (cases x)
      case None
      with 1(1) show ?thesis by (auto simp: raw_lines.simps [of "[]"] intro!: takes_return)
    next
      case (Some item)
      with 1(1) assms(1) have d: "d = up_to NEWLINE (unread st rb s)" "d \<noteq> []" "item = line_item d" by auto
      have rest: "unread st rb1 s1 = drop (length d) (unread st rb s)" using 1(2) by simp
      have lines: "raw_lines (unread st rb s) = d # raw_lines (unread st rb1 s1)"
        by (subst raw_lines.simps) (use d rest in auto)
      have "length (unread st rb s) = length d + length (unread st rb1 s1)" using 1(2) by simp
      then have f: "pload st rb1 s1 < fuel" "length (unread st rb1 s1) < n"
        using Suc.prems d(2) 1(3) by (auto simp: pload_def simp flip: length_greater_0_conv)
      show ?thesis unfolding Some option.case
        by (rule takes_then [OF Suc.IH [OF f]]) (use d lines in \<open>auto intro!: takes_return\<close>)
    qed
  qed
qed simp

text \<open>Plain reads, on either side of the bypass.\<close>

definition got_some :: "bytes \<Rightarrow> bytes \<Rightarrow> os \<Rightarrow> io_error + nat \<times> bytes \<Rightarrow> bytes \<Rightarrow> os \<Rightarrow> bool" where
  "got_some buf left s r d s' \<longleftrightarrow> (case r of
     Inr (n, buf') \<Rightarrow> n \<le> length buf \<and> length buf' = length buf \<and> d = take n buf' \<and> (n = 0 \<longrightarrow> buf = [] \<or> left = [])
   | Inl e \<Rightarrow> d = [] \<and> failed e s s')"

lemma read_takes: "takes st (br_read rd buf) rb s (\<lambda>r d rb' s'. got_some buf (unread st rb s) s r d s')"
proof (cases "rb_pos rb = length (rb_filled rb) \<and> length buf \<ge> rb_capacity rb")
  case True
  then have nil: "buffer_bytes rb = []" by (simp add: buffer_bytes_def)
  then have u: "unread st rb s = st_rest st s" by (simp add: unread_def)
  show ?thesis
    unfolding takes_def br_read_def if_P [OF True]
  proof (intro impI, rule gives_then [OF reading], goal_cases)
    case (1 r d s1)
    have "got_some buf (unread st rb s) s r d s1" using 1(2) u by (cases r) (simp_all add: got_some_def failed_def)
    with nil 1(1) show ?case
      by (auto simp: discard_buffer_def buffer_bytes_def rb_ok_def intro!: gives_return)
  qed
next
  case False
  have "takes st (\<lambda>rb. io_bind (fill_buf rd rb) (\<lambda>(r, rb'). case r of
        Inl e \<Rightarrow> io_return (Inl e, rb')
      | Inr rem \<Rightarrow> (case slice_read rem buf of (nread, buf') \<Rightarrow> io_return (Inr (nread, buf'), consume nread rb'))))
    rb s (\<lambda>r d rb' s'. got_some buf (unread st rb s) s r d s')"
  proof (rule takes_then [OF fill_takes], goal_cases)
    case (1 r d rb1 s1)
    show ?case
    proof (cases r)
      case (Inl e)
      with 1(1) show ?thesis by (auto simp: got_some_def intro!: takes_return)
    next
      case (Inr rem)
      with 1 have rem: "d = []" "rem = buffer_bytes rb1" "rem = [] \<longrightarrow> unread st rb s = []" by auto
      obtain n buf' where sr: "slice_read rem buf = (n, buf')" by fastforce
      note n = slice_read_take [OF sr]
      then have "n = 0 \<longrightarrow> buf = [] \<or> unread st rb s = []" using rem(3) by (auto simp: min_def split: if_splits)
      with n rem show ?thesis unfolding Inr sum.case sr prod.case
        by (intro consume_takes) (auto simp: got_some_def)
    qed
  qed
  then show ?thesis by (rule takes_run [rotated]) (simp only: br_read_def if_not_P [OF False])
qed

lemma read_exact_loop_takes:
  assumes "pload st rb s < fuel"
  shows "takes st (default_read_exact rd fuel buf part) rb s (\<lambda>(r, part') d rb' s'. part' = part @ d \<and> (case r of
      Inr _ \<Rightarrow> length d = length buf
    | Inl e \<Rightarrow> e = READ_EXACT_EOF \<and> unread st rb' s' = [] \<or> ends st e))"
  using assms
proof (induction fuel arbitrary: rb s buf part)
  case (Suc fuel)
  show ?case
  proof (cases "buf = []")
    case True
    show ?thesis
      by (rule takes_run [where m' = "\<lambda>rb. io_return ((Inr (), part), rb)"]) (auto simp: True intro!: takes_return)
  next
    case False
    have "takes st (\<lambda>rb. io_bind (br_read rd buf rb) (\<lambda>(r, rb'). case r of
        Inr (n, buf') \<Rightarrow>
          if n = 0 then io_return ((Inl READ_EXACT_EOF, part), rb')
          else if n > length buf' then io_panic ''range start index out of range''
          else default_read_exact rd fuel (drop n buf') (part @ take n buf') rb'
      | Inl e \<Rightarrow> if is_interrupted e then default_read_exact rd fuel buf part rb'
          else io_return ((Inl e, part), rb'))) rb s (\<lambda>(r, part') d rb' s'. part' = part @ d \<and> (case r of
      Inr _ \<Rightarrow> length d = length buf
    | Inl e \<Rightarrow> e = READ_EXACT_EOF \<and> unread st rb' s' = [] \<or> ends st e))"
    proof (rule takes_then [OF read_takes], goal_cases)
      case (1 r d rb1 s1)
      show ?case
      proof (cases r)
        case (Inl e)
        with 1(1) have e: "d = []" "failed e s s1" by (simp_all add: got_some_def)
        show ?thesis
        proof (cases "is_interrupted e")
          case True
          then have f: "pload st rb1 s1 < fuel" using e Suc.prems 1(2) by (simp add: failed_def pload_def)
          show ?thesis unfolding Inl sum.case if_P [OF True]
            by (rule takes_conseq [OF Suc.IH [OF f]]) (auto simp: e(1) split: sum.splits)
        next
          case False
          then have "ends st e" using e by (simp add: failed_def ends_def)
          then show ?thesis unfolding Inl sum.case if_not_P [OF False]
            by (intro takes_return) (simp add: e(1))
        qed
      next
        case (Inr x)
        obtain n buf' where x: "x = (n, buf')" by (cases x)
        with 1(1) Inr have n: "n \<le> length buf" "length buf' = length buf" "d = take n buf'"
          "n = 0 \<longrightarrow> unread st rb s = []" using False by (simp_all add: got_some_def)
        show ?thesis
        proof (cases "n = 0")
          case True
          have "unread st rb1 s1 = []" using n(4) True 1(2) by simp
          then show ?thesis unfolding Inr x sum.case prod.case if_P [OF True]
            by (intro takes_return) (simp add: n(3) True)
        next
          case n0: False
          have le: "\<not> n > length buf'" using n by simp
          have "length d = n" using n by simp
          then have f: "pload st rb1 s1 < fuel" using pload_le [OF 1(2,3)] Suc.prems n0 by linarith
          show ?thesis unfolding Inr x sum.case prod.case if_not_P [OF n0] if_not_P [OF le]
          proof (rule takes_conseq [OF Suc.IH [OF f]], goal_cases)
            case (1 y d2 rb2 s2)
            then show ?case using n by (cases y) (auto split: sum.splits)
          qed
        qed
      qed
    qed
    then show ?thesis by (rule takes_run [rotated]) (simp add: False)
  qed
qed simp

lemma consume_with_takes:
  assumes "consume_with n rb = Some (claimed, rb1)" "Q x claimed rb1 s"
  shows "takes st (\<lambda>rb. io_return (x, rb1)) rb s Q"
proof -
  have c: "n \<le> length (buffer_bytes rb)" "claimed = take n (buffer_bytes rb)" "rb1 = consume n rb" if "rb_ok rb"
    using assms(1) that by (auto simp: consume_with_def consume_def buffer_bytes_def rb_ok_def min_def split: if_splits)
  show ?thesis
    unfolding takes_def
    by (intro impI gives_return) (use assms(2) c consume_bytes in \<open>auto intro!: exI [of _ claimed]\<close>)
qed

lemma read_exact_takes:
  assumes "pload st rb s < fuel"
  shows "takes st (br_read_exact rd fuel buf) rb s (\<lambda>(r, part) d rb' s'. part = d \<and> (case r of
      Inr _ \<Rightarrow> length d = length buf
    | Inl e \<Rightarrow> e = READ_EXACT_EOF \<and> unread st rb' s' = [] \<or> ends st e))"
proof (cases "consume_with (length buf) rb")
  case None
  show ?thesis
    by (rule takes_run [where m' = "default_read_exact rd fuel buf []"])
      (use read_exact_loop_takes [OF assms, of buf "[]"] in \<open>simp_all add: br_read_exact_def None\<close>)
next
  case (Some x)
  obtain claimed rb1 where x: "x = (claimed, rb1)" by (cases x)
  have c: "length claimed = length buf" using Some x by (auto simp: consume_with_def split: if_splits)
  show ?thesis
    by (rule takes_run [where m' = "\<lambda>rb. io_return ((Inr (), claimed), rb1)", OF _ consume_with_takes [OF Some [unfolded x]], rotated])
      (simp_all add: br_read_exact_def Some x c)
qed

lemma slow_read_byte_takes:
  assumes "pload st rb s < fuel"
  shows "takes st (slow_read_byte rd fuel) rb s (\<lambda>x d rb' s'. case x of
      None \<Rightarrow> d = [] \<and> unread st rb' s' = [] | Some (Inr b) \<Rightarrow> d = [b] | Some (Inl e) \<Rightarrow> d = [] \<and> ends st e)"
  using assms
proof (induction fuel arbitrary: rb s)
  case (Suc fuel)
  show ?case
    unfolding slow_read_byte.simps
  proof (rule takes_then [OF read_takes], goal_cases)
    case (1 r d rb1 s1)
    show ?case
    proof (cases r)
      case (Inl e)
      with 1(1) have e: "d = []" "failed e s s1" by (simp_all add: got_some_def)
      show ?thesis
      proof (cases "is_interrupted e")
        case True
        then have f: "pload st rb1 s1 < fuel" using e Suc.prems 1(2) by (simp add: failed_def pload_def)
        show ?thesis unfolding Inl sum.case if_P [OF True] e(1) append_Nil by (rule Suc.IH [OF f])
      next
        case False
        then have "ends st e" using e by (simp add: failed_def ends_def)
        then show ?thesis unfolding Inl sum.case if_not_P [OF False]
          by (intro takes_return) (simp add: e(1))
      qed
    next
      case (Inr x)
      obtain n buf where x: "x = (n, buf)" by (cases x)
      with 1(1) Inr have n: "n \<le> 1" "length buf = 1" "d = take n buf" "n = 0 \<longrightarrow> unread st rb s = []"
        by (simp_all add: got_some_def)
      show ?thesis unfolding Inr x sum.case prod.case
        by (rule takes_return) (use n 1(2) in \<open>cases n; cases buf; auto\<close>)
    qed
  qed
qed simp

lemma read_byte_takes:
  assumes "pload st rb s < fuel"
  shows "takes st (br_read_byte rd fuel) rb s (\<lambda>x d rb' s'. case x of
      None \<Rightarrow> d = [] \<and> unread st rb' s' = [] | Some (Inr b) \<Rightarrow> d = [b] | Some (Inl e) \<Rightarrow> d = [] \<and> ends st e)"
proof (cases "consume_with 1 rb")
  case None
  show ?thesis
    by (rule takes_run [where m' = "slow_read_byte rd fuel", OF _ slow_read_byte_takes [OF assms]])
      (simp add: br_read_byte_def None [simplified])
next
  case (Some x)
  obtain claimed rb1 where x: "x = (claimed, rb1)" by (cases x)
  have "length claimed = 1" using Some x by (auto simp: consume_with_def split: if_splits)
  then have c: "claimed = [hd claimed]" by (cases claimed) simp_all
  show ?thesis
    by (rule takes_run [where m' = "\<lambda>rb. io_return (Some (Inr (hd claimed)), rb1)", OF _ consume_with_takes [OF Some [unfolded x]], rotated])
      (simp_all add: br_read_byte_def Some [simplified] x c [symmetric])
qed

lemma read_to_end_takes:
  assumes "vec_ok v" "st_roomy st \<longrightarrow> roomy mem v (length (unread st rb s))" "Suc (pload st rb s) < fuel"
  shows "takes st (br_read_to_end rd mem fuel v) rb s (\<lambda>(r, v') d rb' s'. vec_data v' = vec_data v @ d \<and> (case r of
      Inr n \<Rightarrow> n = length d \<and> unread st rb' s' = [] | Inl e \<Rightarrow> stops st e))"
proof (cases "vec_try_reserve mem (length (buffer_bytes rb)) v")
  case (Inl e)
  have "\<not> st_roomy st"
    using vec_try_reserve_room [of mem v "length (unread st rb s)" "length (buffer_bytes rb)"] assms(2) Inl
    by (auto simp: unread_def)
  then have e: "stops st e" using vec_try_reserve_err [OF Inl] by (simp add: stops_def)
  show ?thesis
    by (rule takes_run [where m' = "\<lambda>rb. io_return ((Inl e, v), rb)"])
      (auto simp: br_read_to_end_def Inl e intro!: takes_return)
next
  case (Inr v1)
  note v1 = vec_try_reserve_ok [OF assms(1) Inr]
  let ?b = "buffer_bytes rb"
  let ?v2 = "v1\<lparr>vec_data := vec_data v1 @ ?b\<rparr>"
  have fits: "fits st mem ?v2 s"
    using assms(2) v1 by (auto simp: fits_def vec_ok_def roomy_def unread_def)
  have fuel: "Suc (load st s) < fuel" using assms(3) by (simp add: pload_def load_def unread_def)
  have run: "br_read_to_end rd mem fuel v rb = io_bind (rd_read_to_end rd mem fuel ?v2) (\<lambda>(r, v3).
      io_return ((case r of Inl e \<Rightarrow> Inl e | Inr n \<Rightarrow> Inr (length ?b + n), v3), discard_buffer rb))"
    using reserved_extend [OF assms(1) Inr, of ?b] by (simp add: br_read_to_end_def Let_def Inr)
  show ?thesis
    unfolding takes_def run
  proof (intro impI, rule gives_then [OF read_to_end [OF fits fuel]], goal_cases)
    case (1 x e s1)
    obtain r v3 where x: "x = (r, v3)" by (cases x)
    with 1(2) have v3: "vec_data v3 = vec_data v @ ?b @ e" "case r of Inr n \<Rightarrow> n = length e \<and> st_rest st s1 = [] | Inl e \<Rightarrow> stops st e"
      using v1 by (auto simp: collected_def split: sum.splits)
    have "buffer_bytes (discard_buffer rb) = []" "rb_ok (discard_buffer rb)" "rb_capacity (discard_buffer rb) = rb_capacity rb"
      using 1(1) by (simp_all add: discard_buffer_def buffer_bytes_def rb_ok_def)
    with v3 show ?case unfolding x prod.case
      by (intro gives_return) (auto simp: unread_def split: sum.splits)
  qed
qed

lemma run_op_takes:
  assumes "st_roomy st" "\<forall>n < 2 ^ 63. mem n" "length (unread st rb s) < 2 ^ 61" "Suc (pload st rb s) < fuel"
  shows "takes st (run_op rd mem fuel c) rb s (\<lambda>x d rb' s'. snd x = d \<and> counted x)"
proof (cases c)
  case (Read n)
  show ?thesis unfolding Read run_op.simps
    by (rule takes_then [OF read_takes])
      (auto simp: got_some_def counted_def intro!: takes_return split: sum.splits)
next
  case (Read_exact n)
  show ?thesis unfolding Read_exact run_op.simps
  proof (rule takes_then [OF read_exact_takes], goal_cases)
    case (2 x d rb1 s1)
    obtain r part where "x = (r, part)" by (cases x)
    with 2(1) show ?case by (cases r) (auto simp: counted_def intro!: takes_return)
  qed (use assms(4) in simp)
next
  case Read_byte
  show ?thesis unfolding Read_byte run_op.simps
    by (rule takes_then [OF read_byte_takes])
      (use assms(4) in \<open>auto simp: counted_def intro!: takes_return split: sum.splits option.splits\<close>)
next
  case (Read_until delim)
  show ?thesis unfolding Read_until run_op.simps
    by (rule takes_conseq [OF read_until_takes])
      (use assms(4) in \<open>auto simp: counted_def split: sum.splits\<close>)
next
  case (Fill_consume n)
  show ?thesis unfolding Fill_consume run_op.simps
  proof (rule takes_then [OF fill_takes], goal_cases)
    case (1 r d rb1 s1)
    show ?case
    proof (cases r)
      case (Inl e)
      with 1(1) show ?thesis by (auto simp: counted_def intro!: takes_return)
    next
      case (Inr a)
      with 1(1) show ?thesis unfolding Inr sum.case Let_def
        by (intro consume_takes) (auto simp: counted_def)
    qed
  qed
next
  case Read_to_end
  have "vec_ok vec_new" "st_roomy st \<longrightarrow> roomy mem vec_new (length (unread st rb s))"
    using assms by (simp_all add: vec_ok_def vec_new_def roomy_def)
  note rte = read_to_end_takes [OF this assms(4)]
  show ?thesis unfolding Read_to_end run_op.simps
  proof (rule takes_then [OF rte], goal_cases)
    case (1 x d rb1 s1)
    obtain r v where "x = (r, v)" by (cases x)
    with 1(1) show ?case by (cases r) (auto simp: counted_def vec_new_def intro!: takes_return)
  qed
qed

lemma run_reads_takes:
  assumes "st_roomy st" "\<forall>n < 2 ^ 63. mem n" "length (unread st rb s) < 2 ^ 61" "Suc (pload st rb s) < fuel"
  shows "takes st (run_reads rd mem fuel cs) rb s (\<lambda>xs d rb' s'. concat (map snd xs) = d \<and> list_all counted xs)"
  using assms(3,4)
proof (induction cs arbitrary: rb s)
  case Nil
  show ?case
    by (rule takes_run [where m' = "\<lambda>rb. io_return ([], rb)"]) (auto intro!: takes_return)
next
  case (Cons c cs)
  show ?case
    unfolding run_reads.simps
  proof (rule takes_then [OF run_op_takes [OF assms(1,2) Cons.prems]], goal_cases)
    case (1 x d rb1 s1)
    have f: "length (unread st rb1 s1) < 2 ^ 61" "Suc (pload st rb1 s1) < fuel"
      using Cons.prems 1(2) pload_le [OF 1(2,3)] by auto
    show ?case
      by (rule takes_then [OF Cons.IH [OF f]]) (use 1(1) in \<open>auto intro!: takes_return\<close>)
  qed
qed

end

section \<open>Standard input and buffered files\<close>

lemma reader_contract_sized:
  assumes "reader_contract rd rdb st"
  shows "reader_contract rd rdb (sized fd st)"
  by unfold_locales
    (simp_all only: gives_sized sized_sel reader_contract.read [OF assms] reader_contract.read_buf [OF assms] simp_thms)

interpretation stdin_buffered: buffered stdin_raw "fd_stream STDIN_FILENO data k (\<lambda>c. E c \<and> c \<noteq> EBADF) room"
  for data k E room
proof (rule buffered.intro)
  show "reader_contract (rd_read stdin_raw) (rd_read_buf stdin_raw) (fd_stream STDIN_FILENO data k (\<lambda>c. E c \<and> c \<noteq> EBADF) room)"
    by (simp add: stdin_raw_def stdin_reads.reader_contract_axioms)
qed (simp add: stdin_raw_def stdin_raw_read_to_end_gives)

interpretation file_buffered: buffered "file_as_reader fd" "sized fd (fd_stream fd data k E room)" for fd data k E room
proof (rule buffered.intro)
  show "reader_contract (rd_read (file_as_reader fd)) (rd_read_buf (file_as_reader fd)) (sized fd (fd_stream fd data k E room))"
    by (simp add: file_as_reader_def reader_contract_sized file_reads.reader_contract_axioms)
qed (simp add: file_as_reader_def file_read_to_end_gives)

text \<open>A new buffer has read nothing.\<close>

lemma new_buffer [simp]:
  "rb_ok (buffer_with_capacity cap) \<longleftrightarrow> 0 < cap" "buffer_bytes (buffer_with_capacity cap) = []"
  "unread st (buffer_with_capacity cap) s = st_rest st s"
  by (simp_all add: rb_ok_def buffer_with_capacity_def buffer_bytes_def unread_def)

lemma takes_run_ok:
  assumes "takes st m rb s Q" "rb_ok rb" "st_good st (os_oracle s)" "st_roomy st"
  obtains x rb' s' d where "m rb s = (Ok (x, rb'), s')" "unread st rb s = d @ unread st rb' s'" "Q x d rb' s'"
proof -
  have "gives st (m rb) s (\<lambda>(x, rb') e s'. rb_ok rb' \<and> rb_capacity rb' = rb_capacity rb
     \<and> (\<exists>d. buffer_bytes rb @ e = d @ buffer_bytes rb' \<and> Q x d rb' s'))" using assms(1,2) by (simp add: takes_def)
  note g = givesD [OF this assms(3)]
  obtain r s' where run: "m rb s = (r, s')" by fastforce
  show ?thesis
  proof (cases r)
    case (Ok y)
    obtain x rb' where y: "y = (x, rb')" by (cases y)
    from g obtain e d where d: "st_rest st s = e @ st_rest st s'" "buffer_bytes rb @ e = d @ buffer_bytes rb'" "Q x d rb' s'"
      unfolding run Ok y by auto
    have "unread st rb s = d @ unread st rb' s'" using d(1,2) by (simp add: unread_def)
    with run Ok y d(3) that show ?thesis by blast
  qed (use g run assms(4) in simp_all)
qed

section \<open>Skipping, peeking and seeking\<close>

text \<open>\<open>skip_until\<close> is \<open>read_until\<close> without the bytes, although the two loops test for interruption differently.\<close>

lemma skip_until_read_until:
  "skip_until rd fuel delim n rb = io_bind (read_until rd fuel delim n buf rb) (\<lambda>(x, rb'). io_return (fst x, rb'))"
proof (induction fuel arbitrary: n rb buf)
  case 0
  show ?case by (simp add: io_bind_def fun_eq_iff)
next
  case (Suc fuel)
  show ?case
    unfolding skip_until.simps read_until.simps io_bind_assoc
  proof (rule arg_cong [where f = "io_bind (fill_buf rd rb)"], rule ext, goal_cases)
    case (1 x)
    obtain r rb' where x: "x = (r, rb')" by (cases x)
    show ?case
    proof (cases r)
      case (Inl e)
      show ?thesis unfolding x Inl prod.case sum.case is_interrupted_iff_kind
        by (cases "error_kind_of e = Interrupted")
          (simp_all only: Suc.IH [of n rb' buf] if_True if_False simp_thms io_bind_return prod.case fst_conv)
    next
      case (Inr a)
      then show ?thesis using Suc.IH [of "n + length a" "consume (length a) rb'" "buf @ a"]
        by (cases "first_byte delim a") (simp_all add: x Let_def del: io_return_apply)
    qed
  qed
qed

text \<open>A relative seek within the buffer only moves the position, and is undone by the opposite one.\<close>

lemma seek_relative_forth_and_back:
  assumes "rb_ok rb" "rb_capacity rb < 2 ^ 63" "0 \<le> sint n" "unat n \<le> length (buffer_bytes rb)"
  shows "br_seek_relative fd n rb = io_return (Inr (), consume (unat n) rb)"
    "br_seek_relative fd (- n) (consume (unat n) rb) = io_return (Inr (), rb)"
proof -
  show "br_seek_relative fd n rb = io_return (Inr (), consume (unat n) rb)"
    using assms by (auto simp: br_seek_relative_def Let_def buffer_bytes_def rb_ok_def)
  show "br_seek_relative fd (- n) (consume (unat n) rb) = io_return (Inr (), rb)"
  proof (cases "n = 0")
    case True
    with assms(1) show ?thesis
      by (simp add: br_seek_relative_def Let_def consume_def rb_ok_def)
  next
    case False
    have pos: "rb_pos rb + unat n \<le> length (rb_filled rb)"
      using assms(1,4) unfolding rb_ok_def buffer_bytes_def length_drop by linarith
    have n: "0 < sint n" "sint n < 2 ^ 63"
      using assms(3) False sint_lt [of n] by (auto simp: order_le_less signed_eq_0_iff)
    then have "sint (- n) = - sint n"
      by (simp add: sint_word_ariths signed_take_bit_int_eq_self)
    then have "sint (- n) < 0" using n by simp
    with pos show ?thesis by (simp add: br_seek_relative_def Let_def consume_def unconsume_def)
  qed
qed

section \<open>Properties\<close>

text \<open>
  C12: iterating over the lines of standard input yields the lines of the input, each once and in order, whatever
  pieces the descriptor delivers it in and however often (up to \<open>k\<close> times) a read is interrupted: the text without its
  line ending where the line is UTF-8, and the error of invalid data where it is not. A text gives no errors.
\<close>

theorem stdin_lines_exact:
  assumes "fd_feeds STDIN_FILENO data k orc" "errnos (\<lambda>c. c = 4) orc" "length data + k < fuel" "length data < n"
  shows "(\<exists>rb s'. collect_lines stdin_raw fuel n stdin_buffer (boot orc) = (Ok (map line_item (raw_lines data), rb), s'))
    \<and> concat (raw_lines data) = data
    \<and> (is_utf8 data \<longrightarrow> map line_item (raw_lines data) = map (\<lambda>l. Inr (strip_line l)) (raw_lines data))"
proof -
  let ?st = "fd_stream STDIN_FILENO data k (\<lambda>c. c = 4 \<and> c \<noteq> EBADF) True"
  have quiet: "\<not> ends ?st e" for e
    by (auto simp: ends_def is_interrupted_def code_is_interrupted_def)
  have "takes ?st (collect_lines stdin_raw fuel n) stdin_buffer (boot orc)
    (\<lambda>items d rb' s'. items = map line_item (raw_lines (unread ?st stdin_buffer (boot orc))))"
    by (rule stdin_buffered.collect_lines_takes [OF quiet])
      (use assms(3,4) in \<open>simp_all add: pload_def stdin_buffer_def\<close>)
  then have "\<exists>rb s'. collect_lines stdin_raw fuel n stdin_buffer (boot orc) = (Ok (map line_item (raw_lines data), rb), s')"
    by (rule takes_run_ok)
      (use assms(1,2) in \<open>auto simp: stdin_buffer_def STDIN_BUF_SIZE_def DEFAULT_BUF_SIZE_def errnos_def EBADF_def\<close>)
  moreover have "map line_item (raw_lines data) = map (\<lambda>l. Inr (strip_line l)) (raw_lines data)" if "is_utf8 data"
    using raw_lines_utf8 [OF that] by (simp add: line_item_def)
  ultimately show ?thesis using raw_lines_concat by blast
qed

text \<open>
  C13: a \<open>BufReader\<close> over a file hands out the contents of the file in order, nothing lost and nothing twice. For
  any capacity and any sequence of \<open>read\<close>, \<open>read_exact\<close>, \<open>read_until\<close>, \<open>fill_buf\<close>/\<open>consume\<close>, byte-wise reading and
  \<open>read_to_end\<close>, failures of reads included, the calls return, what they have handed out followed by what is buffered
  and what the file has not delivered yet is the file, and every count is the number of bytes handed out.
\<close>

theorem buffered_reads_in_order:
  assumes "fd_feeds fd data k orc" "errnos E orc" "fstat_sizes fd orc" "0 < cap"
    "\<forall>n < 2 ^ 63. mem n" "length data < 2 ^ 61" "Suc (length data + k) < fuel"
  shows "\<exists>out rb s'. run_reads (file_as_reader fd) mem fuel calls (buffer_with_capacity cap) (boot orc) = (Ok (out, rb), s')
    \<and> concat (map snd out) @ buffer_bytes rb @ drop (length (fd_got fd (os_trace s'))) data = data \<and> list_all counted out"
proof -
  let ?st = "sized fd (fd_stream fd data k E True)" and ?rb = "buffer_with_capacity cap"
  have "takes ?st (run_reads (file_as_reader fd) mem fuel calls) ?rb (boot orc)
    (\<lambda>xs d rb' s'. concat (map snd xs) = d \<and> list_all counted xs)"
    by (rule file_buffered.run_reads_takes) (use assms in \<open>simp_all add: pload_def\<close>)
  then show ?thesis
  proof (rule takes_run_ok)
    fix x rb' s' d
    assume "run_reads (file_as_reader fd) mem fuel calls ?rb (boot orc) = (Ok (x, rb'), s')"
      "unread ?st ?rb (boot orc) = d @ unread ?st rb' s'" "concat (map snd x) = d \<and> list_all counted x"
    then show ?thesis by (auto simp: unread_def)
  qed (use assms in simp_all)
qed

theorem stdin_lines_exact_witness:
  "\<exists>rb s'. collect_lines stdin_raw 12 12 stdin_buffer (boot (read_oracle [104, 105, 13, 10, 255, 10, 33]))
    = (Ok ([Inr [104, 105], Inl INVALID_UTF8, Inr [33]], rb), s')"
proof -
  let ?d = "[104, 105, 13, 10, 255, 10, 33] :: bytes"
  have v: "is_utf8 [104, 105, 13, 10]" "\<not> is_utf8 [255, 10]" "is_utf8 [33]"
    unfolding from_utf8_ok_iff [symmetric] by code_simp+
  have "raw_lines ?d = [[104, 105, 13, 10], [255, 10], [33]]"
    by (simp add: raw_lines.simps NEWLINE_def)
  then have "map line_item (raw_lines ?d) = [Inr [104, 105], Inl INVALID_UTF8, Inr [33]]"
    using v by (simp add: line_item_def strip_line_def NEWLINE_def CARRIAGE_RETURN_def)
  with stdin_lines_exact [OF read_oracle_feeds(1,2), of ?d 12 12] show ?thesis by simp
qed

theorem buffered_reads_in_order_witness:
  "\<exists>out rb s'. run_reads (file_as_reader 3) (\<lambda>n. True) 12 [Read_byte, Read_until 10, Read 2, Read_to_end]
      (buffer_with_capacity 4) (boot (read_oracle [104, 105, 10, 33, 34, 35])) = (Ok (out, rb), s')
    \<and> concat (map snd out) @ buffer_bytes rb @ drop (length (fd_got 3 (os_trace s'))) [104, 105, 10, 33, 34, 35]
      = [104, 105, 10, 33, 34, 35]"
proof -
  let ?d = "[104, 105, 10, 33, 34, 35] :: bytes"
  have mem: "\<forall>n < 2 ^ 63. (\<lambda>n :: nat. True) n" and sizes: "0 < (4 :: nat)" "length ?d < 2 ^ 61" "Suc (length ?d + 1) < 12"
    by simp_all
  from buffered_reads_in_order [OF read_oracle_feeds(1) [of 3 ?d] read_oracle_feeds(2,3) sizes(1) mem sizes(2,3)]
  show ?thesis by blast
qed

end
