(* ===== verification/Program_Aros.thy ===== *)
theory Program_Aros
  imports Read_All Process_Aros
begin

text \<open>
  The rest of the surface of the platform layer: the arguments of the program (\<open>sys/args/aros.rs\<close>), random bytes
  (\<open>sys/random/aros.rs\<close>), the setters and accessors of \<open>sys/fs/aros.rs\<close>, \<open>os/aros/fs.rs\<close> and
  \<open>sys/process/aros.rs\<close>, and \<open>fs::write\<close>.
\<close>

section \<open>Arguments\<close>

text \<open>
  The two C globals: \<open>aros_argc\<close>, and \<open>aros_argv\<close>, a null pointer or an array of pointers, each null or to a string.
\<close>

type_synonym c_argv = "(nat \<Rightarrow> bytes option) option"

function args_loop :: "int \<Rightarrow> (nat \<Rightarrow> bytes option) \<Rightarrow> nat \<Rightarrow> bytes list" where
  "args_loop argc argv i =
    (if int i < argc then (case argv i of None \<Rightarrow> [] | Some p \<Rightarrow> p # args_loop argc argv (i + 1)) else [])"
  by pat_completeness auto
termination by (relation "measure (\<lambda>(argc, argv, i). nat (argc - int i))") auto

declare args_loop.simps [simp del]

definition args :: "int \<Rightarrow> c_argv \<Rightarrow> bytes list" where
  "args argc aros_argv = (case aros_argv of None \<Rightarrow> [] | Some argv \<Rightarrow> args_loop argc argv 0)"

text \<open>\<open>Args\<close> is an iterator from both ends over what is left.\<close>

definition args_next :: "bytes list \<Rightarrow> bytes option \<times> bytes list" where
  "args_next it = (case it of [] \<Rightarrow> (None, []) | a # r \<Rightarrow> (Some a, r))"

definition args_next_back :: "bytes list \<Rightarrow> bytes option \<times> bytes list" where
  "args_next_back it = (if it = [] then (None, []) else (Some (last it), butlast it))"

definition args_len :: "bytes list \<Rightarrow> nat" where
  "args_len it = length it"

definition args_size_hint :: "bytes list \<Rightarrow> nat \<times> nat option" where
  "args_size_hint it = (length it, Some (length it))"

text \<open>The arguments end at the first null pointer, or after \<open>argc\<close> of them.\<close>

lemma args_loop_spec:
  "args_loop argc argv i = map the (takeWhile (\<lambda>p. p \<noteq> None) (map argv [i..<nat argc]))"
proof (induction argc argv i rule: args_loop.induct)
  case (1 argc argv i)
  show ?case
  proof (cases "int i < argc")
    case True
    then have "[i..<nat argc] = i # [i + 1..<nat argc]" by (simp add: upt_conv_Cons)
    with True 1 show ?thesis by (subst args_loop.simps) (cases "argv i"; simp)
  qed (simp add: args_loop.simps [of argc])
qed

lemma args_at_most: "int (length (args argc argv)) \<le> max 0 argc"
proof (cases argv)
  case (Some f)
  have "length (args argc argv) \<le> length (map f [0..<nat argc])"
    unfolding Some args_def option.case args_loop_spec length_map by (rule length_takeWhile_le [THEN order_trans]) simp
  then show ?thesis by simp
qed (simp add: args_def)

text \<open>Taking from either end splits what is left, so every argument is yielded once.\<close>

lemma args_ends:
  "args_next it = (Some a, r) \<Longrightarrow> it = a # r" "args_next it = (None, r) \<Longrightarrow> it = [] \<and> r = []"
  "args_next_back it = (Some a, r) \<Longrightarrow> it = r @ [a]" "args_next_back it = (None, r) \<Longrightarrow> it = [] \<and> r = []"
  by (auto simp: args_next_def args_next_back_def split: list.splits if_splits)

section \<open>Random bytes\<close>

definition fill_bytes :: "bytes \<Rightarrow> bytes io" where
  "fill_bytes buf = (if buf = [] then io_return []
     else io_bind (sys (MiscC (Arc4random_buf (length buf)))) (\<lambda>r. io_return (overwrite buf (r_data r))))"

lemma fill_bytes_whole:
  assumes "\<And>t n. length (r_data (os_oracle s t (MiscC (Arc4random_buf n)))) = n"
  shows "\<exists>d s'. fill_bytes buf s = (Ok d, s') \<and> length d = length buf \<and> (buf \<noteq> [] \<longrightarrow> d = r_data (reply_of s (MiscC (Arc4random_buf (length buf)))))"
  using assms [of "os_trace s" "length buf"]
  by (auto simp: fill_bytes_def bind_sys_after reply_of_def overwrite_def)

section \<open>Attributes and options of files\<close>

definition attr_size :: "file_attr \<Rightarrow> u64" where "attr_size a = fa_size a"
definition attr_mode :: "file_attr \<Rightarrow> u32" where "attr_mode a = fa_mode a"
definition attr_nlink :: "file_attr \<Rightarrow> u32" where "attr_nlink a = fa_nlink a"
definition attr_ino :: "file_attr \<Rightarrow> u64" where "attr_ino a = fa_ino a"
definition attr_mtime :: "file_attr \<Rightarrow> int \<times> int" where "attr_mtime a = fa_mtime a"
definition attr_atime :: "file_attr \<Rightarrow> int \<times> int" where "attr_atime a = fa_atime a"
definition attr_ctime :: "file_attr \<Rightarrow> int \<times> int" where "attr_ctime a = fa_ctime a"

text \<open>\<open>MetadataExt\<close>, in the order of the trait.\<close>

record metadata_ext =
  me_ino :: u64
  me_mode :: u32
  me_nlink :: u32
  me_size :: u64
  me_atime :: int
  me_atime_nsec :: int
  me_mtime :: int
  me_mtime_nsec :: int
  me_ctime :: int
  me_ctime_nsec :: int

definition metadata_ext_of :: "file_attr \<Rightarrow> metadata_ext" where
  "metadata_ext_of a = \<lparr>me_ino = attr_ino a, me_mode = attr_mode a, me_nlink = attr_nlink a, me_size = attr_size a,
     me_atime = fst (attr_atime a), me_atime_nsec = snd (attr_atime a),
     me_mtime = fst (attr_mtime a), me_mtime_nsec = snd (attr_mtime a),
     me_ctime = fst (attr_ctime a), me_ctime_nsec = snd (attr_ctime a)\<rparr>"

definition set_accessed :: "system_time \<Rightarrow> file_times \<Rightarrow> file_times" where
  "set_accessed t ft = ft\<lparr>ft_accessed := Some t\<rparr>"

definition set_modified :: "system_time \<Rightarrow> file_times \<Rightarrow> file_times" where
  "set_modified t ft = ft\<lparr>ft_modified := Some t\<rparr>"

definition opt_read :: "bool \<Rightarrow> open_options \<Rightarrow> open_options" where "opt_read b opts = opts\<lparr>oo_read := b\<rparr>"
definition opt_write :: "bool \<Rightarrow> open_options \<Rightarrow> open_options" where "opt_write b opts = opts\<lparr>oo_write := b\<rparr>"
definition opt_append :: "bool \<Rightarrow> open_options \<Rightarrow> open_options" where "opt_append b opts = opts\<lparr>oo_append := b\<rparr>"
definition opt_truncate :: "bool \<Rightarrow> open_options \<Rightarrow> open_options" where "opt_truncate b opts = opts\<lparr>oo_truncate := b\<rparr>"
definition opt_create :: "bool \<Rightarrow> open_options \<Rightarrow> open_options" where "opt_create b opts = opts\<lparr>oo_create := b\<rparr>"
definition opt_create_new :: "bool \<Rightarrow> open_options \<Rightarrow> open_options" where "opt_create_new b opts = opts\<lparr>oo_create_new := b\<rparr>"

text \<open>The operations of a file that do nothing on AROS.\<close>

definition file_flush :: "unit io" where "file_flush = io_return ()"
definition file_fsync :: "unit io" where "file_fsync = io_return ()"
definition file_datasync :: "unit io" where "file_datasync = io_return ()"
definition file_lock :: "unit io" where "file_lock = io_return ()"
definition file_lock_shared :: "unit io" where "file_lock_shared = io_return ()"
definition file_try_lock :: "unit io" where "file_try_lock = io_return ()"
definition file_try_lock_shared :: "unit io" where "file_try_lock_shared = io_return ()"
definition file_unlock :: "unit io" where "file_unlock = io_return ()"

section \<open>Writing whole files\<close>

definition fs_write :: "nat \<Rightarrow> path \<Rightarrow> bytes \<Rightarrow> unit io" where
  "fs_write fuel p contents = io_bind (File_create p) (\<lambda>fd.
    io_finally (write_all (file_write fd) fuel contents) (file_drop fd))"

lemma fs_write_sends:
  assumes "File_create p s = (Ok fd, s1)" "fs_write fuel p contents s = (r, s')"
  shows "\<exists>k. fd_sent fd (os_trace s') = fd_sent fd (os_trace s1) @ take k contents \<and> (r = Ok () \<longrightarrow> length contents \<le> k)"
proof -
  obtain w s2 where w: "write_all (file_write fd) fuel contents s1 = (w, s2)" by fastforce
  from file_sink.write_all_sent [OF w] obtain k where
    k: "fd_sent fd (os_trace s2) = fd_sent fd (os_trace s1) @ take k contents" "w = Ok () \<longrightarrow> length contents \<le> k" by blast
  have "io_finally (write_all (file_write fd) fuel contents) (file_drop fd) s1 = (r, s')"
    using assms by (simp add: fs_write_def io_bind_def)
  with w k show ?thesis
    by (cases w) (auto simp: io_finally_def io_attempt_def io_bind_def file_drop_def sys_run stream_append intro!: exI [of _ k])
qed

section \<open>Commands\<close>

definition command_cwd :: "bytes \<Rightarrow> command \<Rightarrow> command" where "command_cwd dir cmd = cmd\<lparr>cmd_cwd := Some dir\<rparr>"
definition command_stdin :: "stdio \<Rightarrow> command \<Rightarrow> command" where "command_stdin x cmd = cmd\<lparr>cmd_stdin := Some x\<rparr>"
definition command_stdout :: "stdio \<Rightarrow> command \<Rightarrow> command" where "command_stdout x cmd = cmd\<lparr>cmd_stdout := Some x\<rparr>"
definition command_stderr :: "stdio \<Rightarrow> command \<Rightarrow> command" where "command_stderr x cmd = cmd\<lparr>cmd_stderr := Some x\<rparr>"

text \<open>\<open>env_mut\<close>: what the caller does to the environment through the reference.\<close>

definition command_env_mut :: "(command_env \<Rightarrow> command_env) \<Rightarrow> command \<Rightarrow> command" where
  "command_env_mut f cmd = cmd\<lparr>cmd_env := f (cmd_env cmd)\<rparr>"

definition get_program :: "command \<Rightarrow> bytes" where "get_program cmd = cmd_program cmd"
definition get_current_dir :: "command \<Rightarrow> path option" where "get_current_dir cmd = cmd_cwd cmd"

definition stdio_from_file :: "int \<Rightarrow> stdio" where "stdio_from_file fd = InheritFile fd"
definition stdio_from_stdout :: stdio where "stdio_from_stdout = ParentStdout"
definition stdio_from_stderr :: stdio where "stdio_from_stderr = ParentStderr"

text \<open>A pipe of another child is dropped, and the stream is null.\<close>

definition stdio_from_child_pipe :: "int \<Rightarrow> stdio io" where
  "stdio_from_child_pipe fh = io_bind (pipe_drop fh) (\<lambda>_. io_return Stdio_Null)"

datatype program_exit = ExitCode u8

definition EXIT_SUCCESS :: program_exit where "EXIT_SUCCESS = ExitCode 0"
definition EXIT_FAILURE :: program_exit where "EXIT_FAILURE = ExitCode 1"

definition exit_code_as_i32 :: "program_exit \<Rightarrow> i32" where
  "exit_code_as_i32 c = (case c of ExitCode n \<Rightarrow> ucast n)"

definition exit_error_code :: "exit_status_error \<Rightarrow> i32 option" where
  "exit_error_code e = (case e of ExitStatusError c \<Rightarrow> Some c)"

definition process_id :: "process \<Rightarrow> u32" where "process_id p = 0"
definition getpid :: u32 where "getpid = 1"

lemma exit_code_range: "0 \<le> sint (exit_code_as_i32 c) \<and> sint (exit_code_as_i32 c) < 256"
proof (cases c)
  case (ExitCode n)
  have n: "0 \<le> uint n" "uint n < 256" using uint_lt2p [of n] by simp_all
  have "sint (ucast n :: i32) = signed_take_bit 31 (uint n)"
    by (simp add: sint_uint uint_up_ucast is_up)
  also have "\<dots> = uint n" by (rule signed_take_bit_int_eq_self [OF order_trans [OF _ n(1)]]) (use n(2) in simp_all)
  finally show ?thesis using n by (simp add: exit_code_as_i32_def ExitCode)
qed

text \<open>Where the standard streams of a child go does not change what the child runs.\<close>

lemma streams_keep_text:
  "command_line (command_stdin x cmd) = command_line cmd" "command_line (command_stdout x cmd) = command_line cmd"
  "command_line (command_stderr x cmd) = command_line cmd" "command_line (command_cwd d cmd) = command_line cmd"
  "script_text (command_stdin x cmd) = script_text cmd" "script_text (command_stdout x cmd) = script_text cmd"
  by (simp_all add: command_line_def script_text_def setup_lines_def command_stdin_def command_stdout_def
      command_stderr_def command_cwd_def)

end
