(* ===== verification/Path_Edit.thy ===== *)
theory Path_Edit
  imports Fs_Dirs
begin

text \<open>
  Comparing, hashing and editing paths (\<open>std/src/path.rs\<close>). The comparison skips a shared prefix of bytes before it
  looks at components, the hash walks over the bytes without the iterator, and \<open>with_extension\<close> cuts the buffer at a
  place it computes from lengths. The lemmas relate each of them to the list of components.
\<close>

section \<open>Order\<close>

datatype ordering = Less | Equal | Greater

definition ord_cmp :: "'a::linorder \<Rightarrow> 'a \<Rightarrow> ordering" where
  "ord_cmp a b = (if a < b then Less else if a = b then Equal else Greater)"

text \<open>\<open>Iterator::cmp\<close>, on lists: the order of slices.\<close>

fun iter_cmp :: "('a \<Rightarrow> 'a \<Rightarrow> ordering) \<Rightarrow> 'a list \<Rightarrow> 'a list \<Rightarrow> ordering" where
  "iter_cmp f [] [] = Equal"
| "iter_cmp f [] (y # ys) = Less"
| "iter_cmp f (x # xs) [] = Greater"
| "iter_cmp f (x # xs) (y # ys) = (case f x y of Equal \<Rightarrow> iter_cmp f xs ys | ord \<Rightarrow> ord)"

text \<open>The derived order on \<open>Component\<close>: the constructors in the order of their declaration, then the name.\<close>

fun component_rank :: "component \<Rightarrow> nat" where
  "component_rank RootDir = 1"
| "component_rank CurDir = 2"
| "component_rank ParentDir = 3"
| "component_rank (Normal _) = 4"

fun component_cmp :: "component \<Rightarrow> component \<Rightarrow> ordering" where
  "component_cmp (Normal a) (Normal b) = iter_cmp ord_cmp a b"
| "component_cmp a b = ord_cmp (component_rank a) (component_rank b)"

text \<open>\<open>Iterator::cmp\<close>, on the component iterators.\<close>

function components_iter_cmp :: "components \<Rightarrow> components \<Rightarrow> ordering" where
  "components_iter_cmp left right =
     (case comp_next left of
        (None, _) \<Rightarrow> (case fst (comp_next right) of None \<Rightarrow> Equal | Some _ \<Rightarrow> Less)
      | (Some x, left') \<Rightarrow> (case comp_next right of
            (None, _) \<Rightarrow> Greater
          | (Some y, right') \<Rightarrow> (case component_cmp x y of
                Equal \<Rightarrow> components_iter_cmp left' right' | Less \<Rightarrow> Less | Greater \<Rightarrow> Greater)))"
  by pat_completeness auto
termination
  by (relation "measure (\<lambda>(a, b). iter_measure a)") (auto dest: comp_next_decreases [OF sym])

declare components_iter_cmp.simps [simp del]

definition compare_components :: "components \<Rightarrow> components \<Rightarrow> ordering" where
  "compare_components left right =
    (if c_front left = c_front right then
       (let mismatch = position (\<lambda>(a, b). a \<noteq> b) (zip (c_path left) (c_path right))
        in if mismatch = None \<and> length (c_path left) = length (c_path right) then Equal
           else (let first_difference = (case mismatch of
                       None \<Rightarrow> min (length (c_path left)) (length (c_path right)) | Some diff \<Rightarrow> diff)
             in case rposition is_sep_byte (take first_difference (c_path left)) of
                 None \<Rightarrow> components_iter_cmp left right
               | Some previous_sep \<Rightarrow>
                   components_iter_cmp
                     (left\<lparr>c_path := drop (previous_sep + 1) (c_path left), c_front := StBody\<rparr>)
                     (right\<lparr>c_path := drop (previous_sep + 1) (c_path right), c_front := StBody\<rparr>)))
     else components_iter_cmp left right)"

definition path_cmp :: "path \<Rightarrow> path \<Rightarrow> ordering" where
  "path_cmp p q = compare_components (path_iter p) (path_iter q)"

text \<open>What \<open>Ord\<close> asks of a comparison.\<close>

fun ord_reverse :: "ordering \<Rightarrow> ordering" where
  "ord_reverse Less = Greater" | "ord_reverse Equal = Equal" | "ord_reverse Greater = Less"

locale comparison =
  fixes f :: "'a \<Rightarrow> 'a \<Rightarrow> ordering"
  assumes equal_iff: "f a b = Equal \<longleftrightarrow> a = b"
    and reverse: "f b a = ord_reverse (f a b)"
    and less_trans: "f a b = Less \<Longrightarrow> f b c = Less \<Longrightarrow> f a c = Less"
begin

lemma same [simp]: "f a a = Equal"
  by (simp add: equal_iff)

lemma iter_cmp_Cons:
  "iter_cmp f (x # xs) (y # ys) = (if x = y then iter_cmp f xs ys else f x y)"
  by (auto simp: equal_iff split: ordering.splits)

declare iter_cmp.simps(4) [simp del] iter_cmp_Cons [simp]

lemma iter_cmp_append: "iter_cmp f (xs @ ys) (xs @ zs) = iter_cmp f ys zs"
  by (induction xs) auto

lemma iter_cmp_equal_iff: "iter_cmp f xs ys = Equal \<longleftrightarrow> xs = ys"
  by (induction xs ys rule: list_induct2') (auto simp: equal_iff)

lemma iter_cmp_reverse: "iter_cmp f ys xs = ord_reverse (iter_cmp f xs ys)"
  by (induction xs ys rule: list_induct2') (auto intro: reverse)

lemma iter_cmp_trans: "iter_cmp f xs ys = Less \<Longrightarrow> iter_cmp f ys zs = Less \<Longrightarrow> iter_cmp f xs zs = Less"
proof (induction xs ys arbitrary: zs rule: list_induct2')
  case (3 y ys)
  then show ?case by (cases zs) auto
next
  case (4 x xs y ys)
  then obtain z zs' where zs: "zs = z # zs'" by (cases zs) auto
  have "f x z \<noteq> Less \<Longrightarrow> f x y = Less \<Longrightarrow> f y z \<noteq> Less" using less_trans by blast
  moreover have "f x y = Less \<Longrightarrow> f y x \<noteq> Less" using reverse [of y x] by auto
  ultimately show ?case using 4 zs by (auto split: if_splits)
qed auto

lemma comparison_iter_cmp: "comparison (iter_cmp f)"
  by unfold_locales (auto simp: iter_cmp_equal_iff intro: iter_cmp_reverse iter_cmp_trans)

end

interpretation byte_order: comparison "ord_cmp :: u8 \<Rightarrow> u8 \<Rightarrow> ordering"
  by unfold_locales (auto simp: ord_cmp_def split: if_splits)

interpretation name_order: comparison "iter_cmp ord_cmp :: bytes \<Rightarrow> bytes \<Rightarrow> ordering"
  by (rule byte_order.comparison_iter_cmp)

lemma ord_cmp_simps [simp]:
  "ord_cmp a b = Equal \<longleftrightarrow> a = b" "ord_cmp a b = Less \<longleftrightarrow> a < b" "ord_cmp a b = Greater \<longleftrightarrow> b < a"
  by (auto simp: ord_cmp_def)

lemma component_cmp_equal_iff: "component_cmp a b = Equal \<longleftrightarrow> a = b"
  by (cases a; cases b) (auto simp: name_order.equal_iff)

lemma component_cmp_reverse: "component_cmp b a = ord_reverse (component_cmp a b)"
  by (cases a; cases b) (auto simp: ord_cmp_def intro: name_order.reverse)

lemma component_cmp_trans: "component_cmp a b = Less \<Longrightarrow> component_cmp b c = Less \<Longrightarrow> component_cmp a c = Less"
  by (cases a; cases b; cases c) (auto intro: name_order.less_trans)

interpretation component_order: comparison component_cmp
  by unfold_locales (auto intro: component_cmp_equal_iff component_cmp_reverse component_cmp_trans
      simp: component_cmp_equal_iff)

interpretation components_order: comparison "iter_cmp component_cmp"
  by (rule component_order.comparison_iter_cmp)

section \<open>The comparison is that of the components\<close>

lemma components_iter_cmp_pending:
  "no_prefix_state l \<Longrightarrow> no_prefix_state r \<Longrightarrow>
   components_iter_cmp l r = iter_cmp component_cmp (pending l) (pending r)"
proof (induction l r rule: components_iter_cmp.induct)
  case (1 l r)
  obtain x l' where n: "comp_next l = (x, l')" by fastforce
  obtain y r' where m: "comp_next r = (y, r')" by fastforce
  note pn = pending_next [OF n "1.prems"(1)] and pm = pending_next [OF m "1.prems"(2)]
  show ?case
  proof (cases "\<exists>a b. x = Some a \<and> y = Some b \<and> component_cmp a b = Equal")
    case True
    then show ?thesis using n m pn pm "1.IH"
      by (subst components_iter_cmp.simps) (auto simp: component_order.equal_iff)
  next
    case False
    then show ?thesis using n m pn pm
      by (subst components_iter_cmp.simps) (auto split: option.splits ordering.splits)
  qed
qed

lemma pending_body:
  "pending \<lparr>c_path = p, has_physical_root = h, c_front = StBody, c_back = StBody\<rparr> = body_comps p"
  by (simp add: pending_def finished_def start_comps_def len_before_body_def)

lemma zip_mismatch:
  "position (\<lambda>(a, b). a \<noteq> b) (zip xs ys) = m \<Longrightarrow>
   n = (case m of None \<Rightarrow> min (length xs) (length ys) | Some d \<Rightarrow> d) \<Longrightarrow>
   take n xs = take n ys \<and> n \<le> length xs \<and> n \<le> length ys \<and> (m = None \<longrightarrow> length xs = length ys \<longrightarrow> xs = ys)"
proof (induction xs ys arbitrary: m n rule: list_induct2')
  case (4 x xs y ys)
  show ?case
  proof (cases "x = y")
    case True
    define m' where "m' = position (\<lambda>(a, b). a \<noteq> b) (zip xs ys)"
    have "m = map_option Suc m'" using 4(2) True by (simp add: m'_def)
    moreover have "n = Suc (case m' of None \<Rightarrow> min (length xs) (length ys) | Some d \<Rightarrow> d)"
      using 4(3) calculation by (auto split: option.splits)
    ultimately show ?thesis using 4(1) [OF m'_def [symmetric] refl] True by (auto split: option.splits)
  next
    case False
    then show ?thesis using 4(2,3) by auto
  qed
qed auto

lemma path_iter_sel:
  "c_path (path_iter p) = p" "c_front (path_iter p) = StStartDir" "c_back (path_iter p) = StBody"
  by (simp_all add: path_iter_def)

lemma path_cmp_components: "path_cmp p q = iter_cmp component_cmp (path_components p) (path_components q)"
proof -
  define m where "m = position (\<lambda>(a, b). a \<noteq> b) (zip p q)"
  define n where "n = (case m of None \<Rightarrow> min (length p) (length q) | Some d \<Rightarrow> d)"
  note z = zip_mismatch [OF m_def [symmetric] n_def]
  have slow: "components_iter_cmp (path_iter p) (path_iter q)
      = iter_cmp component_cmp (path_components p) (path_components q)"
    by (simp add: components_iter_cmp_pending collect_pending [symmetric] path_simps)
  show ?thesis
  proof (cases "m = None \<and> length p = length q")
    case True
    then have "p = q" "m = None" using z by auto
    then have "path_cmp p q = Equal"
      unfolding path_cmp_def compare_components_def Let_def m_def by (simp add: path_iter_def)
    with \<open>p = q\<close> show ?thesis by simp
  next
    case False
    have body: "path_cmp p q = (case rposition is_sep_byte (take n p) of
          None \<Rightarrow> components_iter_cmp (path_iter p) (path_iter q)
        | Some i \<Rightarrow> components_iter_cmp ((path_iter p)\<lparr>c_path := drop (i + 1) p, c_front := StBody\<rparr>)
            ((path_iter q)\<lparr>c_path := drop (i + 1) q, c_front := StBody\<rparr>))"
      using False unfolding path_cmp_def compare_components_def Let_def n_def m_def path_iter_sel
      by argo
    show ?thesis
    proof (cases "rposition is_sep_byte (take n p)")
      case None
      then show ?thesis using slow body by simp
    next
      case (Some i)
      let ?p = "drop (Suc i) p" and ?q = "drop (Suc i) q"
      obtain x r where x: "take n p = x @ SLASH # r" "length x = i"
        using rposition_Some_split [OF Some] id_take_nth_drop [of i "take n p"] that
        by (fastforce simp: is_sep_byte_def)
      have pq: "s = x @ SLASH # drop (Suc i) s" if "take n s = x @ SLASH # r" for s
      proof -
        have "s = x @ SLASH # r @ drop n s" using append_take_drop_id [of n s] that by simp
        then show ?thesis using x(2) by (metis append_eq_conv_conj drop_Suc_Cons drop_drop plus_1_eq_Suc drop0 list.sel(3) drop_Suc)
      qed
      have "path_cmp p q = iter_cmp component_cmp (body_comps ?p) (body_comps ?q)"
        using body Some
        by (simp add: path_iter_def components_iter_cmp_pending no_prefix_state_def pending_body)
      also have "\<dots> = iter_cmp component_cmp (path_components (x @ [SLASH]) @ body_comps ?p)
          (path_components (x @ [SLASH]) @ body_comps ?q)"
        by (simp add: component_order.iter_cmp_append)
      also have "\<dots> = iter_cmp component_cmp (path_components p) (path_components q)"
        using pq [of p] pq [of q] x(1) z by (metis path_components_sep)
      finally show ?thesis .
    qed
  qed
qed

section \<open>Hashing\<close>

text \<open>A hasher is what is written to it. The hash keeps the start of the current component and a sum of lengths.\<close>

datatype hash_write = Write bytes | WriteUsize u64

definition hash_chunk :: "bytes \<Rightarrow> u64 \<times> hash_write list \<Rightarrow> u64 \<times> hash_write list" where
  "hash_chunk to_hash = (\<lambda>(chunk_bits, h).
     (word_rotr 2 (chunk_bits + of_nat (length to_hash)), h @ [Write to_hash]))"

definition skip_cur_dir :: "bytes \<Rightarrow> nat" where
  "skip_cur_dir tail = (case tail of
       [] \<Rightarrow> 0
     | [b] \<Rightarrow> if b = DOT then 1 else 0
     | b # sep # _ \<Rightarrow> if b = DOT \<and> is_sep_byte sep then 1 else 0)"

definition hash_step :: "bytes \<Rightarrow> nat \<Rightarrow> nat \<times> u64 \<times> hash_write list \<Rightarrow> nat \<times> u64 \<times> hash_write list" where
  "hash_step bs i = (\<lambda>(component_start, st).
    (if is_sep_byte (bs ! i) then
       (let st' = (if i > component_start then hash_chunk (take (i - component_start) (drop component_start bs)) st else st)
        in (i + 1 + skip_cur_dir (drop (i + 1) bs), st'))
     else (component_start, st)))"

definition hash_last :: "bytes \<Rightarrow> nat \<times> u64 \<times> hash_write list \<Rightarrow> u64 \<times> hash_write list" where
  "hash_last bs = (\<lambda>(component_start, st).
     (if component_start < length bs then hash_chunk (drop component_start bs) st else st))"

definition path_hash :: "path \<Rightarrow> hash_write list" where
  "path_hash p = (let (chunk_bits, h) = hash_last p (fold (hash_step p) [0..<length p] (0, 0, []))
     in h @ [WriteUsize chunk_bits])"

text \<open>The specification: the bytes of the components (\<open>component_bytes\<close>), without the root.\<close>

definition hash_components :: "component list \<Rightarrow> hash_write list" where
  "hash_components cs =
    (let (chunk_bits, h) = fold hash_chunk (map component_bytes (filter (\<lambda>c. c \<noteq> RootDir) cs)) (0, [])
     in h @ [WriteUsize chunk_bits])"

abbreviation names :: "bytes \<Rightarrow> bytes list" where
  "names bs \<equiv> filter (\<lambda>c. c \<noteq> [] \<and> c \<noteq> [DOT]) (split_on SLASH bs)"

definition first_names :: "bytes \<Rightarrow> bytes list" where
  "first_names bs = filter (\<lambda>c. c \<noteq> []) [hd (split_on SLASH bs)]
     @ filter (\<lambda>c. c \<noteq> [] \<and> c \<noteq> [DOT]) (tl (split_on SLASH bs))"

lemma first_names_no_sep: "SLASH \<notin> set bs \<Longrightarrow> first_names bs = (if bs = [] then [] else [bs])"
  by (simp add: first_names_def split_on_no_sep)

lemma first_names_sep:
  "SLASH \<notin> set c \<Longrightarrow> first_names (c @ SLASH # t) = (if c = [] then [] else [c]) @ names t"
  by (simp add: first_names_def split_on_append_sep)

lemma hd_split_dot: "hd (split_on SLASH t) = [DOT] \<longleftrightarrow> skip_cur_dir t = 1"
proof (cases "SLASH \<in> set t")
  case True
  then obtain c r where t: "t = c @ SLASH # r" "SLASH \<notin> set c" by (meson split_list_first)
  then show ?thesis
    by (cases c; cases "tl c") (auto simp: split_on_append_sep skip_cur_dir_def is_sep_byte_def split: list.splits)
next
  case False
  then show ?thesis
    by (cases t; cases "tl t") (auto simp: split_on_no_sep skip_cur_dir_def is_sep_byte_def)
qed

lemma first_names_names: "skip_cur_dir t = 0 \<Longrightarrow> first_names t = names t"
  using hd_split_dot [of t] by (cases "split_on SLASH t") (auto simp: first_names_def)

lemma first_names_skip:
  assumes "skip_cur_dir t = 1"
  shows "first_names (drop 1 t) = names t" "t \<noteq> []" "hd t = DOT"
proof -
  obtain r where t: "t = DOT # r" "r = [] \<or> hd r = SLASH"
    using assms by (cases t; cases "tl t") (auto simp: skip_cur_dir_def is_sep_byte_def split: if_splits)
  then show "first_names (drop 1 t) = names t"
    by (cases r) (auto simp: first_names_def split: list.splits)
  show "t \<noteq> []" "hd t = DOT" using t by auto
qed

lemma skip_cur_dir_cases: "skip_cur_dir t = 0 \<or> skip_cur_dir t = 1"
  by (auto simp: skip_cur_dir_def split: list.splits)

lemma hash_rest:
  "start \<le> i \<Longrightarrow> i \<le> length bs \<Longrightarrow> SLASH \<notin> set (take (i - start) (drop start bs)) \<Longrightarrow>
   hash_last bs (fold (hash_step bs) [i..<length bs] (start, st)) = fold hash_chunk (first_names (drop start bs)) st"
proof (induction "length bs - i" arbitrary: i start st rule: less_induct)
  case less
  let ?c = "take (i - start) (drop start bs)"
  show ?case
  proof (cases "i = length bs")
    case True
    then have "SLASH \<notin> set (drop start bs)" using less.prems by simp
    with True less.prems show ?thesis by (auto simp: hash_last_def first_names_no_sep)
  next
    case False
    with less.prems have i: "i < length bs" by simp
    then have upt: "[i..<length bs] = i # [Suc i..<length bs]" by (simp add: upt_conv_Cons)
    have c: "take (Suc i - start) (drop start bs) = ?c @ [bs ! i]"
      using i less.prems(1) by (simp add: Suc_diff_le take_Suc_conv_app_nth)
    show ?thesis
    proof (cases "is_sep_byte (bs ! i)")
      case no: False
      then have "SLASH \<notin> set (take (Suc i - start) (drop start bs))"
        using less.prems(3) by (simp add: c is_sep_byte_def)
      then have "hash_last bs (fold (hash_step bs) [Suc i..<length bs] (start, st))
          = fold hash_chunk (first_names (drop start bs)) st"
        using i less.prems(1) by (intro less.hyps) auto
      with no show ?thesis by (simp add: upt hash_step_def)
    next
      case sep: True
      let ?t = "drop (Suc i) bs"
      define st' where "st' = (if i > start then hash_chunk ?c st else st)"
      have "drop start bs = ?c @ SLASH # ?t"
        using id_take_nth_drop [of "i - start" "drop start bs"] sep i less.prems(1) by (simp add: is_sep_byte_def)
      then have "first_names (drop start bs) = (if ?c = [] then [] else [?c]) @ names ?t"
        using first_names_sep [OF less.prems(3)] by metis
      moreover have "?c = [] \<longleftrightarrow> \<not> start < i" using i by auto
      ultimately have goal: "fold hash_chunk (first_names (drop start bs)) st = fold hash_chunk (names ?t) st'"
        by (simp add: st'_def)
      have step: "hash_step bs i (start, st) = (Suc i + skip_cur_dir ?t, st')"
        using sep by (simp add: hash_step_def st'_def)
      show ?thesis
      proof (cases "skip_cur_dir ?t = 0")
        case True
        have "hash_last bs (fold (hash_step bs) [Suc i..<length bs] (Suc i, st')) = fold hash_chunk (first_names ?t) st'"
          using i by (intro less.hyps) auto
        then show ?thesis using True goal by (simp add: upt step first_names_names)
      next
        case False
        then have skip: "skip_cur_dir ?t = 1" using skip_cur_dir_cases [of ?t] by auto
        note f = first_names_skip [OF skip]
        have si: "Suc i < length bs" "bs ! Suc i = DOT" using f(2,3) by (auto simp: hd_drop_conv_nth)
        then have upt': "[Suc i..<length bs] = Suc i # [Suc (Suc i)..<length bs]" by (simp add: upt_conv_Cons)
        have "hash_last bs (fold (hash_step bs) [Suc (Suc i)..<length bs] (Suc (Suc i), st'))
            = fold hash_chunk (first_names (drop (Suc (Suc i)) bs)) st'"
          using si by (intro less.hyps) auto
        moreover have "hash_step bs (Suc i) (Suc (Suc i), st') = (Suc (Suc i), st')"
          using si by (simp add: hash_step_def is_sep_byte_def)
        ultimately show ?thesis using skip goal f(1) by (simp add: upt upt' step)
      qed
    qed
  qed
qed

lemma body_comps_names: "map component_bytes (body_comps bs) = names bs"
proof -
  have "map component_bytes (List.map_filter parse_single_component ps) = filter (\<lambda>c. c \<noteq> [] \<and> c \<noteq> [DOT]) ps" for ps
    by (induction ps) (auto simp: map_filter_simps parse_single_component_def component_bytes_def)
  then show ?thesis by (simp add: body_comps_def)
qed

lemma path_components_names:
  "map component_bytes (filter (\<lambda>c. c \<noteq> RootDir) (path_components p)) = first_names p"
proof -
  have body: "filter (\<lambda>c. c \<noteq> RootDir) (body_comps bs) = body_comps bs" for bs
    using body_comps_no_cur(2) by (metis (mono_tags, lifting) filter_id_conv)
  show ?thesis
  proof (cases "physical_root p")
    case True
    then obtain r where p: "p = SLASH # r" by (cases p) (auto simp: physical_root_def is_sep_byte_def)
    then show ?thesis using True first_names_sep [of "[]" r]
      by (simp add: path_components_def body body_comps_names component_bytes_def)
  next
    case root: False
    show ?thesis
    proof (cases "starts_cur p")
      case True
      then consider "p = [DOT]" | r where "p = [DOT] @ SLASH # r"
        by (cases p; cases "tl p") (auto simp: starts_cur_def)
      then show ?thesis
      proof cases
        case 1
        then show ?thesis
          by (simp add: path_components_def physical_root_def starts_cur_def is_sep_byte_def first_names_def
              component_bytes_def)
      next
        case 2
        then show ?thesis using first_names_sep [of "[DOT]" r] True root
            body_comps_append [of "[]" r]
          by (simp add: path_components_def body body_comps_names component_bytes_def)
      qed
    next
      case False
      then have "skip_cur_dir p = 0"
        by (cases p; cases "tl p") (auto simp: skip_cur_dir_def starts_cur_def is_sep_byte_def)
      then show ?thesis using root False
        by (simp add: path_components_def body body_comps_names first_names_names)
    qed
  qed
qed

lemma path_hash_components: "path_hash p = hash_components (path_components p)"
  by (simp add: path_hash_def hash_components_def path_components_names hash_rest)

section \<open>File names as slices, and extensions\<close>

text \<open>
  The code takes the end of the stem from its address. Here a slice is its offset in the path and its bytes: the last
  piece starts after what the iterator leaves, and after the separator if there is one.
\<close>

definition file_name_at :: "path \<Rightarrow> (nat \<times> bytes) option" where
  "file_name_at p = (case comp_next_back (path_iter p) of
       (Some (Normal n), c) \<Rightarrow>
         Some (if is_sep_byte (p ! length (c_path c)) then length (c_path c) + 1 else length (c_path c), n)
     | _ \<Rightarrow> None)"

definition split_file_at_dot :: "bytes \<Rightarrow> bytes \<times> bytes option" where
  "split_file_at_dot file = (if file = [DOT, DOT] then (file, None)
     else (case position (\<lambda>b. b = DOT) (drop 1 file) of
        None \<Rightarrow> (file, None) | Some j \<Rightarrow> (let i = j + 1 in (take i file, Some (drop (i + 1) file)))))"

definition path_file_prefix :: "path \<Rightarrow> bytes option" where
  "path_file_prefix p = map_option (\<lambda>f. fst (split_file_at_dot f)) (path_file_name p)"

definition validate_extension :: "bytes \<Rightarrow> bool" where
  "validate_extension extension \<longleftrightarrow> \<not> list_ex is_sep_byte extension"

text \<open>\<open>None\<close> is the panic of \<open>validate_extension\<close>; otherwise the result and the buffer.\<close>

definition set_extension :: "path \<Rightarrow> bytes \<Rightarrow> (bool \<times> path) option" where
  "set_extension self extension =
    (if \<not> validate_extension extension then None
     else Some (case (file_name_at self, file_stem self) of
         (Some (start, _), Some stem) \<Rightarrow>
           (let inner = take (start + length stem) self
            in (True, if extension \<noteq> [] then inner @ [DOT] @ extension else inner))
       | _ \<Rightarrow> (False, self)))"

definition add_extension :: "path \<Rightarrow> bytes \<Rightarrow> (bool \<times> path) option" where
  "add_extension self extension =
    (if \<not> validate_extension extension then None
     else Some (case file_name_at self of
         Some (start, file_name) \<Rightarrow>
           (True, if extension \<noteq> [] then take (start + length file_name) self @ [DOT] @ extension else self)
       | None \<Rightarrow> (False, self)))"

definition with_extension :: "path \<Rightarrow> bytes \<Rightarrow> path option" where
  "with_extension self extension =
    (let slice_to_copy = (case path_extension self of
           None \<Rightarrow> self
         | Some previous_extension \<Rightarrow> take (length self - length previous_extension) self)
     in map_option snd (set_extension slice_to_copy extension))"

definition with_added_extension :: "path \<Rightarrow> bytes \<Rightarrow> path option" where
  "with_added_extension self extension = map_option snd (add_extension self extension)"

definition with_file_name :: "path \<Rightarrow> bytes \<Rightarrow> path" where
  "with_file_name self file_name = set_file_name self file_name"

text \<open>A path that ends in a file name: what is before it, the name, and what the iterator skips behind it.\<close>

definition is_name :: "bytes \<Rightarrow> bool" where
  "is_name n \<longleftrightarrow> SLASH \<notin> set n \<and> n \<noteq> [] \<and> n \<noteq> [DOT] \<and> n \<noteq> [DOT, DOT]"

definition trailing :: "bytes \<Rightarrow> bool" where
  "trailing t \<longleftrightarrow> t = [] \<or> (\<exists>t'. t = SLASH # t' \<and> set (split_on SLASH t') \<subseteq> {[], [DOT]})"

definition located :: "path \<Rightarrow> bytes \<Rightarrow> bytes \<Rightarrow> bytes \<Rightarrow> bool" where
  "located p x n t \<longleftrightarrow> p = x @ n @ t \<and> (x = [] \<or> last x = SLASH) \<and> is_name n \<and> trailing t"

lemma trailing_append: "trailing t \<Longrightarrow> SLASH \<notin> set piece \<Longrightarrow> piece \<in> {[], [DOT]} \<Longrightarrow> trailing (t @ SLASH # piece)"
  unfolding trailing_def by (auto simp: split_on_append split_on_no_sep)

lemma parse_next_back_split:
  assumes "parse_next_component_back c = (n, y)" "len_before_body c < length (c_path c)"
  defines "m \<equiv> length (c_path c) - n"
  obtains e piece where "c_path c = take m (c_path c) @ e @ piece" "SLASH \<notin> set piece"
    "y = parse_single_component piece" "m < length (c_path c) \<or> e @ piece = []"
    "e = [SLASH] \<or> e = [] \<and> m = len_before_body c \<and> SLASH \<notin> set (drop (len_before_body c) (c_path c))"
proof -
  let ?l = "len_before_body c" and ?p = "c_path c"
  let ?b = "drop ?l ?p"
  show ?thesis
  proof (cases "rposition is_sep_byte ?b")
    case None
    then have "SLASH \<notin> set ?b" by (auto simp: rposition_None is_sep_byte_def)
    moreover have "m = ?l" "y = parse_single_component ?b"
      using None assms by (auto simp: parse_next_component_back_def)
    ultimately show ?thesis using that [of "[]" ?b] assms(2) by simp
  next
    case (Some i)
    note sp = rposition_Some_split [OF Some]
    have no: "SLASH \<notin> set (drop (Suc i) ?b)" using sp by (auto simp: is_sep_byte_def)
    have "m = ?l + i" "y = parse_single_component (drop (Suc i) ?b)"
      using assms(1,2) Some sp(1) by (auto simp: parse_next_component_back_def m_def)
    moreover have "?p = take (?l + i) ?p @ [SLASH] @ drop (Suc i) ?b"
      using id_take_nth_drop [of "?l + i" ?p] sp(1,2) by (simp add: is_sep_byte_def add.commute)
    moreover have "m < length ?p" using calculation sp(1) by simp
    ultimately show ?thesis using that [of "[SLASH]" "drop (Suc i) ?b"] no by simp
  qed
qed

lemma parse_single_Normal: "parse_single_component piece = Some (Normal n) \<Longrightarrow> SLASH \<notin> set piece \<Longrightarrow> piece = n \<and> is_name n"
  by (auto simp: parse_single_component_def is_name_def split: if_splits)

lemma body_start_sep:
  assumes "iter_ok c" "c_front c = StStartDir" "c_back c = StBody" "len_before_body c < length (c_path c)"
    "SLASH \<notin> set (drop (len_before_body c) (c_path c))"
  shows "take (len_before_body c) (c_path c) \<in> {[], [SLASH]}"
  using assms
  by (cases "c_path c"; cases "tl (c_path c)")
    (auto simp: iter_ok_def len_before_body_def include_cur_dir_def physical_root_def is_sep_byte_def split: if_splits)

lemma next_back_located:
  "comp_next_back c = (Some (Normal n), c') \<Longrightarrow> iter_ok c \<Longrightarrow> c_front c = StStartDir \<Longrightarrow>
   \<exists>x t. located (c_path c) x n t \<and> length (c_path c') < length (c_path c)
     \<and> length x = (if is_sep_byte (c_path c ! length (c_path c')) then length (c_path c') + 1 else length (c_path c'))"
proof (induction c rule: comp_next_back_induct)
  case (Empty c)
  then have "iter_ok (c\<lparr>c_back := StStartDir\<rparr>)"
    by (auto simp: iter_ok_def no_prefix_state_def len_before_body_def include_cur_dir_def)
  with Empty show ?case by simp
next
  case (Piece c k y)
  let ?m = "length (c_path c) - k"
  obtain e piece where sp: "c_path c = take ?m (c_path c) @ e @ piece" "SLASH \<notin> set piece"
    "Some y = parse_single_component piece" "?m < length (c_path c) \<or> e @ piece = []"
    "e = [SLASH] \<or> e = [] \<and> ?m = len_before_body c \<and> SLASH \<notin> set (drop (len_before_body c) (c_path c))"
    by (rule parse_next_back_split [OF Piece(4,3)])
  have c': "c' = c\<lparr>c_path := take ?m (c_path c)\<rparr>" "y = Normal n" using Piece by simp_all
  have n: "piece = n" "is_name n" using parse_single_Normal [of piece n] sp c' by auto
  have lt: "?m < length (c_path c)" using Piece(3,5) by auto
  have at: "c_path c ! ?m = hd (e @ piece)"
    using sp(1) lt by (metis append_Nil2 hd_drop_conv_nth append_eq_conv_conj length_take min.absorb4)
  show ?case using sp(5)
  proof
    assume e: "e = [SLASH]"
    have "located (c_path c) (take ?m (c_path c) @ [SLASH]) n []"
      using sp(1) e n by (simp add: located_def trailing_def)
    moreover have "length (take ?m (c_path c) @ [SLASH]) = Suc ?m" using lt by simp
    ultimately show ?thesis using at e lt c' by (auto simp: is_sep_byte_def)
  next
    assume e: "e = [] \<and> ?m = len_before_body c \<and> SLASH \<notin> set (drop (len_before_body c) (c_path c))"
    then have "take ?m (c_path c) \<in> {[], [SLASH]}"
      using body_start_sep [of c] Piece by auto
    then have "located (c_path c) (take ?m (c_path c)) n []"
      using sp(1) e n by (auto simp: located_def trailing_def)
    moreover have "\<not> is_sep_byte (c_path c ! ?m)" using at e n sp(2)
      by (cases piece) (auto simp: is_sep_byte_def is_name_def)
    moreover have "length (take ?m (c_path c)) = ?m" using lt by simp
    ultimately show ?thesis using lt c' by auto
  qed
next
  case (Skip c k)
  let ?m = "length (c_path c) - k"
  let ?d = "c\<lparr>c_path := take ?m (c_path c)\<rparr>"
  obtain e piece where sp: "c_path c = take ?m (c_path c) @ e @ piece" "SLASH \<notin> set piece"
    "None = parse_single_component piece" "?m < length (c_path c) \<or> e @ piece = []"
    "e = [SLASH] \<or> e = [] \<and> ?m = len_before_body c \<and> SLASH \<notin> set (drop (len_before_body c) (c_path c))"
    by (rule parse_next_back_split [OF Skip(4,3)])
  note cut = back_cut_start [OF Skip(4,3) \<open>c_front c = StStartDir\<close>]
  have "iter_ok ?d" using Skip cut(3) by (auto simp: iter_ok_def no_prefix_state_def)
  with Skip have "\<exists>x t. located (c_path ?d) x n t \<and> length (c_path c') < length (c_path ?d)
      \<and> length x = (if is_sep_byte (c_path ?d ! length (c_path c')) then length (c_path c') + 1 else length (c_path c'))"
    by simp
  then obtain x t where xt: "located (take ?m (c_path c)) x n t" "length (c_path c') < ?m"
    "length x = (if is_sep_byte (c_path c ! length (c_path c')) then length (c_path c') + 1 else length (c_path c'))"
    by auto
  have piece: "piece \<in> {[], [DOT]}" using sp(3) by (auto simp: parse_single_component_def split: if_splits)
  from sp(5) have e: "e = [SLASH]"
  proof
    assume "e = [] \<and> ?m = len_before_body c \<and> SLASH \<notin> set (drop (len_before_body c) (c_path c))"
    then have "take ?m (c_path c) \<in> {[], [SLASH]}" using body_start_sep [of c] Skip by auto
    then show ?thesis using xt(1) by (auto simp: located_def is_name_def append_eq_Cons_conv)
  qed
  then have "located (c_path c) x n (t @ SLASH # piece)"
    using sp(1) xt(1) trailing_append [OF _ sp(2) piece, of t] by (simp add: located_def)
  then show ?case using xt by auto
qed auto

lemma file_name_at_located:
  "file_name_at p = Some (k, n) \<Longrightarrow> \<exists>x t. located p x n t \<and> k = length x"
  using next_back_located [of "path_iter p" n, OF _ iter_ok_path_iter]
  by (fastforce simp: file_name_at_def path_iter_sel split: prod.splits option.splits component.splits)

lemma file_name_at_file_name: "map_option snd (file_name_at p) = path_file_name p"
  by (auto simp: file_name_at_def path_file_name_def split: prod.splits option.splits component.splits)

text \<open>There is only one way to locate the name, so the iterator finds it.\<close>

lemma trailing_split:
  "SLASH \<notin> set n \<Longrightarrow> trailing t \<Longrightarrow> \<exists>ps. split_on SLASH (n @ t) = n # ps \<and> set ps \<subseteq> {[], [DOT]}"
  by (auto simp: trailing_def split_on_no_sep split_on_append_sep)

lemma located_unique_le:
  assumes "located p x n t" "located p x' n t'" "length x \<le> length x'"
  shows "x = x'"
proof (rule ccontr)
  assume ne: "x \<noteq> x'"
  have eq: "x @ n @ t = x' @ n @ t'" using assms(1,2) by (simp add: located_def)
  then obtain w where w: "x' = x @ w" using assms(3)
    by (metis append_eq_append_conv_if append_take_drop_id)
  with ne have "w \<noteq> []" by simp
  with w assms(2) have "last w = SLASH" by (auto simp: located_def)
  with \<open>w \<noteq> []\<close> obtain w0 where w0: "w = w0 @ [SLASH]" by (metis append_butlast_last_id)
  with eq w have nt: "n @ t = w0 @ SLASH # (n @ t')" by simp
  obtain ps where ps: "split_on SLASH (n @ t) = n # ps" "set ps \<subseteq> {[], [DOT]}"
    using trailing_split assms(1) by (meson located_def is_name_def)
  obtain qs where qs: "split_on SLASH (n @ t') = n # qs"
    using trailing_split assms(2) by (meson located_def is_name_def)
  obtain c cs where c: "split_on SLASH w0 = c # cs" by (meson split_on_not_Nil neq_Nil_conv)
  have "n # ps = c # cs @ n # qs" using ps(1) qs c by (simp add: nt split_on_append)
  then have "n \<in> set ps" by simp
  with ps(2) assms(1) show False by (auto simp: located_def is_name_def)
qed

lemma body_comps_after:
  assumes "x = [] \<or> last x = SLASH" "SLASH \<notin> set n" "trailing t" "parse_single_component n = Some y"
  shows "\<exists>cs. body_comps (x @ n @ t) = cs @ [y]"
proof -
  have "body_comps t' = []" if "set (split_on SLASH t') \<subseteq> {[], [DOT]}" for t'
    proof -
    have "map component_bytes (body_comps t') = []"
      unfolding body_comps_names using that by (auto simp: filter_empty_conv)
    then show ?thesis by simp
  qed
  then have nt: "body_comps (n @ t) = [y]"
    using assms(2,3,4) body_comps_append [of n] by (auto simp: trailing_def body_comps_no_sep)
  show ?thesis
  proof (cases "x = []")
    case False
    with assms(1) have "x @ n @ t = butlast x @ SLASH # (n @ t)"
      by (metis append.assoc append_Cons append_Nil append_butlast_last_id)
    with nt show ?thesis using body_comps_append [of "butlast x" "n @ t"] by metis
  qed (simp add: nt)
qed

lemma file_name_body_comps:
  assumes "body_comps p = cs @ [y]"
  shows "path_file_name p = (case y of Normal n \<Rightarrow> Some n | _ \<Rightarrow> None)"
proof -
  have "\<exists>r. rev (path_components p) = y # r"
  proof -
    have "path_components p = body_comps p \<or> (\<exists>z. path_components p = z # body_comps p)"
      using body_comps_root [of p] body_comps_starts_cur [of p] by (auto simp: path_components_def)
    then obtain zs where "path_components p = zs @ [y]" using assms by (metis append_Cons)
    then show ?thesis by simp
  qed
  then show ?thesis using path_parent_file_name [of p] by auto
qed

lemma located_file_name_at:
  assumes "located p x n t"
  shows "file_name_at p = Some (length x, n)"
proof -
  have "parse_single_component n = Some (Normal n)"
    using assms by (auto simp: located_def is_name_def parse_single_component_def)
  then have "path_file_name p = Some n"
    using body_comps_after [of x n t "Normal n"] file_name_body_comps [of p] assms
    by (fastforce simp: located_def is_name_def)
  then obtain k where k: "file_name_at p = Some (k, n)"
    using file_name_at_file_name [of p] by auto
  then obtain x' t' where "located p x' n t'" "k = length x'" using file_name_at_located by blast
  then show ?thesis using k assms located_unique_le by (metis nat_le_linear)
qed

text \<open>The stem and the extension of a name.\<close>

lemma rsplit_ext:
  assumes "b \<noteq> []" "DOT \<notin> set a" "b @ DOT # a \<noteq> [DOT, DOT]"
  shows "rsplit_file_at_dot (b @ DOT # a) = (Some b, Some a)"
proof -
  have "position (\<lambda>b. b = DOT) (rev a @ DOT # rev b) = Some (length (rev a))"
    using assms(2) by (intro position_first) auto
  then have "rposition (\<lambda>b. b = DOT) (b @ DOT # a) = Some (length b)"
    by (simp add: rposition_def)
  with assms(1,3) show ?thesis by (simp add: rsplit_file_at_dot_def)
qed

lemma rsplit_cases:
  assumes "n \<noteq> [DOT, DOT]"
  obtains "rsplit_file_at_dot n \<in> {(Some n, None), (None, Some n)}"
    | b a where "n = b @ DOT # a" "b \<noteq> []" "DOT \<notin> set a" "rsplit_file_at_dot n = (Some b, Some a)"
proof (cases "rposition (\<lambda>b. b = DOT) n")
  case None
  then show ?thesis using assms that(1) by (simp add: rsplit_file_at_dot_def)
next
  case (Some i)
  note sp = rposition_Some_split [OF Some]
  have n: "n = take i n @ DOT # drop (Suc i) n" using id_take_nth_drop [OF sp(1)] sp(2) by simp
  show ?thesis
  proof (cases "take i n = []")
    case True
    then show ?thesis using assms Some that(1) by (simp add: rsplit_file_at_dot_def)
  next
    case False
    moreover have "DOT \<notin> set (drop (Suc i) n)" using sp(3) by auto
    ultimately show ?thesis using that(2) [of "take i n" "drop (Suc i) n"] n assms rsplit_ext by metis
  qed
qed

lemma located_ext:
  assumes "located p x (b @ DOT # a) t" "b \<noteq> []" "DOT \<notin> set a"
  shows "path_extension p = Some a" "file_stem p = Some b"
    and "validate_extension e \<Longrightarrow> set_extension p e = Some (True, x @ b @ (if e = [] then [] else DOT # e))"
proof -
  note at = located_file_name_at [OF assms(1)]
  then have f: "path_file_name p = Some (b @ DOT # a)" using file_name_at_file_name [of p] by simp
  have "b @ DOT # a \<noteq> [DOT, DOT]" using assms(1) by (simp add: located_def is_name_def)
  then have r: "rsplit_file_at_dot (b @ DOT # a) = (Some b, Some a)" using rsplit_ext assms(2,3) by blast
  then show "path_extension p = Some a" "file_stem p = Some b"
    using f by (simp_all add: path_extension_def file_stem_def)
  then show "set_extension p e = Some (True, x @ b @ (if e = [] then [] else DOT # e))" if "validate_extension e"
    using at that assms(1) by (simp add: set_extension_def located_def)
qed

text \<open>What \<open>set_extension\<close> writes is what \<open>extension\<close> reads.\<close>

lemma extension_set_extension:
  assumes "set_extension p e = Some (True, q)" "e \<noteq> []" "DOT \<notin> set e"
  shows "path_extension q = Some e \<and> file_stem q = file_stem p"
proof -
  obtain k n b where kb: "file_name_at p = Some (k, n)" "file_stem p = Some b" "validate_extension e"
    and q: "q = take (k + length b) p @ [DOT] @ e"
    using assms(1,2) by (auto simp: set_extension_def Let_def split: if_splits option.splits)
  obtain x t where l: "located p x n t" "k = length x" using file_name_at_located [OF kb(1)] by blast
  have f: "path_file_name p = Some n" using kb(1) file_name_at_file_name [of p] by simp
  have n: "is_name n" using l(1) by (simp add: located_def)
  then have "n \<noteq> [DOT, DOT]" by (simp add: is_name_def)
  then have b: "\<exists>r. n = b @ r" "b \<noteq> []"
    using kb(2) f n by (auto elim!: rsplit_cases simp: file_stem_def is_name_def)
  then have "q = x @ b @ DOT # e" using q l by (auto simp: located_def)
  moreover have "SLASH \<notin> set e" using kb(3) by (auto simp: validate_extension_def list_ex_iff is_sep_byte_def)
  ultimately have "located q x (b @ DOT # e) []"
    using l(1) n b assms(2) by (auto simp: located_def is_name_def trailing_def append_eq_Cons_conv)
  then show ?thesis using located_ext [of q x b e "[]"] b(2) assms(3) kb(2) by simp
qed

text \<open>\<open>with_extension\<close> cuts as many bytes off the end of the path as the extension has.\<close>

lemma split_take_dots:
  "set (split_on SLASH t) \<subseteq> {[], [DOT]} \<Longrightarrow> set (split_on SLASH (take j t)) \<subseteq> {[], [DOT]}"
proof (induction t arbitrary: j rule: length_induct)
  case (1 t)
  show ?case
  proof (cases "SLASH \<in> set t")
    case False
    then have "t \<in> {[], [DOT]}" using 1(2) by (simp add: split_on_no_sep)
    then show ?thesis by (cases j) auto
  next
    case True
    then obtain c r where t: "t = c @ SLASH # r" "SLASH \<notin> set c" by (meson split_list_first)
    then have c: "c \<in> {[], [DOT]}" and r: "set (split_on SLASH r) \<subseteq> {[], [DOT]}"
      using 1(2) by (auto simp: split_on_append_sep)
    have "set (split_on SLASH (take i r)) \<subseteq> {[], [DOT]}" for i using 1(1) r t by simp
    moreover have "take j t = take j c \<or> (\<exists>i. take j t = c @ SLASH # take i r)"
    proof (cases "j \<le> length c")
      case False
      then have "take j t = c @ SLASH # take (j - length c - 1) r" by (simp add: t take_Cons')
      then show ?thesis by blast
    qed (simp add: t)
    moreover have "split_on SLASH (take j c) \<in> {[[]], [[DOT]]}" using c by (cases j) auto
    ultimately show ?thesis using c t(2)
      by (auto simp: split_on_append_sep simp del: insert_iff split_on.simps) (use t in \<open>auto simp: subset_iff\<close>)
  qed
qed

lemma trailing_take: "trailing t \<Longrightarrow> trailing (take k t)"
  using split_take_dots by (cases k) (auto simp: trailing_def)

lemma with_extension_located:
  assumes p: "located p x (b @ DOT # a) t" and b: "b \<noteq> []" and a: "DOT \<notin> set a" and e: "validate_extension e"
  shows "with_extension p e =
    (if b = [DOT] \<and> t = [] then Some (x @ [DOT, DOT]) else map_option snd (set_extension p e))"
proof -
  let ?a = "take (length t) a" and ?t = "take (length t - length a) t"
  define q where "q = take (length p - length a) p"
  have pq: "p = x @ b @ DOT # a @ t" using p by (simp add: located_def)
  have q: "q = x @ (b @ DOT # ?a) @ ?t" unfolding q_def pq by simp
  have w: "with_extension p e = map_option snd (set_extension q e)"
    using located_ext(1) [OF p b a] by (simp add: with_extension_def q_def)
  show ?thesis
  proof (cases "b = [DOT] \<and> t = []")
    case True
    then have "\<exists>cs. body_comps q = cs @ [ParentDir]"
      using body_comps_after [of x "[DOT, DOT]" "[]" ParentDir] p q
      by (auto simp: located_def trailing_def parse_single_component_def)
    then have "path_file_name q = None" using file_name_body_comps by fastforce
    then have "set_extension q e = Some (False, q)"
      using e file_name_at_file_name [of q] by (simp add: set_extension_def)
    with True w q show ?thesis by simp
  next
    case False
    have n: "is_name (b @ DOT # a)" using p by (simp add: located_def)
    have "b @ DOT # ?a \<noteq> [DOT, DOT]"
    proof
      assume "b @ DOT # ?a = [DOT, DOT]"
      then have "b = [DOT]" "?a = []" using b by (auto simp: append_eq_Cons_conv)
      with False n show False by (auto simp: is_name_def)
    qed
    then have "is_name (b @ DOT # ?a)"
      using n b by (auto simp: is_name_def append_eq_Cons_conv dest: in_set_takeD)
    then have "located q x (b @ DOT # ?a) ?t"
      using q p by (simp add: located_def trailing_take)
    moreover have "DOT \<notin> set ?a" using a by (auto dest: in_set_takeD)
    ultimately show ?thesis using w False b e located_ext(3) [of q x b ?a ?t] located_ext(3) [OF p b a] by auto
  qed
qed

lemma with_extension_dotted_name:
  assumes "x = [] \<or> last x = SLASH" "SLASH \<notin> set ext" "DOT \<notin> set ext" "ext \<noteq> []" "validate_extension e"
  shows "with_extension (x @ [DOT, DOT] @ ext) e = Some (x @ [DOT, DOT])"
proof -
  have "located (x @ [DOT, DOT] @ ext) x ([DOT] @ DOT # ext) []"
    using assms by (simp add: located_def is_name_def trailing_def)
  from with_extension_located [OF this] assms show ?thesis by simp
qed

section \<open>Properties\<close>

text \<open>
  C23: Paths compare, are equal and hash as their lists of components do, although comparison and hash work on bytes:
  the order is the lexicographic one of the components, two paths are equal exactly when it says so, and what is written
  to a hasher depends on the components alone, so equal paths have equal hashes.
\<close>

theorem paths_compare_as_components:
  "path_cmp p q = iter_cmp component_cmp (path_components p) (path_components q)
   \<and> (path_eq p q \<longleftrightarrow> path_cmp p q = Equal) \<and> path_hash p = hash_components (path_components p)"
  by (simp add: path_cmp_components path_hash_components path_eq_iff components_order.equal_iff)

text \<open>
  C24: \<open>with_extension\<close> is \<open>set_extension\<close> on a copy, trailing separators and dots included, with one exception: a path
  that ends in a name with two leading dots and no others, as \<open>lib/..foo\<close>. There the part that is copied ends in the
  parent directory, which has no stem, and the name is lost.
\<close>

theorem with_extension_sets_extension:
  "(with_extension p e = map_option snd (set_extension p e)
    \<or> (\<exists>x ext. p = x @ [DOT, DOT] @ ext \<and> is_name ([DOT, DOT] @ ext) \<and> with_extension p e = Some (x @ [DOT, DOT])
         \<and> set_extension p e = Some (True, x @ [DOT] @ (if e = [] then [] else DOT # e))))
   \<and> with_extension (ascii ''lib/..foo'') (ascii ''txt'') = Some (ascii ''lib/..'')"
proof -
  have "with_extension p e = map_option snd (set_extension p e)
    \<or> (\<exists>x ext. p = x @ [DOT, DOT] @ ext \<and> is_name ([DOT, DOT] @ ext) \<and> with_extension p e = Some (x @ [DOT, DOT])
         \<and> set_extension p e = Some (True, x @ [DOT] @ (if e = [] then [] else DOT # e)))"
  proof (cases "validate_extension e \<and> path_extension p \<noteq> None")
    case False
    then show ?thesis by (auto simp: with_extension_def set_extension_def)
  next
    case True
    then obtain f where f: "path_file_name p = Some f" by (auto simp: path_extension_def split: option.splits)
    then obtain x t where l: "located p x f t"
      using file_name_at_file_name [of p] file_name_at_located by fastforce
    then have "f \<noteq> [DOT, DOT]" by (simp add: located_def is_name_def)
    then obtain b a where ba: "f = b @ DOT # a" "b \<noteq> []" "DOT \<notin> set a"
      using f True by (auto elim!: rsplit_cases simp: path_extension_def)
    note l' = l [unfolded ba(1)]
    show ?thesis
    proof (cases "b = [DOT] \<and> t = []")
      case True': True
      then have "p = x @ [DOT, DOT] @ a" "is_name ([DOT, DOT] @ a)" using l' by (auto simp: located_def)
      then show ?thesis using with_extension_located [OF l' ba(2,3)] located_ext(3) [OF l' ba(2,3)] True True'
        by (intro disjI2 exI conjI) auto
    next
      case False
      then show ?thesis using with_extension_located [OF l' ba(2,3)] True by auto
    qed
  qed
  moreover have "with_extension (ascii ''lib/..foo'') (ascii ''txt'') = Some (ascii ''lib/..'')"
    using with_extension_dotted_name [of "ascii ''lib/''" "ascii ''foo''" "ascii ''txt''"]
    by (simp add: validate_extension_def is_sep_byte_def)
  ultimately show ?thesis by blast
qed

end
