(* ===== verification/Spec2Isabelle.thy ===== *)
theory Spec2Isabelle
  imports Fs_Common Alloc_Aros Io_Stream Process_Spawn Net_Surface Thread_Park Sync_Aros Utf8_Text Stdio_Aros Buf_Reader Program_Aros Path_Edit
begin

text \<open>
  Verification library for the AROS platform layer of the Rust standard library.

  The repository is the Rust library tree with a port to AROS, an Amiga-compatible operating system on
  64-bit ARM. What is the port's own is the layer under \<open>library/std/src/sys\<close> that turns the standard
  library's operations into calls of the C functions of \<open>posixc\<close> and of a small C glue
  (\<open>aros_*\<close>, not part of the repository), with the parts of \<open>core\<close> and \<open>std\<close> it rests on: paths,
  UTF-8, durations, addresses, errors, the command environment and the input and output loops. All file
  names below are under \<open>src/library\<close>. The machine is little-endian, \<open>usize\<close> is 64 bits wide, and a
  panic aborts the process.

  \<^bold>\<open>How the operating system is modelled.\<close> Everything outside the repository is one parameter, an oracle
  that answers each call from the call and the history of calls and answers
  (\<open>Os_Interface\<close>). An operation is a function of the state (the oracle and the history) to an outcome,
  \<open>Ok\<close>, \<open>Err\<close>, \<open>Panic\<close> or \<open>Hang\<close>, and a state; \<open>io_bind\<close> is the question mark operator,
  \<open>io_attempt\<close> a match on a result, \<open>io_finally\<close> a drop at the end of a scope. A property that holds for
  all oracles holds whatever the operating system does; where the layer relies on it, the assumption is
  a named predicate on the oracle (\<open>dir_world\<close>, \<open>file_serves\<close>, \<open>file_accepts\<close>, \<open>pipe_serves\<close>,
  \<open>fd_feeds\<close>, \<open>errnos\<close>, \<open>fstat_sizes\<close>, \<open>gone_after\<close>, \<open>env_truthful\<close>, \<open>copy_world\<close>,
  \<open>c_alloc_ok\<close>, \<open>entry_names_ok\<close>, \<open>reads_to_end\<close> and others), each with a concrete oracle that meets it. The
  AROS shell, which reads the command lines, is a parameter of its own: a function from lines to words and
  the set of characters it takes as they are, under \<open>shell_contract\<close>, what the comments of
  \<open>std/src/sys/process/aros.rs\<close> document of it.

  \<^bold>\<open>The theories\<close>, in the order in which they build on each other.
  \<^item> \<open>Prelude\<close>: types, lists, checked machine arithmetic, the collections \<open>io_simps\<close>, \<open>ext_intros\<close> and
    \<open>calls_intros\<close>. \<open>Os_Interface\<close>: calls, replies, the state, the monad, what a computation calls
    (\<open>io_calls\<close>) and that histories only grow (\<open>io_ext\<close>).
  \<^item> \<open>Io_Error\<close> (\<open>std/src/sys/io/error/aros.rs\<close>, \<open>std/src/io/error.rs\<close>): the two errno cells, the kinds.
  \<^item> \<open>Utf8\<close> (\<open>core/src/char/methods.rs\<close>, \<open>core/src/str/validations.rs\<close>, \<open>core/src/str/lossy.rs\<close>): encoder,
    decoder, validator, lossy decoding. \<open>Utf8_Char\<close>, \<open>Utf8_Valid\<close>, \<open>Utf8_Text\<close>: these
    against \<open>is_utf8\<close>, the encodings of scalar values.
  \<^item> \<open>Memchr\<close> (\<open>core/src/slice/memchr.rs\<close>): byte search two words at a time, on addresses.
  \<^item> \<open>Path_Core\<close>, \<open>Path_Ops\<close> (\<open>std/src/path.rs\<close>, \<open>std/src/sys/path/aros.rs\<close>): the double-ended component
    iterator with its state machine, the operations on paths, and the AROS rule for absolute paths. \<open>Path_Edit\<close>:
    comparison, hashing and the editing of extensions, with the laws of an order in the locale \<open>comparison\<close>.
  \<^item> \<open>Fs_Path\<close> (\<open>cstr\<close> of \<open>std/src/sys/fs/aros.rs\<close>, \<open>std/src/sys/paths/aros.rs\<close>): the translation of a
    Unix-like path to an AROS one, with both as walks through a tree, the Rust path by the rule documented at
    \<open>volume_len\<close>; \<open>getcwd\<close>, \<open>absolute\<close>.
  \<^item> \<open>Number_Text\<close>: decimal and hexadecimal text. \<open>Duration\<close> (\<open>core/src/time.rs\<close>), \<open>Time_Aros\<close>
    (\<open>std/src/sys/time/aros.rs\<close>, \<open>sleep\<close> of \<open>std/src/sys/thread/aros.rs\<close>).
  \<^item> \<open>Fs_Aros\<close> (\<open>std/src/sys/fs/aros.rs\<close>): files, attributes, directories, links. \<open>Fs_Dirs\<close>
    (\<open>std/src/fs.rs\<close>): \<open>create_dir_all\<close>. \<open>Fs_Common\<close> (\<open>std/src/sys/fs/common.rs\<close>): \<open>copy\<close>, \<open>remove_dir_all\<close>.
  \<^item> \<open>Io_Stream\<close> (\<open>std/src/sys/pipe/aros.rs\<close>, \<open>std/src/io/mod.rs\<close>, \<open>std/src/io/copy.rs\<close>): pipes and the loops
    \<open>write_all\<close>, \<open>read_to_end\<close>, \<open>io::copy\<close>. The interfaces are the locales \<open>byte_sink\<close>, \<open>byte_source\<close>,
    \<open>byte_supply\<close> and \<open>copying\<close>, interpreted on files and pipes.
  \<^item> \<open>Buf_Writer\<close> (\<open>std/src/io/buffered/bufwriter.rs\<close>), \<open>Line_Writer\<close> (\<open>linewritershim.rs\<close>, \<open>linewriter.rs\<close> beside
    it), \<open>Stdio_Aros\<close> (\<open>std/src/sys/stdio/aros.rs\<close>, the raw handles and \<open>cleanup\<close> of \<open>std/src/io/stdio.rs\<close>):
    buffered and line-buffered writing, once for all writers in the locale \<open>writer_sink\<close>, interpreted on files and on
    standard output, open, taking everything, and closed.
  \<^item> \<open>Read_All\<close> (\<open>alloc/src/raw_vec\<close>, \<open>std/src/io/mod.rs\<close>, \<open>std/src/fs.rs\<close>): vectors that grow, the adaptive loop
    \<open>default_read_to_end\<close>, \<open>fs::read\<close>. The contract of a reader is the locale \<open>reader_contract\<close>, a computation is
    specified by the triple \<open>gives\<close>. \<open>Buf_Reader\<close> (\<open>std/src/io/buffered/bufreader.rs\<close>, \<open>bufreader/buffer.rs\<close> beside
    it): buffered reading, \<open>read_until\<close>, lines, seeking, standard input; the locale \<open>buffered\<close> with the triple
    \<open>takes\<close>. Both locales are interpreted on files and on standard input.
  \<^item> \<open>Alloc_Aros\<close> (\<open>std/src/sys/alloc/aros.rs\<close>, \<open>std/src/sys/alloc/mod.rs\<close>): the global allocator over the C
    allocator, on an explicit heap of blocks with their alignment and kind.
  \<^item> \<open>Env_Aros\<close> (\<open>std/src/sys/env/aros.rs\<close>), \<open>Command_Env\<close> (\<open>std/src/sys/process/env.rs\<close>).
  \<^item> \<open>Process_Aros\<close>, \<open>Process_Spawn\<close> (\<open>std/src/sys/process/aros.rs\<close>): quoting, generated scripts, spawning,
    waiting, draining, \<open>output\<close>, and the life of a \<open>Process\<close> up to its drop.
  \<^item> \<open>Program_Aros\<close> (\<open>std/src/sys/args/aros.rs\<close>, \<open>std/src/sys/random/aros.rs\<close>, \<open>std/src/os/aros/fs.rs\<close>): arguments,
    random bytes, the setters and accessors of files and processes, \<open>fs::write\<close>.
  \<^item> \<open>Net_Parse\<close> (\<open>core/src/net\<close>): address types, their parser and printer. \<open>Net_Aros\<close>, \<open>Net_Resolve\<close>,
    \<open>Net_Surface\<close> (\<open>std/src/sys/net/connection/aros.rs\<close>, \<open>std/src/net/socket_addr.rs\<close>, \<open>std/src/os/fd\<close>): sockets,
    their options, name resolution, and every operation of the three types of sockets.
  \<^item> \<open>Lazy_Race\<close> (\<open>std/src/sys/thread_local/key/racy.rs\<close>, \<open>std/src/sys/sync/once_box.rs\<close>), \<open>Thread_Park\<close>
    (\<open>std/src/sys/sync/thread_parking/pthread.rs\<close>, \<open>std/src/sys/sync/once/no_threads.rs\<close>): concurrent code as
    a function of one thread's step on the shared state, run by any number of threads in any order; the
    abstract race is the locale \<open>racing\<close>, interpreted on both programs. \<open>Sync_Aros\<close>
    (\<open>std/src/sys/sync/mutex/pthread.rs\<close>, \<open>std/src/sys/sync/condvar/pthread.rs\<close>,
    \<open>std/src/sys/pal/unsupported/sync\<close>, \<open>std/src/sys/thread/aros.rs\<close>): locks, condition variables, keys, threads.

  \<^bold>\<open>What the lemmas show.\<close>
  \<^item> Paths: the iterator gives the components of the specification from both ends, the operations are those
    of component lists, comparison and hash included, and the translation to AROS keeps the meaning of a path, but for those whose first colon follows a separator.
  \<^item> Data: duration constructors and arithmetic are exact on nanoseconds and never break the niche type; addresses
    and times read back from their text or C form, and command lines from any shell that keeps its contract. The UTF-8 validator, lossy decoder and decoder
    do what the encoder defines; the word-wise byte search is the plain one and reads no word outside its slice.
  \<^item> Files: flags and modes on every combination, complete \<open>readlink\<close>, \<open>copy\<close> of the whole contents,
    \<open>create_dir_all\<close> in any truthful tree; \<open>remove_dir_all\<close> touches only what AROS walks to downwards from its
    argument, through links to directories included.
  \<^item> Streams: no loop loses, repeats or reorders a byte, whatever the operating system answers, and every loop
    ends when the other side serves. Buffered writers keep the order of the bytes in
    any sequence of calls, never overrun their buffer, and hold back no complete line. Reading by lines, in any sequence of buffered
    reads, or a whole file gives the bytes of the input in order, and what was not returned is still to come.
  \<^item> Resources: each block, socket, key and lazily made object is released exactly once, or the finding says
    where it is not; a process handle and its script are released once the child is gone, and left if it is
    dropped running; \<open>output\<close> keeps the pipe to its child open to the end, whatever the end.
  \<^item> Threads: racy initialisation agrees, parking loses no wake-up, a timed wait is never early.

  \<^bold>\<open>Fuel.\<close> A loop without a bound of its own takes fuel and gives \<open>Hang\<close> when it runs out. The bounds that are
  constants are exact: \<open>getcwd\<close> (6 sizes from 512 to its limit), \<open>readlink\<close> (9 sizes from 256 to 65536). The others
  (\<open>write_all\<close>, \<open>read_to_end\<close>, \<open>copy\<close>, draining, waiting, \<open>remove_dir_all\<close>) are variables, and the theorems
  on them say either what holds at any fuel or how much is enough for the loop to end: one unit per byte and one
  for the end, and in the readers one for each failure the input may still answer. The parameter \<open>mem\<close> of the growing vectors is the allocator's answer to a size.

  \<^bold>\<open>Not modelled.\<close> The rest of the vendored standard library: it is not this repository's program. Of
  the files above: Debug and Display formatting other than of addresses and errors, the adapters \<open>Chain\<close>, \<open>Take\<close> and
  \<open>Bytes\<close>, vectored reads of a \<open>BufReader\<close>, the locks around the standard handles and the print
  macros, floating-point durations, \<open>std::sync::RwLock\<close> and channels, the single-threaded m68k variant, unwinding. Interrupts of a C call are an answer of the oracle. Weak memory is not modelled:
  interleavings are sequentially consistent.
\<close>

end
